(* ===== verification/FD_Prelude.thy ===== *)
theory FD_Prelude
  imports Main "HOL-Library.Word"
begin

text \<open>
  Shared vocabulary of the development: the ways a C function of the driver can fail to return
  (an explicit \<open>abort()\<close>, an access through a pointer or an index that is not valid), the
  sequencing of such functions, the integer types, the geometry constants of
  \<^verbatim>\<open>src/include/settings.h\<close> for the \<open>SLC\<close> configuration the Makefile selects, and generic facts
  on lists, options and folds that the component theories share.
\<close>

section \<open>Results of C functions\<close>

text \<open>
  \<open>Abort\<close> is a call of \<open>abort()\<close> or \<open>exit()\<close>; \<open>Bad_Access\<close> is a dereference of \<open>NULL\<close> or of
  a freed node, or an array access out of range (undefined behaviour in C); \<open>Hang\<close> is a busy wait
  on a condition that no one changes any more.
\<close>

datatype err = Abort | Bad_Access | Hang

type_synonym 'a res = "err + 'a"

definition bindE :: "'a res \<Rightarrow> ('a \<Rightarrow> 'b res) \<Rightarrow> 'b res" where
  "bindE m f = (case m of Inl e \<Rightarrow> Inl e | Inr x \<Rightarrow> f x)"

text \<open>The value behind a pointer, or the error of an invalid access.\<close>

definition deref :: "'a option \<Rightarrow> 'a res" where
  "deref p = (case p of None \<Rightarrow> Inl Bad_Access | Some x \<Rightarrow> Inr x)"

text \<open>The element of an array at an index, or the error of an access out of range.\<close>

definition index :: "'a list \<Rightarrow> nat \<Rightarrow> 'a res" where
  "index xs i = (if i < length xs then Inr (xs ! i) else Inl Bad_Access)"

text \<open>A loop over a list of indices whose body may fail.\<close>

fun foldE :: "('x \<Rightarrow> 's \<Rightarrow> 's res) \<Rightarrow> 'x list \<Rightarrow> 's \<Rightarrow> 's res" where
  "foldE f [] s = Inr s"
| "foldE f (x # xs) s = bindE (f x s) (foldE f xs)"

named_theorems res_simps \<open>evaluation of results of C functions\<close>

lemma bindE_Inr [simp, res_simps]: "bindE (Inr x) f = f x"
  by (simp add: bindE_def)

lemma bindE_Inl [simp, res_simps]: "bindE (Inl e) f = Inl e"
  by (simp add: bindE_def)

lemma bindE_eq_Inr: "bindE m f = Inr y \<longleftrightarrow> (\<exists>x. m = Inr x \<and> f x = Inr y)"
  by (cases m) simp_all

lemma bindE_assoc: "bindE (bindE m f) g = bindE m (\<lambda>x. bindE (f x) g)"
  by (cases m) simp_all

lemma deref_Some [simp, res_simps]: "deref (Some x) = Inr x"
  by (simp add: deref_def)

lemma deref_None [simp, res_simps]: "deref None = Inl Bad_Access"
  by (simp add: deref_def)

lemma deref_eq_Inr: "deref p = Inr x \<longleftrightarrow> p = Some x"
  by (cases p) simp_all

lemma index_in [simp, res_simps]: "i < length xs \<Longrightarrow> index xs i = Inr (xs ! i)"
  by (simp add: index_def)

lemma index_eq_Inr: "index xs i = Inr x \<longleftrightarrow> i < length xs \<and> xs ! i = x"
  by (simp add: index_def)

lemma foldE_append: "foldE f (xs @ ys) s = bindE (foldE f xs s) (foldE f ys)"
proof (induction xs arbitrary: s)
  case Nil
  show ?case by simp
next
  case (Cons x xs)
  then have "foldE f (xs @ ys) = (\<lambda>t. bindE (foldE f xs t) (foldE f ys))"
    by (simp add: fun_eq_iff)
  then show ?case by (simp add: bindE_assoc)
qed

text \<open>
  The loop rule: an invariant indexed by the elements done so far, kept by every round, and no
  round of which fails, gives a loop that returns with the invariant for all the elements.
\<close>

lemma foldE_invariant:
  assumes start: "P [] s"
    and step: "\<And>done x todo t. xs = done @ x # todo \<Longrightarrow> P done t \<Longrightarrow>
                 \<exists>t'. f x t = Inr t' \<and> P (done @ [x]) t'"
  shows "\<exists>t. foldE f xs s = Inr t \<and> P xs t"
proof -
  have "\<exists>t. foldE f todo s' = Inr t \<and> P xs t" if "xs = done @ todo" "P done s'" for "done" todo s'
    using that
  proof (induction todo arbitrary: "done" s')
    case Nil
    then show ?case by simp
  next
    case (Cons x todo)
    from step [OF Cons.prems] obtain t' where t': "f x s' = Inr t'" "P (done @ [x]) t'"
      by blast
    have "xs = (done @ [x]) @ todo" using Cons.prems(1) by simp
    from Cons.IH [OF this t'(2)] t'(1) show ?case by simp
  qed
  from this [of "[]"] start show ?thesis by simp
qed

text \<open>What every round keeps holds after a loop that returned, and two loops whose rounds agree agree.\<close>

lemma foldE_keeps:
  assumes "foldE f xs s = Inr t" "Q s" "\<And>x s s'. x \<in> set xs \<Longrightarrow> Q s \<Longrightarrow> f x s = Inr s' \<Longrightarrow> Q s'"
  shows "Q t"
  using assms by (induction xs arbitrary: s) (auto simp: bindE_eq_Inr)

lemma foldE_upt_keeps:
  assumes "foldE f [0..<n] s = Inr t" "P 0 s" "\<And>i s s'. i < n \<Longrightarrow> P i s \<Longrightarrow> f i s = Inr s' \<Longrightarrow> P (Suc i) s'"
  shows "P n t"
proof -
  have "m \<le> n \<Longrightarrow> foldE f [0..<m] s = Inr u \<Longrightarrow> P m u" for m u
    by (induction m arbitrary: u) (auto simp: foldE_append bindE_eq_Inr assms(2,3))
  then show ?thesis using assms(1) by blast
qed

lemma foldE_same:
  assumes "Q s" "\<And>x s. x \<in> set xs \<Longrightarrow> Q s \<Longrightarrow> f x s = g x s" "\<And>x s s'. x \<in> set xs \<Longrightarrow> Q s \<Longrightarrow> f x s = Inr s' \<Longrightarrow> Q s'"
  shows "foldE f xs s = foldE g xs s"
  using assms
proof (induction xs arbitrary: s)
  case (Cons x xs)
  have e: "f x s = g x s" using Cons.prems(1,2) by simp
  show ?case
  proof (cases "f x s")
    case (Inr s')
    then have "Q s'" using Cons.prems(1,3) by auto
    then have "foldE f xs s' = foldE g xs s'"
    proof (rule Cons.IH)
      show "f y t = g y t" if "y \<in> set xs" "Q t" for y t using Cons.prems(2) that by simp
      show "Q t'" if "y \<in> set xs" "Q t" "f y t = Inr t'" for y t t' using Cons.prems(3) [of y t t'] that by simp
    qed
    then show ?thesis using Inr e by simp
  qed (use e in simp)
qed simp

text \<open>The rule for a counting loop \<open>for(i=0; i<n; i++)\<close>.\<close>

lemma foldE_upt:
  assumes "P 0 s" and "\<And>i t. i < n \<Longrightarrow> P i t \<Longrightarrow> \<exists>t'. f i t = Inr t' \<and> P (Suc i) t'"
  shows "\<exists>t. foldE f [0..<n] s = Inr t \<and> P n t"
  using assms
proof (induction n)
  case 0
  then show ?case by simp
next
  case (Suc n)
  then obtain t where t: "foldE f [0..<n] s = Inr t" "P n t" by (meson less_SucI)
  then obtain t' where "f n t = Inr t'" "P (Suc n) t'" using Suc.prems(2) by blast
  then show ?case using t by (simp add: foldE_append)
qed

section \<open>Integers\<close>

type_synonym u8 = "8 word"
type_synonym u32 = "32 word"
type_synonym u64 = "64 word"

text \<open>Increments of the \<open>uint8_t\<close> and \<open>uint16_t\<close> fields of the block manager wrap around.\<close>

definition inc8 :: "nat \<Rightarrow> nat" where
  "inc8 n = (n + 1) mod 2 ^ 8"

definition inc16 :: "nat \<Rightarrow> nat" where
  "inc16 n = (n + 1) mod 2 ^ 16"

text \<open>The four bytes of a \<open>uint32_t\<close> in memory, and back.\<close>

definition bytes32 :: "nat \<Rightarrow> u8 list" where
  "bytes32 n = [word_of_nat n, word_of_nat (n div 256), word_of_nat (n div 65536), word_of_nat (n div 16777216)]"

definition of_bytes32 :: "u8 list \<Rightarrow> nat" where
  "of_bytes32 bs = unat (bs ! 0) + 256 * unat (bs ! 1) + 65536 * unat (bs ! 2) + 16777216 * unat (bs ! 3)"

lemma bytes32_length [simp]: "length (bytes32 n) = 4"
  by (simp add: bytes32_def)

lemma of_bytes32_inverse: "n < 2 ^ 32 \<Longrightarrow> of_bytes32 (bytes32 n) = n"
proof -
  assume n: "n < 2 ^ 32"
  define a b c where "a = n div 256" and "b = a div 256" and "c = b div 256"
  have d: "n div 65536 = b" "n div 16777216 = c" using div_mult2_eq [of n 256 256] div_mult2_eq [of n 256 65536] div_mult2_eq [of a 256 256]
    by (simp_all add: a_def b_def c_def)
  have "of_bytes32 (bytes32 n) = n mod 256 + 256 * (a mod 256) + 65536 * (b mod 256) + 16777216 * (c mod 256)"
    by (simp add: of_bytes32_def bytes32_def unat_of_nat d a_def [symmetric])
  moreover have "c mod 256 = c" using n d(2) by (intro mod_less) (simp add: less_mult_imp_div_less flip: d(2))
  moreover have "n = n mod 256 + 256 * a" "a = a mod 256 + 256 * b" "b = b mod 256 + 256 * c" by (simp_all add: a_def b_def c_def)
  ultimately show ?thesis by linarith
qed

lemma inc16_small [simp]: "n < 65535 \<Longrightarrow> inc16 n = n + 1"
  by (simp add: inc16_def)

lemma inc8_small [simp]: "n < 255 \<Longrightarrow> inc8 n = n + 1"
  by (simp add: inc8_def)

section \<open>Geometry of the device\<close>

text \<open>
  The constants of \<^verbatim>\<open>settings.h\<close>. The number of segments \<open>_NOS\<close> depends on the device size
  \<open>GIGAUNIT\<close>, which the README tells the user to set, so it is an argument of the model wherever
  the code uses it; the shifts by 6 and 14 and the mask \<open>0xff\<close> in the address arithmetic fix the
  others.
\<close>

definition PUNIT :: nat where "PUNIT = 64"
definition BPS :: nat where "BPS = 64"
definition PPB :: nat where "PPB = 256"
definition PPS :: nat where "PPS = PPB * BPS"
definition PAGESIZE :: nat where "PAGESIZE = 8192"
definition UINT_MAX :: nat where "UINT_MAX = 2 ^ 32 - 1"

text \<open>\<open>TOTALSIZE\<close>, \<open>_NOP\<close> and \<open>_NOS\<close> for a device of \<open>giga\<close> gigabytes.\<close>

definition TOTALSIZE :: "nat \<Rightarrow> nat" where
  "TOTALSIZE giga = giga * 2 ^ 30"

definition NOP :: "nat \<Rightarrow> nat" where
  "NOP giga = TOTALSIZE giga div PAGESIZE"

definition NOS :: "nat \<Rightarrow> nat" where
  "NOS giga = TOTALSIZE giga div (PPS * PAGESIZE)"

text \<open>\<open>_RNOS\<close>, the number of physical segments: \<open>REALSIZE\<close> is 512 gigabytes.\<close>

definition RNOS :: nat where "RNOS = 512 * 2 ^ 30 div (PPS * PAGESIZE)"

lemmas geometry = PUNIT_def BPS_def PPB_def PPS_def PAGESIZE_def

lemma PPS_value [simp]: "PPS = 16384"
  by (simp add: geometry)

lemma NOP_NOS: "NOP giga = NOS giga * PPS"
proof -
  have a: "giga * 2 ^ 30 = (giga * 2 ^ 17) * 8192" by simp
  have b: "giga * 2 ^ 30 = (giga * 2 ^ 3) * (16384 * 8192)" by simp
  have "giga * 2 ^ 30 div 8192 = giga * 2 ^ 17"
    unfolding a by (rule nonzero_mult_div_cancel_right) simp
  moreover have "giga * 2 ^ 30 div (16384 * 8192) = giga * 2 ^ 3"
    unfolding b by (rule nonzero_mult_div_cancel_right) simp
  ultimately show ?thesis
    by (simp add: NOP_def NOS_def TOTALSIZE_def PAGESIZE_def)
qed

end
