(* ===== verification/Heap_Lists.thy ===== *)
theory Heap_Lists
  imports FD_Prelude
begin

text \<open>
  Linked lists in a store: the predicates that say which addresses a chain of \<open>next\<close> pointers (and,
  for doubly linked lists, of \<open>prev\<close> pointers) runs through. The three list-shaped structures of
  the driver (\<^verbatim>\<open>interface/queue.c\<close>, \<^verbatim>\<open>include/data_struct/list.c\<close>,
  \<^verbatim>\<open>include/data_struct/lru_list.c\<close>) keep their own node records and share these facts. A link is
  read by a function from addresses, so the facts do not depend on a node type.
\<close>

type_synonym addr = nat
type_synonym link = "addr \<Rightarrow> addr option"

section \<open>Singly linked chains\<close>

text \<open>\<open>chain nx p as\<close>: from \<open>p\<close>, the links \<open>nx\<close> visit exactly \<open>as\<close> and end in \<open>NULL\<close>.\<close>

fun chain :: "link \<Rightarrow> addr option \<Rightarrow> addr list \<Rightarrow> bool" where
  "chain nx p [] \<longleftrightarrow> p = None"
| "chain nx p (a # as) \<longleftrightarrow> p = Some a \<and> chain nx (nx a) as"

lemma chain_cong: "(\<And>a. a \<in> set as \<Longrightarrow> nx a = nx' a) \<Longrightarrow> chain nx p as = chain nx' p as"
  by (induction as arbitrary: p) simp_all

lemma chain_None [simp]: "chain nx None as \<longleftrightarrow> as = []"
  by (cases as) simp_all

lemma chain_Some: "chain nx (Some a) as \<longleftrightarrow> (\<exists>bs. as = a # bs \<and> chain nx (nx a) bs)"
  by (cases as) auto

lemma chain_unique: "chain nx p as \<Longrightarrow> chain nx p bs \<Longrightarrow> as = bs"
  by (induction as arbitrary: p bs) (auto simp: chain_Some)

text \<open>The addresses a chain visits, read off by following at most \<open>n\<close> links.\<close>

fun walk :: "link \<Rightarrow> addr option \<Rightarrow> nat \<Rightarrow> addr list" where
  "walk nx p 0 = []"
| "walk nx None (Suc n) = []"
| "walk nx (Some a) (Suc n) = a # walk nx (nx a) n"

lemma walk_chain: "chain nx p as \<Longrightarrow> walk nx p (length as) = as"
  by (induction as arbitrary: p) auto

text \<open>Linking a new last node behind the old one.\<close>

lemma chain_snoc:
  assumes "chain nx p as" and "as \<noteq> []" and "distinct as" and "b \<notin> set as"
    and "\<And>a. a \<in> set as \<Longrightarrow> a \<noteq> last as \<Longrightarrow> nx' a = nx a"
    and "nx' (last as) = Some b" and "nx' b = None"
  shows "chain nx' p (as @ [b])"
  using assms
proof (induction as arbitrary: p)
  case Nil
  then show ?case by simp
next
  case (Cons a as)
  show ?case
  proof (cases "as = []")
    case True
    with Cons.prems show ?thesis by simp
  next
    case False
    then have l: "last (a # as) = last as" by simp
    have "a \<noteq> last as" using Cons.prems(3) False by auto
    then have "nx' a = nx a" using Cons.prems(5) l by simp
    moreover have "chain nx' (nx a) (as @ [b])"
      using Cons.prems False l by (intro Cons.IH) auto
    ultimately show ?thesis using Cons.prems(1) by simp
  qed
qed

section \<open>Doubly linked chains\<close>

text \<open>
  \<open>dseg nx pv q p as r\<close>: from \<open>p\<close> the links \<open>nx\<close> visit \<open>as\<close> and end in \<open>r\<close>, and the links
  \<open>pv\<close> lead back, from the first node to \<open>q\<close>.
\<close>

fun dseg :: "link \<Rightarrow> link \<Rightarrow> addr option \<Rightarrow> addr option \<Rightarrow> addr list \<Rightarrow> addr option \<Rightarrow> bool" where
  "dseg nx pv q p [] r \<longleftrightarrow> p = r"
| "dseg nx pv q p (a # as) r \<longleftrightarrow> p = Some a \<and> pv a = q \<and> dseg nx pv (Some a) (nx a) as r"

lemma dseg_cong:
  "(\<And>a. a \<in> set as \<Longrightarrow> nx a = nx' a \<and> pv a = pv' a) \<Longrightarrow>
   dseg nx pv q p as r = dseg nx' pv' q p as r"
  by (induction as arbitrary: p q) simp_all

lemma dseg_walk: "dseg nx pv q p as None \<Longrightarrow> walk nx p (length as) = as"
  by (induction as arbitrary: p q) auto

text \<open>The address of the last node of a segment, or what precedes the segment when it is empty.\<close>

definition last_of :: "addr option \<Rightarrow> addr list \<Rightarrow> addr option" where
  "last_of q as = (if as = [] then q else Some (last as))"

definition first_of :: "addr list \<Rightarrow> addr option \<Rightarrow> addr option" where
  "first_of as r = (if as = [] then r else Some (hd as))"

lemma last_of_simps [simp]:
  "last_of q [] = q" "last_of q (a # as) = last_of (Some a) as" "last_of q (as @ [a]) = Some a"
  by (simp_all add: last_of_def)

lemma first_of_simps [simp]: "first_of [] r = r" "first_of (a # as) r = Some a"
  by (simp_all add: first_of_def)

lemma dseg_append:
  "dseg nx pv q p (as @ bs) r \<longleftrightarrow>
     (\<exists>m. dseg nx pv q p as m \<and> dseg nx pv (last_of q as) m bs r)"
  by (induction as arbitrary: p q) auto

lemma dseg_first: "dseg nx pv q p as r \<Longrightarrow> p = first_of as r"
  by (cases as) auto

lemma dseg_append_iff:
  "dseg nx pv q p (as @ bs) r \<longleftrightarrow>
     dseg nx pv q p as (first_of bs r) \<and> dseg nx pv (last_of q as) (first_of bs r) bs r"
  by (auto simp: dseg_append dest: dseg_first)

text \<open>
  The two ends of a segment are the only places where its links mention what surrounds it: the
  back link of its first node and the forward link of its last.
\<close>

lemma dseg_new_first:
  assumes "dseg nx pv q p as r" and "distinct as"
    and "\<And>x. x \<in> set as \<Longrightarrow> nx' x = nx x"
    and "\<And>x. x \<in> set as \<Longrightarrow> pv' x = (if x = hd as then q' else pv x)"
  shows "dseg nx' pv' q' p as r"
proof (cases as)
  case Nil
  with assms show ?thesis by simp
next
  case (Cons a bs)
  have "dseg nx' pv' (Some a) (nx a) bs r = dseg nx pv (Some a) (nx a) bs r"
    by (rule dseg_cong) (use assms Cons in auto)
  with assms Cons show ?thesis by simp
qed

lemma dseg_new_last:
  assumes "dseg nx pv q p as r" and "distinct as" and "as \<noteq> []"
    and "\<And>x. x \<in> set as \<Longrightarrow> pv' x = pv x"
    and "\<And>x. x \<in> set as \<Longrightarrow> nx' x = (if x = last as then r' else nx x)"
  shows "dseg nx' pv' q p as r'"
proof -
  from assms(3) obtain bs a where as: "as = bs @ [a]" by (metis rev_exhaust)
  have "dseg nx' pv' q p bs (Some a) = dseg nx pv q p bs (Some a)"
    by (rule dseg_cong) (use assms as in auto)
  with assms as show ?thesis by (simp add: dseg_append_iff)
qed

text \<open>Pushing a node in front, appending one behind, and unlinking one from anywhere.\<close>

lemma dseg_push_front:
  assumes "dseg nx pv None h as None" and "distinct as"
    and "nx' a = h" and "pv' a = None"
    and "\<And>x. x \<in> set as \<Longrightarrow> nx' x = nx x"
    and "\<And>x. x \<in> set as \<Longrightarrow> pv' x = (if x = hd as then Some a else pv x)"
  shows "dseg nx' pv' None (Some a) (a # as) None"
  using dseg_new_first [OF assms(1,2,5,6)] assms(3,4) by simp

lemma dseg_push_back:
  assumes "dseg nx pv None h as None" and "distinct as" and "as \<noteq> []"
    and "nx' a = None" and "pv' a = Some (last as)"
    and "\<And>x. x \<in> set as \<Longrightarrow> pv' x = pv x"
    and "\<And>x. x \<in> set as \<Longrightarrow> nx' x = (if x = last as then Some a else nx x)"
  shows "dseg nx' pv' None h (as @ [a]) None"
  using dseg_new_last [OF assms(1,2,3,6,7)] assms(3-5) by (simp add: dseg_append_iff last_of_def)

lemma dseg_unlink:
  assumes seg: "dseg nx pv None h (as @ a # bs) None" and dist: "distinct (as @ a # bs)"
    and nx': "\<And>x. x \<in> set as \<union> set bs \<Longrightarrow>
                nx' x = (if as \<noteq> [] \<and> x = last as then first_of bs None else nx x)"
    and pv': "\<And>x. x \<in> set as \<union> set bs \<Longrightarrow>
                pv' x = (if bs \<noteq> [] \<and> x = hd bs then last_of None as else pv x)"
  shows "dseg nx' pv' None (if as = [] then first_of bs None else h) (as @ bs) None"
proof -
  have s1: "dseg nx pv None h as (Some a)" and "dseg nx pv (Some a) (nx a) bs None"
    using seg by (auto simp: dseg_append_iff)
  then have s2: "dseg nx pv (Some a) (first_of bs None) bs None"
    by (metis dseg_first)
  have disj: "x \<in> set as \<Longrightarrow> x \<notin> set bs" for x using dist by auto
  have t2: "dseg nx' pv' (last_of None as) (first_of bs None) bs None"
  proof (rule dseg_new_first [OF s2])
    fix x assume x: "x \<in> set bs"
    show "nx' x = nx x" using nx' [of x] x disj last_in_set [of as] by auto
    show "pv' x = (if x = hd bs then last_of None as else pv x)" using pv' [of x] x by auto
  qed (use dist in simp)
  show ?thesis
  proof (cases "as = []")
    case True
    with t2 show ?thesis by simp
  next
    case False
    have "dseg nx' pv' None h as (first_of bs None)"
    proof (rule dseg_new_last [OF s1])
      fix x assume x: "x \<in> set as"
      show "nx' x = (if x = last as then first_of bs None else nx x)" using nx' [of x] x False by auto
      have "bs \<noteq> [] \<Longrightarrow> x \<noteq> hd bs" using disj [OF x] by auto
      then show "pv' x = pv x" using pv' [of x] x by auto
    qed (use dist False in simp_all)
    with t2 False show ?thesis by (simp add: dseg_append_iff)
  qed
qed

text \<open>What the links of one node of a segment are.\<close>

lemma dseg_links:
  assumes "dseg nx pv q p (as @ a # bs) r"
  shows "nx a = first_of bs r" and "pv a = last_of q as"
  using assms by (auto simp: dseg_append_iff dest: dseg_first)

section \<open>Reading and writing through pointers\<close>

text \<open>\<open>p->field\<close> and \<open>p->field = v\<close> for a node type given by its update function.\<close>

definition load :: "(addr \<rightharpoonup> 'n) \<Rightarrow> addr option \<Rightarrow> 'n res" where
  "load m p = bindE (deref p) (\<lambda>a. deref (m a))"

definition store :: "(addr \<rightharpoonup> 'n) \<Rightarrow> addr option \<Rightarrow> ('n \<Rightarrow> 'n) \<Rightarrow> (addr \<rightharpoonup> 'n) res" where
  "store m p f = bindE (load m p) (\<lambda>n. bindE (deref p) (\<lambda>a. Inr (m(a \<mapsto> f n))))"

lemma load_Some [simp]: "m a = Some n \<Longrightarrow> load m (Some a) = Inr n"
  by (simp add: load_def)

lemma store_Some [simp]: "m a = Some n \<Longrightarrow> store m (Some a) f = Inr (m(a \<mapsto> f n))"
  by (simp add: store_def)

lemma load_None [simp]: "load m None = Inl Bad_Access"
  by (simp add: load_def)

lemma load_freed [simp]: "m a = None \<Longrightarrow> load m (Some a) = Inl Bad_Access"
  by (simp add: load_def)

end
