(* ===== verification/Linked_List.thy ===== *)
theory Linked_List
  imports Heap_Lists
begin

text \<open>
  The doubly linked list of \<^verbatim>\<open>src/include/data_struct/list.c\<close>, in which the page FTL collects the
  reads of a garbage collection until they have completed. A deletion of the only node leaves
  \<open>tail\<close> pointing at the freed node; \<open>list_insert\<close> tests \<open>head\<close> alone, so the next insertion
  repairs it.
\<close>

section \<open>The structure and its operations\<close>

record 'a li_node =
  ln_data :: 'a
  ln_prv :: "addr option"
  ln_nxt :: "addr option"

record 'a dlist =
  l_size :: nat
  l_head :: "addr option"
  l_tail :: "addr option"
  l_mem :: "addr \<rightharpoonup> 'a li_node"
  l_fresh :: addr

definition list_init :: "'a dlist" where
  "list_init = \<lparr>l_size = 0, l_head = None, l_tail = None, l_mem = Map.empty, l_fresh = 0\<rparr>"

definition list_insert :: "'a dlist \<Rightarrow> 'a \<Rightarrow> 'a dlist res" where
  "list_insert li data =
     (let t = l_fresh li;
          m = (l_mem li)(t \<mapsto> \<lparr>ln_data = data, ln_prv = None, ln_nxt = None\<rparr>);
          li1 = li\<lparr>l_mem := m, l_fresh := t + 1, l_size := l_size li + 1\<rparr>
      in if l_head li = None
         then Inr (li1\<lparr>l_head := Some t, l_tail := Some t\<rparr>)
         else bindE (store m (Some t) (\<lambda>n. n\<lparr>ln_prv := l_tail li\<rparr>)) (\<lambda>m1.
              bindE (store m1 (l_tail li) (\<lambda>n. n\<lparr>ln_nxt := Some t\<rparr>)) (\<lambda>m2.
              Inr (li1\<lparr>l_mem := m2, l_tail := Some t\<rparr>))))"

definition list_delete_node :: "'a dlist \<Rightarrow> addr \<Rightarrow> 'a dlist res" where
  "list_delete_node li t =
     bindE
       (if Some t = l_head li
        then bindE (load (l_mem li) (l_head li)) (\<lambda>n.
             if ln_nxt n \<noteq> None
             then bindE (store (l_mem li) (ln_nxt n) (\<lambda>x. x\<lparr>ln_prv := None\<rparr>)) (\<lambda>m.
                  Inr (li\<lparr>l_head := ln_nxt n, l_mem := m\<rparr>))
             else Inr (li\<lparr>l_head := None\<rparr>))
        else if Some t = l_tail li
        then bindE (load (l_mem li) (l_tail li)) (\<lambda>n.
             if ln_prv n \<noteq> None
             then bindE (store (l_mem li) (ln_prv n) (\<lambda>x. x\<lparr>ln_nxt := None\<rparr>)) (\<lambda>m.
                  Inr (li\<lparr>l_tail := ln_prv n, l_mem := m\<rparr>))
             else Inr (li\<lparr>l_tail := None\<rparr>))
        else bindE (load (l_mem li) (Some t)) (\<lambda>n.
             bindE (store (l_mem li) (ln_prv n) (\<lambda>x. x\<lparr>ln_nxt := ln_nxt n\<rparr>)) (\<lambda>m1.
             bindE (store m1 (ln_nxt n) (\<lambda>x. x\<lparr>ln_prv := ln_prv n\<rparr>)) (\<lambda>m2.
             Inr (li\<lparr>l_mem := m2\<rparr>)))))
       (\<lambda>li1. Inr (li1\<lparr>l_size := l_size li - 1, l_mem := (l_mem li1)(t := None)\<rparr>))"

text \<open>
  \<open>for_each_list_node_safe\<close> reads the successor of a node before its body runs, so that the body may
  delete the node. The body \<open>f\<close> gets the node and the state; \<open>n\<close> bounds the rounds, and a loop
  that is not over after \<open>n\<close> of them is \<open>None\<close>.
\<close>

fun for_each_safe ::
  "('s \<Rightarrow> 'a dlist) \<Rightarrow> (addr \<Rightarrow> 's \<Rightarrow> 's res) \<Rightarrow> nat \<Rightarrow> addr option \<Rightarrow> addr option \<Rightarrow> 's \<Rightarrow> 's res option"
where
  "for_each_safe li f 0 ln lp s = (if ln = None then Some (Inr s) else None)"
| "for_each_safe li f (Suc n) None lp s = Some (Inr s)"
| "for_each_safe li f (Suc n) (Some ln) lp s =
     (case f ln s of
        Inl e \<Rightarrow> Some (Inl e)
      | Inr s' \<Rightarrow>
          (case (if lp = None then Inr None
                 else bindE (load (l_mem (li s')) lp) (\<lambda>x. Inr (ln_nxt x))) of
             Inl e \<Rightarrow> Some (Inl e)
           | Inr lp' \<Rightarrow> for_each_safe li f n lp lp' s'))"

text \<open>\<open>list_free\<close>; the size of the list bounds the rounds of its loop.\<close>

definition list_free :: "'a dlist \<Rightarrow> 'a dlist res option" where
  "list_free li =
     (if l_size li = 0 then Some (Inr li)
      else case bindE (load (l_mem li) (l_head li)) (\<lambda>n. Inr (ln_nxt n)) of
             Inl e \<Rightarrow> Some (Inl e)
           | Inr lp \<Rightarrow> for_each_safe id (\<lambda>ln l. list_delete_node l ln) (l_size li) (l_head li) lp li)"

section \<open>Abstraction and invariant\<close>

definition l_nx :: "'a dlist \<Rightarrow> link" where
  "l_nx li a = (case l_mem li a of None \<Rightarrow> None | Some n \<Rightarrow> ln_nxt n)"

definition l_pv :: "'a dlist \<Rightarrow> link" where
  "l_pv li a = (case l_mem li a of None \<Rightarrow> None | Some n \<Rightarrow> ln_prv n)"

definition l_addrs :: "'a dlist \<Rightarrow> addr list" where
  "l_addrs li = walk (l_nx li) (l_head li) (l_size li)"

definition l_val :: "'a dlist \<Rightarrow> addr \<Rightarrow> 'a" where
  "l_val li a = ln_data (the (l_mem li a))"

definition l_items :: "'a dlist \<Rightarrow> (addr \<times> 'a) list" where
  "l_items li = map (\<lambda>a. (a, l_val li a)) (l_addrs li)"

text \<open>Well-formedness; \<open>tail\<close> is meaningful only while the list is not empty.\<close>

definition l_at :: "'a dlist \<Rightarrow> addr list \<Rightarrow> bool" where
  "l_at li as \<longleftrightarrow>
     dseg (l_nx li) (l_pv li) None (l_head li) as None \<and> distinct as \<and>
     dom (l_mem li) = set as \<and> (\<forall>a\<in>set as. a < l_fresh li) \<and>
     (as \<noteq> [] \<longrightarrow> l_tail li = Some (last as)) \<and> l_size li = length as"

definition l_ok :: "'a dlist \<Rightarrow> bool" where
  "l_ok li \<longleftrightarrow> l_at li (l_addrs li)"

lemma l_at_addrs: "l_at li as \<Longrightarrow> l_addrs li = as"
  by (auto simp: l_addrs_def l_at_def dest: dseg_walk)

lemma l_okI: "l_at li as \<Longrightarrow> l_ok li"
  by (simp add: l_ok_def l_at_addrs)

lemma l_at_items: "l_at li as \<Longrightarrow> l_items li = map (\<lambda>a. (a, l_val li a)) as"
  by (simp add: l_items_def l_at_addrs)

lemma l_at_mem: "l_at li as \<Longrightarrow> a \<in> set as \<Longrightarrow> \<exists>n. l_mem li a = Some n"
  by (auto simp: l_at_def)

lemma l_at_head: "l_at li as \<Longrightarrow> l_head li = first_of as None"
  by (auto simp: l_at_def dest: dseg_first)

lemma l_at_links:
  assumes "l_at li (as @ a # bs)" and "l_mem li a = Some n"
  shows "ln_nxt n = first_of bs None" "ln_prv n = last_of None as"
proof -
  have "dseg (l_nx li) (l_pv li) None (l_head li) (as @ a # bs) None"
    using assms(1) by (simp add: l_at_def)
  from dseg_links [OF this] assms(2) show "ln_nxt n = first_of bs None" "ln_prv n = last_of None as"
    by (simp_all add: l_nx_def l_pv_def)
qed

lemma list_init_ok: "l_ok (list_init :: 'a dlist)" "l_items (list_init :: 'a dlist) = []"
proof -
  have "l_at (list_init :: 'a dlist) []" by (simp add: l_at_def list_init_def)
  then show "l_ok (list_init :: 'a dlist)" by (rule l_okI)
qed (simp add: list_init_def l_items_def l_addrs_def)

section \<open>Every operation refines its list counterpart\<close>

lemma list_insert_items:
  assumes "l_ok li"
  shows "\<exists>li'. list_insert li x = Inr li' \<and> l_ok li' \<and> l_items li' = l_items li @ [(l_fresh li, x)]"
proof -
  obtain as where at: "l_at li as" using assms l_ok_def by blast
  let ?b = "l_fresh li"
  have fresh: "?b \<notin> set as" and dist: "distinct as"
    and seg: "dseg (l_nx li) (l_pv li) None (l_head li) as None"
    using at by (auto simp: l_at_def)
  show ?thesis
  proof (cases "as = []")
    case True
    define li' where "li' = li\<lparr>l_mem := (l_mem li)(?b \<mapsto> \<lparr>ln_data = x, ln_prv = None, ln_nxt = None\<rparr>),
      l_fresh := ?b + 1, l_size := l_size li + 1, l_head := Some ?b, l_tail := Some ?b\<rparr>"
    have "list_insert li x = Inr li'"
      using True l_at_head [OF at] by (simp add: list_insert_def li'_def Let_def)
    moreover have at': "l_at li' [?b]"
      using at True by (auto simp: l_at_def li'_def l_nx_def l_pv_def)
    moreover have "l_items li' = l_items li @ [(?b, x)]"
      unfolding l_at_items [OF at'] l_at_items [OF at] using True by (simp add: l_val_def li'_def)
    ultimately show ?thesis using l_okI [OF at'] by blast
  next
    case False
    then obtain nl where nl: "l_mem li (last as) = Some nl" using l_at_mem [OF at] by fastforce
    have lb: "last as \<noteq> ?b" using False fresh last_in_set by metis
    define m where "m = (l_mem li)(?b \<mapsto> \<lparr>ln_data = x, ln_prv = Some (last as), ln_nxt = None\<rparr>,
      last as \<mapsto> nl\<lparr>ln_nxt := Some ?b\<rparr>)"
    define li' where "li' = li\<lparr>l_mem := m, l_fresh := ?b + 1, l_size := l_size li + 1, l_tail := Some ?b\<rparr>"
    have tl: "l_tail li = Some (last as)" "l_head li = Some (hd as)"
      using at False l_at_head [OF at] by (auto simp: l_at_def first_of_def)
    have "list_insert li x = Inr li'"
      using tl nl lb by (simp add: list_insert_def li'_def m_def Let_def)
    moreover have at': "l_at li' (as @ [?b])"
    proof -
      have "dseg (l_nx li') (l_pv li') None (l_head li) (as @ [?b]) None"
      proof (rule dseg_push_back [OF seg dist False])
        fix y assume "y \<in> set as"
        then have "y \<noteq> ?b" using fresh by auto
        then show "l_pv li' y = l_pv li y"
          and "l_nx li' y = (if y = last as then Some ?b else l_nx li y)"
          using nl by (auto simp: l_nx_def l_pv_def li'_def m_def)
      qed (use lb in \<open>simp_all add: l_nx_def l_pv_def li'_def m_def\<close>)
      moreover have "dom m = set (as @ [?b])"
        using at False by (auto simp: m_def l_at_def)
      ultimately show ?thesis using at fresh by (auto simp: l_at_def li'_def less_SucI)
    qed
    moreover have "l_items li' = l_items li @ [(?b, x)]"
      unfolding l_at_items [OF at'] l_at_items [OF at]
      using fresh nl lb by (auto simp: l_val_def li'_def m_def)
    ultimately show ?thesis using l_okI [OF at'] by blast
  qed
qed

text \<open>The memory after a node between \<open>as\<close> and \<open>bs\<close> has been bypassed.\<close>

definition l_relink :: "(addr \<rightharpoonup> 'a li_node) \<Rightarrow> addr list \<Rightarrow> addr list \<Rightarrow> (addr \<rightharpoonup> 'a li_node)" where
  "l_relink m as bs a =
     (case m a of None \<Rightarrow> None
      | Some n \<Rightarrow>
          let n1 = (if as \<noteq> [] \<and> a = last as then n\<lparr>ln_nxt := first_of bs None\<rparr> else n)
          in Some (if bs \<noteq> [] \<and> a = hd bs then n1\<lparr>ln_prv := last_of None as\<rparr> else n1))"

lemma dom_l_relink [simp]: "dom (l_relink m as bs) = dom m"
  by (auto simp: l_relink_def Let_def split: option.splits)

lemma l_relink_data: "m a = Some n \<Longrightarrow> ln_data (the (l_relink m as bs a)) = ln_data n"
  by (simp add: l_relink_def Let_def)

lemma l_relink_nil [simp]: "l_relink m [] [] = m"
  by (auto simp: l_relink_def fun_eq_iff split: option.splits)

lemma l_at_ends:
  assumes "l_at li (as @ a # bs)"
  shows "Some a = l_tail li \<longleftrightarrow> bs = []" and "Some a = l_head li \<longleftrightarrow> as = []"
proof -
  have t: "l_tail li = Some (last (a # bs))" and d: "distinct (as @ a # bs)"
    using assms by (simp_all add: l_at_def)
  show "Some a = l_tail li \<longleftrightarrow> bs = []"
    using t d last_in_set [of bs] by auto
  show "Some a = l_head li \<longleftrightarrow> as = []"
    using l_at_head [OF assms] d list.set_sel(1) [of as] by (auto simp: first_of_def)
qed

lemma list_delete_relink:
  assumes at: "l_at li (as @ a # bs)"
  shows "\<exists>tl. list_delete_node li a =
      Inr (li\<lparr>l_mem := (l_relink (l_mem li) as bs)(a := None), l_tail := tl, l_size := l_size li - 1,
              l_head := (if as = [] then first_of bs None else l_head li)\<rparr>) \<and>
      (as @ bs \<noteq> [] \<longrightarrow> tl = Some (last (as @ bs)))"
proof -
  let ?m = "l_mem li"
  obtain n where n: "?m a = Some n" using l_at_mem [OF at] by auto
  note lk = l_at_links [OF at n] and ends = l_at_ends [OF at]
  have d: "distinct (as @ a # bs)" and tl: "l_tail li = Some (last (a # bs))"
    using at by (simp_all add: l_at_def)
  show ?thesis
  proof (cases "as = []")
    case as: True
    then have hd: "l_head li = Some a" using l_at_head [OF at] by simp
    show ?thesis
    proof (cases "bs = []")
      case True
      with as n lk hd show ?thesis
        by (intro exI [of _ "l_tail li"]) (simp add: list_delete_node_def)
    next
      case False
      then obtain nh where nh: "?m (hd bs) = Some nh" using l_at_mem [OF at] by fastforce
      have "?m(hd bs \<mapsto> nh\<lparr>ln_prv := None\<rparr>) = l_relink ?m [] bs"
        using nh False by (auto simp: l_relink_def fun_eq_iff split: option.splits)
      with as False n nh lk hd tl show ?thesis
        by (intro exI [of _ "l_tail li"]) (simp add: list_delete_node_def first_of_def)
    qed
  next
    case as: False
    then obtain nl where nl: "?m (last as) = Some nl" using l_at_mem [OF at] by fastforce
    have la: "last as \<noteq> a" using d as last_in_set [OF as] by auto
    show ?thesis
    proof (cases "bs = []")
      case True
      have "?m(last as \<mapsto> nl\<lparr>ln_nxt := None\<rparr>) = l_relink ?m as []"
        using nl as by (auto simp: l_relink_def fun_eq_iff split: option.splits)
      moreover have "Some a \<noteq> l_head li" "l_tail li = Some a" using ends as True tl by simp_all
      ultimately show ?thesis using as True n nl lk
        by (intro exI [of _ "Some (last as)"]) (simp add: list_delete_node_def last_of_def)
    next
      case False
      then obtain nh where nh: "?m (hd bs) = Some nh" using l_at_mem [OF at] by fastforce
      have hl: "hd bs \<noteq> last as" using d last_in_set [OF as] list.set_sel(1) [OF False] by auto
      have "?m(last as \<mapsto> nl\<lparr>ln_nxt := Some (hd bs)\<rparr>, hd bs \<mapsto> nh\<lparr>ln_prv := Some (last as)\<rparr>) =
          l_relink ?m as bs"
        using nl nh as False hl
        by (auto simp: l_relink_def fun_eq_iff first_of_def last_of_def split: option.splits)
      moreover have "Some a \<noteq> l_head li" "Some a \<noteq> l_tail li" using ends as False by simp_all
      ultimately show ?thesis using as False n nl nh lk hl tl
        by (intro exI [of _ "l_tail li"])
           (simp add: list_delete_node_def first_of_def last_of_def)
    qed
  qed
qed

lemma list_delete_at:
  assumes at: "l_at li (as @ a # bs)"
  shows "\<exists>li'. list_delete_node li a = Inr li' \<and> l_at li' (as @ bs) \<and> l_fresh li' = l_fresh li \<and>
               (\<forall>x\<in>set (as @ bs). l_val li' x = l_val li x)"
proof -
  obtain tl li' where del: "list_delete_node li a = Inr li'"
    and li': "li' = li\<lparr>l_mem := (l_relink (l_mem li) as bs)(a := None), l_tail := tl,
      l_size := l_size li - 1, l_head := (if as = [] then first_of bs None else l_head li)\<rparr>"
    and tl: "as @ bs \<noteq> [] \<longrightarrow> tl = Some (last (as @ bs))"
    using list_delete_relink [OF at] by blast
  have a: "a \<notin> set as \<union> set bs" and d: "distinct (as @ a # bs)" using at by (auto simp: l_at_def)
  have "dseg (l_nx li') (l_pv li') None (if as = [] then first_of bs None else l_head li) (as @ bs) None"
  proof (rule dseg_unlink)
    show "dseg (l_nx li) (l_pv li) None (l_head li) (as @ a # bs) None" "distinct (as @ a # bs)"
      using at by (simp_all add: l_at_def)
    fix x assume x: "x \<in> set as \<union> set bs"
    then obtain n where n: "l_mem li x = Some n" using l_at_mem [OF at] by auto
    have "x \<noteq> a" using a x by auto
    then show "l_nx li' x = (if as \<noteq> [] \<and> x = last as then first_of bs None else l_nx li x)"
      and "l_pv li' x = (if bs \<noteq> [] \<and> x = hd bs then last_of None as else l_pv li x)"
      using n by (simp_all add: li' l_nx_def l_pv_def l_relink_def Let_def)
  qed
  moreover have "dom (l_mem li') = set (as @ bs)" using at a by (auto simp: li' l_at_def)
  ultimately have "l_at li' (as @ bs)" using at tl by (simp add: l_at_def li')
  moreover have "l_val li' x = l_val li x" if "x \<in> set (as @ bs)" for x
  proof -
    from that a l_at_mem [OF at] obtain n where n: "l_mem li x = Some n" and "x \<noteq> a" by fastforce
    then show ?thesis by (simp add: l_val_def li' l_relink_data)
  qed
  ultimately show ?thesis using del by (auto simp: li')
qed

lemma list_delete_first:
  assumes ok: "l_ok li" and it: "l_items li = (a, x) # xs"
  shows "\<exists>li'. list_delete_node li a = Inr li' \<and> l_ok li' \<and> l_items li' = xs"
proof -
  obtain cs where at: "l_at li cs" using ok l_ok_def by blast
  then obtain bs where cs: "cs = a # bs" and xs: "xs = map (\<lambda>b. (b, l_val li b)) bs"
    using it l_at_items [OF at] by (cases cs) auto
  from list_delete_at [of li "[]" a bs] at cs obtain li' where
    "list_delete_node li a = Inr li'" "l_at li' bs" "\<forall>b\<in>set bs. l_val li' b = l_val li b" by auto
  with xs show ?thesis by (auto simp: l_at_items intro: l_okI)
qed

lemma l_items_links:
  assumes ok: "l_ok li" and it: "l_items li = (a, x) # xs"
  shows "l_head li = Some a" and "load (l_mem li) (Some a) = Inr n \<Longrightarrow> ln_nxt n = first_of (map fst xs) None"
    and "\<exists>n. load (l_mem li) (Some a) = Inr n" and "l_val li a = x"
proof -
  obtain cs where at: "l_at li cs" using ok l_ok_def by blast
  then obtain bs where cs: "cs = a # bs" and xs: "map fst xs = bs" and x: "l_val li a = x"
    using it l_at_items [OF at] by (cases cs) (auto simp: o_def)
  obtain n0 where n0: "l_mem li a = Some n0" using l_at_mem [OF at] cs by auto
  show "l_head li = Some a" using l_at_head [OF at] cs by simp
  show "l_val li a = x" by (rule x)
  show "\<exists>n. load (l_mem li) (Some a) = Inr n" using n0 by simp
  assume "load (l_mem li) (Some a) = Inr n"
  with l_at_links(1) [of li "[]" a bs n] at cs xs n0 show "ln_nxt n = first_of (map fst xs) None"
    by simp
qed

text \<open>
  A safe traversal whose body consumes the node it is given: it runs to its end within as many
  rounds as there are nodes, visits them in order and leaves the list empty.
\<close>

lemma for_each_safe_consume:
  assumes step: "\<And>done a x todo s. its = done @ (a, x) # todo \<Longrightarrow> P done s \<Longrightarrow> l_ok (li s) \<Longrightarrow>
       l_items (li s) = (a, x) # todo \<Longrightarrow>
       \<exists>s'. f a s = Inr s' \<and> P (done @ [(a, x)]) s' \<and> l_ok (li s') \<and> l_items (li s') = todo"
    and start: "P [] s" "l_ok (li s)" "l_items (li s) = its"
  shows "\<exists>s'. for_each_safe li f (length its) (first_of (map fst its) None)
               (first_of (tl (map fst its)) None) s = Some (Inr s') \<and>
              P its s' \<and> l_ok (li s') \<and> l_items (li s') = []"
proof -
  have "\<exists>s'. for_each_safe li f (length todo) (first_of (map fst todo) None)
               (first_of (tl (map fst todo)) None) s = Some (Inr s') \<and>
              P its s' \<and> l_ok (li s') \<and> l_items (li s') = []"
    if "its = done @ todo" "P done s" "l_ok (li s)" "l_items (li s) = todo" for "done" todo s
    using that
  proof (induction todo arbitrary: "done" s)
    case Nil
    then show ?case by simp
  next
    case (Cons y todo)
    obtain a x where y: "y = (a, x)" by force
    from step [of "done" a x todo s] Cons.prems y obtain s' where s': "f a s = Inr s'"
      "P (done @ [(a, x)]) s'" "l_ok (li s')" "l_items (li s') = todo" by auto
    have "(if first_of (map fst todo) None = None then Inr None
           else bindE (load (l_mem (li s')) (first_of (map fst todo) None)) (\<lambda>z. Inr (ln_nxt z))) =
          Inr (first_of (tl (map fst todo)) None)"
    proof (cases todo)
      case Nil
      then show ?thesis by simp
    next
      case (Cons z zs)
      obtain b w where z: "z = (b, w)" by force
      from l_items_links(2,3) [OF s'(3), of b w zs] s'(4) Cons z show ?thesis by auto
    qed
    with s' Cons.IH [of "done @ [(a, x)]" s'] Cons.prems(1) y show ?case by simp
  qed
  from this [of "[]" its s] start show ?thesis by simp
qed

lemma list_free_ok:
  assumes ok: "l_ok li"
  shows "\<exists>li'. list_free li = Some (Inr li') \<and> l_ok li' \<and> l_items li' = []"
proof (cases "l_items li")
  case Nil
  have "l_size li = length (l_items li)" using ok by (auto simp: l_ok_def l_at_def l_items_def)
  with Nil ok show ?thesis by (simp add: list_free_def)
next
  case (Cons y ys)
  obtain a x where y: "y = (a, x)" by force
  have sz: "l_size li = length (l_items li)" using ok by (auto simp: l_ok_def l_at_def l_items_def)
  have hd: "l_head li = first_of (map fst (l_items li)) None"
    and lp: "bindE (load (l_mem li) (l_head li)) (\<lambda>n. Inr (ln_nxt n)) =
             Inr (first_of (tl (map fst (l_items li))) None)"
    using l_items_links(1-3) [OF ok, of a x ys] Cons y by auto
  have "\<exists>li'. for_each_safe id (\<lambda>ln l. list_delete_node l ln) (length (l_items li))
           (first_of (map fst (l_items li)) None) (first_of (tl (map fst (l_items li))) None) li =
           Some (Inr li') \<and> True \<and> l_ok (id li') \<and> l_items (id li') = []"
  proof (rule for_each_safe_consume [where P = "\<lambda>_ _. True"])
    fix a x todo and s :: "'a dlist"
    assume "l_ok (id s)" "l_items (id s) = (a, x) # todo"
    with list_delete_first [of s a x todo]
    show "\<exists>s'. list_delete_node s a = Inr s' \<and> True \<and> l_ok (id s') \<and> l_items (id s') = todo"
      by simp
  qed (simp_all add: ok)
  then show ?thesis using Cons sz hd lp by (simp add: list_free_def)
qed

section \<open>The contract of an append list\<close>

locale append_list =
  fixes empty :: 'l
    and insert :: "'l \<Rightarrow> 'a \<Rightarrow> 'l res"
    and delete :: "'l \<Rightarrow> addr \<Rightarrow> 'l res"
    and items :: "'l \<Rightarrow> (addr \<times> 'a) list"
    and ok :: "'l \<Rightarrow> bool"
  assumes ok_empty: "ok empty" and items_empty: "items empty = []"
    and insert_items: "ok l \<Longrightarrow> \<exists>a l'. insert l x = Inr l' \<and> ok l' \<and> items l' = items l @ [(a, x)]"
    and delete_first: "ok l \<Longrightarrow> items l = (a, x) # xs \<Longrightarrow>
          \<exists>l'. delete l a = Inr l' \<and> ok l' \<and> items l' = xs"
begin

lemma insert_values:
  "ok l \<Longrightarrow> \<exists>l'. insert l x = Inr l' \<and> ok l' \<and> map snd (items l') = map snd (items l) @ [x]"
proof -
  assume "ok l"
  from insert_items [OF this] obtain a l' where "insert l x = Inr l'" "ok l'" "items l' = items l @ [(a, x)]"
    by blast
  then show ?thesis by simp
qed

end

interpretation al: append_list "list_init :: 'a dlist" list_insert list_delete_node l_items l_ok
proof unfold_locales
  fix l :: "'a dlist" and x assume "l_ok l"
  then show "\<exists>a l'. list_insert l x = Inr l' \<and> l_ok l' \<and> l_items l' = l_items l @ [(a, x)]"
    using list_insert_items [of l x] by blast
qed (simp_all add: list_init_ok list_delete_first)

section \<open>Properties\<close>

definition list_insert_all :: "'a list \<Rightarrow> 'a dlist res" where
  "list_insert_all xs = foldE (\<lambda>x l. list_insert l x) xs list_init"

lemma list_insert_all_items:
  "\<exists>l. list_insert_all xs = Inr l \<and> l_ok l \<and> map snd (l_items l) = xs"
proof (induction xs rule: rev_induct)
  case Nil
  show ?case by (simp add: list_insert_all_def list_init_ok)
next
  case (snoc x xs)
  then obtain l where "list_insert_all xs = Inr l" "l_ok l" "map snd (l_items l) = xs" by blast
  then show ?case using al.insert_values [of l x] by (auto simp: list_insert_all_def foldE_append)
qed

lemma l_ok_empty: "l_ok l \<Longrightarrow> l_items l = [] \<Longrightarrow> l_mem l = Map.empty"
  by (auto simp: l_ok_def l_at_def l_items_def)

text \<open>
  C34: The list keeps its entries in the order of insertion, and \<open>list_free\<close>, whose loop deletes the
  node it stands on, visits every node, ends after as many rounds as the list has entries and
  leaves no node allocated.
\<close>

theorem list_free_ends_and_releases_all:
  "\<exists>l l'. list_insert_all xs = Inr l \<and> map snd (l_items l) = xs \<and>
     list_free l = Some (Inr l') \<and> l_mem l' = Map.empty"
proof -
  obtain l where l: "list_insert_all xs = Inr l" "l_ok l" "map snd (l_items l) = xs"
    using list_insert_all_items by blast
  obtain l' where "list_free l = Some (Inr l')" "l_ok l'" "l_items l' = []" using list_free_ok [OF l(2)] by blast
  then show ?thesis using l l_ok_empty by blast
qed

end
