(* ===== verification/Lru_List.thy ===== *)
theory Lru_List
  imports Heap_Lists
begin

text \<open>
  The recency list of \<^verbatim>\<open>src/include/data_struct/lru_list.c\<close>, a doubly linked list whose head is
  the entry used last and whose tail is the eviction victim. The demand-based FTL keeps one node
  pointer per cached translation page and calls \<open>lru_update\<close> on every hit, \<open>lru_pop\<close> to evict.
\<close>

section \<open>The structure and its operations\<close>

record 'a NODE =
  DATA :: 'a
  n_next :: "addr option"
  n_prev :: "addr option"

record 'a LRU =
  lru_size :: nat
  lru_head :: "addr option"
  lru_tail :: "addr option"
  lru_mem :: "addr \<rightharpoonup> 'a NODE"
  lru_fresh :: addr

definition lru_init :: "'a LRU" where
  "lru_init = \<lparr>lru_size = 0, lru_head = None, lru_tail = None, lru_mem = Map.empty, lru_fresh = 0\<rparr>"

definition lru_push :: "'a LRU \<Rightarrow> 'a \<Rightarrow> (addr \<times> 'a LRU) res" where
  "lru_push lru table_ptr =
     (let now = lru_fresh lru;
          m = (lru_mem lru)(now \<mapsto> \<lparr>DATA = table_ptr, n_next = None, n_prev = None\<rparr>);
          lru1 = lru\<lparr>lru_fresh := now + 1\<rparr>
      in if lru_size lru = 0
         then Inr (now, lru1\<lparr>lru_mem := m, lru_head := Some now, lru_tail := Some now,
                             lru_size := lru_size lru + 1\<rparr>)
         else bindE (store m (lru_head lru) (\<lambda>n. n\<lparr>n_prev := Some now\<rparr>)) (\<lambda>m1.
              bindE (store m1 (Some now) (\<lambda>n. n\<lparr>n_next := lru_head lru\<rparr>)) (\<lambda>m2.
              Inr (now, lru1\<lparr>lru_mem := m2, lru_head := Some now,
                             lru_size := lru_size lru + 1\<rparr>))))"

definition lru_pop :: "'a LRU \<Rightarrow> ('a option \<times> 'a LRU) res" where
  "lru_pop lru =
     (if lru_head lru = None \<or> lru_size lru = 0 then Inr (None, lru)
      else bindE (load (lru_mem lru) (lru_tail lru)) (\<lambda>now.
           bindE (deref (lru_tail lru)) (\<lambda>now_p.
             let re = DATA now; lru1 = lru\<lparr>lru_tail := n_prev now\<rparr>
             in bindE (if n_prev now \<noteq> None
                       then bindE (store (lru_mem lru) (n_prev now) (\<lambda>n. n\<lparr>n_next := None\<rparr>))
                              (\<lambda>m. Inr (lru1\<lparr>lru_mem := m\<rparr>))
                       else Inr (lru1\<lparr>lru_head := None\<rparr>)) (\<lambda>lru2.
                Inr (Some re, lru2\<lparr>lru_size := lru_size lru - 1,
                                   lru_mem := (lru_mem lru2)(now_p := None)\<rparr>)))))"

text \<open>Unlinking a node from between its neighbours: \<open>now->prev->next = now->next\<close> and back.\<close>

definition unlink_middle :: "(addr \<rightharpoonup> 'a NODE) \<Rightarrow> addr option \<Rightarrow> (addr \<rightharpoonup> 'a NODE) res" where
  "unlink_middle m now =
     bindE (load m now) (\<lambda>n.
     bindE (store m (n_prev n) (\<lambda>x. x\<lparr>n_next := n_next n\<rparr>)) (\<lambda>m1.
     bindE (load m1 now) (\<lambda>n1.
     store m1 (n_next n1) (\<lambda>x. x\<lparr>n_prev := n_prev n1\<rparr>))))"

definition lru_update :: "'a LRU \<Rightarrow> addr option \<Rightarrow> 'a LRU res" where
  "lru_update lru now =
     (if now = None then Inr lru
      else if now = lru_head lru then Inr lru
      else
        bindE (if now = lru_tail lru
               then bindE (load (lru_mem lru) now) (\<lambda>n.
                    bindE (store (lru_mem lru) (n_prev n) (\<lambda>x. x\<lparr>n_next := None\<rparr>)) (\<lambda>m.
                    Inr (lru\<lparr>lru_tail := n_prev n, lru_mem := m\<rparr>)))
               else bindE (unlink_middle (lru_mem lru) now) (\<lambda>m. Inr (lru\<lparr>lru_mem := m\<rparr>)))
          (\<lambda>lru1.
           bindE (store (lru_mem lru1) now (\<lambda>x. x\<lparr>n_prev := None\<rparr>)) (\<lambda>m1.
           bindE (store m1 (lru_head lru1) (\<lambda>x. x\<lparr>n_prev := now\<rparr>)) (\<lambda>m2.
           bindE (store m2 now (\<lambda>x. x\<lparr>n_next := lru_head lru1\<rparr>)) (\<lambda>m3.
           Inr (lru1\<lparr>lru_mem := m3, lru_head := now\<rparr>))))))"

definition lru_delete :: "'a LRU \<Rightarrow> addr option \<Rightarrow> 'a LRU res" where
  "lru_delete lru now =
     (case now of
        None \<Rightarrow> Inr lru
      | Some now_p \<Rightarrow>
          bindE
            (if now = lru_head lru
             then bindE (load (lru_mem lru) now) (\<lambda>n.
                  if n_next n \<noteq> None
                  then bindE (store (lru_mem lru) (n_next n) (\<lambda>x. x\<lparr>n_prev := None\<rparr>)) (\<lambda>m.
                       Inr (lru\<lparr>lru_head := n_next n, lru_mem := m\<rparr>))
                  else Inr (lru\<lparr>lru_head := None, lru_tail := None\<rparr>))
             else if now = lru_tail lru
             then bindE (load (lru_mem lru) now) (\<lambda>n.
                  bindE (store (lru_mem lru) (n_prev n) (\<lambda>x. x\<lparr>n_next := None\<rparr>)) (\<lambda>m.
                  Inr (lru\<lparr>lru_tail := n_prev n, lru_mem := m\<rparr>)))
             else bindE (unlink_middle (lru_mem lru) now) (\<lambda>m. Inr (lru\<lparr>lru_mem := m\<rparr>)))
            (\<lambda>lru1. Inr (lru1\<lparr>lru_size := lru_size lru - 1,
                              lru_mem := (lru_mem lru1)(now_p := None)\<rparr>)))"

text \<open>The loop of \<open>lru_free\<close>: pop until nothing is left.\<close>

lemma lru_pop_size: "lru_pop lru = Inr (Some x, lru') \<Longrightarrow> lru_size lru' < lru_size lru"
  by (auto simp: lru_pop_def bindE_eq_Inr Let_def split: if_splits)

function lru_free :: "'a LRU \<Rightarrow> 'a LRU res" where
  "lru_free lru =
     (case lru_pop lru of
        Inl e \<Rightarrow> Inl e
      | Inr (None, lru') \<Rightarrow> Inr lru'
      | Inr (Some _, lru') \<Rightarrow> lru_free lru')"
  by pat_completeness auto
termination
  by (relation "measure lru_size") (auto dest: lru_pop_size)

declare lru_free.simps [simp del]

section \<open>Abstraction and invariant\<close>

definition lru_nx :: "'a LRU \<Rightarrow> link" where
  "lru_nx lru a = (case lru_mem lru a of None \<Rightarrow> None | Some n \<Rightarrow> n_next n)"

definition lru_pv :: "'a LRU \<Rightarrow> link" where
  "lru_pv lru a = (case lru_mem lru a of None \<Rightarrow> None | Some n \<Rightarrow> n_prev n)"

text \<open>The nodes from the most to the least recently used, and the entries they hold.\<close>

definition lru_addrs :: "'a LRU \<Rightarrow> addr list" where
  "lru_addrs lru = walk (lru_nx lru) (lru_head lru) (lru_size lru)"

definition lru_val :: "'a LRU \<Rightarrow> addr \<Rightarrow> 'a" where
  "lru_val lru a = DATA (the (lru_mem lru a))"

definition lru_items :: "'a LRU \<Rightarrow> (addr \<times> 'a) list" where
  "lru_items lru = map (\<lambda>a. (a, lru_val lru a)) (lru_addrs lru)"

definition lru_at :: "'a LRU \<Rightarrow> addr list \<Rightarrow> bool" where
  "lru_at lru as \<longleftrightarrow>
     dseg (lru_nx lru) (lru_pv lru) None (lru_head lru) as None \<and> distinct as \<and>
     dom (lru_mem lru) = set as \<and> (\<forall>a\<in>set as. a < lru_fresh lru) \<and>
     lru_tail lru = last_of None as \<and> lru_size lru = length as"

definition lru_ok :: "'a LRU \<Rightarrow> bool" where
  "lru_ok lru \<longleftrightarrow> lru_at lru (lru_addrs lru)"

lemma lru_at_addrs: "lru_at lru as \<Longrightarrow> lru_addrs lru = as"
  by (auto simp: lru_addrs_def lru_at_def dest: dseg_walk)

lemma lru_okI: "lru_at lru as \<Longrightarrow> lru_ok lru"
  by (simp add: lru_ok_def lru_at_addrs)

lemma lru_at_items: "lru_at lru as \<Longrightarrow> lru_items lru = map (\<lambda>a. (a, lru_val lru a)) as"
  by (simp add: lru_items_def lru_at_addrs)

lemma lru_at_mem: "lru_at lru as \<Longrightarrow> a \<in> set as \<Longrightarrow> \<exists>n. lru_mem lru a = Some n"
  by (auto simp: lru_at_def)

lemma lru_at_head: "lru_at lru as \<Longrightarrow> lru_head lru = first_of as None"
  by (auto simp: lru_at_def dest: dseg_first)

lemma lru_init_ok: "lru_ok (lru_init :: 'a LRU)" "lru_items (lru_init :: 'a LRU) = []"
proof -
  have "lru_at (lru_init :: 'a LRU) []" by (simp add: lru_at_def lru_init_def)
  then show "lru_ok (lru_init :: 'a LRU)" by (rule lru_okI)
qed (simp add: lru_init_def lru_items_def lru_addrs_def)

section \<open>Every operation refines its list counterpart\<close>

lemma lru_push_items:
  assumes "lru_ok lru"
  shows "\<exists>lru'. lru_push lru x = Inr (lru_fresh lru, lru') \<and> lru_ok lru' \<and>
                lru_items lru' = (lru_fresh lru, x) # lru_items lru"
proof -
  obtain as where at: "lru_at lru as" using assms lru_ok_def by blast
  let ?b = "lru_fresh lru"
  have fresh: "?b \<notin> set as" and sz: "lru_size lru = length as" and dist: "distinct as"
    and seg: "dseg (lru_nx lru) (lru_pv lru) None (lru_head lru) as None"
    using at by (auto simp: lru_at_def)
  define m where "m = (lru_mem lru)(?b \<mapsto> \<lparr>DATA = x, n_next = lru_head lru, n_prev = None\<rparr>)"
  define m' where "m' = (if as = [] then m
     else m(hd as \<mapsto> (the (lru_mem lru (hd as)))\<lparr>n_prev := Some ?b\<rparr>))"
  define lru' where "lru' = lru\<lparr>lru_fresh := ?b + 1, lru_mem := m', lru_head := Some ?b,
     lru_tail := (if as = [] then Some ?b else lru_tail lru), lru_size := lru_size lru + 1\<rparr>"
  have "lru_push lru x = Inr (?b, lru')"
  proof (cases as)
    case Nil
    then show ?thesis using sz lru_at_head [OF at]
      by (simp add: lru_push_def lru'_def m'_def m_def Let_def)
  next
    case (Cons a bs)
    then obtain n where n: "lru_mem lru a = Some n" using lru_at_mem [OF at] by auto
    have "a \<noteq> ?b" using fresh Cons by auto
    then show ?thesis using sz lru_at_head [OF at] Cons n
      by (simp add: lru_push_def lru'_def m'_def m_def Let_def fun_upd_twist)
  qed
  moreover have at': "lru_at lru' (?b # as)"
  proof -
    have "dseg (lru_nx lru') (lru_pv lru') None (Some ?b) (?b # as) None"
    proof (rule dseg_push_front [OF seg dist])
      have "as \<noteq> [] \<Longrightarrow> hd as \<noteq> ?b" using fresh by (metis list.set_sel(1))
      then show "lru_nx lru' ?b = lru_head lru" "lru_pv lru' ?b = None"
        by (cases "as = []"; simp add: lru_nx_def lru_pv_def lru'_def m'_def m_def)+
    next
      fix y assume y: "y \<in> set as"
      then have "y \<noteq> ?b" and "as \<noteq> []" using fresh by auto
      then show "lru_nx lru' y = lru_nx lru y"
        and "lru_pv lru' y = (if y = hd as then Some ?b else lru_pv lru y)"
        using lru_at_mem [OF at y] by (auto simp: lru_nx_def lru_pv_def lru'_def m'_def m_def)
    qed
    moreover have "dom m' = insert ?b (set as)"
      using at by (auto simp: m'_def m_def lru_at_def split: if_splits)
    ultimately show ?thesis
      using at fresh by (auto simp: lru_at_def lru'_def last_of_def less_SucI)
  qed
  moreover have "lru_items lru' = (?b, x) # lru_items lru"
    unfolding lru_at_items [OF at'] lru_at_items [OF at]
    using fresh lru_at_mem [OF at] by (auto simp: lru_val_def lru'_def m'_def m_def)
  ultimately show ?thesis by (auto intro: lru_okI)
qed

text \<open>
  The memory after a node between \<open>as\<close> and \<open>bs\<close> has been bypassed, whichever of its neighbours
  exist. \<open>lru_pop\<close>, \<open>lru_update\<close> and \<open>lru_delete\<close> all compute it, on different branches.
\<close>

definition relink :: "(addr \<rightharpoonup> 'a NODE) \<Rightarrow> addr list \<Rightarrow> addr list \<Rightarrow> (addr \<rightharpoonup> 'a NODE)" where
  "relink m as bs a =
     (case m a of None \<Rightarrow> None
      | Some n \<Rightarrow>
          let n1 = (if as \<noteq> [] \<and> a = last as then n\<lparr>n_next := first_of bs None\<rparr> else n)
          in Some (if bs \<noteq> [] \<and> a = hd bs then n1\<lparr>n_prev := last_of None as\<rparr> else n1))"

lemma dom_relink [simp]: "dom (relink m as bs) = dom m"
  by (auto simp: relink_def Let_def split: option.splits)

lemma relink_DATA: "m a = Some n \<Longrightarrow> DATA (the (relink m as bs a)) = DATA n"
  by (simp add: relink_def Let_def)

lemma store_relink_nil:
  "m (last as) = Some n \<Longrightarrow> as \<noteq> [] \<Longrightarrow>
   store m (Some (last as)) (\<lambda>x. x\<lparr>n_next := None\<rparr>) = Inr (relink m as [])"
  by (auto simp: relink_def fun_eq_iff split: option.splits)

lemma store_relink_hd:
  "m (hd bs) = Some n \<Longrightarrow> bs \<noteq> [] \<Longrightarrow>
   store m (Some (hd bs)) (\<lambda>x. x\<lparr>n_prev := None\<rparr>) = Inr (relink m [] bs)"
  by (auto simp: relink_def fun_eq_iff split: option.splits)

lemma lru_at_links:
  assumes "lru_at lru (as @ a # bs)" and "lru_mem lru a = Some n"
  shows "n_next n = first_of bs None" "n_prev n = last_of None as"
proof -
  have "dseg (lru_nx lru) (lru_pv lru) None (lru_head lru) (as @ a # bs) None"
    using assms(1) by (simp add: lru_at_def)
  from dseg_links [OF this] assms(2) show "n_next n = first_of bs None" "n_prev n = last_of None as"
    by (simp_all add: lru_nx_def lru_pv_def)
qed

lemma unlink_middle_relink:
  assumes at: "lru_at lru (as @ a # bs)" and "as \<noteq> []" and "bs \<noteq> []"
  shows "unlink_middle (lru_mem lru) (Some a) = Inr (relink (lru_mem lru) as bs)"
proof -
  let ?m = "lru_mem lru"
  have l: "last as \<in> set as" and h: "hd bs \<in> set bs" using assms(2,3) by simp_all
  then obtain na nl nh where n: "?m a = Some na" "?m (last as) = Some nl" "?m (hd bs) = Some nh"
    using lru_at_mem [OF at] by (metis in_set_conv_decomp Un_iff set_append list.set_intros)
  have ne: "last as \<noteq> a" "hd bs \<noteq> a" "hd bs \<noteq> last as"
    using at l h by (auto simp: lru_at_def)
  have lk: "n_next na = Some (hd bs)" "n_prev na = Some (last as)"
    using lru_at_links [OF at n(1)] assms(2,3) by (simp_all add: first_of_def last_of_def)
  have "unlink_middle ?m (Some a) =
     Inr (?m(last as \<mapsto> nl\<lparr>n_next := Some (hd bs)\<rparr>, hd bs \<mapsto> nh\<lparr>n_prev := Some (last as)\<rparr>))"
    using n ne lk by (simp add: unlink_middle_def)
  also have "?m(last as \<mapsto> nl\<lparr>n_next := Some (hd bs)\<rparr>, hd bs \<mapsto> nh\<lparr>n_prev := Some (last as)\<rparr>) =
     relink ?m as bs"
    using n ne assms(2,3)
    by (auto simp: relink_def fun_eq_iff first_of_def last_of_def Let_def split: option.splits)
  finally show ?thesis .
qed

text \<open>The list without the node, as a segment of the relinked memory.\<close>

lemma relink_dseg:
  assumes at: "lru_at lru (as @ a # bs)" and m': "\<And>x. x \<in> set as \<union> set bs \<Longrightarrow> m' x = relink (lru_mem lru) as bs x"
    and l: "lru_mem lru' = m'"
  shows "dseg (lru_nx lru') (lru_pv lru') None
           (if as = [] then first_of bs None else lru_head lru) (as @ bs) None"
proof (rule dseg_unlink)
  show "dseg (lru_nx lru) (lru_pv lru) None (lru_head lru) (as @ a # bs) None"
    "distinct (as @ a # bs)" using at by (simp_all add: lru_at_def)
next
  fix x assume x: "x \<in> set as \<union> set bs"
  then obtain n where n: "lru_mem lru x = Some n" using lru_at_mem [OF at] by auto
  have d: "\<not> (bs \<noteq> [] \<and> as \<noteq> [] \<and> last as = hd bs)"
  proof
    assume A: "bs \<noteq> [] \<and> as \<noteq> [] \<and> last as = hd bs"
    have "last as \<in> set as" using A last_in_set by blast
    moreover have "last as \<in> set bs" using A by simp
    ultimately show False using at by (auto simp: lru_at_def)
  qed
  from n m' [OF x] l show
    "lru_nx lru' x = (if as \<noteq> [] \<and> x = last as then first_of bs None else lru_nx lru x)"
    "lru_pv lru' x = (if bs \<noteq> [] \<and> x = hd bs then last_of None as else lru_pv lru x)"
    by (simp_all add: lru_nx_def lru_pv_def relink_def Let_def)
qed

text \<open>Freeing the bypassed node gives a well-formed list of the others.\<close>

lemma lru_at_removed:
  assumes at: "lru_at lru (as @ a # bs)"
    and lru': "lru' = lru\<lparr>lru_mem := (relink (lru_mem lru) as bs)(a := None),
      lru_head := (if as = [] then first_of bs None else lru_head lru),
      lru_tail := last_of None (as @ bs), lru_size := lru_size lru - 1\<rparr>"
  shows "lru_at lru' (as @ bs)"
    and "lru_items lru' = map (\<lambda>x. (x, lru_val lru x)) (as @ bs)"
proof -
  have a: "a \<notin> set as \<union> set bs" using at by (auto simp: lru_at_def)
  have "dseg (lru_nx lru') (lru_pv lru') None
          (if as = [] then first_of bs None else lru_head lru) (as @ bs) None"
    by (rule relink_dseg [OF at]) (use a lru' in auto)
  moreover have "dom (lru_mem lru') = set (as @ bs)"
    using at a by (auto simp: lru' lru_at_def)
  ultimately show at': "lru_at lru' (as @ bs)"
    using at by (simp add: lru_at_def lru')
  show "lru_items lru' = map (\<lambda>x. (x, lru_val lru x)) (as @ bs)"
    unfolding lru_at_items [OF at']
  proof (rule map_cong [OF refl])
    fix x assume "x \<in> set (as @ bs)"
    with a lru_at_mem [OF at] obtain n where "lru_mem lru x = Some n" "x \<noteq> a" by fastforce
    then show "(x, lru_val lru' x) = (x, lru_val lru x)"
      by (simp add: lru_val_def lru' relink_DATA)
  qed
qed

lemma lru_pop_empty: "lru_ok lru \<Longrightarrow> lru_items lru = [] \<Longrightarrow> lru_pop lru = Inr (None, lru)"
  by (auto simp: lru_pop_def lru_ok_def lru_at_def lru_items_def)

lemma lru_pop_last:
  assumes ok: "lru_ok lru" and xs: "lru_items lru = xs @ [(a, x)]"
  shows "\<exists>lru'. lru_pop lru = Inr (Some x, lru') \<and> lru_ok lru' \<and> lru_items lru' = xs"
proof -
  obtain cs where at0: "lru_at lru cs" using ok lru_ok_def by blast
  from lru_at_items [OF at0] xs obtain as where cs: "cs = as @ [a]" and x: "x = lru_val lru a"
    and xs': "xs = map (\<lambda>a. (a, lru_val lru a)) as"
    by (cases cs rule: rev_cases) auto
  have at: "lru_at lru (as @ a # [])" using at0 cs by simp
  then obtain n where n: "lru_mem lru a = Some n" using lru_at_mem [OF at] by auto
  define lru' where "lru' = lru\<lparr>lru_mem := (relink (lru_mem lru) as [])(a := None),
      lru_head := (if as = [] then first_of [] None else lru_head lru),
      lru_tail := last_of None (as @ []), lru_size := lru_size lru - 1\<rparr>"
  have tl: "lru_tail lru = Some a" "lru_head lru \<noteq> None" "lru_size lru \<noteq> 0"
    using at lru_at_head [OF at] by (auto simp: lru_at_def first_of_def)
  have lk: "n_prev n = last_of None as" using lru_at_links(2) [OF at n] .
  have "lru_pop lru = Inr (Some x, lru')"
  proof (cases "as = []")
    case True
    have "relink (lru_mem lru) [] [] = lru_mem lru"
      by (auto simp: relink_def fun_eq_iff split: option.splits)
    then show ?thesis using True tl n lk x
      by (simp add: lru_pop_def lru'_def lru_val_def)
  next
    case False
    then obtain nl where nl: "lru_mem lru (last as) = Some nl" using lru_at_mem [OF at] by fastforce
    show ?thesis using False tl n lk x store_relink_nil [of "lru_mem lru", OF nl False]
      by (simp add: lru_pop_def lru'_def lru_val_def last_of_def Let_def)
  qed
  with lru_at_removed [OF at lru'_def] xs' show ?thesis by (auto intro: lru_okI)
qed

lemma relink_nil [simp]: "relink m [] [] = m"
  by (auto simp: relink_def fun_eq_iff split: option.splits)

lemma lru_at_tail_iff:
  assumes "lru_at lru (as @ a # bs)"
  shows "Some a = lru_tail lru \<longleftrightarrow> bs = []" and "Some a = lru_head lru \<longleftrightarrow> as = []"
proof -
  have t: "lru_tail lru = Some (last (a # bs))" and d: "distinct (as @ a # bs)"
    using assms by (simp_all add: lru_at_def last_of_def)
  show "Some a = lru_tail lru \<longleftrightarrow> bs = []"
    using t d last_in_set [of bs] by auto
  show "Some a = lru_head lru \<longleftrightarrow> as = []"
    using lru_at_head [OF assms] d list.set_sel(1) [of as] by (auto simp: first_of_def)
qed

lemma lru_at_last_other: "lru_at lru (as @ a # bs) \<Longrightarrow> bs \<noteq> [] \<Longrightarrow> a \<noteq> last bs"
  using last_in_set [of bs] by (auto simp: lru_at_def)

lemma lru_items_split:
  assumes "lru_ok lru" and "a \<in> set (lru_addrs lru)"
  obtains as bs where "lru_at lru (as @ a # bs)"
    "lru_items lru = map (\<lambda>x. (x, lru_val lru x)) (as @ a # bs)"
  using assms by (metis lru_at_items lru_ok_def split_list)

lemma filter_other_items:
  assumes "distinct (as @ a # bs)"
  shows "filter (\<lambda>(b, _). b \<noteq> a) (map (\<lambda>x. (x, f x)) (as @ a # bs)) = map (\<lambda>x. (x, f x)) (as @ bs)"
proof -
  have "filter (\<lambda>x. x \<noteq> a) as = as" "filter (\<lambda>x. x \<noteq> a) bs = bs"
    using assms by (auto intro!: filter_True)
  then show ?thesis by (simp add: filter_map o_def)
qed

lemma lru_delete_items:
  assumes ok: "lru_ok lru" and a: "a \<in> set (lru_addrs lru)"
  shows "\<exists>lru'. lru_delete lru (Some a) = Inr lru' \<and> lru_ok lru' \<and>
                lru_items lru' = filter (\<lambda>(b, _). b \<noteq> a) (lru_items lru)"
proof -
  from ok a obtain as bs where at: "lru_at lru (as @ a # bs)"
    and it: "lru_items lru = map (\<lambda>x. (x, lru_val lru x)) (as @ a # bs)"
    by (rule lru_items_split)
  from at obtain n where n: "lru_mem lru a = Some n" using lru_at_mem [OF at] by auto
  define lru' where "lru' = lru\<lparr>lru_mem := (relink (lru_mem lru) as bs)(a := None),
      lru_head := (if as = [] then first_of bs None else lru_head lru),
      lru_tail := last_of None (as @ bs), lru_size := lru_size lru - 1\<rparr>"
  note lk = lru_at_links [OF at n] and ends = lru_at_tail_iff [OF at]
  have tl: "lru_tail lru = last_of None (as @ a # bs)" using at by (simp add: lru_at_def)
  have "lru_delete lru (Some a) = Inr lru'"
  proof (cases "as = []")
    case as: True
    show ?thesis
    proof (cases "bs = []")
      case True
      with as n lk show ?thesis by (simp add: lru_delete_def lru'_def ends)
    next
      case False
      then obtain nh where nh: "lru_mem lru (hd bs) = Some nh" using lru_at_mem [OF at] by fastforce
      show ?thesis
        using as False n lk tl store_relink_hd [of "lru_mem lru", OF nh False]
        by (simp add: lru_delete_def lru'_def first_of_def last_of_def ends)
    qed
  next
    case as: False
    show ?thesis
    proof (cases "bs = []")
      case True
      obtain nl where nl: "lru_mem lru (last as) = Some nl" using lru_at_mem [OF at] as by fastforce
      show ?thesis
        using as True n lk store_relink_nil [of "lru_mem lru", OF nl as]
        by (simp add: lru_delete_def lru'_def last_of_def ends)
    next
      case False
      then show ?thesis
        using as tl unlink_middle_relink [OF at as False] lru_at_last_other [OF at False]
        by (simp add: lru_delete_def lru'_def last_of_def ends)
    qed
  qed
  moreover have "filter (\<lambda>(b, _). b \<noteq> a) (lru_items lru) = map (\<lambda>x. (x, lru_val lru x)) (as @ bs)"
    unfolding it by (rule filter_other_items) (use at in \<open>simp add: lru_at_def\<close>)
  ultimately show ?thesis using lru_at_removed [OF at lru'_def] by (auto intro: lru_okI)
qed

text \<open>The detached half of \<open>lru_update\<close>: both branches leave the relinked memory.\<close>

lemma lru_update_detach:
  assumes at: "lru_at lru (as @ a # bs)" and as: "as \<noteq> []"
  shows "(if Some a = lru_tail lru
          then bindE (load (lru_mem lru) (Some a)) (\<lambda>n.
               bindE (store (lru_mem lru) (n_prev n) (\<lambda>x. x\<lparr>n_next := None\<rparr>)) (\<lambda>m.
               Inr (lru\<lparr>lru_tail := n_prev n, lru_mem := m\<rparr>)))
          else bindE (unlink_middle (lru_mem lru) (Some a)) (\<lambda>m. Inr (lru\<lparr>lru_mem := m\<rparr>)))
       = Inr (lru\<lparr>lru_tail := last_of None (as @ bs), lru_mem := relink (lru_mem lru) as bs\<rparr>)"
proof -
  note ends = lru_at_tail_iff [OF at]
  have tl: "lru_tail lru = last_of None (as @ a # bs)" using at by (simp add: lru_at_def)
  show ?thesis
  proof (cases "bs = []")
    case True
    obtain n where n: "lru_mem lru a = Some n" using lru_at_mem [OF at] by auto
    obtain nl where nl: "lru_mem lru (last as) = Some nl" using lru_at_mem [OF at] as by fastforce
    show ?thesis
      using as True n lru_at_links [OF at n] store_relink_nil [of "lru_mem lru", OF nl as]
      by (simp add: last_of_def ends)
  next
    case False
    then show ?thesis
      using as tl unlink_middle_relink [OF at as False] lru_at_last_other [OF at False] by (simp add: last_of_def ends)
  qed
qed

lemma lru_update_items:
  assumes ok: "lru_ok lru" and a: "a \<in> set (lru_addrs lru)"
  shows "\<exists>lru'. lru_update lru (Some a) = Inr lru' \<and> lru_ok lru' \<and>
                lru_items lru' = (a, lru_val lru a) # filter (\<lambda>(b, _). b \<noteq> a) (lru_items lru)"
proof -
  from ok a obtain as bs where at: "lru_at lru (as @ a # bs)"
    and it: "lru_items lru = map (\<lambda>x. (x, lru_val lru x)) (as @ a # bs)"
    by (rule lru_items_split)
  have d: "distinct (as @ a # bs)" using at by (simp add: lru_at_def)
  then have flt: "filter (\<lambda>(b, _). b \<noteq> a) (lru_items lru) = map (\<lambda>x. (x, lru_val lru x)) (as @ bs)"
    unfolding it by (rule filter_other_items)
  note ends = lru_at_tail_iff [OF at]
  show ?thesis
  proof (cases "as = []")
    case True
    then have "lru_update lru (Some a) = Inr lru" by (simp add: lru_update_def ends)
    with True flt it ok show ?thesis by auto
  next
    case False
    let ?h = "hd as" and ?m = "relink (lru_mem lru) as bs"
    have hd: "lru_head lru = Some ?h" using lru_at_head [OF at] False by (simp add: first_of_def)
    have ha: "?h \<noteq> a" "?h \<in> set as" using d False by auto
    obtain n0 nh0 where n0: "lru_mem lru a = Some n0" "lru_mem lru ?h = Some nh0"
      using lru_at_mem [OF at] ha by fastforce
    then obtain n nh where n: "?m a = Some n" "?m ?h = Some nh" "DATA n = DATA n0" "DATA nh = DATA nh0"
      by (simp add: relink_def Let_def)
    define m' where "m' = ?m(?h \<mapsto> nh\<lparr>n_prev := Some a\<rparr>, a \<mapsto> n\<lparr>n_prev := None, n_next := Some ?h\<rparr>)"
    define lru' where "lru' = lru\<lparr>lru_tail := last_of None (as @ bs), lru_mem := m', lru_head := Some a\<rparr>"
    have m'_eq: "m' = ?m(a \<mapsto> n\<lparr>n_prev := None\<rparr>, ?h \<mapsto> nh\<lparr>n_prev := Some a\<rparr>,
                        a \<mapsto> n\<lparr>n_prev := None, n_next := Some ?h\<rparr>)"
      using ha by (auto simp: m'_def fun_eq_iff)
    have "Some a \<noteq> lru_head lru" using hd ha by simp
    then have "lru_update lru (Some a) = Inr lru'"
      unfolding lru_update_def lru_update_detach [OF at False] using n(1,2) ha hd
      by (simp add: lru'_def m'_eq)
    moreover have at': "lru_at lru' (a # as @ bs)"
    proof -
      define lru1 where "lru1 = lru\<lparr>lru_mem := ?m\<rparr>"
      have seg: "dseg (lru_nx lru1) (lru_pv lru1) None (lru_head lru) (as @ bs) None"
        using relink_dseg [OF at, of ?m lru1] False by (simp add: lru1_def)
      have "dseg (lru_nx lru') (lru_pv lru') None (Some a) (a # as @ bs) None"
      proof (rule dseg_push_front [OF seg])
        fix y assume "y \<in> set (as @ bs)"
        then have "y \<noteq> a" using d by auto
        then show "lru_nx lru' y = lru_nx lru1 y"
          and "lru_pv lru' y = (if y = hd (as @ bs) then Some a else lru_pv lru1 y)"
          using n False by (auto simp: lru_nx_def lru_pv_def lru1_def lru'_def m'_def)
      qed (use d ha hd in \<open>simp_all add: lru_nx_def lru_pv_def lru'_def m'_def\<close>)
      moreover have "dom m' = set (as @ a # bs)"
        using at n ha by (auto simp: m'_def lru_at_def)
      ultimately show ?thesis
        using at False by (auto simp: lru_at_def lru'_def last_of_def)
    qed
    moreover have "lru_items lru' = (a, lru_val lru a) # map (\<lambda>x. (x, lru_val lru x)) (as @ bs)"
    proof -
      have "lru_val lru' x = lru_val lru x" if x: "x \<in> set (as @ a # bs)" for x
      proof -
        obtain k where k: "lru_mem lru x = Some k" using lru_at_mem [OF at x] by blast
        have "DATA (the (m' x)) = DATA (the (?m x))" using n(1,2) by (simp add: m'_def)
        also have "\<dots> = DATA k" using k by (rule relink_DATA)
        finally show ?thesis using k by (simp add: lru_val_def lru'_def)
      qed
      then show ?thesis unfolding lru_at_items [OF at'] by simp
    qed
    ultimately show ?thesis using flt lru_okI [OF at'] by (intro exI [of _ lru']) simp
  qed
qed

lemma lru_free_ok: "lru_ok lru \<Longrightarrow> \<exists>lru'. lru_free lru = Inr lru' \<and> lru_ok lru' \<and> lru_items lru' = []"
proof (induction "lru_items lru" arbitrary: lru rule: rev_induct)
  case Nil
  then show ?case by (subst lru_free.simps) (simp add: lru_pop_empty)
next
  case (snoc y ys)
  obtain a x where y: "y = (a, x)" by force
  from lru_pop_last [OF snoc.prems snoc.hyps(2) [symmetric, unfolded y]] obtain lru1
    where "lru_pop lru = Inr (Some x, lru1)" "lru_ok lru1" "lru_items lru1 = ys" by auto
  with snoc.hyps(1) [of lru1] show ?case by (subst lru_free.simps) simp
qed

section \<open>The contract of a recency list\<close>

text \<open>
  \<open>items\<close> lists the entries with their handles, most recently used first. Touching an entry moves
  it to the front, popping takes the last.
\<close>

locale recency_list =
  fixes empty :: 'l
    and push :: "'l \<Rightarrow> 'a \<Rightarrow> (addr \<times> 'l) res"
    and pop :: "'l \<Rightarrow> ('a option \<times> 'l) res"
    and touch :: "'l \<Rightarrow> addr option \<Rightarrow> 'l res"
    and delete :: "'l \<Rightarrow> addr option \<Rightarrow> 'l res"
    and items :: "'l \<Rightarrow> (addr \<times> 'a) list"
    and ok :: "'l \<Rightarrow> bool"
  assumes ok_empty: "ok empty" and items_empty: "items empty = []"
    and distinct_items: "ok l \<Longrightarrow> distinct (map fst (items l))"
    and push_items: "ok l \<Longrightarrow> \<exists>a l'. push l x = Inr (a, l') \<and> ok l' \<and> items l' = (a, x) # items l"
    and pop_nil: "ok l \<Longrightarrow> items l = [] \<Longrightarrow> pop l = Inr (None, l)"
    and pop_snoc: "ok l \<Longrightarrow> items l = xs @ [(a, x)] \<Longrightarrow>
          \<exists>l'. pop l = Inr (Some x, l') \<and> ok l' \<and> items l' = xs"
    and touch_items: "ok l \<Longrightarrow> map_of (items l) a = Some x \<Longrightarrow>
          \<exists>l'. touch l (Some a) = Inr l' \<and> ok l' \<and> items l' = (a, x) # filter (\<lambda>(b, _). b \<noteq> a) (items l)"
    and delete_items: "ok l \<Longrightarrow> map_of (items l) a = Some x \<Longrightarrow>
          \<exists>l'. delete l (Some a) = Inr l' \<and> ok l' \<and> items l' = filter (\<lambda>(b, _). b \<noteq> a) (items l)"
begin

text \<open>The handles in the order in which pops would take them.\<close>

definition eviction_order :: "'l \<Rightarrow> addr list" where
  "eviction_order l = rev (map fst (items l))"

definition touch_all :: "addr list \<Rightarrow> 'l \<Rightarrow> 'l res" where
  "touch_all = foldE (\<lambda>a l. touch l (Some a))"

lemma touch_order:
  assumes ok: "ok l" and a: "a \<in> set (eviction_order l)"
  shows "\<exists>l'. touch l (Some a) = Inr l' \<and> ok l' \<and> map_of (items l') = map_of (items l) \<and>
              eviction_order l' = filter (\<lambda>b. b \<noteq> a) (eviction_order l) @ [a]"
proof -
  from a obtain x where x: "map_of (items l) a = Some x"
    by (metis eviction_order_def list.set_map map_of_eq_None_iff not_None_eq set_rev)
  from touch_items [OF ok x] obtain l' where l': "touch l (Some a) = Inr l'" "ok l'"
    "items l' = (a, x) # filter (\<lambda>(b, _). b \<noteq> a) (items l)" by blast
  have "map_of (filter (\<lambda>(b, _). b \<noteq> a) ys) b = (if b = a then None else map_of ys b)"
    for ys :: "(addr \<times> 'a) list" and b
    by (induction ys) auto
  then have "map_of (items l') = map_of (items l)" using x l'(3) by (auto simp: fun_eq_iff)
  moreover have "map fst (filter (\<lambda>(b, _). b \<noteq> a) ys) = filter (\<lambda>b. b \<noteq> a) (map fst ys)"
    for ys :: "(addr \<times> 'a) list"
    by (induction ys) auto
  then have "eviction_order l' = filter (\<lambda>b. b \<noteq> a) (eviction_order l) @ [a]"
    using l'(3) by (simp add: eviction_order_def rev_filter)
  ultimately show ?thesis using l' by blast
qed

lemma remdups_snoc: "remdups (ys @ [a]) = filter (\<lambda>b. b \<noteq> a) (remdups ys) @ [a]"
  by (induction ys) auto

text \<open>
  After any sequence of touches the eviction order is the old order followed by the touches, with
  only the last occurrence of each handle kept.
\<close>

lemma touch_all_order:
  assumes ok: "ok l" and ts: "set ts \<subseteq> set (eviction_order l)"
  shows "\<exists>l'. touch_all ts l = Inr l' \<and> ok l' \<and> map_of (items l') = map_of (items l) \<and>
              eviction_order l' = remdups (eviction_order l @ ts)"
proof -
  define P where "P = (\<lambda>done l'. ok l' \<and> map_of (items l') = map_of (items l) \<and>
     eviction_order l' = remdups (eviction_order l @ done))"
  have "\<exists>l'. foldE (\<lambda>a l. touch l (Some a)) ts l = Inr l' \<and> P ts l'"
  proof (rule foldE_invariant)
    show "P [] l" using ok distinct_items [OF ok]
      by (simp add: P_def eviction_order_def distinct_remdups_id)
  next
    fix "done" a todo l1
    assume split: "ts = done @ a # todo" and P: "P done l1"
    then have "a \<in> set (eviction_order l1)" using ts by (auto simp: P_def)
    from touch_order [OF _ this] P obtain l2 where
      l2: "touch l1 (Some a) = Inr l2" "ok l2" "map_of (items l2) = map_of (items l1)"
        "eviction_order l2 = filter (\<lambda>b. b \<noteq> a) (eviction_order l1) @ [a]"
      by (auto simp: P_def)
    have "eviction_order l2 = remdups (eviction_order l @ done @ [a])"
      using l2(4) P remdups_snoc [of "eviction_order l @ done" a] by (simp add: P_def)
    then show "\<exists>t'. touch l1 (Some a) = Inr t' \<and> P (done @ [a]) t'"
      using l2 P by (simp add: P_def)
  qed
  then show ?thesis by (simp add: P_def touch_all_def)
qed

lemma pop_order:
  assumes ok: "ok l" and o: "eviction_order l = a # as"
  shows "\<exists>x l'. map_of (items l) a = Some x \<and> pop l = Inr (Some x, l') \<and> ok l' \<and> eviction_order l' = as"
proof -
  from o obtain xs x where xs: "items l = xs @ [(a, x)]" "rev (map fst xs) = as"
    by (cases "items l" rule: rev_cases) (auto simp: eviction_order_def)
  moreover have "map_of (items l) a = Some x"
    using distinct_items [OF ok] xs(1) by (intro map_of_is_SomeI) auto
  ultimately show ?thesis using pop_snoc [OF ok xs(1)] by (auto simp: eviction_order_def)
qed

end

lemma lru_items_map: "map fst (lru_items lru) = lru_addrs lru"
  by (simp add: lru_items_def o_def)

lemma lru_items_lookup: "map_of (lru_items lru) a = Some x \<longleftrightarrow> a \<in> set (lru_addrs lru) \<and> x = lru_val lru a"
  by (auto simp: lru_items_def map_of_map_restrict restrict_map_def split: if_splits)

interpretation rl: recency_list "lru_init :: 'a LRU" lru_push lru_pop lru_update lru_delete lru_items lru_ok
proof unfold_locales
  fix l :: "'a LRU" assume "lru_ok l"
  then show "distinct (map fst (lru_items l))"
    by (auto simp: lru_items_map lru_ok_def lru_at_def)
next
  fix l :: "'a LRU" and a x assume "lru_ok l" "map_of (lru_items l) a = Some x"
  then show "\<exists>l'. lru_update l (Some a) = Inr l' \<and> lru_ok l' \<and>
               lru_items l' = (a, x) # filter (\<lambda>(b, _). b \<noteq> a) (lru_items l)"
    and "\<exists>l'. lru_delete l (Some a) = Inr l' \<and> lru_ok l' \<and>
               lru_items l' = filter (\<lambda>(b, _). b \<noteq> a) (lru_items l)"
    using lru_update_items [of l a] lru_delete_items [of l a] by (auto simp: lru_items_lookup)
next
  fix l :: "'a LRU" and x assume "lru_ok l"
  from lru_push_items [OF this, of x]
  show "\<exists>a l'. lru_push l x = Inr (a, l') \<and> lru_ok l' \<and> lru_items l' = (a, x) # lru_items l" by blast
qed (simp_all add: lru_init_ok lru_pop_empty lru_pop_last)

section \<open>Properties\<close>

text \<open>Pushing a list of entries, and popping a number of them.\<close>

definition lru_push_all :: "'a list \<Rightarrow> 'a LRU \<Rightarrow> 'a LRU res" where
  "lru_push_all = foldE (\<lambda>x l. bindE (lru_push l x) (\<lambda>r. Inr (snd r)))"

fun lru_pops :: "nat \<Rightarrow> 'a LRU \<Rightarrow> ('a option list \<times> 'a LRU) res" where
  "lru_pops 0 l = Inr ([], l)"
| "lru_pops (Suc n) l =
     bindE (lru_pop l) (\<lambda>(x, l1). bindE (lru_pops n l1) (\<lambda>(xs, l2). Inr (x # xs, l2)))"

lemma lru_push_fresh: "lru_push l x = Inr (a, l') \<Longrightarrow> lru_fresh l' = Suc (lru_fresh l)"
  by (auto simp: lru_push_def Let_def bindE_eq_Inr split: if_splits)

lemma lru_push_all_items:
  "\<exists>l. lru_push_all xs lru_init = Inr l \<and> lru_ok l \<and> lru_fresh l = length xs \<and>
     lru_items l = rev (zip [0..<length xs] xs)"
proof (induction xs rule: rev_induct)
  case Nil
  then show ?case by (simp add: lru_push_all_def lru_init_ok) (simp add: lru_init_def)
next
  case (snoc x xs)
  then obtain l where l: "lru_push_all xs lru_init = Inr l" "lru_ok l" "lru_fresh l = length xs"
    "lru_items l = rev (zip [0..<length xs] xs)" by blast
  then obtain l' where l': "lru_push l x = Inr (length xs, l')" "lru_ok l'"
    "lru_items l' = (length xs, x) # lru_items l" using lru_push_items [OF l(2), of x] by auto
  moreover have "lru_fresh l' = Suc (length xs)" using lru_push_fresh [OF l'(1)] l(3) by simp
  ultimately show ?case using l by (simp add: lru_push_all_def foldE_append)
qed

lemma lru_pops_order:
  assumes "lru_ok l" "rl.eviction_order l = as" "\<And>a. a \<in> set as \<Longrightarrow> map_of (lru_items l) a = Some (f a)"
  shows "\<exists>l'. lru_pops (length as) l = Inr (map (\<lambda>a. Some (f a)) as, l') \<and> lru_ok l' \<and> lru_items l' = []"
  using assms
proof (induction as arbitrary: l)
  case Nil
  then show ?case by (simp add: rl.eviction_order_def)
next
  case (Cons a as)
  obtain l1 where l1: "lru_pop l = Inr (Some (f a), l1)" "lru_ok l1" "rl.eviction_order l1 = as"
    using rl.pop_order [OF Cons.prems(1,2)] Cons.prems(3) [of a] by auto
  have "map_of (lru_items l1) b = Some (f b)" if b: "b \<in> set as" for b
  proof -
    obtain xs y where xs: "lru_items l = xs @ [y]"
      using Cons.prems(2) unfolding rl.eviction_order_def by (metis list.simps(8) rev.simps(1) rev_exhaust list.distinct(1))
    obtain l2 where "lru_pop l = Inr (Some (snd y), l2)" "lru_items l2 = xs"
      using lru_pop_last [OF Cons.prems(1), of xs "fst y" "snd y"] xs by auto
    then have it: "lru_items l = lru_items l1 @ [y]" using l1(1) xs by simp
    have "distinct (map fst (lru_items l))" using Cons.prems(1) by (rule rl.distinct_items)
    moreover have "b \<in> set (map fst (lru_items l1))" using b l1(3) by (auto simp: rl.eviction_order_def)
    ultimately show ?thesis using Cons.prems(3) [of b] b it by (auto simp: map_add_Some_iff map_add_def split: option.splits)
  qed
  then show ?case using Cons.IH [OF l1(2,3)] l1(1) by auto
qed

text \<open>
  C9: The list evicts in the order of last use: after pushing the entries \<open>xs\<close> (whose nodes are
  numbered in the order of their creation) and then updating the nodes \<open>ts\<close> in turn, the successive
  results of \<open>lru_pop\<close> are the entries in the order of the sequence \<open>0, 1, \<dots>, ts\<close>, where every node
  counts at its last occurrence; nothing is lost and nothing is evicted twice.
\<close>

theorem lru_evicts_least_recently_used:
  assumes "set ts \<subseteq> {..<length xs}"
  shows "\<exists>l1 l2 l3. lru_push_all xs lru_init = Inr l1 \<and> foldE (\<lambda>a l. lru_update l (Some a)) ts l1 = Inr l2 \<and>
    lru_pops (length xs) l2 = Inr (map (\<lambda>a. Some (xs ! a)) (remdups ([0..<length xs] @ ts)), l3) \<and>
    lru_items l3 = [] \<and> length (remdups ([0..<length xs] @ ts)) = length xs"
proof -
  obtain l1 where l1: "lru_push_all xs lru_init = Inr l1" "lru_ok l1" "lru_items l1 = rev (zip [0..<length xs] xs)"
    using lru_push_all_items by blast
  have eo: "rl.eviction_order l1 = [0..<length xs]"
    by (simp add: rl.eviction_order_def l1(3) rev_map)
  have ts: "set ts \<subseteq> set (rl.eviction_order l1)" using assms eo by auto
  obtain l2 where l2: "foldE (\<lambda>a l. lru_update l (Some a)) ts l1 = Inr l2" "lru_ok l2"
    "map_of (lru_items l2) = map_of (lru_items l1)" "rl.eviction_order l2 = remdups ([0..<length xs] @ ts)"
    using rl.touch_all_order [OF l1(2) ts] unfolding rl.touch_all_def eo by blast
  have set: "set (remdups ([0..<length xs] @ ts)) = {0..<length xs}" using assms by auto
  then have len: "length (remdups ([0..<length xs] @ ts)) = length xs"
    by (metis card_atLeastLessThan diff_zero distinct_card distinct_remdups)
  have "map_of (lru_items l2) a = Some (xs ! a)" if "a \<in> set (remdups ([0..<length xs] @ ts))" for a
  proof -
    have "a < length xs" using that unfolding set by simp
    then have "(a, xs ! a) \<in> set (rev (zip [0..<length xs] xs))"
      by (auto simp: in_set_zip intro: exI [of _ a])
    moreover have "distinct (map fst (rev (zip [0..<length xs] xs)))" by (simp add: rev_map [symmetric])
    ultimately show ?thesis unfolding l2(3) l1(3) by (rule map_of_is_SomeI [rotated])
  qed
  from lru_pops_order [OF l2(2,4) this] show ?thesis using l1(1) l2(1) len by auto
qed

theorem lru_evicts_least_recently_used_witness:
  "\<exists>l1 l2 l3. lru_push_all ''abc'' lru_init = Inr l1 \<and> foldE (\<lambda>a l. lru_update l (Some a)) [0, 2, 0] l1 = Inr l2 \<and>
    lru_pops (length ''abc'') l2 = Inr (map (\<lambda>a. Some (''abc'' ! a)) (remdups ([0..<length ''abc''] @ [0, 2, 0])), l3) \<and>
    lru_items l3 = [] \<and> length (remdups ([0..<length ''abc''] @ [0, 2, 0])) = length ''abc''"
  by (rule lru_evicts_least_recently_used) simp

end
