(* ===== verification/FD_Queue.thy ===== *)
theory FD_Queue
  imports Heap_Lists
begin

text \<open>
  The bounded FIFO queue of \<^verbatim>\<open>src/interface/queue.c\<close>: a singly linked list of nodes obtained with
  \<open>malloc\<close> and given back with \<open>free\<close>. Every operation holds \<open>q_lock\<close> from its first statement to its
  return, so an operation is one atomic step of the model. The contract \<open>bounded_fifo\<close> is what
  the block managers and the lower layer rely on; it is interpreted on the pointer
  implementation at the end.
\<close>

section \<open>The structure and its operations\<close>

text \<open>
  A node holds the request pointer (never \<open>NULL\<close>) or the integer of the union \<open>d\<close>, and \<open>next\<close>; the
  code never writes \<open>prev\<close>. \<open>q_mem\<close> maps the addresses that \<open>malloc\<close> handed out and \<open>free\<close> has not
  taken back to their nodes, and \<open>q_fresh\<close> is the address the next \<open>malloc\<close> returns.
\<close>

record 'a qnode =
  qn_d :: 'a
  qn_next :: "addr option"

record 'a queue =
  q_size :: nat
  q_msize :: nat
  q_head :: "addr option"
  q_tail :: "addr option"
  q_mem :: "addr \<rightharpoonup> 'a qnode"
  q_fresh :: addr

definition q_init :: "nat \<Rightarrow> 'a queue" where
  "q_init qsize =
     \<lparr>q_size = 0, q_msize = qsize, q_head = None, q_tail = None, q_mem = Map.empty, q_fresh = 0\<rparr>"

definition q_enqueue :: "'a \<Rightarrow> 'a queue \<Rightarrow> (bool \<times> 'a queue) res" where
  "q_enqueue req q =
     (if q_size q = q_msize q then Inr (False, q)
      else
        let new_node = q_fresh q;
            q1 = q\<lparr>q_mem := (q_mem q)(new_node \<mapsto> \<lparr>qn_d = req, qn_next = None\<rparr>),
                   q_fresh := new_node + 1\<rparr>
        in if q_size q = 0
           then Inr (True, q1\<lparr>q_head := Some new_node, q_tail := Some new_node,
                              q_size := q_size q + 1\<rparr>)
           else bindE (deref (q_tail q)) (\<lambda>t.
                bindE (deref (q_mem q1 t)) (\<lambda>n.
                Inr (True, q1\<lparr>q_mem := (q_mem q1)(t \<mapsto> n\<lparr>qn_next := Some new_node\<rparr>),
                              q_tail := Some new_node, q_size := q_size q + 1\<rparr>))))"

definition q_enqueue_front :: "'a \<Rightarrow> 'a queue \<Rightarrow> (bool \<times> 'a queue) res" where
  "q_enqueue_front req q =
     (if q_size q = q_msize q then Inr (False, q)
      else
        let new_node = q_fresh q;
            q1 = q\<lparr>q_mem := (q_mem q)(new_node \<mapsto> \<lparr>qn_d = req, qn_next = None\<rparr>),
                   q_fresh := new_node + 1\<rparr>
        in if q_size q = 0
           then Inr (True, q1\<lparr>q_head := Some new_node, q_tail := Some new_node,
                              q_size := q_size q + 1\<rparr>)
           else Inr (True, q1\<lparr>q_mem := (q_mem q1)(new_node \<mapsto>
                                \<lparr>qn_d = req, qn_next = q_head q\<rparr>),
                              q_head := Some new_node, q_size := q_size q + 1\<rparr>))"

definition q_dequeue :: "'a queue \<Rightarrow> ('a option \<times> 'a queue) res" where
  "q_dequeue q =
     (case q_head q of
        None \<Rightarrow> Inr (None, q)
      | Some target_node \<Rightarrow>
          if q_size q = 0 then Inr (None, q)
          else bindE (deref (q_mem q target_node)) (\<lambda>n.
               Inr (Some (qn_d n),
                    q\<lparr>q_head := qn_next n, q_size := q_size q - 1,
                      q_mem := (q_mem q)(target_node := None)\<rparr>)))"

definition q_pick :: "'a queue \<Rightarrow> 'a option res" where
  "q_pick q =
     (case q_head q of
        None \<Rightarrow> Inr None
      | Some target_node \<Rightarrow>
          if q_size q = 0 then Inr None
          else bindE (deref (q_mem q target_node)) (\<lambda>n. Inr (Some (qn_d n))))"

text \<open>The loop of \<open>q_free\<close>; the queue it returns is the one the final \<open>free(q)\<close> gives back.\<close>

lemma q_dequeue_size: "q_dequeue q = Inr (Some x, q') \<Longrightarrow> q_size q' < q_size q"
  by (auto simp: q_dequeue_def bindE_eq_Inr split: option.splits if_splits)

function q_free :: "'a queue \<Rightarrow> 'a queue res" where
  "q_free q =
     (case q_dequeue q of
        Inl e \<Rightarrow> Inl e
      | Inr (None, q') \<Rightarrow> Inr q'
      | Inr (Some _, q') \<Rightarrow> q_free q')"
  by pat_completeness auto
termination
  by (relation "measure q_size") (auto dest: q_dequeue_size)

declare q_free.simps [simp del]

text \<open>
  The integer flavour differs in the result for an empty queue only: \<open>q_dequeue_int\<close> returns 0,
  which a queued 0 returns too.
\<close>

definition q_enqueue_int :: "int \<Rightarrow> int queue \<Rightarrow> (bool \<times> int queue) res" where
  "q_enqueue_int req q =
     (if q_size q = q_msize q then Inr (False, q)
      else
        let new_node = q_fresh q;
            q1 = q\<lparr>q_mem := (q_mem q)(new_node \<mapsto> \<lparr>qn_d = req, qn_next = None\<rparr>),
                   q_fresh := new_node + 1\<rparr>
        in if q_size q = 0
           then Inr (True, q1\<lparr>q_head := Some new_node, q_tail := Some new_node,
                              q_size := q_size q + 1\<rparr>)
           else bindE (deref (q_tail q)) (\<lambda>t.
                bindE (deref (q_mem q1 t)) (\<lambda>n.
                Inr (True, q1\<lparr>q_mem := (q_mem q1)(t \<mapsto> n\<lparr>qn_next := Some new_node\<rparr>),
                              q_tail := Some new_node, q_size := q_size q + 1\<rparr>))))"

definition q_dequeue_int :: "int queue \<Rightarrow> (int \<times> int queue) res" where
  "q_dequeue_int q =
     (case q_head q of
        None \<Rightarrow> Inr (0, q)
      | Some target_node \<Rightarrow>
          if q_size q = 0 then Inr (0, q)
          else bindE (deref (q_mem q target_node)) (\<lambda>n.
               Inr (qn_d n,
                    q\<lparr>q_head := qn_next n, q_size := q_size q - 1,
                      q_mem := (q_mem q)(target_node := None)\<rparr>)))"

section \<open>Abstraction and invariant\<close>

definition q_next :: "'a queue \<Rightarrow> link" where
  "q_next q a = (case q_mem q a of None \<Rightarrow> None | Some n \<Rightarrow> qn_next n)"

definition q_addrs :: "'a queue \<Rightarrow> addr list" where
  "q_addrs q = walk (q_next q) (q_head q) (q_size q)"

definition q_list :: "'a queue \<Rightarrow> 'a list" where
  "q_list q = map (\<lambda>a. qn_d (the (q_mem q a))) (q_addrs q)"

text \<open>
  \<open>q_at q as\<close>: the queue is well formed and its nodes are, in order, at \<open>as\<close>. The store holds
  these nodes and no others, so nothing is leaked and nothing freed is reachable. The \<open>tail\<close>
  pointer is only meaningful while the queue is not empty: \<open>q_dequeue\<close> leaves it dangling.
\<close>

definition q_at :: "'a queue \<Rightarrow> addr list \<Rightarrow> bool" where
  "q_at q as \<longleftrightarrow>
     chain (q_next q) (q_head q) as \<and> distinct as \<and> dom (q_mem q) = set as \<and>
     (\<forall>a\<in>set as. a < q_fresh q) \<and> (as \<noteq> [] \<longrightarrow> q_tail q = Some (last as)) \<and>
     q_size q = length as \<and> q_size q \<le> q_msize q"

definition q_ok :: "'a queue \<Rightarrow> bool" where
  "q_ok q \<longleftrightarrow> q_at q (q_addrs q)"

lemma q_at_addrs: "q_at q as \<Longrightarrow> q_addrs q = as"
  by (metis q_addrs_def q_at_def walk_chain)

lemma q_okI: "q_at q as \<Longrightarrow> q_ok q"
  by (simp add: q_ok_def q_at_addrs)

lemma q_ok_cases [elim?]:
  assumes "q_ok q"
  obtains as where "q_at q as" "q_list q = map (\<lambda>a. qn_d (the (q_mem q a))) as"
  using assms by (metis q_list_def q_ok_def)

lemma q_at_list: "q_at q as \<Longrightarrow> q_list q = map (\<lambda>a. qn_d (the (q_mem q a))) as"
  by (simp add: q_list_def q_at_addrs)

lemma q_ok_size: "q_ok q \<Longrightarrow> q_size q = length (q_list q)"
  by (auto simp: q_ok_def q_at_def q_list_def)

lemma q_ok_bound: "q_ok q \<Longrightarrow> length (q_list q) \<le> q_msize q"
  by (auto simp: q_ok_def q_at_def q_list_def)

lemma q_ok_dom: "q_ok q \<Longrightarrow> q_list q = [] \<longleftrightarrow> q_mem q = Map.empty"
  by (auto simp: q_ok_def q_at_def q_list_def)

lemma q_init_ok: "q_ok (q_init n)" "q_list (q_init n) = []" "q_msize (q_init n) = n"
proof -
  have "q_at (q_init n) []" by (simp add: q_at_def q_init_def)
  then show "q_ok (q_init n)" by (rule q_okI)
qed (simp_all add: q_init_def q_list_def q_addrs_def)

section \<open>Every operation refines its list counterpart\<close>

lemma q_at_nth_mem: "q_at q as \<Longrightarrow> a \<in> set as \<Longrightarrow> \<exists>n. q_mem q a = Some n"
  by (auto simp: q_at_def)

lemma q_at_fresh: "q_at q as \<Longrightarrow> q_fresh q \<notin> set as"
  by (auto simp: q_at_def)

lemma q_enqueue_room:
  assumes ok: "q_ok q" and room: "length (q_list q) < q_msize q"
  shows "\<exists>q'. q_enqueue x q = Inr (True, q') \<and> q_ok q' \<and>
              q_list q' = q_list q @ [x] \<and> q_msize q' = q_msize q"
proof -
  from ok obtain as where at: "q_at q as" and ls: "q_list q = map (\<lambda>a. qn_d (the (q_mem q a))) as"
    by (rule q_ok_cases)
  let ?b = "q_fresh q"
  have sz: "q_size q = length as" and fresh: "?b \<notin> set as" and full: "q_size q \<noteq> q_msize q"
    using at room ls by (auto simp: q_at_def)
  show ?thesis
  proof (cases "as = []")
    case True
    let ?q' = "q\<lparr>q_mem := (q_mem q)(?b \<mapsto> \<lparr>qn_d = x, qn_next = None\<rparr>), q_fresh := ?b + 1,
                 q_head := Some ?b, q_tail := Some ?b, q_size := q_size q + 1\<rparr>"
    have "q_enqueue x q = Inr (True, ?q')"
      using True sz full by (simp add: q_enqueue_def Let_def)
    moreover have "q_at ?q' [?b]"
      using at True room ls by (auto simp: q_at_def q_next_def)
    moreover have "q_list ?q' = q_list q @ [x]"
      using calculation(2) ls True by (simp add: q_at_list)
    ultimately show ?thesis by (auto intro: q_okI)
  next
    case False
    then obtain n where n: "q_mem q (last as) = Some n"
      using q_at_nth_mem [OF at] by fastforce
    let ?m = "(q_mem q)(?b \<mapsto> \<lparr>qn_d = x, qn_next = None\<rparr>, last as \<mapsto> n\<lparr>qn_next := Some ?b\<rparr>)"
    let ?q' = "q\<lparr>q_mem := ?m, q_fresh := ?b + 1, q_tail := Some ?b, q_size := q_size q + 1\<rparr>"
    have tl: "q_tail q = Some (last as)" using at False by (simp add: q_at_def)
    have nb: "last as \<noteq> ?b" using False fresh last_in_set by metis
    have "q_enqueue x q = Inr (True, ?q')"
      using False sz full n tl nb by (simp add: q_enqueue_def Let_def)
    moreover have at': "q_at ?q' (as @ [?b])"
    proof -
      have "chain (q_next ?q') (q_head q) (as @ [?b])"
      proof (rule chain_snoc [where nx = "q_next q"])
        show "chain (q_next q) (q_head q) as" "distinct as" using at by (simp_all add: q_at_def)
      qed (use False fresh nb in \<open>auto simp: q_next_def\<close>)
      then show ?thesis using at False fresh room ls by (auto simp: q_at_def less_SucI)
    qed
    moreover have "q_list ?q' = q_list q @ [x]"
      unfolding q_at_list [OF at'] ls using fresh nb n by auto
    ultimately show ?thesis by (auto intro: q_okI)
  qed
qed

lemma q_enqueue_full:
  "q_ok q \<Longrightarrow> length (q_list q) = q_msize q \<Longrightarrow> q_enqueue x q = Inr (False, q)"
  by (simp add: q_enqueue_def q_ok_size)

lemma q_enqueue_front_room:
  assumes ok: "q_ok q" and room: "length (q_list q) < q_msize q"
  shows "\<exists>q'. q_enqueue_front x q = Inr (True, q') \<and> q_ok q' \<and>
              q_list q' = x # q_list q \<and> q_msize q' = q_msize q"
proof -
  from ok obtain as where at: "q_at q as" and ls: "q_list q = map (\<lambda>a. qn_d (the (q_mem q a))) as"
    by (rule q_ok_cases)
  let ?b = "q_fresh q"
  have sz: "q_size q = length as" and fresh: "?b \<notin> set as" and full: "q_size q \<noteq> q_msize q"
    using at room ls by (auto simp: q_at_def)
  let ?q' = "q\<lparr>q_mem := (q_mem q)(?b \<mapsto> \<lparr>qn_d = x, qn_next = q_head q\<rparr>), q_fresh := ?b + 1,
               q_head := Some ?b, q_tail := (if as = [] then Some ?b else q_tail q),
               q_size := q_size q + 1\<rparr>"
  have hd: "as = [] \<Longrightarrow> q_head q = None" using at by (simp add: q_at_def)
  have "q_enqueue_front x q = Inr (True, ?q')"
    using sz full hd by (cases "as = []") (simp_all add: q_enqueue_front_def Let_def)
  moreover have at': "q_at ?q' (?b # as)"
  proof -
    have "chain (q_next ?q') (q_head q) as = chain (q_next q) (q_head q) as"
      by (rule chain_cong) (use fresh in \<open>auto simp: q_next_def\<close>)
    moreover have "q_next ?q' ?b = q_head q" by (simp add: q_next_def)
    ultimately show ?thesis using at fresh room ls by (auto simp: q_at_def less_SucI)
  qed
  moreover have "q_list ?q' = x # q_list q"
    unfolding q_at_list [OF at'] ls using fresh by auto
  ultimately show ?thesis by (auto intro: q_okI)
qed

lemma q_dequeue_empty: "q_ok q \<Longrightarrow> q_list q = [] \<Longrightarrow> q_dequeue q = Inr (None, q)"
  by (auto simp: q_dequeue_def q_ok_size split: option.split)

lemma q_dequeue_cons:
  assumes ok: "q_ok q" and xs: "q_list q = x # xs"
  shows "\<exists>q'. q_dequeue q = Inr (Some x, q') \<and> q_ok q' \<and> q_list q' = xs \<and> q_msize q' = q_msize q"
proof -
  from ok obtain as where at: "q_at q as" and ls: "q_list q = map (\<lambda>a. qn_d (the (q_mem q a))) as"
    by (rule q_ok_cases)
  from ls xs obtain a bs where as: "as = a # bs" by (cases as) auto
  then obtain n where n: "q_mem q a = Some n" using q_at_nth_mem [OF at] by auto
  let ?q' = "q\<lparr>q_head := qn_next n, q_size := q_size q - 1, q_mem := (q_mem q)(a := None)\<rparr>"
  have "q_head q = Some a" "q_size q = length as" "x = qn_d n"
    using at as n ls xs by (auto simp: q_at_def)
  then have "q_dequeue q = Inr (Some x, ?q')" using as n by (simp add: q_dequeue_def)
  moreover have at': "q_at ?q' bs"
  proof -
    have "chain (q_next ?q') (qn_next n) bs = chain (q_next q) (qn_next n) bs"
      by (rule chain_cong) (use at as in \<open>auto simp: q_next_def q_at_def\<close>)
    moreover have "chain (q_next q) (qn_next n) bs" using at as n by (auto simp: q_at_def q_next_def)
    ultimately show ?thesis using at as by (auto simp: q_at_def split: if_splits)
  qed
  moreover have "q_list ?q' = xs"
    unfolding q_at_list [OF at'] using ls xs as at by (auto simp: q_at_def)
  ultimately show ?thesis by (auto intro: q_okI)
qed

lemma q_pick_list: "q_ok q \<Longrightarrow> q_pick q = Inr (case q_list q of [] \<Rightarrow> None | x # _ \<Rightarrow> Some x)"
  using q_dequeue_empty [of q] q_dequeue_cons [of q]
  by (cases "q_list q")
     (force simp: q_pick_def q_dequeue_def bindE_eq_Inr split: option.splits if_splits)+

lemma q_free_ok: "q_ok q \<Longrightarrow> \<exists>q'. q_free q = Inr q' \<and> q_ok q' \<and> q_list q' = []"
proof (induction "q_list q" arbitrary: q)
  case Nil
  then show ?case by (subst q_free.simps) (simp add: q_dequeue_empty)
next
  case (Cons x xs)
  from q_dequeue_cons [OF Cons.prems Cons.hyps(2) [symmetric]] obtain q1
    where q1: "q_dequeue q = Inr (Some x, q1)" "q_ok q1" "q_list q1 = xs" by auto
  with Cons.hyps(1) [of q1] show ?case by (subst q_free.simps) simp
qed

section \<open>The contract of a bounded FIFO queue\<close>

text \<open>
  What the clients of the queue rely on. \<open>contents\<close> is the list of queued elements, oldest first;
  an enqueue into a full queue reports failure and changes nothing; no operation fails.
\<close>

locale bounded_fifo =
  fixes init :: "nat \<Rightarrow> 'q"
    and enq :: "'a \<Rightarrow> 'q \<Rightarrow> (bool \<times> 'q) res"
    and deq :: "'q \<Rightarrow> ('a option \<times> 'q) res"
    and contents :: "'q \<Rightarrow> 'a list"
    and bound :: "'q \<Rightarrow> nat"
    and ok :: "'q \<Rightarrow> bool"
  assumes ok_init: "ok (init n)"
    and contents_init: "contents (init n) = []"
    and bound_init: "bound (init n) = n"
    and enq_room: "ok q \<Longrightarrow> length (contents q) < bound q \<Longrightarrow>
          \<exists>q'. enq x q = Inr (True, q') \<and> ok q' \<and> contents q' = contents q @ [x] \<and> bound q' = bound q"
    and enq_full: "ok q \<Longrightarrow> length (contents q) = bound q \<Longrightarrow> enq x q = Inr (False, q)"
    and deq_empty: "ok q \<Longrightarrow> contents q = [] \<Longrightarrow> deq q = Inr (None, q)"
    and deq_cons: "ok q \<Longrightarrow> contents q = x # xs \<Longrightarrow>
          \<exists>q'. deq q = Inr (Some x, q') \<and> ok q' \<and> contents q' = xs \<and> bound q' = bound q"
    and ok_bound: "ok q \<Longrightarrow> length (contents q) \<le> bound q"
begin

text \<open>The loops of the clients: enqueue a whole list, dequeue a number of elements.\<close>

definition enq_all :: "'a list \<Rightarrow> 'q \<Rightarrow> 'q res" where
  "enq_all = foldE (\<lambda>x q. bindE (enq x q) (\<lambda>r. Inr (snd r)))"

fun deq_n :: "nat \<Rightarrow> 'q \<Rightarrow> ('a option list \<times> 'q) res" where
  "deq_n 0 q = Inr ([], q)"
| "deq_n (Suc n) q =
     bindE (deq q) (\<lambda>(x, q1). bindE (deq_n n q1) (\<lambda>(xs, q2). Inr (x # xs, q2)))"

lemma enq_all_room:
  assumes "ok q" "length (contents q) + length xs \<le> bound q"
  shows "\<exists>q'. enq_all xs q = Inr q' \<and> ok q' \<and> contents q' = contents q @ xs \<and> bound q' = bound q"
  using assms
proof (induction xs arbitrary: q)
  case Nil
  then show ?case by (simp add: enq_all_def)
next
  case (Cons x xs)
  from Cons.prems enq_room [of q x] obtain q1 where q1: "enq x q = Inr (True, q1)" "ok q1"
    "contents q1 = contents q @ [x]" "bound q1 = bound q" by auto
  with Cons.prems Cons.IH [of q1] show ?case by (simp add: enq_all_def)
qed

lemma deq_n_all:
  assumes "ok q" "contents q = xs @ ys"
  shows "\<exists>q'. deq_n (length xs) q = Inr (map Some xs, q') \<and> ok q' \<and> contents q' = ys \<and> bound q' = bound q"
  using assms
proof (induction xs arbitrary: q)
  case Nil
  then show ?case by simp
next
  case (Cons x xs)
  from Cons.prems deq_cons [of q x "xs @ ys"] obtain q1 where
    "deq q = Inr (Some x, q1)" "ok q1" "contents q1 = xs @ ys" "bound q1 = bound q" by auto
  with Cons.IH [of q1] show ?case by auto
qed

lemma fifo:
  assumes "length xs \<le> n"
  shows "\<exists>q q'. enq_all xs (init n) = Inr q \<and> deq_n (length xs) q = Inr (map Some xs, q') \<and>
                ok q' \<and> contents q' = []"
proof -
  from assms enq_all_room [of "init n" xs] obtain q where
    q: "enq_all xs (init n) = Inr q" "ok q" "contents q = xs @ []"
    by (auto simp: ok_init contents_init bound_init)
  with deq_n_all [OF q(2,3)] show ?thesis by blast
qed

end

interpretation fq: bounded_fifo q_init q_enqueue q_dequeue q_list q_msize q_ok
  by unfold_locales
     (simp_all add: q_init_ok q_enqueue_room q_enqueue_full q_dequeue_empty q_dequeue_cons q_ok_bound)

section \<open>Properties\<close>

text \<open>The calls a client can make, what it sees of them, and the same calls on a bounded list.\<close>

datatype 'a qop = Enqueue 'a | Enqueue_Front 'a | Dequeue

datatype 'a qout = Accepted bool | Got "'a option"

fun q_step :: "'a qop \<Rightarrow> 'a queue \<Rightarrow> ('a qout \<times> 'a queue) res" where
  "q_step (Enqueue x) q = bindE (q_enqueue x q) (\<lambda>(b, q'). Inr (Accepted b, q'))"
| "q_step (Enqueue_Front x) q = bindE (q_enqueue_front x q) (\<lambda>(b, q'). Inr (Accepted b, q'))"
| "q_step Dequeue q = bindE (q_dequeue q) (\<lambda>(x, q'). Inr (Got x, q'))"

fun q_run :: "'a qop list \<Rightarrow> 'a queue \<Rightarrow> ('a qout list \<times> 'a queue) res" where
  "q_run [] q = Inr ([], q)"
| "q_run (c # cs) q =
     bindE (q_step c q) (\<lambda>(out, q1). bindE (q_run cs q1) (\<lambda>(outs, q2). Inr (out # outs, q2)))"

fun spec_step :: "nat \<Rightarrow> 'a qop \<Rightarrow> 'a list \<Rightarrow> 'a qout \<times> 'a list" where
  "spec_step n (Enqueue x) xs = (if length xs < n then (Accepted True, xs @ [x]) else (Accepted False, xs))"
| "spec_step n (Enqueue_Front x) xs = (if length xs < n then (Accepted True, x # xs) else (Accepted False, xs))"
| "spec_step n Dequeue [] = (Got None, [])"
| "spec_step n Dequeue (x # xs) = (Got (Some x), xs)"

fun spec_run :: "nat \<Rightarrow> 'a qop list \<Rightarrow> 'a list \<Rightarrow> 'a qout list \<times> 'a list" where
  "spec_run n [] xs = ([], xs)"
| "spec_run n (c # cs) xs =
     (let (out, xs1) = spec_step n c xs; (outs, xs2) = spec_run n cs xs1 in (out # outs, xs2))"

lemma q_enqueue_front_full:
  "q_ok q \<Longrightarrow> length (q_list q) = q_msize q \<Longrightarrow> q_enqueue_front x q = Inr (False, q)"
  by (simp add: q_enqueue_front_def q_ok_size)

lemma q_step_refines:
  assumes ok: "q_ok q"
  shows "\<exists>q'. q_step c q = Inr (fst (spec_step (q_msize q) c (q_list q)), q') \<and> q_ok q' \<and>
           q_list q' = snd (spec_step (q_msize q) c (q_list q)) \<and> q_msize q' = q_msize q"
proof -
  have room: "length (q_list q) < q_msize q \<or> length (q_list q) = q_msize q"
    using q_ok_bound [OF ok] by auto
  show ?thesis
  proof (cases c)
    case (Enqueue x)
    then show ?thesis using room q_enqueue_room [OF ok, of x] q_enqueue_full [OF ok, of x] ok by auto
  next
    case (Enqueue_Front x)
    then show ?thesis
      using room q_enqueue_front_room [OF ok, of x] q_enqueue_front_full [OF ok, of x] ok by auto
  next
    case Dequeue
    then show ?thesis using q_dequeue_empty [OF ok] q_dequeue_cons [OF ok] ok
      by (cases "q_list q") fastforce+
  qed
qed

lemma q_run_refines:
  assumes "q_ok q"
  shows "\<exists>q'. q_run cs q = Inr (fst (spec_run (q_msize q) cs (q_list q)), q') \<and> q_ok q' \<and>
           q_list q' = snd (spec_run (q_msize q) cs (q_list q)) \<and> q_msize q' = q_msize q"
  using assms
proof (induction cs arbitrary: q)
  case Nil
  then show ?case by simp
next
  case (Cons c cs)
  obtain q1 where q1: "q_step c q = Inr (fst (spec_step (q_msize q) c (q_list q)), q1)" "q_ok q1"
    "q_list q1 = snd (spec_step (q_msize q) c (q_list q))" "q_msize q1 = q_msize q"
    using q_step_refines [OF Cons.prems] by blast
  show ?case using Cons.IH [OF q1(2)] q1 by (auto simp: split_beta Let_def)
qed

lemma q_ok_card: "q_ok q \<Longrightarrow> card (dom (q_mem q)) = length (q_list q)"
  by (auto simp: q_ok_def q_at_def q_list_def distinct_card)

text \<open>
  C8: For every sequence of calls of \<open>q_enqueue\<close>, \<open>q_enqueue_front\<close> and \<open>q_dequeue\<close> on a new queue of
  bound \<open>n\<close>, the pointer implementation never fails, answers every call as the list of at most \<open>n\<close>
  elements does, holds the elements of that list in its order, and keeps exactly one allocated
  node per element.
\<close>

theorem queue_refines_list:
  "\<exists>q. q_run cs (q_init n) = Inr (fst (spec_run n cs []), q) \<and> q_list q = snd (spec_run n cs []) \<and>
     card (dom (q_mem q)) = length (snd (spec_run n cs []))"
  using q_run_refines [of "q_init n" cs] by (auto simp: q_init_ok q_ok_card)

text \<open>
  C35: \<open>q_free\<close> ends on every reachable queue, and gives back every node: after any sequence of calls
  the store of the queue is empty once it has run.
\<close>

theorem queue_free_releases_all:
  "\<exists>q outs q'. q_run cs (q_init n) = Inr (outs, q) \<and> q_free q = Inr q' \<and> q_mem q' = Map.empty"
proof -
  obtain q where q: "q_run cs (q_init n) = Inr (fst (spec_run n cs []), q)" "q_ok q"
    using q_run_refines [of "q_init n" cs] by (auto simp: q_init_ok)
  obtain q' where "q_free q = Inr q'" "q_ok q'" "q_list q' = []" using q_free_ok [OF q(2)] by blast
  then show ?thesis using q q_ok_dom by blast
qed

end
