(* ===== verification/Max_Heap.thy ===== *)
theory Max_Heap
  imports FD_Prelude "HOL-Library.Multiset"
begin

text \<open>
  The array max-heap of \<^verbatim>\<open>src/include/data_struct/heap.c\<close>, from which the block managers take the
  garbage-collection victims. Nodes are at the indices \<open>1..size\<close> of \<open>body\<close>; a node caches in \<open>cnt\<close>
  the count that the callback \<open>get_cnt\<close> reads from its data. The callbacks \<open>swap_hptr\<close> and
  \<open>assign_hptr\<close> keep in every data item a pointer back to its node; the model keeps these
  pointers in \<open>mh_hptr\<close>, as the index of the node. Counts are below \<open>2 ^ 31\<close> in the driver (they
  are page counts and ages), so the conversions between \<open>int\<close> and \<open>uint64_t\<close> keep them.
\<close>

section \<open>The structure and its operations\<close>

record 'a hn =
  hn_cnt :: nat
  hn_data :: "'a option"

record 'a mh =
  mh_body :: "'a hn list"
  mh_size :: int
  mh_max :: nat
  mh_hptr :: "'a \<rightharpoonup> nat"

definition mh_init :: "nat \<Rightarrow> 'a mh" where
  "mh_init bn =
     \<lparr>mh_body = replicate (2 * (bn + 1)) \<lparr>hn_cnt = 0, hn_data = None\<rparr>, mh_size = 0, mh_max = bn,
      mh_hptr = Map.empty\<rparr>"

text \<open>\<open>n->cnt = h->get_cnt(n->data)\<close>, when the node has data.\<close>

definition refresh :: "('a \<Rightarrow> nat) \<Rightarrow> 'a hn list \<Rightarrow> nat \<Rightarrow> 'a hn list" where
  "refresh get_cnt body i =
     (case hn_data (body ! i) of
        None \<Rightarrow> body
      | Some x \<Rightarrow> body[i := (body ! i)\<lparr>hn_cnt := get_cnt x\<rparr>])"

definition maxchild :: "('a \<Rightarrow> nat) \<Rightarrow> 'a hn list \<Rightarrow> nat \<Rightarrow> (nat option \<times> 'a hn list) res" where
  "maxchild get_cnt body idx =
     bindE (index body idx) (\<lambda>n.
       if hn_data n = None then Inr (None, body)
       else
         let b1 = refresh get_cnt body idx in
         bindE (index b1 (idx * 2)) (\<lambda>_.
           let b2 = refresh get_cnt b1 (idx * 2) in
           bindE (index b2 (idx * 2 + 1)) (\<lambda>_.
             let b3 = refresh get_cnt b2 (idx * 2 + 1);
                 lc = b3 ! (idx * 2);
                 rc = b3 ! (idx * 2 + 1)
             in Inr (if hn_data lc \<noteq> None \<and> hn_data rc = None then Some (idx * 2)
                     else if hn_data lc = None \<and> hn_data rc \<noteq> None then Some (idx * 2 + 1)
                     else if hn_data lc \<noteq> None \<and> hn_data rc \<noteq> None
                     then Some (if hn_cnt lc > hn_cnt rc then idx * 2 else idx * 2 + 1)
                     else None, b3))))"

text \<open>Exchanging the contents of two nodes, and \<open>swap_hptr\<close> on the data they hold.\<close>

definition swap_nodes :: "'a hn list \<Rightarrow> nat \<Rightarrow> nat \<Rightarrow> 'a hn list" where
  "swap_nodes b i j = b[i := b ! j, j := b ! i]"

definition swap_hptr :: "('a \<rightharpoonup> nat) \<Rightarrow> 'a option \<Rightarrow> 'a option \<Rightarrow> ('a \<rightharpoonup> nat) res" where
  "swap_hptr hp a b =
     bindE (deref a) (\<lambda>aa. bindE (deref b) (\<lambda>bb. Inr (hp(aa := hp bb, bb := hp aa))))"

text \<open>
  The loop of \<open>mh_internal_update\<close>: \<open>idx\<close> climbs to the root while \<open>n\<close> stays the node the call
  started at.
\<close>

fun internal_update_loop ::
  "'a hn list \<Rightarrow> ('a \<rightharpoonup> nat) \<Rightarrow> nat \<Rightarrow> nat \<Rightarrow> nat \<Rightarrow> (nat \<times> 'a hn list \<times> ('a \<rightharpoonup> nat)) res" where
  "internal_update_loop body hp n idx chgd =
     (if idx > 1 then
        bindE (index body (idx div 2)) (\<lambda>p.
        bindE (index body n) (\<lambda>nn.
          if hn_cnt p < hn_cnt nn then
            let body' = swap_nodes body n (idx div 2) in
            bindE (swap_hptr hp (hn_data (body' ! (idx div 2))) (hn_data (body' ! n))) (\<lambda>hp'.
              internal_update_loop body' hp' n (idx div 2) (idx div 2))
          else Inr (chgd, body, hp)))
      else Inr (chgd, body, hp))"

declare internal_update_loop.simps [simp del]

definition mh_internal_update :: "'a mh \<Rightarrow> nat \<Rightarrow> (nat \<times> 'a mh) res" where
  "mh_internal_update h n =
     bindE (internal_update_loop (mh_body h) (mh_hptr h) n n n) (\<lambda>(chgd, body, hp).
       Inr (chgd, h\<lparr>mh_body := body, mh_hptr := hp\<rparr>))"

lemma length_refresh [simp]: "length (refresh g b i) = length b"
  by (simp add: refresh_def split: option.splits)

lemma length_swap_nodes [simp]: "length (swap_nodes b i j) = length b"
  by (simp add: swap_nodes_def)

lemma maxchild_child:
  assumes "maxchild g b i = Inr (Some c, b')"
  shows "c = i * 2 \<or> c = i * 2 + 1" and "c < length b'" and "length b' = length b" and "i < length b"
  using assms by (auto simp: maxchild_def bindE_eq_Inr index_eq_Inr Let_def split: if_splits)

text \<open>The loop of \<open>mh_internal_downdate\<close>.\<close>

function internal_downdate_loop ::
  "('a \<Rightarrow> nat) \<Rightarrow> 'a hn list \<Rightarrow> ('a \<rightharpoonup> nat) \<Rightarrow> nat \<Rightarrow> (nat \<times> 'a hn list \<times> ('a \<rightharpoonup> nat)) res" where
  "internal_downdate_loop get_cnt body hp chgd =
     (case maxchild get_cnt body chgd of
        Inl e \<Rightarrow> Inl e
      | Inr (None, b) \<Rightarrow> Inr (chgd, b, hp)
      | Inr (Some child, b) \<Rightarrow>
          if hn_cnt (b ! child) > hn_cnt (b ! chgd) then
            (case swap_hptr hp (hn_data (b ! chgd)) (hn_data (b ! child)) of
               Inl e \<Rightarrow> Inl e
             | Inr hp' \<Rightarrow> internal_downdate_loop get_cnt (swap_nodes b child chgd) hp' child)
          else Inr (chgd, b, hp))"
  by pat_completeness auto
termination
proof (relation "measure (\<lambda>(g, body, hp, chgd). length body - chgd)", goal_cases)
  case 1
  show ?case by simp
next
  case (2 g body hp chgd r p b child hp')
  then have m: "maxchild g body chgd = Inr (Some child, b)" by simp
  have "child \<noteq> chgd" using 2 by auto
  then have "chgd < child" using maxchild_child(1) [OF m] by auto
  then show ?case using maxchild_child(2-4) [OF m] by auto
qed

declare internal_downdate_loop.simps [simp del]

definition mh_internal_downdate :: "('a \<Rightarrow> nat) \<Rightarrow> 'a mh \<Rightarrow> nat \<Rightarrow> (nat \<times> 'a mh) res" where
  "mh_internal_downdate get_cnt h n =
     bindE (internal_downdate_loop get_cnt (mh_body h) (mh_hptr h) n) (\<lambda>(chgd, body, hp).
       Inr (chgd, h\<lparr>mh_body := body, mh_hptr := hp\<rparr>))"

text \<open>\<open>&h->body[i]\<close> for a C integer \<open>i\<close>.\<close>

definition body_at :: "'a mh \<Rightarrow> int \<Rightarrow> nat res" where
  "body_at h i = (if 0 \<le> i \<and> nat i < length (mh_body h) then Inr (nat i) else Inl Bad_Access)"

definition mh_insert :: "'a mh \<Rightarrow> 'a \<Rightarrow> nat \<Rightarrow> 'a mh res" where
  "mh_insert h data number =
     (if mh_size h > int (mh_max h) then Inl Abort
      else bindE (body_at h (mh_size h + 1)) (\<lambda>n.
           bindE (mh_internal_update
                    (h\<lparr>mh_size := mh_size h + 1,
                       mh_body := (mh_body h)[n := \<lparr>hn_cnt = number, hn_data = Some data\<rparr>],
                       mh_hptr := (mh_hptr h)(data \<mapsto> n)\<rparr>) n) (\<lambda>r. Inr (snd r))))"

definition mh_get_max :: "('a \<Rightarrow> nat) \<Rightarrow> 'a mh \<Rightarrow> ('a option \<times> 'a mh) res" where
  "mh_get_max get_cnt h =
     bindE (body_at h 1) (\<lambda>one.
     bindE (body_at h (mh_size h)) (\<lambda>last.
       let res = hn_data (mh_body h ! one);
           b1 = (mh_body h)[one := mh_body h ! last];
           b2 = b1[last := (b1 ! last)\<lparr>hn_data := None\<rparr>]
       in bindE (mh_internal_downdate get_cnt (h\<lparr>mh_body := b2\<rparr>) one) (\<lambda>r.
          Inr (res, (snd r)\<lparr>mh_size := mh_size h - 1\<rparr>))))"

definition mh_update :: "('a \<Rightarrow> nat) \<Rightarrow> 'a mh \<Rightarrow> nat \<Rightarrow> nat \<Rightarrow> 'a mh res" where
  "mh_update get_cnt h number p =
     bindE (index (mh_body h) p) (\<lambda>n.
       let h1 = h\<lparr>mh_body := (mh_body h)[p := n\<lparr>hn_cnt := number\<rparr>]\<rparr>
       in bindE (if hn_cnt n < number then mh_internal_update h1 p
                 else mh_internal_downdate get_cnt h1 p) (\<lambda>r. Inr (snd r)))"

definition mh_insert_append :: "'a mh \<Rightarrow> 'a \<Rightarrow> 'a mh res" where
  "mh_insert_append h data =
     (if mh_size h > int (mh_max h) then Inl Abort
      else bindE (body_at h (mh_size h + 1)) (\<lambda>n.
           Inr (h\<lparr>mh_size := mh_size h + 1,
                  mh_body := (mh_body h)[n := (mh_body h ! n)\<lparr>hn_data := Some data\<rparr>],
                  mh_hptr := (mh_hptr h)(data \<mapsto> n)\<rparr>)))"

text \<open>\<open>int depth=1; while(all_size/=2){depth++;}\<close>\<close>

fun depth_loop :: "nat \<Rightarrow> nat \<Rightarrow> nat" where
  "depth_loop all_size depth =
     (if all_size div 2 = 0 then depth else depth_loop (all_size div 2) (depth + 1))"

declare depth_loop.simps [simp del]

text \<open>
  The two nested loops of \<open>mh_construct\<close>: the levels from \<open>depth - 1\<close> to 1, and the nodes of level
  \<open>i\<close> from \<open>1 << (i - 1)\<close> to \<open>(1 << i) - 1\<close>, in increasing order.
\<close>

definition mh_construct :: "('a \<Rightarrow> nat) \<Rightarrow> 'a mh \<Rightarrow> 'a mh res" where
  "mh_construct get_cnt h =
     foldE (\<lambda>i h1.
       foldE (\<lambda>j h2. bindE (mh_internal_downdate get_cnt h2 j) (\<lambda>r. Inr (snd r)))
         [2 ^ (i - 1) ..< 2 ^ i] h1)
       (rev [1 ..< depth_loop (nat (mh_size h)) 1]) h"

section \<open>What the nodes hold\<close>

definition dat :: "'a hn list \<Rightarrow> nat \<Rightarrow> 'a option" where
  "dat b k = (if k < length b then hn_data (b ! k) else None)"

text \<open>An absent child is below everything; a present one is below a present parent of no smaller count.\<close>

fun below :: "('a \<Rightarrow> nat) \<Rightarrow> 'a option \<Rightarrow> 'a option \<Rightarrow> bool" where
  "below g None p = True"
| "below g (Some y) None = False"
| "below g (Some y) (Some x) = (g y \<le> g x)"

definition ord_at :: "('a \<Rightarrow> nat) \<Rightarrow> 'a hn list \<Rightarrow> nat \<Rightarrow> bool" where
  "ord_at g b k \<longleftrightarrow> below g (dat b (k * 2)) (dat b k) \<and> below g (dat b (k * 2 + 1)) (dat b k)"

definition held :: "'a hn list \<Rightarrow> 'a multiset" where
  "held b = image_mset the (filter_mset (\<lambda>d. d \<noteq> None) (mset (map hn_data b)))"

definition hptr_ok :: "'a hn list \<Rightarrow> ('a \<rightharpoonup> nat) \<Rightarrow> bool" where
  "hptr_ok b hp \<longleftrightarrow> (\<forall>k x. dat b k = Some x \<longrightarrow> hp x = Some k)"

text \<open>
  Every node that holds data has both its children inside the array, and one that holds none has
  no children.
\<close>

definition fits :: "'a hn list \<Rightarrow> bool" where
  "fits b \<longleftrightarrow>
     (\<forall>k. dat b k \<noteq> None \<longrightarrow> k * 2 + 1 < length b) \<and>
     (\<forall>k. dat b k = None \<longrightarrow> 0 < k \<longrightarrow> dat b (k * 2) = None \<and> dat b (k * 2 + 1) = None)"

text \<open>The data has been moved between occupied nodes, with the back pointers following.\<close>

definition rearr :: "'a hn list \<Rightarrow> ('a \<rightharpoonup> nat) \<Rightarrow> 'a hn list \<Rightarrow> ('a \<rightharpoonup> nat) \<Rightarrow> bool" where
  "rearr b hp b' hp' \<longleftrightarrow>
     length b' = length b \<and> (\<forall>k. dat b' k = None \<longleftrightarrow> dat b k = None) \<and>
     mset (map hn_data b') = mset (map hn_data b) \<and> (hptr_ok b hp \<longrightarrow> hptr_ok b' hp')"

lemma below_trans: "below g a b \<Longrightarrow> below g b c \<Longrightarrow> below g a c"
  by (cases a; cases b; cases c) auto

lemma below_refl: "below g a a"
  by (cases a) auto

lemma rearr_trans: "rearr b hp b1 hp1 \<Longrightarrow> rearr b1 hp1 b2 hp2 \<Longrightarrow> rearr b hp b2 hp2"
  by (simp add: rearr_def)

lemma rearr_held: "rearr b hp b' hp' \<Longrightarrow> held b' = held b"
  by (simp add: rearr_def held_def)

lemma rearr_fits: "rearr b hp b' hp' \<Longrightarrow> fits b \<Longrightarrow> fits b'"
  by (simp add: rearr_def fits_def)

lemma ord_at_cong: "dat b' = dat b \<Longrightarrow> ord_at g b' k = ord_at g b k"
  by (simp add: ord_at_def)

lemma hn_data_refresh [simp]: "map hn_data (refresh g b i) = map hn_data b"
proof (rule nth_equalityI)
  fix k assume "k < length (map hn_data (refresh g b i))"
  then show "map hn_data (refresh g b i) ! k = map hn_data b ! k"
    by (cases "i = k") (auto simp: refresh_def split: option.splits)
qed simp

lemma dat_map: "dat b k = (if k < length b then map hn_data b ! k else None)"
  by (simp add: dat_def)

lemma dat_refresh [simp]: "dat (refresh g b i) = dat b"
  by (rule ext) (simp add: dat_map)

lemma refresh_cnt: "i < length b \<Longrightarrow> dat b k = Some y \<Longrightarrow>
    hn_cnt (refresh g b i ! k) = (if k = i then g y else hn_cnt (b ! k))"
  by (auto simp: refresh_def dat_def nth_list_update split: option.splits if_splits)

lemma hn_data_nth_refresh [simp]: "k < length b \<Longrightarrow> hn_data (refresh g b i ! k) = hn_data (b ! k)"
  using hn_data_refresh [of g b i] by (metis length_refresh nth_map)

lemma dat_swap_nodes: "i < length b \<Longrightarrow> j < length b \<Longrightarrow>
    dat (swap_nodes b i j) = (dat b)(i := dat b j, j := dat b i)"
  by (rule ext) (auto simp: dat_def swap_nodes_def nth_list_update)

lemma mset_swap_nodes: "i < length b \<Longrightarrow> j < length b \<Longrightarrow>
    mset (map hn_data (swap_nodes b i j)) = mset (map hn_data b)"
  unfolding swap_nodes_def map_update using mset_swap [of j "map hn_data b" i] by simp

lemma swap_rearr:
  assumes "i < length b" "j < length b" "dat b i = Some x" "dat b j = Some y" "i \<noteq> j"
  shows "rearr b hp (swap_nodes b i j) (hp(y := hp x, x := hp y))"
proof -
  have "hptr_ok (swap_nodes b i j) (hp(y := hp x, x := hp y))" if ok: "hptr_ok b hp"
  proof -
    have inj: "z = z' \<Longrightarrow> k = k'" if "dat b k = Some z" "dat b k' = Some z'" for k k' z z'
      using ok that unfolding hptr_ok_def by (metis option.inject)
    have "x \<noteq> y" using inj assms by blast
    then show ?thesis using assms ok inj
      by (auto simp: hptr_ok_def dat_swap_nodes split: if_splits)
  qed
  then show ?thesis
    using assms mset_swap_nodes [of i b j] by (auto simp: rearr_def dat_swap_nodes)
qed

section \<open>Sifting down\<close>

text \<open>What \<open>maxchild\<close> answers: it only refreshes cached counts, and it finds the larger child.\<close>

fun larger_child :: "('a \<Rightarrow> nat) \<Rightarrow> 'a hn list \<Rightarrow> 'a hn list \<Rightarrow> nat \<Rightarrow> nat option \<Rightarrow> bool" where
  "larger_child g b b' i None =
     (dat b i = None \<or> dat b (i * 2) = None \<and> dat b (i * 2 + 1) = None)"
| "larger_child g b b' i (Some c) =
     (\<exists>x y. (c = i * 2 \<or> c = i * 2 + 1) \<and> c < length b \<and> dat b i = Some x \<and> dat b c = Some y \<and>
        hn_cnt (b' ! i) = g x \<and> hn_cnt (b' ! c) = g y \<and>
        below g (dat b (i * 2)) (Some y) \<and> below g (dat b (i * 2 + 1)) (Some y))"

lemma maxchild_spec:
  assumes len: "i < length b" and fit: "fits b"
  shows "\<exists>r b'. maxchild g b i = Inr (r, b') \<and> rearr b hp b' hp \<and> dat b' = dat b \<and>
           larger_child g b b' i r"
proof (cases "dat b i")
  case None
  then have "maxchild g b i = Inr (None, b)"
    using len by (simp add: maxchild_def index_in dat_def)
  then show ?thesis using None by (simp add: rearr_def)
next
  case (Some x)
  then have in2: "i * 2 + 1 < length b" using fit by (simp add: fits_def)
  define b1 where "b1 = refresh g b i"
  define b2 where "b2 = refresh g b1 (i * 2)"
  define b3 where "b3 = refresh g b2 (i * 2 + 1)"
  have len3: "length b1 = length b" "length b2 = length b" "length b3 = length b"
    and dat3: "dat b1 = dat b" "dat b2 = dat b" "dat b3 = dat b"
    by (simp_all add: b1_def b2_def b3_def)
  have d3: "hn_data (b3 ! k) = dat b k" if "k < length b" for k
    using that dat3(3) len3(3) by (metis dat_def)
  have cnt: "hn_cnt (b3 ! k) = g y" if "dat b k = Some y" "k = i \<or> k = i * 2 \<or> k = i * 2 + 1" for k y
    using that in2 len by (auto simp: b1_def b2_def b3_def refresh_cnt)
  define r where "r = (if dat b (i * 2) \<noteq> None \<and> dat b (i * 2 + 1) = None then Some (i * 2)
      else if dat b (i * 2) = None \<and> dat b (i * 2 + 1) \<noteq> None then Some (i * 2 + 1)
      else if dat b (i * 2) \<noteq> None \<and> dat b (i * 2 + 1) \<noteq> None
      then Some (if hn_cnt (b3 ! (i * 2)) > hn_cnt (b3 ! (i * 2 + 1)) then i * 2 else i * 2 + 1)
      else None)"
  have m: "maxchild g b i = Inr (r, b3)"
    using len in2 Some len3 d3 [of "i * 2"] d3 [of "i * 2 + 1"]
    unfolding maxchild_def b1_def b2_def b3_def r_def
    by (simp add: index_in Let_def dat_def)
  have re: "rearr b hp b3 hp"
    using len3 dat3 by (simp add: rearr_def hptr_ok_def b1_def b2_def b3_def)
  have "larger_child g b b3 i r"
  proof (cases r)
    case None
    then show ?thesis by (auto simp: r_def split: if_splits)
  next
    case c: (Some c)
    then have dom: "(c = i * 2 \<or> c = i * 2 + 1) \<and> c < length b \<and> dat b c \<noteq> None"
      using in2 by (auto simp: r_def split: if_splits)
    then obtain y where y: "dat b c = Some y" by auto
    have "below g (dat b (i * 2)) (Some y) \<and> below g (dat b (i * 2 + 1)) (Some y)"
      using c y cnt by (cases "dat b (i * 2)"; cases "dat b (i * 2 + 1)") (auto simp: r_def split: if_splits)
    then show ?thesis using dom y Some cnt c by auto
  qed
  then show ?thesis using m re dat3(3) by blast
qed

text \<open>
  The loop invariant of sifting down. \<open>G\<close> is a set of nodes closed under children that is ordered but
  at \<open>c\<close>, the node being sifted; the children of \<open>c\<close> are already below the parent of \<open>c\<close> when that
  parent belongs to \<open>G\<close>.
\<close>

definition closed_under_children :: "nat set \<Rightarrow> bool" where
  "closed_under_children G \<longleftrightarrow> 0 \<notin> G \<and> (\<forall>k \<in> G. k * 2 \<in> G \<and> k * 2 + 1 \<in> G)"

definition sifting :: "('a \<Rightarrow> nat) \<Rightarrow> nat set \<Rightarrow> 'a hn list \<Rightarrow> nat \<Rightarrow> bool" where
  "sifting g G b c \<longleftrightarrow>
     closed_under_children G \<and> c \<in> G \<and> (\<forall>k \<in> G. k \<noteq> c \<longrightarrow> ord_at g b k) \<and>
     (c div 2 \<in> G \<longrightarrow> below g (dat b (c * 2)) (dat b (c div 2)) \<and>
                    below g (dat b (c * 2 + 1)) (dat b (c div 2)))"

lemma sifting_cong: "dat b' = dat b \<Longrightarrow> sifting g G b' c = sifting g G b c"
  by (simp add: sifting_def ord_at_cong [of b' b])

lemma sifting_pos: "sifting g G b c \<Longrightarrow> 0 < c"
  unfolding sifting_def closed_under_children_def by (metis neq0_conv)

lemma sifting_step:
  assumes s: "sifting g G b i" and c: "c = i * 2 \<or> c = i * 2 + 1" and len: "i < length b" "c < length b"
    and x: "dat b i = Some x" and y: "dat b c = Some y" and lt: "g x < g y"
    and best: "below g (dat b (i * 2)) (Some y)" "below g (dat b (i * 2 + 1)) (Some y)"
  shows "sifting g G (swap_nodes b c i) c"
proof -
  have i: "i \<in> G" "0 < i" using s sifting_pos by (auto simp: sifting_def)
  have cG: "c \<in> G" "c \<noteq> i" and cdiv: "c div 2 = i"
    using s c i by (auto simp: sifting_def closed_under_children_def)
  have d: "dat (swap_nodes b c i) = (dat b)(c := Some x, i := Some y)"
    using len x y by (simp add: dat_swap_nodes)
  have "ord_at g (swap_nodes b c i) k" if k: "k \<in> G" "k \<noteq> c" for k
  proof (cases "k = i")
    case True
    then show ?thesis using best c lt i by (auto simp: ord_at_def d)
  next
    case False
    then have o: "ord_at g b k" using s k by (simp add: sifting_def)
    have kc: "k * 2 \<noteq> c" "k * 2 + 1 \<noteq> c" using c False by arith+
    show ?thesis
    proof (cases "i div 2 = k")
      case True
      then have "below g (Some y) (dat b k)" using s k c y by (auto simp: sifting_def)
      then show ?thesis using o kc False k by (auto simp: ord_at_def d)
    next
      case no: False
      then have "k * 2 \<noteq> i" "k * 2 + 1 \<noteq> i" by arith+
      then show ?thesis using o kc False k by (simp add: ord_at_def d)
    qed
  qed
  moreover have "ord_at g b c" using s cG by (simp add: sifting_def)
  moreover have "c * 2 \<noteq> c" "c * 2 + 1 \<noteq> c" "c * 2 \<noteq> i" "c * 2 + 1 \<noteq> i" using c i by arith+
  ultimately show ?thesis using s cG y by (auto simp: sifting_def ord_at_def cdiv d)
qed

lemma internal_downdate_loop_ok:
  assumes "sifting g G b c" "fits b" "c < length b"
  shows "\<exists>c' b' hp'. internal_downdate_loop g b hp c = Inr (c', b', hp') \<and> rearr b hp b' hp' \<and>
           (\<forall>k \<in> G. ord_at g b' k) \<and> (\<forall>k. k \<notin> G \<longrightarrow> dat b' k = dat b k)"
  using assms
proof (induction g b hp c rule: internal_downdate_loop.induct)
  case (1 g b hp i)
  obtain r b1 where m: "maxchild g b i = Inr (r, b1)" "rearr b hp b1 hp" and d: "dat b1 = dat b"
    and lc: "larger_child g b b1 i r"
    using maxchild_spec [OF "1.prems"(3,2), of g hp] by blast
  have len: "length b1 = length b" using m(2) by (simp add: rearr_def)
  have pos: "0 < i" using "1.prems"(1) by (rule sifting_pos)
  have stop: "?case" if l: "internal_downdate_loop g b hp i = Inr (i, b1, hp)" and o: "ord_at g b i"
  proof -
    have "\<forall>k \<in> G. ord_at g b1 k"
      using "1.prems"(1) o by (auto simp: sifting_def ord_at_cong [OF d])
    then show ?thesis using l m(2) d by auto
  qed
  show ?case
  proof (cases r)
    case None
    have "ord_at g b i"
    proof (cases "dat b i")
      case no: None
      then show ?thesis using pos "1.prems"(2) by (auto simp: ord_at_def fits_def)
    next
      case (Some x)
      then show ?thesis using lc None by (simp add: ord_at_def)
    qed
    then show ?thesis using stop m None by (simp add: internal_downdate_loop.simps)
  next
    case (Some c)
    then obtain x y where c: "c = i * 2 \<or> c = i * 2 + 1" "c < length b"
      and xy: "dat b i = Some x" "dat b c = Some y" and cnt: "hn_cnt (b1 ! i) = g x" "hn_cnt (b1 ! c) = g y"
      and best: "below g (dat b (i * 2)) (Some y)" "below g (dat b (i * 2 + 1)) (Some y)"
      using lc by auto
    have hd: "hn_data (b1 ! i) = Some x" "hn_data (b1 ! c) = Some y"
      using xy d len c "1.prems"(3) by (metis dat_def)+
    show ?thesis
    proof (cases "g x < g y")
      case True
      define b2 where "b2 = swap_nodes b1 c i"
      define hp2 where "hp2 = hp(x := hp y, y := hp x)"
      have sw: "swap_hptr hp (hn_data (b1 ! i)) (hn_data (b1 ! c)) = Inr hp2"
        by (simp add: swap_hptr_def hd hp2_def deref_def)
      have s1: "sifting g G b1 i" using "1.prems"(1) by (simp add: sifting_cong [OF d])
      have s2: "sifting g G b2 c" unfolding b2_def
        by (rule sifting_step [OF s1 c(1)]) (use c xy True best d len "1.prems"(3) in auto)
      have "rearr b1 hp b2 hp2" unfolding b2_def hp2_def
        by (rule swap_rearr) (use c pos xy d len "1.prems"(3) in auto)
      then have re: "rearr b hp b2 hp2" using m(2) rearr_trans by blast
      have d2: "dat b2 k = dat b k" if "k \<notin> G" for k
        using that s1 s2 d len c "1.prems"(3) by (auto simp: b2_def dat_swap_nodes sifting_def)
      have fit2: "fits b2" using re "1.prems"(2) rearr_fits by blast
      have IH: "\<exists>c' b' hp'. internal_downdate_loop g b2 hp2 c = Inr (c', b', hp') \<and> rearr b2 hp2 b' hp' \<and>
           (\<forall>k \<in> G. ord_at g b' k) \<and> (\<forall>k. k \<notin> G \<longrightarrow> dat b' k = dat b2 k)"
        unfolding b2_def using "1.IH" [OF m(1) _ Some _ sw] s2 fit2 True cnt len c by (simp add: b2_def)
      have "internal_downdate_loop g b hp i = internal_downdate_loop g b2 hp2 c"
        by (subst internal_downdate_loop.simps) (use m Some sw True cnt in \<open>simp add: b2_def\<close>)
      then show ?thesis using IH d2 rearr_trans [OF re] by metis
    next
      case False
      then have "ord_at g b i"
        using best xy by (cases "dat b (i * 2)"; cases "dat b (i * 2 + 1)") (auto simp: ord_at_def)
      then show ?thesis using stop m Some False cnt by (simp add: internal_downdate_loop.simps)
    qed
  qed
qed

section \<open>The heap: invariant, construction and extraction\<close>

definition mh_ok :: "'a mh \<Rightarrow> bool" where
  "mh_ok h \<longleftrightarrow>
     length (mh_body h) = 2 * (mh_max h + 1) \<and> 0 \<le> mh_size h \<and> mh_size h \<le> int (mh_max h) \<and>
     (\<forall>k. dat (mh_body h) k = None \<longleftrightarrow> k = 0 \<or> mh_size h < int k)"

definition heap_ordered :: "('a \<Rightarrow> nat) \<Rightarrow> 'a mh \<Rightarrow> bool" where
  "heap_ordered g h \<longleftrightarrow> (\<forall>k \<ge> 1. ord_at g (mh_body h) k)"

definition mh_items :: "'a mh \<Rightarrow> 'a multiset" where
  "mh_items h = held (mh_body h)"

text \<open>Two heaps with the same items in the same number of nodes.\<close>

definition mh_same :: "'a mh \<Rightarrow> 'a mh \<Rightarrow> bool" where
  "mh_same h h' \<longleftrightarrow> mh_size h' = mh_size h \<and> mh_max h' = mh_max h \<and>
     rearr (mh_body h) (mh_hptr h) (mh_body h') (mh_hptr h')"

lemma mh_same_refl: "mh_same h h"
  by (simp add: mh_same_def rearr_def)

lemma mh_same_trans: "mh_same h h1 \<Longrightarrow> mh_same h1 h2 \<Longrightarrow> mh_same h h2"
  by (auto simp: mh_same_def intro: rearr_trans)

lemma mh_same_ok: "mh_same h h' \<Longrightarrow> mh_ok h \<Longrightarrow> mh_ok h'"
  by (simp add: mh_same_def mh_ok_def rearr_def)

lemma mh_same_items: "mh_same h h' \<Longrightarrow> mh_items h' = mh_items h"
  by (auto simp: mh_same_def mh_items_def rearr_held)

lemma mh_ok_dat: "mh_ok h \<Longrightarrow> dat (mh_body h) k = None \<longleftrightarrow> k = 0 \<or> mh_size h < int k"
  by (simp add: mh_ok_def)

lemma mh_ok_fits: "mh_ok h \<Longrightarrow> fits (mh_body h)"
  unfolding fits_def by (auto simp: mh_ok_dat) (auto simp: mh_ok_def)

lemma held_iff: "x \<in># held b \<longleftrightarrow> (\<exists>k. dat b k = Some x)"
proof -
  have "x \<in># held b \<longleftrightarrow> (\<exists>d \<in> set (map hn_data b). d \<noteq> None \<and> x = the d)"
    unfolding held_def by auto
  also have "\<dots> \<longleftrightarrow> Some x \<in> set (map hn_data b)"
    by (metis option.exhaust_sel option.sel option.distinct(1))
  also have "\<dots> \<longleftrightarrow> (\<exists>k < length b. hn_data (b ! k) = Some x)"
    unfolding in_set_conv_nth by auto
  also have "\<dots> \<longleftrightarrow> (\<exists>k. dat b k = Some x)"
    by (auto simp: dat_def split: if_splits)
  finally show ?thesis .
qed

text \<open>In an ordered heap every node is below the root.\<close>

lemma root_maximal:
  assumes "heap_ordered g h" "1 \<le> k"
  shows "below g (dat (mh_body h) k) (dat (mh_body h) 1)"
  using assms(2)
proof (induction k rule: less_induct)
  case (less k)
  show ?case
  proof (cases "k = 1")
    case True
    then show ?thesis by (simp add: below_refl)
  next
    case False
    then have p: "1 \<le> k div 2" "k div 2 < k" using less.prems by auto
    have "k = k div 2 * 2 \<or> k = k div 2 * 2 + 1" by arith
    then have "below g (dat (mh_body h) k) (dat (mh_body h) (k div 2))"
      using assms(1) p(1) unfolding heap_ordered_def ord_at_def by metis
    then show ?thesis using less.IH [OF p(2,1)] below_trans by blast
  qed
qed

lemma mh_internal_downdate_ok:
  assumes "sifting g G (mh_body h) j" "mh_ok h" "j < length (mh_body h)"
  shows "\<exists>c h'. mh_internal_downdate g h j = Inr (c, h') \<and> mh_same h h' \<and>
           (\<forall>k \<in> G. ord_at g (mh_body h') k)"
proof -
  obtain c b hp where "internal_downdate_loop g (mh_body h) (mh_hptr h) j = Inr (c, b, hp)"
    and "rearr (mh_body h) (mh_hptr h) b hp" and "\<forall>k \<in> G. ord_at g b k"
    using internal_downdate_loop_ok [OF assms(1) mh_ok_fits [OF assms(2)] assms(3)] by metis
  then show ?thesis by (simp add: mh_internal_downdate_def mh_same_def)
qed

text \<open>One level of \<open>mh_construct\<close>: the levels below are ordered, and this one becomes so.\<close>

lemma construct_level:
  assumes ok: "mh_ok h" and o: "\<forall>k \<ge> 2 ^ Suc d. ord_at g (mh_body h) k" and sz: "2 ^ Suc d \<le> mh_size h"
  shows "\<exists>h'. foldE (\<lambda>j h2. bindE (mh_internal_downdate g h2 j) (\<lambda>r. Inr (snd r))) [2 ^ d ..< 2 ^ Suc d] h
            = Inr h' \<and> mh_same h h' \<and> (\<forall>k \<ge> 2 ^ d. ord_at g (mh_body h') k)"
proof -
  let ?f = "\<lambda>j h2. bindE (mh_internal_downdate g h2 j) (\<lambda>r. Inr (snd r))"
  let ?P = "\<lambda>done h2. mh_same h h2 \<and> (\<forall>k. k \<in> set done \<or> 2 ^ Suc d \<le> k \<longrightarrow> ord_at g (mh_body h2) k)"
  have "\<exists>h'. foldE ?f [2 ^ d ..< 2 ^ Suc d] h = Inr h' \<and> ?P [2 ^ d ..< 2 ^ Suc d] h'"
  proof (rule foldE_invariant [where P = ?P])
    show "?P [] h" using o by (simp add: mh_same_refl)
    fix "done" j todo h2
    assume l: "[2 ^ d ..< 2 ^ Suc d] = done @ j # todo" and P: "?P done h2"
    let ?G = "{k. k \<in> set done \<or> 2 ^ Suc d \<le> k \<or> k = j}"
    have sub: "set (done @ j # todo) = {2 ^ d ..< 2 ^ Suc d}" using l by (metis set_upt)
    then have j: "2 ^ d \<le> j" "j < 2 ^ Suc d" and dn: "\<And>k. k \<in> set done \<Longrightarrow> 2 ^ d \<le> k" by auto
    then have G: "2 ^ d \<le> k" if "k \<in> ?G" for k using that by (auto dest: dn)
    have cl: "closed_under_children ?G"
      unfolding closed_under_children_def using G by fastforce
    have "j div 2 < 2 ^ d" using j by auto
    then have "j div 2 \<notin> ?G" using G by fastforce
    then have s: "sifting g ?G (mh_body h2) j" using P cl by (auto simp: sifting_def)
    have ok2: "mh_ok h2" using P ok mh_same_ok by blast
    have "int j < 2 ^ Suc d" using j(2) by (metis of_nat_less_iff of_nat_numeral of_nat_power)
    then have "int j \<le> int (mh_max h2)" using sz P ok2 by (simp add: mh_same_def mh_ok_def)
    then have "j < length (mh_body h2)" using ok2 by (simp add: mh_ok_def)
    then obtain c h3 where "mh_internal_downdate g h2 j = Inr (c, h3)" "mh_same h2 h3"
      "\<forall>k \<in> ?G. ord_at g (mh_body h3) k"
      using mh_internal_downdate_ok [OF s ok2] by blast
    then show "\<exists>h3. ?f j h2 = Inr h3 \<and> ?P (done @ [j]) h3" using P mh_same_trans by auto
  qed
  then show ?thesis by (metis (no_types, lifting) atLeastLessThan_iff not_less set_upt)
qed

lemma construct_levels:
  assumes "mh_ok h" "\<forall>k \<ge> 2 ^ d. ord_at g (mh_body h) k" "d = 0 \<or> 2 ^ d \<le> mh_size h"
  shows "\<exists>h'. foldE (\<lambda>i h1. foldE (\<lambda>j h2. bindE (mh_internal_downdate g h2 j) (\<lambda>r. Inr (snd r)))
              [2 ^ (i - 1) ..< 2 ^ i] h1) (rev [1 ..< Suc d]) h = Inr h' \<and> mh_same h h' \<and> heap_ordered g h'"
  using assms
proof (induction d arbitrary: h)
  case 0
  then show ?case by (simp add: heap_ordered_def mh_same_refl)
next
  case (Suc d)
  obtain h1 where h1: "foldE (\<lambda>j h2. bindE (mh_internal_downdate g h2 j) (\<lambda>r. Inr (snd r)))
        [2 ^ d ..< 2 ^ Suc d] h = Inr h1" "mh_same h h1" "\<forall>k \<ge> 2 ^ d. ord_at g (mh_body h1) k"
    using construct_level [OF Suc.prems(1,2)] Suc.prems(3) by blast
  have "2 ^ d \<le> mh_size h1"
  proof -
    have "(2 :: int) ^ d \<le> 2 ^ Suc d" by simp
    then show ?thesis using Suc.prems(3) h1(2) unfolding mh_same_def by linarith
  qed
  then obtain h2 where "foldE (\<lambda>i h1. foldE (\<lambda>j h2. bindE (mh_internal_downdate g h2 j) (\<lambda>r. Inr (snd r)))
        [2 ^ (i - 1) ..< 2 ^ i] h1) (rev [1 ..< Suc d]) h1 = Inr h2" "mh_same h1 h2" "heap_ordered g h2"
    using Suc.IH [OF mh_same_ok [OF h1(2) Suc.prems(1)] h1(3)] by blast
  then show ?case using h1(1) mh_same_trans [OF h1(2)] by auto
qed

text \<open>The depth the loop computes is the number of levels of a heap of that size.\<close>

lemma depth_loop_log:
  "\<exists>e. depth_loop n d = d + e \<and> n < 2 ^ Suc e \<and> (e = 0 \<or> 2 ^ e \<le> n)"
proof (induction n d rule: depth_loop.induct)
  case (1 n d)
  show ?case
  proof (cases "n div 2 = 0")
    case True
    then show ?thesis by (intro exI [of _ 0]) (auto simp: depth_loop.simps [of n d])
  next
    case False
    then obtain e where e: "depth_loop (n div 2) (d + 1) = d + 1 + e" "n div 2 < 2 ^ Suc e"
      "e = 0 \<or> 2 ^ e \<le> n div 2" using "1.IH" by blast
    have "n < 2 ^ Suc (Suc e)" "2 ^ Suc e \<le> n" using e(2,3) False by auto
    then show ?thesis using e(1) False by (intro exI [of _ "Suc e"]) (simp add: depth_loop.simps [of n d])
  qed
qed

lemma mh_construct_ordered:
  assumes ok: "mh_ok h"
  shows "\<exists>h'. mh_construct g h = Inr h' \<and> mh_same h h' \<and> heap_ordered g h'"
proof -
  obtain e where e: "depth_loop (nat (mh_size h)) 1 = Suc e" "nat (mh_size h) < 2 ^ Suc e"
    "e = 0 \<or> 2 ^ e \<le> nat (mh_size h)" using depth_loop_log [of "nat (mh_size h)" 1] by auto
  have "dat (mh_body h) k = None" if "2 ^ Suc e \<le> k" for k
  proof -
    have "nat (mh_size h) < k" using that e(2) by linarith
    then show ?thesis using ok by (simp add: mh_ok_dat)
  qed
  then have "\<forall>k \<ge> 2 ^ e. ord_at g (mh_body h) k" by (simp add: ord_at_def)
  moreover have "e = 0 \<or> 2 ^ e \<le> mh_size h" using e(3) ok by (auto simp: mh_ok_def le_nat_iff)
  ultimately show ?thesis using construct_levels [OF ok] unfolding mh_construct_def e(1) by blast
qed

lemma held_remove:
  assumes "i < length b" "j < length b" "dat b i = Some x"
  shows "held (b[i := b ! j, j := (b ! j)\<lparr>hn_data := None\<rparr>]) = held b - {#x#}"
proof -
  let ?ds = "map hn_data b"
  have eq: "map hn_data (b[i := b ! j, j := (b ! j)\<lparr>hn_data := None\<rparr>]) = ?ds[i := ?ds ! j, j := None]"
    using assms by (simp add: map_update)
  have "mset (?ds[i := ?ds ! j, j := None]) = add_mset None (mset ?ds - {#?ds ! i#})"
    using assms by (simp add: mset_update nth_list_update del: mset_map)
  moreover have "?ds ! i = Some x" using assms by (simp add: dat_def)
  moreover have "Some x \<in># mset ?ds" using assms by (metis calculation(2) length_map nth_mem set_mset_mset)
  ultimately show ?thesis unfolding held_def eq by (simp add: image_mset_Diff del: mset_map)
qed

lemma mh_get_max_ordered:
  assumes ok: "mh_ok h" and pos: "0 < mh_size h" and o: "heap_ordered g h"
  shows "\<exists>x h'. mh_get_max g h = Inr (Some x, h') \<and> x \<in># mh_items h \<and> (\<forall>y \<in># mh_items h. g y \<le> g x) \<and>
           mh_ok h' \<and> heap_ordered g h' \<and> mh_items h' = mh_items h - {#x#} \<and>
           mh_size h' = mh_size h - 1 \<and> mh_max h' = mh_max h"
proof -
  let ?b = "mh_body h" and ?l = "nat (mh_size h)"
  have l: "?l < length ?b" "1 < length ?b" "1 \<le> ?l" and szl: "mh_size h = int ?l"
    using ok pos by (auto simp: mh_ok_def)
  have "dat ?b 1 \<noteq> None" using pos by (simp add: mh_ok_dat [OF ok])
  then obtain x where x: "dat ?b 1 = Some x" by auto
  define b2 where "b2 = ?b[1 := ?b ! ?l, ?l := (?b ! ?l)\<lparr>hn_data := None\<rparr>]"
  have d2: "dat b2 k = (if k = ?l then None else if k = 1 then dat ?b ?l else dat ?b k)" for k
    using l by (auto simp: dat_def b2_def nth_list_update)
  have dn: "dat b2 k = None \<longleftrightarrow> k = 0 \<or> mh_size h - 1 < int k" for k
    using szl l by (auto simp: d2 mh_ok_dat [OF ok])
  define h2 where "h2 = h\<lparr>mh_body := b2, mh_size := mh_size h - 1\<rparr>"
  have ok2: "mh_ok h2" using ok pos dn by (simp add: mh_ok_def h2_def b2_def)
  have fit2: "fits b2" using mh_ok_fits [OF ok2] by (simp add: h2_def)
  have len2: "1 < length b2" using l by (simp add: b2_def)
  have "sifting g {1..} b2 1"
  proof -
    have "ord_at g b2 k" if "1 < k" for k
    proof -
      have "ord_at g ?b k" using o that by (simp add: heap_ordered_def)
      moreover have "dat ?b (k * 2) = None" "dat ?b (k * 2 + 1) = None" if "k = ?l"
        using that l szl by (auto simp: mh_ok_dat [OF ok])
      ultimately show ?thesis using that by (auto simp: ord_at_def d2)
    qed
    then show ?thesis by (auto simp: sifting_def closed_under_children_def)
  qed
  then obtain c b3 hp3 where b3: "internal_downdate_loop g b2 (mh_hptr h) 1 = Inr (c, b3, hp3)"
    "rearr b2 (mh_hptr h) b3 hp3" "\<forall>k \<in> {1..}. ord_at g b3 k"
    using internal_downdate_loop_ok [of g "{1..}" b2 1 "mh_hptr h"] fit2 len2 by blast
  define h3 where "h3 = h2\<lparr>mh_body := b3, mh_hptr := hp3\<rparr>"
  have get: "mh_get_max g h = Inr (Some x, h3)"
    using b3(1) x l szl pos unfolding mh_get_max_def body_at_def mh_internal_downdate_def b2_def
    by (simp add: Let_def h3_def h2_def dat_def nth_list_update b2_def)
  have same: "mh_same h2 h3" using b3(2) by (simp add: mh_same_def h3_def h2_def)
  have "mh_items h3 = mh_items h - {#x#}"
    using mh_same_items [OF same] held_remove [OF l(2,1) x] by (simp add: mh_items_def h2_def b2_def)
  moreover have "g y \<le> g x" if y: "y \<in># mh_items h" for y
  proof -
    obtain k where k: "dat ?b k = Some y" using y by (auto simp: mh_items_def held_iff)
    then have "1 \<le> k" using mh_ok_dat [OF ok, of k] by auto
    then show ?thesis using root_maximal [OF o, of k] x k by simp
  qed
  moreover have "x \<in># mh_items h" using x by (auto simp: mh_items_def held_iff)
  moreover have "heap_ordered g h3" using b3(3) by (simp add: heap_ordered_def h3_def)
  ultimately show ?thesis using get mh_same_ok [OF same ok2] by (auto simp: h3_def h2_def)
qed

lemma size_mh_items: "mh_ok h \<Longrightarrow> int (size (mh_items h)) = mh_size h"
proof -
  assume ok: "mh_ok h"
  have "size (mh_items h) = card {k. k < length (mh_body h) \<and> hn_data (mh_body h ! k) \<noteq> None}"
    by (simp add: mh_items_def held_def mset_filter [symmetric] length_filter_conv_card del: mset_map mset_filter)
      (metis (mono_tags, lifting) nth_map)
  also have "{k. k < length (mh_body h) \<and> hn_data (mh_body h ! k) \<noteq> None} =
      {k. dat (mh_body h) k \<noteq> None}" by (auto simp: dat_def)
  also have "\<dots> = {1 .. nat (mh_size h)}" by (auto simp: mh_ok_dat [OF ok])
  finally show ?thesis using ok by (simp add: mh_ok_def)
qed

lemma mh_init_ok: "mh_ok (mh_init bn)" "mh_items (mh_init bn) = {#}"
proof -
  show ok: "mh_ok (mh_init bn)" by (auto simp: mh_ok_def mh_init_def dat_def simp del: replicate.simps)
  show "mh_items (mh_init bn) = {#}" using size_mh_items [OF ok] by (simp add: mh_init_def)
qed

lemma mh_insert_append_ok:
  assumes ok: "mh_ok h" and room: "mh_size h < int (mh_max h)"
  shows "\<exists>h'. mh_insert_append h x = Inr h' \<and> mh_ok h' \<and> mh_items h' = add_mset x (mh_items h) \<and>
           mh_size h' = mh_size h + 1 \<and> mh_max h' = mh_max h \<and>
           (hptr_ok (mh_body h) (mh_hptr h) \<and> x \<notin># mh_items h \<longrightarrow> hptr_ok (mh_body h') (mh_hptr h'))"
proof -
  define n where "n = nat (mh_size h + 1)"
  have n: "n < length (mh_body h)" "mh_size h + 1 = int n" "0 < n" using ok room by (auto simp: mh_ok_def n_def)
  define h' where "h' = h\<lparr>mh_size := mh_size h + 1,
    mh_body := (mh_body h)[n := (mh_body h ! n)\<lparr>hn_data := Some x\<rparr>], mh_hptr := (mh_hptr h)(x \<mapsto> n)\<rparr>"
  have e: "mh_insert_append h x = Inr h'"
    using n room by (simp add: mh_insert_append_def body_at_def h'_def)
  have d: "dat (mh_body h') k = (if k = n then Some x else dat (mh_body h) k)" for k
    using n by (simp add: dat_def h'_def)
  have "dat (mh_body h') k = None \<longleftrightarrow> k = 0 \<or> int n < int k" for k
    using n mh_ok_dat [OF ok, of k] by (auto simp: d)
  moreover have "length (mh_body h') = 2 * (mh_max h' + 1)" "mh_size h' = int n" "mh_max h' = mh_max h"
    using ok n by (simp_all add: h'_def mh_ok_def)
  ultimately have "mh_ok h'" using room n(2) unfolding mh_ok_def by auto
  moreover have "hptr_ok (mh_body h') (mh_hptr h')" if "hptr_ok (mh_body h) (mh_hptr h)" "x \<notin># mh_items h"
    using that unfolding hptr_ok_def d mh_items_def held_iff by (auto simp: h'_def)
  moreover have "mh_items h' = add_mset x (mh_items h)"
  proof -
    have "dat (mh_body h) n = None" using mh_ok_dat [OF ok] n by simp
    then have "map hn_data (mh_body h) ! n = None" using n by (simp add: dat_def)
    then show ?thesis using n
      by (simp add: mh_items_def held_def h'_def map_update mset_update del: mset_map)
  qed
  ultimately show ?thesis using e by (simp add: h'_def)
qed

lemma mh_get_max_empty:
  assumes ok: "mh_ok h" and "mh_size h = 0"
  shows "\<exists>h'. mh_get_max g h = Inr (None, h') \<and> mh_size h' = - 1"
proof -
  have d: "dat (mh_body h) 0 = None" "dat (mh_body h) 1 = None" and l: "1 < length (mh_body h)"
    using assms mh_ok_dat [OF ok] by (auto simp: mh_ok_def)
  then have "maxchild g ((mh_body h)[1 := mh_body h ! 0, 0 := (mh_body h ! 0)\<lparr>hn_data := None\<rparr>]) 1 =
      Inr (None, (mh_body h)[1 := mh_body h ! 0, 0 := (mh_body h ! 0)\<lparr>hn_data := None\<rparr>])"
    by (simp add: maxchild_def index_in dat_def split: if_splits)
  then show ?thesis using assms(2) d l
    by (simp add: mh_get_max_def body_at_def mh_internal_downdate_def internal_downdate_loop.simps
        Let_def dat_def split: if_splits)
qed

section \<open>The contract of the victim heap\<close>

text \<open>
  What the garbage collectors rely on: taking from the pool yields an item of maximal count. Then
  the victims taken one after the other come in the order of their counts, and what stays in the
  pool has no larger count than any victim.
\<close>

locale max_pool =
  fixes g :: "'a \<Rightarrow> nat"
    and take_max :: "'h \<Rightarrow> ('a option \<times> 'h) res"
    and inv :: "'h \<Rightarrow> bool"
    and items :: "'h \<Rightarrow> 'a multiset"
  assumes take_max: "inv h \<Longrightarrow> items h \<noteq> {#} \<Longrightarrow>
    \<exists>x h'. take_max h = Inr (Some x, h') \<and> x \<in># items h \<and> (\<forall>y \<in># items h. g y \<le> g x) \<and>
      inv h' \<and> items h' = items h - {#x#}"
begin

fun take_n :: "nat \<Rightarrow> 'h \<Rightarrow> ('a list \<times> 'h) res" where
  "take_n 0 h = Inr ([], h)"
| "take_n (Suc n) h =
     bindE (take_max h) (\<lambda>(x, h').
     bindE (deref x) (\<lambda>v. bindE (take_n n h') (\<lambda>(vs, h''). Inr (v # vs, h''))))"

lemma take_n_sorted:
  assumes "inv h" "n \<le> size (items h)"
  shows "\<exists>vs h'. take_n n h = Inr (vs, h') \<and> length vs = n \<and> sorted_wrt (\<lambda>a b. g b \<le> g a) vs \<and>
           items h = mset vs + items h' \<and> (\<forall>v \<in> set vs. \<forall>y \<in># items h'. g y \<le> g v) \<and> inv h'"
  using assms
proof (induction n arbitrary: h)
  case 0
  then show ?case by simp
next
  case (Suc n)
  then have "items h \<noteq> {#}" by auto
  then obtain x h1 where t: "take_max h = Inr (Some x, h1)" "x \<in># items h"
    and mx: "\<forall>y \<in># items h. g y \<le> g x" and h1: "inv h1" "items h1 = items h - {#x#}"
    using take_max [OF Suc.prems(1)] by blast
  have "n \<le> size (items h1)" using Suc.prems(2) t(2) h1(2) by (simp add: size_Diff_singleton)
  then obtain vs h2 where v: "take_n n h1 = Inr (vs, h2)" "length vs = n"
    "sorted_wrt (\<lambda>a b. g b \<le> g a) vs" "items h1 = mset vs + items h2"
    "\<forall>v \<in> set vs. \<forall>y \<in># items h2. g y \<le> g v" "inv h2"
    using Suc.IH [OF h1(1)] by blast
  have eq: "items h = add_mset x (mset vs + items h2)" using h1(2) t(2) v(4) by (metis insert_DiffM)
  then have "\<forall>y \<in> set vs. g y \<le> g x" "\<forall>y \<in># items h2. g y \<le> g x" using mx by auto
  then show ?case using t v eq by (simp add: deref_def)
qed

end

lemma mh_take_max:
  assumes ok: "mh_ok h" and o: "heap_ordered g h" and ne: "mh_items h \<noteq> {#}"
  shows "\<exists>x h'. mh_get_max g h = Inr (Some x, h') \<and> x \<in># mh_items h \<and> (\<forall>y \<in># mh_items h. g y \<le> g x) \<and>
      (mh_ok h' \<and> heap_ordered g h') \<and> mh_items h' = mh_items h - {#x#}"
proof -
  have "0 < size (mh_items h)" using ne by (simp add: nonempty_has_size)
  then have "0 < mh_size h" using size_mh_items [OF ok] by linarith
  from mh_get_max_ordered [OF ok this o] show ?thesis
    by (elim exE conjE) (intro exI conjI; assumption)
qed

interpretation mp: max_pool g "mh_get_max g" "\<lambda>h. mh_ok h \<and> heap_ordered g h" mh_items
  for g :: "'a \<Rightarrow> nat"
  by unfold_locales (rule mh_take_max, simp_all)

section \<open>Properties\<close>

lemma list_update_numeral: "(x # xs)[numeral k := y] = x # xs[pred_numeral k := y]"
  by (simp add: numeral_eq_Suc)

text \<open>Appending a list of items to a new heap, and taking a number of victims.\<close>

definition mh_append_all :: "nat \<Rightarrow> 'a list \<Rightarrow> 'a mh res" where
  "mh_append_all bn xs = foldE (\<lambda>x h. mh_insert_append h x) xs (mh_init bn)"

fun mh_take :: "('a \<Rightarrow> nat) \<Rightarrow> nat \<Rightarrow> 'a mh \<Rightarrow> ('a list \<times> 'a mh) res" where
  "mh_take g 0 h = Inr ([], h)"
| "mh_take g (Suc n) h =
     bindE (mh_get_max g h) (\<lambda>(x, h').
     bindE (deref x) (\<lambda>v. bindE (mh_take g n h') (\<lambda>(vs, h''). Inr (v # vs, h''))))"

lemma mh_take_eq: "mh_take g n h = mp.take_n g n h"
  by (induction n arbitrary: h) (simp_all add: bindE_def split: sum.splits prod.splits option.splits)

lemma mh_append_all_ok:
  assumes "length xs \<le> bn" "distinct xs"
  shows "\<exists>h. mh_append_all bn xs = Inr h \<and> mh_ok h \<and> mh_items h = mset xs \<and>
           mh_size h = int (length xs) \<and> mh_max h = bn \<and> hptr_ok (mh_body h) (mh_hptr h)"
  using assms
proof (induction xs rule: rev_induct)
  case Nil
  have "hptr_ok (mh_body (mh_init bn)) (mh_hptr (mh_init bn :: 'a mh))"
    by (simp add: hptr_ok_def dat_def mh_init_def del: replicate.simps)
  then show ?case by (simp add: mh_append_all_def mh_init_ok) (simp add: mh_init_def)
next
  case (snoc x xs)
  then obtain h where h: "mh_append_all bn xs = Inr h" "mh_ok h" "mh_items h = mset xs"
    "mh_size h = int (length xs)" "mh_max h = bn" "hptr_ok (mh_body h) (mh_hptr h)" by auto
  then have "mh_size h < int (mh_max h)" "x \<notin># mh_items h" using snoc.prems by auto
  with mh_insert_append_ok [OF h(2), of x] h snoc.prems show ?case
    by (auto simp: mh_append_all_def foldE_append)
qed

lemma heap_built:
  assumes "distinct xs" "length xs \<le> bn"
  obtains h1 h2 where "mh_append_all bn xs = Inr h1" "mh_construct g h1 = Inr h2" "mh_ok h2"
    "heap_ordered g h2" "mh_items h2 = mset xs" "mh_size h2 = int (length xs)"
    "hptr_ok (mh_body h2) (mh_hptr h2)"
proof -
  obtain h1 where h1: "mh_append_all bn xs = Inr h1" "mh_ok h1" "mh_items h1 = mset xs"
    "mh_size h1 = int (length xs)" "hptr_ok (mh_body h1) (mh_hptr h1)"
    using mh_append_all_ok assms by blast
  obtain h2 where h2: "mh_construct g h1 = Inr h2" "mh_same h1 h2" "heap_ordered g h2"
    using mh_construct_ordered [OF h1(2)] by blast
  have "mh_size h2 = int (length xs)" "hptr_ok (mh_body h2) (mh_hptr h2)"
    using h2(2) h1(4,5) unfolding mh_same_def rearr_def by auto
  with h1(1) h2(1) mh_same_ok [OF h2(2) h1(2)] h2(3) mh_same_items [OF h2(2)] h1(3) show ?thesis
    by (intro that) auto
qed

text \<open>
  C10: Collecting items with \<open>mh_insert_append\<close>, building the heap with \<open>mh_construct\<close> and taking
  items with \<open>mh_get_max\<close> hands out the items in the order of falling counts: what is taken is sorted,
  nothing that stays in the heap has a larger count than anything taken, and no item is lost or
  duplicated. The counts \<open>g\<close> are the ones the items have when the heap is built.
\<close>

theorem heap_takes_in_order:
  assumes "distinct xs" "length xs \<le> bn" "n \<le> length xs"
  shows "\<exists>h1 h2 vs h3. mh_append_all bn xs = Inr h1 \<and> mh_construct g h1 = Inr h2 \<and>
    mh_take g n h2 = Inr (vs, h3) \<and> length vs = n \<and> sorted_wrt (\<lambda>a b. g b \<le> g a) vs \<and>
    mset xs = mset vs + mh_items h3 \<and> (\<forall>v \<in> set vs. \<forall>y \<in># mh_items h3. g y \<le> g v)"
proof -
  obtain h1 h2 where h: "mh_append_all bn xs = Inr h1" "mh_construct g h1 = Inr h2" "mh_ok h2"
    "heap_ordered g h2" "mh_items h2 = mset xs" using heap_built [OF assms(1,2)] by metis
  then show ?thesis using mp.take_n_sorted [of h2 g n] assms(3) unfolding mh_take_eq by auto
qed

theorem heap_takes_in_order_witness:
  "\<exists>h1 h2 vs h3. mh_append_all 4 [3, 1, 4, 2] = Inr h1 \<and> mh_construct (\<lambda>k :: nat. k * k) h1 = Inr h2 \<and>
    mh_take (\<lambda>k. k * k) 3 h2 = Inr (vs, h3) \<and> length vs = 3 \<and> sorted_wrt (\<lambda>a b. b * b \<le> a * a) vs \<and>
    mset [3, 1, 4, 2] = mset vs + mh_items h3 \<and> (\<forall>v \<in> set vs. \<forall>y \<in># mh_items h3. y * y \<le> v * v)"
  by (rule heap_takes_in_order) simp_all

text \<open>
  C33: \<open>mh_construct\<close> leaves every item's back pointer (the \<open>hptr\<close> field the block manager later hands
  to \<open>mh_update\<close>) at the node that holds the item, puts an item of maximal count at the root and
  keeps the number of items.
\<close>

theorem construct_keeps_back_pointers:
  assumes "distinct xs" "length xs \<le> bn"
  shows "\<exists>h1 h2. mh_append_all bn xs = Inr h1 \<and> mh_construct g h1 = Inr h2 \<and>
    mh_size h2 = int (length xs) \<and> heap_ordered g h2 \<and>
    (\<forall>x \<in> set xs. \<exists>k. mh_hptr h2 x = Some k \<and> 1 \<le> k \<and> k \<le> length xs \<and> dat (mh_body h2) k = Some x)"
proof -
  obtain h1 h2 where h: "mh_append_all bn xs = Inr h1" "mh_construct g h1 = Inr h2" "mh_ok h2"
    "heap_ordered g h2" "mh_items h2 = mset xs" "mh_size h2 = int (length xs)"
    and hp: "hptr_ok (mh_body h2) (mh_hptr h2)" using heap_built [OF assms] by metis
  have "\<exists>k. mh_hptr h2 x = Some k \<and> 1 \<le> k \<and> k \<le> length xs \<and> dat (mh_body h2) k = Some x"
    if x: "x \<in> set xs" for x
  proof -
    have "x \<in># held (mh_body h2)" using x h(5) by (simp add: mh_items_def)
    then obtain k where k: "dat (mh_body h2) k = Some x" by (auto simp: held_iff)
    then show ?thesis using hp mh_ok_dat [OF h(3), of k] h(6) by (auto simp: hptr_ok_def)
  qed
  then show ?thesis using h by blast
qed

theorem construct_keeps_back_pointers_witness:
  "\<exists>h1 h2. mh_append_all 3 [7, 8, 9] = Inr h1 \<and> mh_construct (\<lambda>k :: nat. k) h1 = Inr h2 \<and>
    mh_size h2 = int (length [7 :: nat, 8, 9]) \<and> heap_ordered (\<lambda>k. k) h2 \<and>
    (\<forall>x \<in> set [7, 8, 9]. \<exists>k. mh_hptr h2 x = Some k \<and> 1 \<le> k \<and> k \<le> length [7 :: nat, 8, 9] \<and>
       dat (mh_body h2) k = Some x)"
  by (rule construct_keeps_back_pointers) simp_all

subsection \<open>Insertion with a large count\<close>

text \<open>Sifting down returns for every body in which the nodes fit, ordered or not.\<close>

lemma internal_downdate_loop_total:
  assumes "fits b" "0 < c" "c < length b"
  shows "\<exists>r. internal_downdate_loop g b hp c = Inr r"
  using assms
proof (induction g b hp c rule: internal_downdate_loop.induct)
  case (1 g b hp i)
  obtain r b1 where m: "maxchild g b i = Inr (r, b1)" "rearr b hp b1 hp" "dat b1 = dat b" and lc: "larger_child g b b1 i r"
    using maxchild_spec [OF "1.prems"(3,1), of g hp] by blast
  have len: "length b1 = length b" using m(2) by (simp add: rearr_def)
  show ?case
  proof (cases r)
    case None
    then show ?thesis using m by (simp add: internal_downdate_loop.simps)
  next
    case (Some c)
    then obtain x y where c: "c = i * 2 \<or> c = i * 2 + 1" "c < length b" and xy: "dat b i = Some x" "dat b c = Some y"
      using lc by auto
    have "hn_data (b1 ! i) = Some x" "hn_data (b1 ! c) = Some y" using xy m(3) len c "1.prems"(3) by (metis dat_def)+
    then obtain hp2 where hp2: "hp2 = hp(x := hp y, y := hp x)" and sw: "swap_hptr hp (hn_data (b1 ! i)) (hn_data (b1 ! c)) = Inr hp2"
      by (simp add: swap_hptr_def deref_def)
    have "rearr b1 hp (swap_nodes b1 c i) hp2"
      unfolding hp2 by (rule swap_rearr) (use c xy m(3) len "1.prems" in auto)
    then have "fits (swap_nodes b1 c i)" using m(2) "1.prems"(1) rearr_fits rearr_trans by blast
    then have "hn_cnt (b1 ! i) < hn_cnt (b1 ! c) \<Longrightarrow> \<exists>r. internal_downdate_loop g (swap_nodes b1 c i) hp2 c = Inr r"
      using "1.IH" [OF m(1) _ Some _ sw] c "1.prems"(2) len by auto
    then show ?thesis by (subst internal_downdate_loop.simps) (use m Some sw in auto)
  qed
qed

lemma mh_get_max_root:
  assumes ok: "mh_ok h" and pos: "0 < mh_size h"
  shows "\<exists>h'. mh_get_max g h = Inr (hn_data (mh_body h ! 1), h')"
proof -
  let ?b = "mh_body h" and ?l = "nat (mh_size h)"
  have l: "?l < length ?b" "1 < length ?b" "1 \<le> ?l" and szl: "mh_size h = int ?l"
    using ok pos by (auto simp: mh_ok_def)
  define b2 where "b2 = ?b[1 := ?b ! ?l, ?l := (?b ! ?l)\<lparr>hn_data := None\<rparr>]"
  have "dat b2 k = (if k = ?l then None else if k = 1 then dat ?b ?l else dat ?b k)" for k
    using l by (auto simp: dat_def b2_def nth_list_update)
  then have "dat b2 k = None \<longleftrightarrow> k = 0 \<or> mh_size h - 1 < int k" for k
    using szl l by (auto simp: mh_ok_dat [OF ok])
  then have "mh_ok (h\<lparr>mh_body := b2, mh_size := mh_size h - 1\<rparr>)" using ok pos by (simp add: mh_ok_def b2_def)
  from mh_ok_fits [OF this] obtain c b3 hp3 where "internal_downdate_loop g b2 (mh_hptr h) 1 = Inr (c, b3, hp3)"
    using internal_downdate_loop_total [of b2 1 g "mh_hptr h"] l by (auto simp: b2_def)
  then show ?thesis
    using l szl pos unfolding mh_get_max_def body_at_def mh_internal_downdate_def b2_def
    by (simp add: Let_def nth_list_update)
qed

text \<open>
  The climb from node \<open>n\<close>: the first exchange brings the old parent to \<open>n\<close>, and the next comparison is between that
  item and the grandparent, so it ends there.
\<close>

lemma climb_once:
  assumes n: "4 \<le> n" "n < length b" and d: "hn_data (b ! n) = Some x" "hn_data (b ! (n div 2)) = Some y"
    and lt: "hn_cnt (b ! (n div 2)) < hn_cnt (b ! n)" and ge: "hn_cnt (b ! (n div 2)) \<le> hn_cnt (b ! (n div 2 div 2))"
  shows "\<exists>hp'. internal_update_loop b hp n n n = Inr (n div 2, swap_nodes b n (n div 2), hp')"
proof -
  have k: "1 < n div 2" "n div 2 < n" "n div 2 div 2 < n div 2" "n div 2 div 2 < n" using n by auto
  then have l: "n div 2 < length b" "n div 2 div 2 < length b" using n by auto
  define b1 where "b1 = swap_nodes b n (n div 2)"
  have b1: "b1 ! n = b ! (n div 2)" "b1 ! (n div 2) = b ! n" "b1 ! (n div 2 div 2) = b ! (n div 2 div 2)" "length b1 = length b"
    using k l n by (simp_all add: b1_def swap_nodes_def)
  have "internal_update_loop b1 hp' n (n div 2) (n div 2) = Inr (n div 2, b1, hp')" for hp'
    using b1 k l n ge by (subst internal_update_loop.simps) (simp add: index_in del: div_mult2_eq)
  then show ?thesis
    using b1 k l n lt d by (subst internal_update_loop.simps) (simp add: index_in swap_hptr_def deref_def Let_def flip: b1_def)
qed

text \<open>
  C37: \<open>mh_internal_update\<close> climbs with \<open>idx\<close> but compares and exchanges the node it started at. In every ordered heap
  with up-to-date counts that holds at least three items and has room, an item inserted with a count above all others
  therefore stops at the parent of the node it was appended at, below the root, and the next \<open>mh_get_max\<close> hands out the
  old root, whose count is smaller.
\<close>

theorem insert_misses_the_root:
  assumes ok: "mh_ok h" and o: "heap_ordered g h"
    and cached: "\<forall>k y. dat (mh_body h) k = Some y \<longrightarrow> hn_cnt (mh_body h ! k) = g y"
    and size: "3 \<le> mh_size h" "mh_size h < int (mh_max h)" and largest: "\<forall>y \<in># mh_items h. g y < g x"
  shows "\<exists>h' h'' r. mh_insert h x (g x) = Inr h' \<and> hn_data (mh_body h' ! (nat (mh_size h + 1) div 2)) = Some x \<and>
    mh_get_max g h' = Inr (Some r, h'') \<and> hn_data (mh_body h ! 1) = Some r \<and> g r < g x"
proof -
  define n where "n = nat (mh_size h + 1)"
  let ?b = "mh_body h" let ?b1 = "?b[n := \<lparr>hn_cnt = g x, hn_data = Some x\<rparr>]"
  have n: "4 \<le> n" "n < length ?b" "mh_size h + 1 = int n" using ok size by (auto simp: mh_ok_def n_def)
  have k: "1 < n div 2" "n div 2 < n" "n div 2 div 2 < n" "1 \<le> n div 2 div 2" using n by auto
  have occ: "\<exists>y. dat ?b i = Some y \<and> hn_data (?b ! i) = Some y \<and> hn_cnt (?b ! i) = g y \<and> y \<in># mh_items h" if "1 \<le> i" "i < n" for i
  proof -
    have "dat ?b i \<noteq> None" using mh_ok_dat [OF ok, of i] that n(3) by auto
    then obtain y where y: "dat ?b i = Some y" by blast
    then show ?thesis using cached that n by (auto simp: mh_items_def held_iff dat_def split: if_splits)
  qed
  obtain y where y: "dat ?b (n div 2) = Some y" "hn_data (?b ! (n div 2)) = Some y" "hn_cnt (?b ! (n div 2)) = g y" "y \<in># mh_items h" using occ [of "n div 2"] k by auto
  obtain z where z: "dat ?b (n div 2 div 2) = Some z" "hn_cnt (?b ! (n div 2 div 2)) = g z" using occ [of "n div 2 div 2"] k by auto
  obtain r where r: "hn_data (?b ! 1) = Some r" "r \<in># mh_items h" using occ [of 1] n by auto
  have "ord_at g ?b (n div 2 div 2)" using o k by (simp add: heap_ordered_def)
  moreover have "n div 2 = n div 2 div 2 * 2 \<or> n div 2 = n div 2 div 2 * 2 + 1" by presburger
  ultimately have "g y \<le> g z" using y(1) z(1) unfolding ord_at_def by (metis below.simps(3))
  moreover have "?b1 ! (n div 2) = ?b ! (n div 2)" "?b1 ! (n div 2 div 2) = ?b ! (n div 2 div 2)" "?b1 ! n = \<lparr>hn_cnt = g x, hn_data = Some x\<rparr>" using k n by simp_all
  ultimately obtain hp' where up: "internal_update_loop ?b1 ((mh_hptr h)(x \<mapsto> n)) n n n = Inr (n div 2, swap_nodes ?b1 n (n div 2), hp')"
    using climb_once [of n ?b1 x y "(mh_hptr h)(x \<mapsto> n)"] y z(2) n largest by auto
  define h' where "h' = h\<lparr>mh_size := int n, mh_body := swap_nodes ?b1 n (n div 2), mh_hptr := hp'\<rparr>"
  have ins: "mh_insert h x (g x) = Inr h'"
    using up n size by (simp add: mh_insert_def body_at_def mh_internal_update_def h'_def)
  have body: "mh_body h' ! (n div 2) = \<lparr>hn_cnt = g x, hn_data = Some x\<rparr>" "mh_body h' ! 1 = ?b ! 1"
    using k n by (simp_all add: h'_def swap_nodes_def)
  have "dat ?b1 i = (if i = n then Some x else dat ?b i)" for i using n by (auto simp: dat_def)
  then have "dat (mh_body h') i = None \<longleftrightarrow> i = 0 \<or> int n < int i" for i
    using k n y by (auto simp: h'_def dat_swap_nodes mh_ok_dat [OF ok] simp del: of_nat_less_iff)
  then have "mh_ok h'" using ok n size by (simp add: mh_ok_def h'_def)
  then obtain h'' where "mh_get_max g h' = Inr (Some r, h'')" using mh_get_max_root [of h' g] body(2) r n by (auto simp: h'_def)
  then show ?thesis using ins body(1) r largest unfolding n_def by auto
qed

text \<open>Three items of counts 10, 5 and 1, and one of count 20.\<close>

theorem insert_misses_the_root_witness:
  "\<exists>h h' h''. foldE (\<lambda>x h. mh_insert h x x) [10, 5, 1] (mh_init 4) = Inr h \<and> mh_insert h 20 20 = Inr h' \<and>
     hn_data (mh_body h' ! 2) = Some 20 \<and> mh_get_max (\<lambda>x. x) h' = Inr (Some 10, h'')"
proof -
  let ?e = "\<lparr>hn_cnt = 0, hn_data = None :: nat option\<rparr>"
  let ?n = "\<lambda>c. \<lparr>hn_cnt = c, hn_data = Some c :: nat option\<rparr>"
  let ?h = "\<lparr>mh_body = [?e, ?n 10, ?n 5, ?n 1, ?e, ?e, ?e, ?e, ?e, ?e], mh_size = 3, mh_max = 4,
      mh_hptr = [10 \<mapsto> 1, 5 \<mapsto> 2, 1 \<mapsto> 3]\<rparr>"
  have i: "mh_init 4 = \<lparr>mh_body = [?e, ?e, ?e, ?e, ?e, ?e, ?e, ?e, ?e, ?e], mh_size = 0, mh_max = 4,
      mh_hptr = Map.empty\<rparr>" by (simp add: mh_init_def numeral_eq_Suc)
  have h: "foldE (\<lambda>x h. mh_insert h x x) [10, 5, 1] (mh_init 4) = Inr ?h"
    by (simp add: i mh_insert_def body_at_def mh_internal_update_def internal_update_loop.simps index_def list_update_numeral)
  have d: "dat (mh_body ?h) k = (if k = 1 then Some 10 else if k = 2 then Some 5 else if k = 3 then Some 1 else None)" for k
    by (simp add: dat_def nth_Cons' less_Suc_eq numeral_eq_Suc)
  have it: "mh_items ?h = {#10, 5, 1#}" by (simp add: mh_items_def held_def)
  have "\<exists>h' h'' r. mh_insert ?h 20 20 = Inr h' \<and> hn_data (mh_body h' ! (nat (mh_size ?h + 1) div 2)) = Some 20 \<and>
    mh_get_max (\<lambda>x. x) h' = Inr (Some r, h'') \<and> hn_data (mh_body ?h ! 1) = Some r \<and> r < 20"
  proof (rule insert_misses_the_root [where g = "\<lambda>x. x" and x = 20])
    show "mh_ok ?h" unfolding mh_ok_def d by auto
    show "heap_ordered (\<lambda>x. x) ?h" unfolding heap_ordered_def ord_at_def d by auto
    show "\<forall>k y. dat (mh_body ?h) k = Some y \<longrightarrow> hn_cnt (mh_body ?h ! k) = y" unfolding d by (auto simp: numeral_eq_Suc)
    show "\<forall>y \<in># mh_items ?h. y < 20" unfolding it by simp
  qed simp_all
  then show ?thesis using h by auto
qed

end
