(* ===== verification/Bb_Checker.thy ===== *)
theory Bb_Checker
  imports FD_Prelude
begin

text \<open>
  The bad-block checker of \<^verbatim>\<open>src/blockmanager/bb_checker.c\<close> and the address translation of
  \<^verbatim>\<open>src/blockmanager/bb_checker.h\<close>, with its use by the BlueDBM driver in
  \<^verbatim>\<open>src/lower/bdbm_drv/bdbm_inf.c\<close>. The device is used in SLC mode: every logical segment is spread
  over two physical ones, its own (or the one that replaces it when it is bad) and a paired one
  taken from the end of the device. Segment numbers and addresses are \<open>uint32_t\<close>; the additions
  that could wrap are taken modulo \<open>2 ^ 32\<close>.
\<close>

section \<open>The table and its construction\<close>

record bb_node =
  bb_flag :: bool
  origin_segnum :: nat
  deprived_from_segnum :: nat
  fixed_segnum :: nat
  pair_segnum :: nat

record bb_checker =
  ent :: "bb_node list"
  back_index :: nat
  start_block :: nat
  assign :: nat
  bb_max :: nat
  map_first :: bool
  target_cnt :: nat
  bb_cnt :: nat
  badblock_cnt :: nat

text \<open>\<open>memset(&checker,0,sizeof(checker))\<close> with the counters at their initial 0.\<close>

definition bb_zero :: "nat \<Rightarrow> bb_checker" where
  "bb_zero rnos =
     \<lparr>ent = replicate rnos \<lparr>bb_flag = False, origin_segnum = 0, deprived_from_segnum = 0,
        fixed_segnum = 0, pair_segnum = 0\<rparr>,
      back_index = 0, start_block = 0, assign = 0, bb_max = 0, map_first = False,
      target_cnt = 0, bb_cnt = 0, badblock_cnt = 0\<rparr>"

text \<open>The completion of the check of one block of segment \<open>bad_seg\<close>, called back by the device.\<close>

definition bb_checker_process :: "nat \<Rightarrow> bool \<Rightarrow> bb_checker \<Rightarrow> bb_checker res" where
  "bb_checker_process bad_seg isbad c =
     bindE (index (ent c) bad_seg) (\<lambda>e.
       let c1 = (if \<not> bb_flag e
                 then c\<lparr>ent := (ent c)[bad_seg := e\<lparr>bb_flag := isbad\<rparr>],
                        badblock_cnt := badblock_cnt c + (if isbad then 1 else 0)\<rparr>
                 else c)
       in Inr (c1\<lparr>bb_cnt := bb_cnt c1 + 1\<rparr>))"

definition bb_checker_static_bad :: "bb_checker \<Rightarrow> bb_checker res" where
  "bb_checker_static_bad c =
     foldE (\<lambda>a c1.
       bindE (index (ent c1) (a div 2 ^ 14)) (\<lambda>e.
         Inr (if \<not> bb_flag e
              then c1\<lparr>ent := (ent c1)[a div 2 ^ 14 := e\<lparr>bb_flag := True\<rparr>],
                      badblock_cnt := badblock_cnt c1 + 1\<rparr>
              else c1)))
       [8438006, 66560755] c"

text \<open>\<open>&checker.ent[i]\<close> for a C integer \<open>i\<close>.\<close>

definition ent_at :: "bb_node list \<Rightarrow> int \<Rightarrow> bb_node res" where
  "ent_at es i = (if 0 \<le> i \<and> nat i < length es then Inr (es ! nat i) else Inl Bad_Access)"

text \<open>\<open>while(checker.ent[max_segnum-test_cnt].flag){test_cnt++;}\<close>\<close>

function test_cnt_loop :: "bb_node list \<Rightarrow> int \<Rightarrow> int \<Rightarrow> int res" where
  "test_cnt_loop es max_segnum test_cnt =
     (case ent_at es (max_segnum - test_cnt) of
        Inl e \<Rightarrow> Inl e
      | Inr n \<Rightarrow> if bb_flag n then test_cnt_loop es max_segnum (test_cnt + 1) else Inr test_cnt)"
  by pat_completeness auto
termination
  by (relation "measure (\<lambda>(es, m, t). nat (m - t + 1))")
    (auto simp: ent_at_def split: if_splits)

declare test_cnt_loop.simps [simp del]

text \<open>
  One round of the loop of \<open>bb_checker_fixing\<close>, in two halves: the replacement of a bad segment,
  and the search of the pair. The answer \<open>None\<close> is a \<open>break\<close>; otherwise it is the new value of
  \<open>max_segnum\<close>.
\<close>

definition fixing_bad :: "bb_node list \<Rightarrow> int \<Rightarrow> int \<Rightarrow> (bb_node list \<times> int option) res" where
  "fixing_bad es start_segnum max_segnum =
     bindE (ent_at es start_segnum) (\<lambda>s.
       if bb_flag s then
         bindE (test_cnt_loop es max_segnum 0) (\<lambda>test_cnt.
           let m = max_segnum - test_cnt in
           if m \<le> start_segnum then Inr (es, None)
           else
             bindE (ent_at es m) (\<lambda>f.
               let es1 = es[nat start_segnum := s\<lparr>fixed_segnum := origin_segnum f\<rparr>];
                   es2 = es1[nat m := (es1 ! nat m)\<lparr>deprived_from_segnum := origin_segnum s\<rparr>]
               in Inr (es2, Some (m - 1))))
       else Inr (es, Some max_segnum))"

definition fixing_pair :: "bb_node list \<Rightarrow> int \<Rightarrow> int \<Rightarrow> (bb_node list \<times> int option) res" where
  "fixing_pair es start_segnum max_segnum =
     bindE (test_cnt_loop es max_segnum 0) (\<lambda>test_cnt.
       if max_segnum \<le> start_segnum then Inr (es, None)
       else
         let m = max_segnum - test_cnt in
         bindE (ent_at es m) (\<lambda>q.
         bindE (ent_at es start_segnum) (\<lambda>s.
           let es1 = es[nat start_segnum := s\<lparr>pair_segnum := origin_segnum q\<rparr>];
               es2 = es1[nat m := (es1 ! nat m)\<lparr>pair_segnum := origin_segnum s\<rparr>]
           in Inr (es2, Some (m - 1)))))"

definition fixing_round :: "bb_node list \<Rightarrow> int \<Rightarrow> int \<Rightarrow> (bb_node list \<times> int option) res" where
  "fixing_round es start_segnum max_segnum =
     bindE (fixing_bad es start_segnum max_segnum) (\<lambda>(es, r).
       case r of
         None \<Rightarrow> Inr (es, None)
       | Some max_segnum \<Rightarrow> fixing_pair es start_segnum max_segnum)"

lemma test_cnt_loop_ge: "test_cnt_loop es m t = Inr r \<Longrightarrow> t \<le> r"
proof (induction es m t rule: test_cnt_loop.induct)
  case (1 es m t)
  show ?case
  proof (cases "ent_at es (m - t)")
    case (Inr n)
    then show ?thesis
      using 1 by (cases "bb_flag n") (auto simp: test_cnt_loop.simps [of es m t])
  qed (use 1 in \<open>simp add: test_cnt_loop.simps\<close>)
qed

lemma fixing_round_decreases:
  "fixing_round es s m = Inr (es', Some m') \<Longrightarrow> m' < m"
  unfolding fixing_round_def fixing_bad_def fixing_pair_def
  by (auto simp: bindE_eq_Inr Let_def split: if_splits option.splits dest!: test_cnt_loop_ge)

function fixing_loop :: "bb_node list \<Rightarrow> int \<Rightarrow> int \<Rightarrow> (bb_node list \<times> int) res" where
  "fixing_loop es start_segnum max_segnum =
     (if start_segnum \<le> max_segnum then
        (case fixing_round es start_segnum max_segnum of
           Inl e \<Rightarrow> Inl e
         | Inr (es', None) \<Rightarrow> Inr (es', start_segnum)
         | Inr (es', Some m') \<Rightarrow> fixing_loop es' (start_segnum + 1) m')
      else Inr (es, start_segnum))"
  by pat_completeness auto
termination
proof (relation "measure (\<lambda>(es, s, m). nat (m - s + 1))", goal_cases)
  case 1
  show ?case by simp
next
  case (2 es s m r es' y m')
  then show ?case using fixing_round_decreases [of es s m es' m'] by auto
qed

declare fixing_loop.simps [simp del]

text \<open>The table after the loop, and the number of segments it has prepared.\<close>

definition bb_checker_fixing :: "bb_checker \<Rightarrow> (bb_checker \<times> int) res" where
  "bb_checker_fixing c =
     bindE (fixing_loop (ent c) 0 (int (length (ent c)) - 1)) (\<lambda>(es, total).
       Inr (c\<lparr>back_index := length (ent c) - 1, ent := es\<rparr>, total))"

text \<open>
  \<open>device\<close> stands for \<open>li->device_badblock_checker\<close>, which the lower driver may leave \<open>NULL\<close>. The device
  answers on its own time: for the request of the segment that starts at a page, \<open>device\<close> gives the calls of
  \<open>bb_checker_process\<close> it makes after this request and before the next one, and after the last request
  those it makes while \<open>bb_checker_start\<close> waits.
\<close>

definition bb_checker_start :: "nat \<Rightarrow> (nat \<Rightarrow> (nat \<times> bool) list) option \<Rightarrow> (bb_checker \<times> int) res" where
  "bb_checker_start rnos device =
     bindE (foldE (\<lambda>i c.
              bindE (index (ent c) i) (\<lambda>e.
                let c1 = c\<lparr>ent := (ent c)[i := e\<lparr>origin_segnum := i * PPS,
                                                 deprived_from_segnum := UINT_MAX\<rparr>]\<rparr>
                in (case device of
                      None \<Rightarrow> Inr (c1\<lparr>bb_cnt := bb_cnt c1 + BPS\<rparr>)
                    | Some f \<Rightarrow> foldE (\<lambda>(seg, isbad). bb_checker_process seg isbad) (f (i * PPS)) c1)))
              [0..<rnos]
              ((bb_zero rnos)\<lparr>target_cnt := rnos * 64, map_first := True\<rparr>)) (\<lambda>c.
     if target_cnt c \<noteq> bb_cnt c then Inl Hang
     else bindE (bb_checker_static_bad c) bb_checker_fixing)"

definition bb_checker_get_segid :: "bb_checker \<Rightarrow> (nat \<times> bb_checker) res" where
  "bb_checker_get_segid c =
     bindE (index (ent c) (assign c)) (\<lambda>e. Inr (origin_segnum e, c\<lparr>assign := assign c + 1\<rparr>))"

definition bb_checker_fixed_segment :: "bb_checker \<Rightarrow> nat \<Rightarrow> nat res" where
  "bb_checker_fixed_segment c ppa =
     bindE (index (ent c) (ppa div 2 ^ 14)) (\<lambda>e.
       Inr (if bb_flag e then fixed_segnum e else ppa))"

definition bb_checker_paired_segment :: "nat \<Rightarrow> bb_checker \<Rightarrow> nat \<Rightarrow> nat res" where
  "bb_checker_paired_segment nos c ppa =
     bb_checker_fixed_segment c ((ppa div 2 ^ 14 + nos) * 2 ^ 14 mod 2 ^ 32)"

section \<open>Address translation\<close>

text \<open>The page of a block and whether it is in the paired segment (\<open>shouldchg\<close>).\<close>

definition fix_page :: "nat \<Rightarrow> nat \<times> bool" where
  "fix_page page =
     (if page \<ge> 4 then
        if page \<ge> 254 \<or> page < 6 then (page - 4, True)
        else if page mod 4 < 2 then (if page > 6 then page - 6 else page, True)
        else (page, False)
      else (page, False))"

definition bb_checker_fix_ppa :: "bool \<Rightarrow> nat \<Rightarrow> nat \<Rightarrow> nat \<Rightarrow> nat" where
  "bb_checker_fix_ppa isfixing fixed_block pair_block ppa =
     (let block = ppa div 2 ^ 14;
          bus = ppa mod 8;
          chip = ppa div 2 ^ 3 mod 8;
          (page, shouldchg) = fix_page (ppa div 2 ^ 6 mod 256);
          res = bus + chip * 2 ^ 3 + page * 2 ^ 6 + block * 2 ^ 14;
          origin_remain = res mod PPS
      in if \<not> shouldchg \<and> isfixing then (fixed_block + origin_remain) mod 2 ^ 32
         else if shouldchg then (pair_block + origin_remain) mod 2 ^ 32
         else res)"

text \<open>
  The physical address at which the BlueDBM driver reads and writes a page
  (\<open>memio_info_push_data\<close>, \<open>memio_info_pull_data\<close>, \<open>change_ppa_list\<close>), and the two physical blocks
  that \<open>memio_info_trim_a_block\<close> erases.
\<close>

definition memio_fppa :: "bb_node list \<Rightarrow> nat \<Rightarrow> nat res" where
  "memio_fppa es ppa =
     bindE (index es (ppa div 2 ^ 14)) (\<lambda>t.
       Inr (bb_checker_fix_ppa (bb_flag t) (fixed_segnum t) (pair_segnum t) ppa))"

fun change_ppa_list :: "bb_node list \<Rightarrow> nat list \<Rightarrow> nat list res" where
  "change_ppa_list es [] = Inr []"
| "change_ppa_list es (s # src) =
     bindE (memio_fppa es s) (\<lambda>d. bindE (change_ppa_list es src) (\<lambda>des. Inr (d # des)))"

definition memio_info_trim_a_block :: "bb_node list \<Rightarrow> nat \<Rightarrow> (nat \<times> nat) res" where
  "memio_info_trim_a_block es ppa =
     (let pp = ppa mod BPS in
      bindE (index es (ppa div 2 ^ 14)) (\<lambda>t.
        Inr (if bb_flag t then (fixed_segnum t + pp) mod 2 ^ 32 else ppa,
             (pair_segnum t + pp) mod 2 ^ 32)))"

text \<open>Conditional equations with which the simplifier runs the loops on concrete tables.\<close>

lemma test_cnt_loop_eval:
  "ent_at es (m - t) = Inl e \<Longrightarrow> test_cnt_loop es m t = Inl e"
  "ent_at es (m - t) = Inr n \<Longrightarrow> \<not> bb_flag n \<Longrightarrow> test_cnt_loop es m t = Inr t"
  "ent_at es (m - t) = Inr n \<Longrightarrow> bb_flag n \<Longrightarrow> test_cnt_loop es m t = test_cnt_loop es m (t + 1)"
  by (subst test_cnt_loop.simps, simp)+

lemma fixing_loop_eval:
  "m < s \<Longrightarrow> fixing_loop es s m = Inr (es, s)"
  "s \<le> m \<Longrightarrow> fixing_round es s m = Inl e \<Longrightarrow> fixing_loop es s m = Inl e"
  "s \<le> m \<Longrightarrow> fixing_round es s m = Inr (es', None) \<Longrightarrow> fixing_loop es s m = Inr (es', s)"
  "s \<le> m \<Longrightarrow> fixing_round es s m = Inr (es', Some m') \<Longrightarrow> fixing_loop es s m = fixing_loop es' (s + 1) m'"
  by (subst fixing_loop.simps, simp)+

lemmas fixing_run = upt_rec fixing_loop_eval test_cnt_loop_eval fixing_round_def fixing_bad_def
  fixing_pair_def ent_at_def

section \<open>The pairing loop\<close>

text \<open>
  \<open>test_cnt\<close> counts the bad segments from \<open>max_segnum\<close> down to the nearest good one, which exists
  whenever some segment below is good.
\<close>

lemma test_cnt_loop_from:
  assumes "g + d + t = m" "m < length es" "\<not> bb_flag (es ! g)"
    and "\<And>i. m - t < i \<Longrightarrow> i \<le> m \<Longrightarrow> bb_flag (es ! i)"
  shows "\<exists>q. g \<le> q \<and> q \<le> m \<and> \<not> bb_flag (es ! q) \<and> (\<forall>i. q < i \<longrightarrow> i \<le> m \<longrightarrow> bb_flag (es ! i)) \<and>
           test_cnt_loop es (int m) (int t) = Inr (int (m - q))"
  using assms
proof (induction d arbitrary: t)
  case 0
  then have "int m - int t = int g" "m - g = t" by auto
  then show ?case using 0
    by (intro exI [of _ g]) (auto simp: test_cnt_loop.simps [of es "int m" "int t"] ent_at_def)
next
  case (Suc d)
  have lt: "t \<le> m" "m - t < length es" using Suc.prems by auto
  have at: "ent_at es (int m - int t) = Inr (es ! (m - t))"
    using lt by (simp add: ent_at_def nat_diff_distrib)
  show ?case
  proof (cases "bb_flag (es ! (m - t))")
    case True
    have "bb_flag (es ! i)" if "m - Suc t < i" "i \<le> m" for i
      using that Suc.prems(4) True by (cases "i = m - t") auto
    then obtain q where "g \<le> q" "q \<le> m" "\<not> bb_flag (es ! q)" "\<forall>i. q < i \<longrightarrow> i \<le> m \<longrightarrow> bb_flag (es ! i)"
      "test_cnt_loop es (int m) (int (Suc t)) = Inr (int (m - q))"
      using Suc.IH [of "Suc t"] Suc.prems by auto
    moreover have "test_cnt_loop es (int m) (int t) = test_cnt_loop es (int m) (int (Suc t))"
      by (subst test_cnt_loop.simps) (simp add: at True add.commute)
    ultimately show ?thesis by auto
  next
    case False
    have "test_cnt_loop es (int m) (int t) = Inr (int t)"
      by (subst test_cnt_loop.simps) (simp add: at False)
    then show ?thesis using Suc.prems False by (intro exI [of _ "m - t"]) auto
  qed
qed

lemma test_cnt_loop_ok:
  assumes "g \<le> m" "m < length es" "\<not> bb_flag (es ! g)"
  shows "\<exists>q. g \<le> q \<and> q \<le> m \<and> \<not> bb_flag (es ! q) \<and> (\<forall>i. q < i \<longrightarrow> i \<le> m \<longrightarrow> bb_flag (es ! i)) \<and>
           test_cnt_loop es (int m) 0 = Inr (int m - int q)"
  using test_cnt_loop_from [of g "m - g" 0 m es] assms by (auto simp: of_nat_diff)

text \<open>What one round writes: a replacement for a bad segment and a pair for every segment.\<close>

definition replaced :: "bb_node list \<Rightarrow> nat \<Rightarrow> nat \<Rightarrow> bb_node list" where
  "replaced es s f = es[s := (es ! s)\<lparr>fixed_segnum := origin_segnum (es ! f)\<rparr>,
                       f := (es ! f)\<lparr>deprived_from_segnum := origin_segnum (es ! s)\<rparr>]"

definition paired :: "bb_node list \<Rightarrow> nat \<Rightarrow> nat \<Rightarrow> bb_node list" where
  "paired es s q = es[s := (es ! s)\<lparr>pair_segnum := origin_segnum (es ! q)\<rparr>,
                     q := (es ! q)\<lparr>pair_segnum := origin_segnum (es ! s)\<rparr>]"

lemma fixing_pair_ok:
  assumes "s < g" "g \<le> m" "m < length es" "\<not> bb_flag (es ! g)"
  shows "\<exists>q. g \<le> q \<and> q \<le> m \<and> \<not> bb_flag (es ! q) \<and> (\<forall>i. q < i \<longrightarrow> i \<le> m \<longrightarrow> bb_flag (es ! i)) \<and>
           fixing_pair es (int s) (int m) = Inr (paired es s q, Some (int q - 1))"
proof -
  obtain q where q: "g \<le> q" "q \<le> m" "\<not> bb_flag (es ! q)" "\<forall>i. q < i \<longrightarrow> i \<le> m \<longrightarrow> bb_flag (es ! i)"
    "test_cnt_loop es (int m) 0 = Inr (int m - int q)"
    using test_cnt_loop_ok [of g m es] assms by blast
  then show ?thesis using assms
    by (intro exI [of _ q]) (simp add: Let_def ent_at_def paired_def fixing_pair_def)
qed

lemma round_good:
  assumes "s < g" "g \<le> m" "m < length es" "\<not> bb_flag (es ! s)" "\<not> bb_flag (es ! g)"
  shows "\<exists>q. g \<le> q \<and> q \<le> m \<and> \<not> bb_flag (es ! q) \<and> (\<forall>i. q < i \<longrightarrow> i \<le> m \<longrightarrow> bb_flag (es ! i)) \<and>
           fixing_round es (int s) (int m) = Inr (paired es s q, Some (int q - 1))"
proof -
  have "fixing_bad es (int s) (int m) = Inr (es, Some (int m))"
    using assms by (simp add: fixing_bad_def ent_at_def)
  then show ?thesis using fixing_pair_ok [of s g m es] assms by (simp add: fixing_round_def)
qed

lemma round_stop:
  assumes "s < length es" "\<not> bb_flag (es ! s)"
  shows "fixing_round es (int s) (int s) = Inr (es, None)"
  using test_cnt_loop_ok [of s s es] assms
  by (auto simp: fixing_round_def fixing_bad_def fixing_pair_def ent_at_def)

lemma replaced_nth [simp]:
  "s < length es \<Longrightarrow> f < length es \<Longrightarrow> s \<noteq> f \<Longrightarrow> i < length es \<Longrightarrow> bb_flag (replaced es s f ! i) = bb_flag (es ! i)"
  "s < length es \<Longrightarrow> f < length es \<Longrightarrow> s \<noteq> f \<Longrightarrow> i < length es \<Longrightarrow> origin_segnum (replaced es s f ! i) = origin_segnum (es ! i)"
  "s < length es \<Longrightarrow> f < length es \<Longrightarrow> s \<noteq> f \<Longrightarrow> i < length es \<Longrightarrow> pair_segnum (replaced es s f ! i) = pair_segnum (es ! i)"
  "s < length es \<Longrightarrow> f < length es \<Longrightarrow> s \<noteq> f \<Longrightarrow> i < length es \<Longrightarrow> fixed_segnum (replaced es s f ! i) =
     (if i = s then origin_segnum (es ! f) else fixed_segnum (es ! i))"
  "s < length es \<Longrightarrow> f < length es \<Longrightarrow> s \<noteq> f \<Longrightarrow> i < length es \<Longrightarrow> deprived_from_segnum (replaced es s f ! i) =
     (if i = f then origin_segnum (es ! s) else deprived_from_segnum (es ! i))"
  by (auto simp: replaced_def nth_list_update)

lemma paired_nth [simp]:
  "s < length es \<Longrightarrow> q < length es \<Longrightarrow> s \<noteq> q \<Longrightarrow> i < length es \<Longrightarrow> bb_flag (paired es s q ! i) = bb_flag (es ! i)"
  "s < length es \<Longrightarrow> q < length es \<Longrightarrow> s \<noteq> q \<Longrightarrow> i < length es \<Longrightarrow> origin_segnum (paired es s q ! i) = origin_segnum (es ! i)"
  "s < length es \<Longrightarrow> q < length es \<Longrightarrow> s \<noteq> q \<Longrightarrow> i < length es \<Longrightarrow> fixed_segnum (paired es s q ! i) = fixed_segnum (es ! i)"
  "s < length es \<Longrightarrow> q < length es \<Longrightarrow> s \<noteq> q \<Longrightarrow> i < length es \<Longrightarrow> deprived_from_segnum (paired es s q ! i) = deprived_from_segnum (es ! i)"
  "s < length es \<Longrightarrow> q < length es \<Longrightarrow> s \<noteq> q \<Longrightarrow> i < length es \<Longrightarrow> pair_segnum (paired es s q ! i) =
     (if i = s then origin_segnum (es ! q) else if i = q then origin_segnum (es ! s) else pair_segnum (es ! i))"
  by (auto simp: paired_def nth_list_update)

lemma length_replaced [simp]: "length (replaced es s f) = length es" "length (paired es s f) = length es"
  by (simp_all add: replaced_def paired_def)

lemma round_bad:
  assumes "s < g" "g < g'" "g' \<le> m" "m < length es" "bb_flag (es ! s)" "\<not> bb_flag (es ! g)" "\<not> bb_flag (es ! g')"
  shows "\<exists>f q. g \<le> q \<and> q < f \<and> f \<le> m \<and> \<not> bb_flag (es ! q) \<and> \<not> bb_flag (es ! f) \<and>
           (\<forall>i. q < i \<longrightarrow> i \<le> m \<longrightarrow> i \<noteq> f \<longrightarrow> bb_flag (es ! i)) \<and>
           fixing_round es (int s) (int m) = Inr (paired (replaced es s f) s q, Some (int q - 1))"
proof -
  obtain f where f: "g' \<le> f" "f \<le> m" "\<not> bb_flag (es ! f)" "\<forall>i. f < i \<longrightarrow> i \<le> m \<longrightarrow> bb_flag (es ! i)"
    "test_cnt_loop es (int m) 0 = Inr (int m - int f)"
    using test_cnt_loop_ok [of g' m es] assms by blast
  let ?es = "replaced es s f"
  have sf: "s < f" "f < length es" "s < length es" and f1: "int f - 1 = int (f - 1)"
    using f assms by auto
  have bad: "fixing_bad es (int s) (int m) = Inr (?es, Some (int (f - 1)))"
    using f sf assms by (simp add: fixing_bad_def ent_at_def Let_def replaced_def)
  have "g < length es" "s \<noteq> f" using assms sf by auto
  then have lt: "\<not> bb_flag (?es ! g)" "s < g" "g \<le> f - 1" "f - 1 < length es" using assms sf f by auto
  then obtain q where q: "g \<le> q" "q \<le> f - 1" "\<not> bb_flag (?es ! q)"
     "\<forall>i. q < i \<longrightarrow> i \<le> f - 1 \<longrightarrow> bb_flag (?es ! i)"
     "fixing_pair ?es (int s) (int (f - 1)) = Inr (paired ?es s q, Some (int q - 1))"
    using fixing_pair_ok [of s g "f - 1" ?es] lt unfolding length_replaced by blast
  have "fixing_round es (int s) (int m) = Inr (paired ?es s q, Some (int q - 1))"
    using bad q(5) by (simp add: fixing_round_def)
  moreover have "bb_flag (es ! i)" if "q < i" "i \<le> m" "i \<noteq> f" for i
    using that q(4) f(4) sf by (cases "i < f") auto
  moreover have "\<not> bb_flag (es ! q)" using q sf by auto
  ultimately show ?thesis using q f sf by (intro exI [of _ f] exI [of _ q]) auto
qed

section \<open>The table the loop leaves\<close>

text \<open>
  \<open>has_fix n es i\<close>: a bad segment \<open>i\<close> has been given a good segment from \<open>n\<close> upwards, which knows
  whom it replaces. \<open>has_pair n es i\<close>: segment \<open>i\<close> has a good pair from \<open>n\<close> upwards, which points
  back and replaces no one.
\<close>

definition has_fix :: "nat \<Rightarrow> bb_node list \<Rightarrow> nat \<Rightarrow> bool" where
  "has_fix n es i \<longleftrightarrow>
     (bb_flag (es ! i) \<longrightarrow> (\<exists>f < length es. n \<le> f \<and> \<not> bb_flag (es ! f) \<and>
        fixed_segnum (es ! i) = f * PPS \<and> deprived_from_segnum (es ! f) = i * PPS))"

definition has_pair :: "nat \<Rightarrow> bb_node list \<Rightarrow> nat \<Rightarrow> bool" where
  "has_pair n es i \<longleftrightarrow>
     (\<exists>q < length es. n \<le> q \<and> \<not> bb_flag (es ! q) \<and> pair_segnum (es ! i) = q * PPS \<and>
        pair_segnum (es ! q) = i * PPS \<and> deprived_from_segnum (es ! q) = UINT_MAX)"

definition bb_consistent :: "nat \<Rightarrow> bb_node list \<Rightarrow> bool" where
  "bb_consistent n es \<longleftrightarrow> n \<le> length es \<and> (\<forall>i < n. has_fix n es i \<and> has_pair n es i)"

lemma has_fix_mono: "has_fix n es i \<Longrightarrow> k \<le> n \<Longrightarrow> has_fix k es i"
  unfolding has_fix_def by (meson order_trans)

lemma has_pair_mono: "has_pair n es i \<Longrightarrow> k \<le> n \<Longrightarrow> has_pair k es i"
  unfolding has_pair_def by (meson order_trans)

text \<open>The segments whose flag is set, and the ones the loop has passed.\<close>

definition bad_set :: "(nat \<Rightarrow> bool) \<Rightarrow> nat \<Rightarrow> nat set" where
  "bad_set fl n = {i. i < n \<and> fl i}"

definition passed :: "(nat \<Rightarrow> bool) \<Rightarrow> nat \<Rightarrow> nat \<Rightarrow> nat \<Rightarrow> nat set" where
  "passed fl n s hi = {i. i < n \<and> fl i \<and> (i < s \<or> hi \<le> i)}"

lemma passed_card: "card (passed fl n s hi) \<le> card (bad_set fl n)"
  by (rule card_mono) (auto simp: passed_def bad_set_def)

definition served :: "bb_node list \<Rightarrow> nat \<Rightarrow> nat \<Rightarrow> bool" where
  "served es s hi \<longleftrightarrow> (\<forall>i < s. has_fix hi es i \<and> has_pair hi es i)"

text \<open>
  The loop invariant: \<open>hi\<close> is \<open>max_segnum + 1\<close>. The segments below \<open>s\<close> are served by good ones
  from \<open>hi\<close> upwards, and every segment outside \<open>s ..< hi\<close> has been used or is bad.
\<close>

definition fixing_inv :: "(nat \<Rightarrow> bool) \<Rightarrow> nat \<Rightarrow> bb_node list \<Rightarrow> nat \<Rightarrow> nat \<Rightarrow> bool" where
  "fixing_inv fl n es s hi \<longleftrightarrow>
     length es = n \<and> s \<le> hi \<and> hi \<le> n \<and> hi + s + card (passed fl n s hi) = n \<and>
     (\<forall>i < n. bb_flag (es ! i) = fl i \<and> origin_segnum (es ! i) = i * PPS) \<and> served es s hi \<and>
     (\<forall>i < hi. deprived_from_segnum (es ! i) = UINT_MAX)"

lemma served_keep:
  assumes sv: "served es s hi" and len: "length es' = length es" and "s \<le> length es" "k \<le> hi"
    and low: "\<And>i. i < s \<Longrightarrow> bb_flag (es' ! i) = bb_flag (es ! i) \<and> fixed_segnum (es' ! i) = fixed_segnum (es ! i) \<and>
                pair_segnum (es' ! i) = pair_segnum (es ! i)"
    and high: "\<And>i. hi \<le> i \<Longrightarrow> i < length es \<Longrightarrow> es' ! i = es ! i"
  shows "served es' s k"
proof -
  have "has_fix hi es' i" "has_pair hi es' i" if i: "i < s" for i
  proof -
    have f: "has_fix hi es i" and p: "has_pair hi es i" using sv i by (auto simp: served_def)
    show "has_fix hi es' i" using f low [OF i] high unfolding has_fix_def len by metis
    show "has_pair hi es' i" using p low [OF i] high unfolding has_pair_def len by metis
  qed
  then show ?thesis using \<open>k \<le> hi\<close> has_fix_mono has_pair_mono unfolding served_def by blast
qed

lemma served_paired:
  assumes sv: "served es s hi" and q: "s < q" "q < hi" "q < length es" "\<not> bb_flag (es ! q)"
    and o: "origin_segnum (es ! s) = s * PPS" "origin_segnum (es ! q) = q * PPS"
    and d: "deprived_from_segnum (es ! q) = UINT_MAX" and fx: "has_fix hi es s"
  shows "served (paired es s q) (Suc s) q"
proof -
  have l: "s < length es" "s \<noteq> q" using q by auto
  have "served (paired es s q) s q"
    by (rule served_keep [OF sv]) (use q l in \<open>auto simp: paired_def\<close>)
  moreover have "has_pair q (paired es s q) s"
    unfolding has_pair_def using l q o d by (intro exI [of _ q]) auto
  moreover have "has_fix q (paired es s q) s"
  proof (cases "bb_flag (es ! s)")
    case True
    then obtain f where "f < length es" "hi \<le> f" "\<not> bb_flag (es ! f)" "fixed_segnum (es ! s) = f * PPS"
      "deprived_from_segnum (es ! f) = s * PPS" using fx unfolding has_fix_def by auto
    then show ?thesis using l q unfolding has_fix_def by (intro impI exI [of _ f]) auto
  qed (use l q in \<open>simp add: has_fix_def\<close>)
  ultimately show ?thesis unfolding served_def less_Suc_eq by blast
qed

lemma served_replaced:
  assumes sv: "served es s hi" and f: "s < f" "f < hi" "f < length es" "\<not> bb_flag (es ! f)"
    and o: "origin_segnum (es ! s) = s * PPS" "origin_segnum (es ! f) = f * PPS"
  shows "served (replaced es s f) s f" "has_fix f (replaced es s f) s"
proof -
  have l: "s < length es" "s \<noteq> f" using f by auto
  show "served (replaced es s f) s f"
    by (rule served_keep [OF sv]) (use f l in \<open>auto simp: replaced_def\<close>)
  show "has_fix f (replaced es s f) s"
    unfolding has_fix_def using l f o by (intro impI exI [of _ f]) auto
qed

lemma fixing_inv_good:
  assumes inv: "fixing_inv fl n es s hi" and q: "s < q" "q < hi" "\<not> fl q" "\<not> fl s"
    and bad: "\<And>i. q < i \<Longrightarrow> i < hi \<Longrightarrow> fl i"
  shows "fixing_inv fl n (paired es s q) (Suc s) q"
proof -
  note I = inv [unfolded fixing_inv_def]
  have l: "s < n" "q < n" "s \<noteq> q" "length es = n" using I q by auto
  have eq: "passed fl n (Suc s) q = passed fl n s hi \<union> {q<..<hi}"
  proof (rule set_eqI)
    fix i
    show "i \<in> passed fl n (Suc s) q \<longleftrightarrow> i \<in> passed fl n s hi \<union> {q<..<hi}"
      using bad [of i] q I by (cases "i = s"; cases "i = q") (auto simp: passed_def)
  qed
  have "passed fl n s hi \<inter> {q<..<hi} = {}" using q by (auto simp: passed_def)
  then have c: "card (passed fl n (Suc s) q) = card (passed fl n s hi) + (hi - q - 1)"
    unfolding eq by (subst card_Un_disjoint) (auto simp: passed_def)
  have "served (paired es s q) (Suc s) q"
    by (rule served_paired) (use I q l in \<open>auto simp: has_fix_def\<close>)
  then show ?thesis using I c q l by (simp add: fixing_inv_def)
qed

lemma fixing_inv_bad:
  assumes inv: "fixing_inv fl n es s hi" and f: "s < q" "q < f" "f < hi" "\<not> fl q" "\<not> fl f" "fl s"
    and bad: "\<And>i. q < i \<Longrightarrow> i < hi \<Longrightarrow> i \<noteq> f \<Longrightarrow> fl i"
  shows "fixing_inv fl n (paired (replaced es s f) s q) (Suc s) q"
proof -
  note I = inv [unfolded fixing_inv_def]
  have l: "s < n" "q < n" "f < n" "s \<noteq> q" "s \<noteq> f" "q \<noteq> f" "length es = n" using I f by auto
  have eq: "passed fl n (Suc s) q = passed fl n s hi \<union> insert s ({q<..<hi} - {f})"
  proof (rule set_eqI)
    fix i
    show "i \<in> passed fl n (Suc s) q \<longleftrightarrow> i \<in> passed fl n s hi \<union> insert s ({q<..<hi} - {f})"
      using bad [of i] f I by (cases "i = s"; cases "i = q"; cases "i = f") (auto simp: passed_def)
  qed
  have "passed fl n s hi \<inter> insert s ({q<..<hi} - {f}) = {}" using f by (auto simp: passed_def)
  then have "card (passed fl n (Suc s) q) = card (passed fl n s hi) + card (insert s ({q<..<hi} - {f}))"
    unfolding eq by (subst card_Un_disjoint) (auto simp: passed_def)
  moreover have "card (insert s ({q<..<hi} - {f})) = hi - q - 1" using f by (simp add: card_insert_if)
  ultimately have c: "card (passed fl n (Suc s) q) = card (passed fl n s hi) + (hi - q - 1)" by simp
  have r: "served (replaced es s f) s f" "has_fix f (replaced es s f) s"
    using served_replaced [of es s hi f] I f l by auto
  have "served (paired (replaced es s f) s q) (Suc s) q"
    by (rule served_paired [OF r(1) f(1,2) _ _ _ _ _ r(2)]) (use I f l in auto)
  then show ?thesis using I c f l by (simp add: fixing_inv_def)
qed

text \<open>
  Where the loop succeeds: the bad segments leave a zone \<open>lo .. n div 2\<close> free, and there is room for
  the pairs of the segments below the zone above it.
\<close>

definition clear_zone :: "(nat \<Rightarrow> bool) \<Rightarrow> nat \<Rightarrow> nat \<Rightarrow> bool" where
  "clear_zone fl n lo \<longleftrightarrow>
     (\<forall>i. lo \<le> i \<and> i \<le> n div 2 \<longrightarrow> \<not> fl i) \<and> 2 * lo + card (bad_set fl n) + 2 \<le> n"

lemma zone_bounds:
  assumes "clear_zone fl n lo" "fixing_inv fl n es s hi"
  shows "n \<le> hi + s + card (bad_set fl n)" "hi + s \<le> n" "hi \<le> n"
    and "2 * lo + card (bad_set fl n) + 2 \<le> n"
  using assms passed_card [of fl n s hi] by (auto simp: clear_zone_def fixing_inv_def)

lemma fixing_loop_ok:
  assumes zone: "clear_zone fl n lo" and inv: "fixing_inv fl n es s hi"
  shows "\<exists>es' total k. fixing_loop es (int s) (int hi - 1) = Inr (es', int total) \<and>
           fixing_inv fl n es' total k \<and> k \<le> total + 1"
  using inv
proof (induction "hi - s" arbitrary: es s hi rule: less_induct)
  case less
  note b = zone_bounds [OF zone less.prems]
  note I = less.prems [unfolded fixing_inv_def]
  consider "hi = s" | "hi = Suc s" | "Suc s < hi" using I by linarith
  then show ?case
  proof cases
    case 1
    then show ?thesis using less.prems
      by (intro exI [of _ es] exI [of _ s] exI [of _ hi]) (simp add: fixing_loop.simps)
  next
    case 2
    then have "lo \<le> s" "s \<le> n div 2" using b by auto
    then have "\<not> bb_flag (es ! s)" "s < length es" using zone I 2 by (auto simp: clear_zone_def)
    then show ?thesis using less.prems round_stop [of s es] 2
      by (intro exI [of _ es] exI [of _ s] exI [of _ hi]) (simp add: fixing_loop.simps)
  next
    case 3
    have m: "int hi - 1 = int (hi - 1)" "hi - 1 < length es" using 3 I by auto
    have fl: "bb_flag (es ! i) = fl i" if "i < n" for i using that I by auto
    show ?thesis
    proof (cases "fl s")
      case False
      define g where "g = max lo (Suc s)"
      have g: "s < g" "g \<le> hi - 1" "g \<le> n div 2" "lo \<le> g" using b 3 unfolding g_def by auto
      then have "\<not> fl g" using zone by (auto simp: clear_zone_def)
      then have gg: "\<not> bb_flag (es ! g)" "\<not> bb_flag (es ! s)" using fl [of g] fl [of s] False g b 3 by auto
      obtain q where q: "g \<le> q" "q \<le> hi - 1" "\<not> bb_flag (es ! q)"
          "\<forall>i. q < i \<longrightarrow> i \<le> hi - 1 \<longrightarrow> bb_flag (es ! i)"
          "fixing_round es (int s) (int hi - 1) = Inr (paired es s q, Some (int q - 1))"
        unfolding m(1) using round_good [OF g(1,2) m(2) gg(2,1)] by blast
      have inv': "fixing_inv fl n (paired es s q) (Suc s) q"
        by (rule fixing_inv_good [OF less.prems]) (use q g b 3 False fl in auto)
      have "fixing_loop es (int s) (int hi - 1) = fixing_loop (paired es s q) (int (Suc s)) (int q - 1)"
        by (subst fixing_loop.simps) (use q 3 in \<open>simp add: add.commute\<close>)
      then show ?thesis using less.hyps [OF _ inv'] q g 3 by simp
    next
      case True
      then have s: "s < lo" using zone b 3 by (auto simp: clear_zone_def not_le [symmetric])
      have g: "s < lo" "lo < Suc lo" "Suc lo \<le> hi - 1" "Suc lo \<le> n div 2" using b 3 s by auto
      then have "\<not> fl lo" "\<not> fl (Suc lo)" using zone by (auto simp: clear_zone_def)
      then have gg: "\<not> bb_flag (es ! lo)" "\<not> bb_flag (es ! Suc lo)" "bb_flag (es ! s)"
        using fl [of lo] fl [of "Suc lo"] fl [of s] True g b 3 by auto
      obtain f q where q: "lo \<le> q" "q < f" "f \<le> hi - 1" "\<not> bb_flag (es ! q)" "\<not> bb_flag (es ! f)"
          "\<forall>i. q < i \<longrightarrow> i \<le> hi - 1 \<longrightarrow> i \<noteq> f \<longrightarrow> bb_flag (es ! i)"
          "fixing_round es (int s) (int hi - 1) = Inr (paired (replaced es s f) s q, Some (int q - 1))"
        unfolding m(1) using round_bad [OF g(1-3) m(2) gg(3,1,2)] by blast
      have inv': "fixing_inv fl n (paired (replaced es s f) s q) (Suc s) q"
        by (rule fixing_inv_bad [OF less.prems]) (use q g b 3 True fl in auto)
      have "fixing_loop es (int s) (int hi - 1) =
          fixing_loop (paired (replaced es s f) s q) (int (Suc s)) (int q - 1)"
        by (subst fixing_loop.simps) (use q 3 in \<open>simp add: add.commute\<close>)
      then show ?thesis using less.hyps [OF _ inv'] q g 3 by simp
    qed
  qed
qed

lemma fixing_inv_start:
  assumes "\<And>i. i < length es \<Longrightarrow> bb_flag (es ! i) = fl i \<and> origin_segnum (es ! i) = i * PPS \<and>
             deprived_from_segnum (es ! i) = UINT_MAX"
  shows "fixing_inv fl (length es) es 0 (length es)"
  using assms by (auto simp: fixing_inv_def passed_def served_def)

lemma bb_checker_fixing_ok:
  assumes zone: "clear_zone fl (length (ent c)) lo"
    and es: "\<And>i. i < length (ent c) \<Longrightarrow> bb_flag (ent c ! i) = fl i \<and> origin_segnum (ent c ! i) = i * PPS \<and>
               deprived_from_segnum (ent c ! i) = UINT_MAX"
  shows "\<exists>c' total. bb_checker_fixing c = Inr (c', int total) \<and> bb_consistent total (ent c') \<and>
           length (ent c') = length (ent c) \<and>
           (\<forall>i < length (ent c). bb_flag (ent c' ! i) = fl i \<and> origin_segnum (ent c' ! i) = i * PPS) \<and>
           length (ent c) \<le> 2 * total + card (bad_set fl (length (ent c))) + 1"
proof -
  have "fixing_inv fl (length (ent c)) (ent c) 0 (length (ent c))"
    by (rule fixing_inv_start) (rule es)
  then obtain es' total k where
    run: "fixing_loop (ent c) 0 (int (length (ent c)) - 1) = Inr (es', int total)"
    and inv: "fixing_inv fl (length (ent c)) es' total k" and k: "k \<le> total + 1"
    using fixing_loop_ok [OF zone, of "ent c" 0 "length (ent c)"] by auto
  have "bb_consistent total es'"
    using inv has_fix_mono [of k es' _ total] has_pair_mono [of k es' _ total]
    unfolding fixing_inv_def bb_consistent_def served_def by auto
  then show ?thesis
    using run inv k zone_bounds(1) [OF zone inv]
    by (auto simp: bb_checker_fixing_def fixing_inv_def)
qed

section \<open>Start-up\<close>

text \<open>The table before the pairing, when the device has no checker of its own.\<close>

definition fresh_node :: "bool \<Rightarrow> nat \<Rightarrow> bb_node" where
  "fresh_node b i = \<lparr>bb_flag = b, origin_segnum = i * PPS, deprived_from_segnum = UINT_MAX,
                     fixed_segnum = 0, pair_segnum = 0\<rparr>"

lemma start_loop:
  assumes "k \<le> rnos"
  shows "foldE (\<lambda>i c.
              bindE (index (ent c) i) (\<lambda>e.
                let c1 = c\<lparr>ent := (ent c)[i := e\<lparr>origin_segnum := i * PPS,
                                                 deprived_from_segnum := UINT_MAX\<rparr>]\<rparr>
                in (case None of
                      None \<Rightarrow> Inr (c1\<lparr>bb_cnt := bb_cnt c1 + BPS\<rparr>)
                    | Some f \<Rightarrow> foldE (\<lambda>(seg, isbad). bb_checker_process seg isbad) (f (i * PPS)) c1)))
              [0..<k] ((bb_zero rnos)\<lparr>target_cnt := rnos * 64, map_first := True\<rparr>) =
         Inr ((bb_zero rnos)\<lparr>target_cnt := rnos * 64, map_first := True, bb_cnt := k * 64,
                ent := map (fresh_node False) [0..<k] @ drop k (ent (bb_zero rnos))\<rparr>)"
  using assms
proof (induction k)
  case 0
  then show ?case by (simp add: bb_zero_def)
next
  case (Suc k)
  then have "rnos - k = Suc (rnos - Suc k)" by simp
  then have d: "drop k (ent (bb_zero rnos)) = \<lparr>bb_flag = False, origin_segnum = 0, deprived_from_segnum = 0,
        fixed_segnum = 0, pair_segnum = 0\<rparr> # drop (Suc k) (ent (bb_zero rnos))"
    by (simp add: bb_zero_def del: diff_Suc_eq_diff_pred)
  have l: "k < length (ent (bb_zero rnos))" using Suc.prems by (simp add: bb_zero_def)
  show ?case
    using Suc d l
    by (simp add: foldE_append index_def Let_def nth_append list_update_append fresh_node_def BPS_def
        del: drop_Suc_Cons)
qed

definition static_flag :: "nat \<Rightarrow> bool" where
  "static_flag i \<longleftrightarrow> i = 515 \<or> i = 4062"

lemma static_bad_table:
  assumes "ent c = map (fresh_node False) [0..<n]" "4062 < n"
  shows "\<exists>c'. bb_checker_static_bad c = Inr c' \<and> ent c' = map (\<lambda>i. fresh_node (static_flag i) i) [0..<n]"
proof -
  have "(map (fresh_node False) [0..<n])[515 := fresh_node True 515, 4062 := fresh_node True 4062] =
      map (\<lambda>i. fresh_node (static_flag i) i) [0..<n]"
    by (rule nth_equalityI) (use assms in \<open>auto simp: nth_list_update static_flag_def\<close>)
  then show ?thesis using assms
    by (simp add: bb_checker_static_bad_def index_def fresh_node_def)
qed

text \<open>
  On the device of the configuration (4096 physical segments, no checker in the lower driver)
  start-up succeeds and prepares at least 2046 segments.
\<close>

lemma bb_assign_kept:
  "bb_checker_static_bad c = Inr c1 \<Longrightarrow> assign c1 = assign c"
  "bb_checker_fixing c = Inr (c2, t) \<Longrightarrow> assign c2 = assign c"
  by (auto simp: bb_checker_static_bad_def bb_checker_fixing_def bindE_eq_Inr split: if_splits)

lemma bb_checker_start_ok:
  "\<exists>c total. bb_checker_start RNOS None = Inr (c, int total) \<and> bb_consistent total (ent c) \<and>
     length (ent c) = RNOS \<and> 2046 \<le> total \<and> assign c = 0 \<and>
     (\<forall>i < RNOS. bb_flag (ent c ! i) = static_flag i \<and> origin_segnum (ent c ! i) = i * PPS)"
proof -
  have rnos: "RNOS = 4096" by (simp add: RNOS_def PAGESIZE_def)
  define c0 where "c0 = (bb_zero RNOS)\<lparr>target_cnt := RNOS * 64, map_first := True, bb_cnt := RNOS * 64,
                ent := map (fresh_node False) [0..<RNOS]\<rparr>"
  obtain c1 where c1: "bb_checker_static_bad c0 = Inr c1"
    "ent c1 = map (\<lambda>i. fresh_node (static_flag i) i) [0..<RNOS]"
    using static_bad_table [of c0 RNOS] rnos by (auto simp: c0_def)
  have start: "bb_checker_start RNOS None = bb_checker_fixing c1"
    using start_loop [of RNOS RNOS] c1(1) by (simp add: bb_checker_start_def c0_def bb_zero_def)
  have bad: "bad_set static_flag RNOS = {515, 4062}" by (auto simp: bad_set_def static_flag_def rnos)
  have zone: "clear_zone static_flag RNOS 516" unfolding clear_zone_def bad by (auto simp: static_flag_def rnos)
  have "\<exists>c' total. bb_checker_fixing c1 = Inr (c', int total) \<and> bb_consistent total (ent c') \<and>
           length (ent c') = length (ent c1) \<and>
           (\<forall>i < length (ent c1). bb_flag (ent c' ! i) = static_flag i \<and> origin_segnum (ent c' ! i) = i * PPS) \<and>
           length (ent c1) \<le> 2 * total + card (bad_set static_flag (length (ent c1))) + 1"
    by (rule bb_checker_fixing_ok [where lo = 516]) (use zone in \<open>auto simp: c1(2) fresh_node_def\<close>)
  moreover have "assign c1 = 0" using bb_assign_kept(1) [OF c1(1)] by (simp add: c0_def bb_zero_def)
  ultimately show ?thesis unfolding start using bad bb_assign_kept(2) [of c1] by (fastforce simp: c1(2) rnos)
qed

subsection \<open>Start-up with a device that reports bad blocks\<close>












section \<open>The translation of addresses loses nothing\<close>



lemma fix_page_bound: "p < 256 \<Longrightarrow> fst (fix_page p) < 256"
  by (auto simp: fix_page_def)

text \<open>The physical segment of a page, and the place of the page inside it.\<close>

definition place :: "nat \<Rightarrow> nat" where
  "place ppa = ppa mod 8 + ppa div 2 ^ 3 mod 8 * 2 ^ 3 + fst (fix_page (ppa div 2 ^ 6 mod 256)) * 2 ^ 6"

lemma place_bound: "place ppa < PPS"
  using fix_page_bound [of "ppa div 2 ^ 6 mod 256"] by (simp add: place_def)

lemma fix_ppa_decomp:
  assumes "f * PPS + PPS \<le> 2 ^ 32" "q * PPS + PPS \<le> 2 ^ 32"
  shows "bb_checker_fix_ppa isfixing (f * PPS) (q * PPS) ppa =
    (if snd (fix_page (ppa div 2 ^ 6 mod 256)) then q else if isfixing then f else ppa div PPS) * PPS + place ppa"
proof -
  obtain page chg where p: "fix_page (ppa div 2 ^ 6 mod 256) = (page, chg)" by fastforce
  have "(place ppa + ppa div 2 ^ 14 * 2 ^ 14) mod PPS = place ppa" using place_bound [of ppa] by simp
  then show ?thesis using assms place_bound [of ppa] p
    by (auto simp: bb_checker_fix_ppa_def place_def Let_def)
qed

lemma place_split:
  "place x mod 2 ^ 6 = x mod 2 ^ 6" "place x div 2 ^ 6 = fst (fix_page (x div 2 ^ 6 mod 256))"
proof -
  have "x mod 8 + x div 2 ^ 3 mod 8 * 2 ^ 3 = x mod 2 ^ 6"
    using mod_mult2_eq [of x 8 8] by simp
  then show "place x mod 2 ^ 6 = x mod 2 ^ 6" "place x div 2 ^ 6 = fst (fix_page (x div 2 ^ 6 mod 256))"
    by (simp_all add: place_def)
qed


definition phys_seg :: "bb_node list \<Rightarrow> nat \<Rightarrow> bool \<Rightarrow> nat" where
  "phys_seg es i chg =
     (if chg then pair_segnum (es ! i) div PPS
      else if bb_flag (es ! i) then fixed_segnum (es ! i) div PPS else i)"

lemma consistent_fix:
  assumes "bb_consistent n es" "k < n" "bb_flag (es ! k)"
  obtains f where "f < length es" "n \<le> f" "\<not> bb_flag (es ! f)" "fixed_segnum (es ! k) = f * PPS"
    "deprived_from_segnum (es ! f) = k * PPS"
  using assms unfolding bb_consistent_def has_fix_def by blast

lemma consistent_pair:
  assumes "bb_consistent n es" "k < n"
  obtains q where "q < length es" "n \<le> q" "\<not> bb_flag (es ! q)" "pair_segnum (es ! k) = q * PPS"
    "pair_segnum (es ! q) = k * PPS" "deprived_from_segnum (es ! q) = UINT_MAX"
  using assms unfolding bb_consistent_def has_pair_def by blast

text \<open>What is known of the physical segment behind a logical one, by the way it was chosen.\<close>

lemma phys_seg_cases:
  assumes c: "bb_consistent n es" and i: "i < n"
  obtains (pair) "chg" "n \<le> phys_seg es i chg" "phys_seg es i chg < length es" "\<not> bb_flag (es ! phys_seg es i chg)"
      "pair_segnum (es ! phys_seg es i chg) = i * PPS" "deprived_from_segnum (es ! phys_seg es i chg) = UINT_MAX"
  | (repl) "\<not> chg" "bb_flag (es ! i)" "n \<le> phys_seg es i chg" "phys_seg es i chg < length es"
      "\<not> bb_flag (es ! phys_seg es i chg)" "deprived_from_segnum (es ! phys_seg es i chg) = i * PPS"
  | (own) "\<not> chg" "\<not> bb_flag (es ! i)" "phys_seg es i chg = i"
proof (cases chg)
  case True
  obtain q where "q < length es" "n \<le> q" "\<not> bb_flag (es ! q)" "pair_segnum (es ! i) = q * PPS"
    "pair_segnum (es ! q) = i * PPS" "deprived_from_segnum (es ! q) = UINT_MAX"
    using consistent_pair [OF c i] by blast
  moreover then have "phys_seg es i chg = q" using True by (simp add: phys_seg_def)
  ultimately show ?thesis using True pair by blast
next
  case no: False
  show ?thesis
  proof (cases "bb_flag (es ! i)")
    case True
    obtain f where "f < length es" "n \<le> f" "\<not> bb_flag (es ! f)" "fixed_segnum (es ! i) = f * PPS"
      "deprived_from_segnum (es ! f) = i * PPS" using consistent_fix [OF c i True] by blast
    moreover then have "phys_seg es i chg = f" using True no by (simp add: phys_seg_def)
    ultimately show ?thesis using True no repl by blast
  next
    case False
    then show ?thesis using no own by (simp add: phys_seg_def)
  qed
qed


lemma phys_seg_inj:
  assumes c: "bb_consistent n es" and i: "i < n" and j: "j < n"
    and eq: "phys_seg es i a = phys_seg es j b"
  shows "i = j \<and> a = b"
proof -
  have ne: "k * PPS \<noteq> UINT_MAX" for k
  proof -
    have "even (k * PPS)" "odd UINT_MAX" by (simp_all add: UINT_MAX_def)
    then show ?thesis by metis
  qed
  have inj: "k * PPS = l * PPS \<Longrightarrow> k = l" for k l by simp
  show ?thesis
    by (rule phys_seg_cases [OF c i, of a]; rule phys_seg_cases [OF c j, of b])
      (use eq i j ne inj in \<open>metis not_le\<close>)+
qed

lemma memio_fppa_decomp:
  assumes c: "bb_consistent n es" and sz: "length es * PPS \<le> 2 ^ 32" and ppa: "ppa < n * PPS"
  shows "memio_fppa es ppa = Inr (phys_seg es (ppa div PPS) (snd (fix_page (ppa div 2 ^ 6 mod 256))) * PPS + place ppa)"
proof -
  let ?i = "ppa div PPS"
  have i: "?i < n" "?i < length es" using ppa c by (auto simp: bb_consistent_def less_mult_imp_div_less)
  have le: "k < length es \<Longrightarrow> k * PPS + PPS \<le> 2 ^ 32" for k
    using sz mult_le_mono1 [of "Suc k" "length es" PPS] by simp
  obtain q where q: "pair_segnum (es ! ?i) = q * PPS" "q < length es"
    using c i unfolding bb_consistent_def has_pair_def by metis
  show ?thesis
  proof (cases "bb_flag (es ! ?i)")
    case True
    then obtain f where f: "fixed_segnum (es ! ?i) = f * PPS" "f < length es"
      using c i unfolding bb_consistent_def has_fix_def by metis
    then show ?thesis using True i fix_ppa_decomp [OF le [OF f(2)] le [OF q(2)]] q
      by (simp add: memio_fppa_def index_in phys_seg_def)
  next
    case False
    have "bb_checker_fix_ppa False (fixed_segnum (es ! ?i)) (q * PPS) ppa =
        bb_checker_fix_ppa False (0 * PPS) (q * PPS) ppa"
      by (simp add: bb_checker_fix_ppa_def Let_def split: prod.splits)
    then show ?thesis using False i fix_ppa_decomp [of 0 q False ppa] le [OF q(2)] q
      by (simp add: memio_fppa_def index_in phys_seg_def)
  qed
qed

lemma fppa_seg: "(k * PPS + place ppa) div PPS = k" "(k * PPS + place ppa) mod PPS = place ppa"
  using place_bound [of ppa] by simp_all


section \<open>Properties\<close>

text \<open>The physical block (segment, bus and chip) of a page address.\<close>

definition block_of :: "nat \<Rightarrow> nat \<times> nat" where
  "block_of p = (p div PPS, p mod 64)"

lemma block_of_place: "block_of (k * PPS + place a) = (k, a mod 64)"
proof -
  have "(k * PPS + place a) mod 64 = place a mod 64"
    using mod_mult_self1 [of "place a" "k * 256" 64] by (simp add: ac_simps)
  then show ?thesis using fppa_seg(1) [of k a] place_split(1) [of a] by (simp add: block_of_def)
qed





lemma block_of_low: "r < 64 \<Longrightarrow> block_of (k * PPS + r) = (k, r)"
  using mod_mult_self1 [of r "k * 256" 64] by (simp add: block_of_def ac_simps)

lemma trim_a_block_phys:
  assumes c: "bb_consistent n es" and sz: "length es * PPS \<le> 2 ^ 32" and b: "b < n * PPS" "b mod PPS < 64"
  shows "memio_info_trim_a_block es b =
    Inr (phys_seg es (b div PPS) False * PPS + b mod 64, phys_seg es (b div PPS) True * PPS + b mod 64)"
proof -
  let ?i = "b div PPS"
  have i: "?i < n" using b by (auto simp: less_mult_imp_div_less)
  then have il: "?i < length es" using c by (simp add: bb_consistent_def)
  have "(64 :: nat) dvd PPS" by simp
  then have "b mod PPS mod 64 = b mod 64" by (rule mod_mod_cancel)
  then have "b mod 64 = b mod PPS" using b(2) by (metis mod_less)
  then have bm: "?i * PPS + b mod 64 = b" using div_mult_mod_eq [of b PPS] by (simp only:)
  have wrap: "(k * PPS + b mod 64) mod 2 ^ 32 = k * PPS + b mod 64" if "k < length es" for k
  proof (rule mod_less)
    have "Suc k * PPS \<le> length es * PPS" using that by (intro mult_le_mono1 Suc_leI)
    moreover have "b mod 64 < PPS" using mod_less_divisor [of 64 b] by simp
    ultimately show "k * PPS + b mod 64 < 2 ^ 32" using sz by (simp only: mult_Suc)
  qed
  obtain q where q: "pair_segnum (es ! ?i) = q * PPS" "q < length es" using consistent_pair [OF c i] by metis
  show ?thesis
  proof (cases "bb_flag (es ! ?i)")
    case True
    then obtain f where "fixed_segnum (es ! ?i) = f * PPS" "f < length es" using consistent_fix [OF c i] by metis
    then show ?thesis using q True il wrap [of f] wrap [of q]
      by (simp add: memio_info_trim_a_block_def index_in phys_seg_def BPS_def Let_def)
  next
    case False
    then show ?thesis using q il wrap [of q] bm
      by (simp add: memio_info_trim_a_block_def index_in phys_seg_def BPS_def Let_def)
  qed
qed

text \<open>
  C30: Erasing a logical block erases the physical blocks of exactly its own pages: with a consistent
  table, the two blocks that \<open>memio_info_trim_a_block\<close> trims hold the physical page of a logical page
  if and only if that page belongs to the logical block.
\<close>

theorem trim_a_block_exact:
  assumes c: "bb_consistent n es" and sz: "length es * PPS \<le> 2 ^ 32" and b: "b < n * PPS" "b mod PPS < 64"
    and a: "a < n * PPS"
  shows "\<exists>x y p. memio_info_trim_a_block es b = Inr (x, y) \<and> memio_fppa es a = Inr p \<and>
           (block_of p = block_of x \<or> block_of p = block_of y \<longleftrightarrow> block_of a = block_of b)"
proof -
  have i: "b div PPS < n" "a div PPS < n" by (rule less_mult_imp_div_less [OF b(1)], rule less_mult_imp_div_less [OF a])
  define chg where "chg = snd (fix_page (a div 2 ^ 6 mod 256))"
  define k where "k = phys_seg es (a div PPS) chg"
  have k: "k = phys_seg es (b div PPS) False \<or> k = phys_seg es (b div PPS) True \<longleftrightarrow> a div PPS = b div PPS"
  proof
    assume "k = phys_seg es (b div PPS) False \<or> k = phys_seg es (b div PPS) True"
    then show "a div PPS = b div PPS"
      unfolding k_def using phys_seg_inj [OF c i(2,1), of chg] by blast
  next
    assume "a div PPS = b div PPS"
    then show "k = phys_seg es (b div PPS) False \<or> k = phys_seg es (b div PPS) True"
      unfolding k_def by (cases chg) simp_all
  qed
  have fa: "memio_fppa es a = Inr (k * PPS + place a)"
    using memio_fppa_decomp [OF c sz a] by (simp only: k_def chg_def)
  have low: "block_of (l * PPS + b mod 64) = (l, b mod 64)" for l by (rule block_of_low) simp
  have "(k, a mod 64) = (phys_seg es (b div PPS) False, b mod 64) \<or>
      (k, a mod 64) = (phys_seg es (b div PPS) True, b mod 64) \<longleftrightarrow> block_of a = block_of b"
    unfolding block_of_def prod.inject using k by blast
  then show ?thesis
    unfolding trim_a_block_phys [OF c sz b] fa
    by - (intro exI conjI, rule refl, rule refl, simp only: low block_of_place)
qed

theorem trim_a_block_exact_witness:
  "\<exists>x y p. memio_info_trim_a_block [(fresh_node False 0)\<lparr>pair_segnum := 16384\<rparr>, fresh_node False 1] 5 = Inr (x, y) \<and>
     memio_fppa [(fresh_node False 0)\<lparr>pair_segnum := 16384\<rparr>, fresh_node False 1] 325 = Inr p \<and>
     (block_of p = block_of x \<or> block_of p = block_of y \<longleftrightarrow> block_of 325 = block_of 5)"
proof (rule trim_a_block_exact [where n = 1])
  show "bb_consistent 1 [(fresh_node False 0)\<lparr>pair_segnum := 16384\<rparr>, fresh_node False 1]"
    by (simp add: bb_consistent_def has_fix_def has_pair_def fresh_node_def)
qed simp_all

text \<open>
  C38: The pairing loop can take the pair away from a segment it has already served. It reaches a bad segment \<open>s\<close> when
  the only good segment left above it is \<open>f\<close>, not directly behind it, and the nearest good segment below is \<open>q\<close>, which has
  its pair \<open>p\<close> already: then it replaces \<open>s\<close> by \<open>f\<close>, searches the pair of \<open>s\<close> downwards beyond \<open>s\<close> itself, and ends with
  \<open>s\<close> as the pair of \<open>q\<close>. Both are among the segments the loop reports as prepared, and logical pages of \<open>q\<close> are
  translated into the bad segment \<open>s\<close>.
\<close>

theorem fixing_overwrites_pair:
  assumes "q < s" "s + 1 < f" "f \<le> m" "m < p" "p < length es" and good: "\<not> bb_flag (es ! q)" "\<not> bb_flag (es ! f)"
    and bad: "\<forall>i. q < i \<and> i \<le> m \<and> i \<noteq> f \<longrightarrow> bb_flag (es ! i)"
    and o: "\<forall>i < length es. origin_segnum (es ! i) = i * PPS" and pair: "pair_segnum (es ! q) = p * PPS"
    and sz: "length es * PPS \<le> 2 ^ 32"
  shows "\<exists>es'. fixing_loop es (int s) (int m) = Inr (es', int s + 1) \<and> bb_flag (es' ! s) \<and>
    pair_segnum (es' ! q) = s * PPS \<and> pair_segnum (es' ! q) \<noteq> pair_segnum (es ! q) \<and>
    memio_fppa es' (q * PPS + 4 * 64) = Inr (s * PPS)"
proof -
  have l: "s < length es" "f < length es" "m < length es" "q < length es" "s \<noteq> f" "q \<noteq> f" "q \<noteq> s" "s < m" "p \<noteq> s" using assms by auto
  have bs: "bb_flag (es ! s)" using bad assms(1-3) by auto
  obtain f' where f': "f \<le> f'" "f' \<le> m" "\<not> bb_flag (es ! f')" "test_cnt_loop es (int m) 0 = Inr (int m - int f')"
    using test_cnt_loop_ok [OF assms(3) l(3) good(2)] by blast
  have [simp]: "f' = f" using f' bad assms(1,2) by (metis add_lessD1 le_less_trans not_le order_less_trans)
  let ?es = "replaced es s f"
  have h: "q \<le> f - 1" "f - 1 < length ?es" "\<not> bb_flag (?es ! q)" using l good assms(1,2) by auto
  have "fixing_bad es (int s) (int m) = Inr (?es, Some (int (f - 1)))"
    using f' l bs assms(2) by (simp add: fixing_bad_def ent_at_def Let_def replaced_def of_nat_diff)
  moreover obtain q' where q': "q \<le> q'" "q' \<le> f - 1" "\<not> bb_flag (?es ! q')" "test_cnt_loop ?es (int (f - 1)) 0 = Inr (int (f - 1) - int q')"
    using test_cnt_loop_ok [OF h] by blast
  moreover have "q' = q"
  proof (rule ccontr)
    assume "q' \<noteq> q"
    then have "q < q' \<and> q' \<le> m \<and> q' \<noteq> f" using q'(1,2) assms(2,3) by linarith
    then have "bb_flag (es ! q')" using bad by blast
    then show False using q'(2,3) l by simp
  qed
  moreover have "fixing_pair ?es (int s) (int (f - 1)) = Inr (paired ?es s q, Some (int q - 1))"
    using q' \<open>q' = q\<close> l assms(2) by (simp add: fixing_pair_def ent_at_def Let_def paired_def)
  ultimately have rnd: "fixing_round es (int s) (int m) = Inr (paired ?es s q, Some (int q - 1))" by (simp add: fixing_round_def)
  have loop: "fixing_loop es (int s) (int m) = Inr (paired ?es s q, int s + 1)"
    using rnd l assms(1) by (simp add: fixing_loop_eval)
  have pq: "pair_segnum (paired ?es s q ! q) = s * PPS" "bb_flag (paired ?es s q ! s)" "\<not> bb_flag (paired ?es s q ! q)" using l o bs good(1) by auto
  have "Suc s * PPS \<le> length es * PPS" using l(1) by (intro mult_le_mono1 Suc_leI)
  then have "s * PPS < 2 ^ 32" using sz by simp
  then have "memio_fppa (paired ?es s q) (q * PPS + 4 * 64) = Inr (s * PPS)"
    using pq l by (simp add: memio_fppa_def index_in bb_checker_fix_ppa_def fix_page_def Let_def)
  then show ?thesis using loop pq pair l by auto
qed

text \<open>Five segments, of which 1 and 2 are bad, after segment 0 has got segment 4 as its pair.\<close>

theorem fixing_overwrites_pair_witness:
  "\<exists>es'. fixing_loop (map (\<lambda>i. fresh_node (i = 1 \<or> i = 2) i) [0..<5]) 0 4 = Inr (es', 2) \<and> bb_flag (es' ! 1) \<and>
     pair_segnum (es' ! 0) = 1 * PPS \<and> memio_fppa es' (0 * PPS + 4 * 64) = Inr (1 * PPS)"
proof -
  let ?es = "map (\<lambda>i. fresh_node (i = 1 \<or> i = 2) i) [0..<5]"
  have "fixing_loop ?es 0 4 = fixing_loop (paired ?es 0 4) (int 1) (int 3)"
    by (subst fixing_loop.simps) (simp add: fixing_run fresh_node_def paired_def)
  moreover have "\<exists>es'. fixing_loop (paired ?es 0 4) (int 1) (int 3) = Inr (es', int 1 + 1) \<and> bb_flag (es' ! 1) \<and>
      pair_segnum (es' ! 0) = 1 * PPS \<and> pair_segnum (es' ! 0) \<noteq> pair_segnum (paired ?es 0 4 ! 0) \<and>
      memio_fppa es' (0 * PPS + 4 * 64) = Inr (1 * PPS)"
  proof (rule fixing_overwrites_pair [where f = 3 and p = 4])
    show "\<forall>i. 0 < i \<and> i \<le> 3 \<and> i \<noteq> 3 \<longrightarrow> bb_flag (paired ?es 0 4 ! i)" by (auto simp: fresh_node_def)
    show "\<forall>i < length (paired ?es 0 4). origin_segnum (paired ?es 0 4 ! i) = i * PPS" by (auto simp: fresh_node_def)
  qed (simp_all add: fresh_node_def)
  ultimately show ?thesis by auto
qed

text \<open>
  When the only good segment left is the last one, the search for a pair runs below the start of
  the table.
\<close>

theorem fixing_reads_before_table:
  "fixing_loop (map (\<lambda>i. fresh_node (i = 0) i) [0..<2]) 0 1 = Inl Bad_Access"
  by (simp add: fixing_run fresh_node_def)

end
