(* ===== verification/Base_Bm.thy ===== *)
theory Base_Bm
  imports FD_Queue Max_Heap Bb_Checker
begin

unbundle bit_operations_syntax

text \<open>
  The block manager of \<^verbatim>\<open>src/blockmanager/base_block_manager.c\<close>: the array of erase blocks, a queue of
  free blocks and a heap of used ones per channel, and the segments handed to the translation
  layers. A \<open>__block *\<close> is the index of the block in \<open>base_block\<close>. A \<open>__segment *\<close> is an address
  of the store \<open>segs\<close>, because the translation layer and \<open>seg_map\<close> share the object. \<open>seg_map\<close>, a
  red-black tree with distinct integer keys, is a finite map from keys to segment addresses.
\<close>

section \<open>Data\<close>

type_synonym blk = nat

text \<open>
  \<open>bitset\<close> is indexed by \<open>page / 8\<close> and \<open>oob_list\<close> by the page; the code masks page numbers
  with \<open>0xff\<close>, so the arrays (32 bytes and 256 entries) are total functions here. \<open>now\<close> and
  \<open>invalid_number\<close> are \<open>uint16_t\<close>.
\<close>

record block =
  punit_num :: nat
  block_num :: nat
  b_now :: nat
  b_max :: nat
  bitset :: "nat \<Rightarrow> u8"
  invalid_number :: nat
  age :: int
  b_seg_idx :: nat
  oob_list :: "nat \<Rightarrow> u8 list"

record segment =
  s_seg_idx :: nat
  s_blocks :: "blk list"
  s_now :: nat
  s_max :: nat
  used_page_num :: nat
  invalid_blocks :: nat

record gsegment =
  g_blocks :: "blk list"
  g_now :: nat
  g_max :: nat
  invalidate_number :: nat

record channel =
  free_block :: "blk queue"
  max_heap :: "blk mh"

record bbm_pri =
  base_block :: "block list"
  base_channel :: "channel list"
  seg_map :: "nat \<rightharpoonup> addr"
  seg_map_idx :: nat
  segs :: "addr \<rightharpoonup> segment"
  seg_fresh :: addr

text \<open>The address arithmetic of \<^verbatim>\<open>base_block_manager.h\<close>.\<close>

definition GETBLOCKIDX :: "nat \<Rightarrow> blk" where
  "GETBLOCKIDX ppa = ppa div 2 ^ 14 * PUNIT + ppa mod PUNIT"

definition GETPAGEIDX :: "nat \<Rightarrow> nat" where
  "GETPAGEIDX ppa = ppa div 2 ^ 6 mod 256"

definition GETBLOCKPPA :: "block \<Rightarrow> nat" where
  "GETBLOCKPPA b = block_num b + punit_num b"

text \<open>\<open>PPAMAKER\<close> of \<^verbatim>\<open>src/include/container.h\<close>.\<close>

definition PPAMAKER :: "block \<Rightarrow> nat \<Rightarrow> nat" where
  "PPAMAKER b idx = punit_num b + idx * 2 ^ 6 + block_num b"

definition OOB_SIZE :: nat where "OOB_SIZE = 64"

definition zero_oob :: "nat \<Rightarrow> u8 list" where
  "zero_oob = (\<lambda>_. replicate OOB_SIZE 0)"

text \<open>Writing through a block pointer, a channel and a segment pointer.\<close>

definition upd_block :: "blk \<Rightarrow> (block \<Rightarrow> block) \<Rightarrow> bbm_pri \<Rightarrow> bbm_pri" where
  "upd_block i f p = p\<lparr>base_block := (base_block p)[i := f (base_block p ! i)]\<rparr>"

definition set_channel :: "nat \<Rightarrow> channel \<Rightarrow> bbm_pri \<Rightarrow> bbm_pri" where
  "set_channel i c p = p\<lparr>base_channel := (base_channel p)[i := c]\<rparr>"

definition upd_seg :: "addr \<Rightarrow> segment \<Rightarrow> bbm_pri \<Rightarrow> bbm_pri" where
  "upd_seg a s p = p\<lparr>segs := (segs p)(a \<mapsto> s)\<rparr>"

text \<open>\<open>base_get_cnt\<close>, the callback of the heaps.\<close>

definition base_get_cnt :: "bbm_pri \<Rightarrow> blk \<Rightarrow> nat" where
  "base_get_cnt p i = invalid_number (base_block p ! i)"

section \<open>Creation\<close>

definition new_block :: "nat \<Rightarrow> nat \<Rightarrow> block" where
  "new_block seg_idx j =
     \<lparr>punit_num = j, block_num = seg_idx, b_now = 0, b_max = 0, bitset = (\<lambda>_. 0), invalid_number = 0,
      age = 0, b_seg_idx = 0, oob_list = zero_oob\<rparr>"

definition create_blocks :: "nat \<Rightarrow> bb_checker \<Rightarrow> (bb_checker \<times> block list) res" where
  "create_blocks nos c0 =
     foldE (\<lambda>_ (c, bs).
       bindE (bb_checker_get_segid c) (\<lambda>(seg_idx, c').
         Inr (c', bs @ map (new_block seg_idx) [0..<PUNIT])))
       [0..<nos] (c0, [])"

definition create_channel :: "nat \<Rightarrow> nat \<Rightarrow> channel res" where
  "create_channel nos i =
     bindE (foldE (\<lambda>j q. bindE (q_enqueue (j * BPS + i mod BPS) q) (\<lambda>r. Inr (snd r))) [0..<nos] (q_init nos))
       (\<lambda>q. Inr \<lparr>free_block = q, max_heap = mh_init nos\<rparr>)"

text \<open>\<open>c\<close> is the checker as \<open>bb_checker_start\<close> left it.\<close>

definition base_create_pri :: "nat \<Rightarrow> bb_checker \<Rightarrow> (bb_checker \<times> bbm_pri) res" where
  "base_create_pri nos c =
     bindE (create_blocks nos c) (\<lambda>(c', bs).
     bindE (foldE (\<lambda>i cs. bindE (create_channel nos i) (\<lambda>ch. Inr (cs @ [ch]))) [0..<PUNIT] []) (\<lambda>cs.
       Inr (c', \<lparr>base_block = bs, base_channel = cs, seg_map = Map.empty, seg_map_idx = 0,
                 segs = Map.empty, seg_fresh = 0\<rparr>)))"

definition base_create ::
  "nat \<Rightarrow> nat \<Rightarrow> (nat \<Rightarrow> (nat \<times> bool) list) option \<Rightarrow> (bb_checker \<times> bbm_pri) res" where
  "base_create rnos nos device = bindE (bb_checker_start rnos device) (\<lambda>(c, _). base_create_pri nos c)"

section \<open>Segments\<close>

definition base_get_block :: "bbm_pri \<Rightarrow> addr \<Rightarrow> (blk \<times> bbm_pri) res" where
  "base_get_block p a =
     bindE (deref (segs p a)) (\<lambda>s.
       if s_now s + 1 > s_max s then Inl Abort
       else bindE (index (s_blocks s) (s_now s)) (\<lambda>b.
            Inr (b, upd_seg a (s\<lparr>s_now := inc16 (s_now s)\<rparr>) p)))"

text \<open>
  One round of the loop of \<open>base_get_segment\<close>. On an empty queue the block is \<open>NULL\<close>: with
  \<open>isreserve\<close> the function aborts; without, \<open>mh_insert_append\<close> first writes through it.
\<close>

definition get_segment_step :: "bool \<Rightarrow> nat \<Rightarrow> bbm_pri \<times> blk list \<Rightarrow> (bbm_pri \<times> blk list) res" where
  "get_segment_step isreserve i = (\<lambda>(p, bs).
     bindE (index (base_channel p) i) (\<lambda>c.
     bindE (q_dequeue (free_block c)) (\<lambda>(bo, q).
       case bo of
         None \<Rightarrow> if \<not> isreserve \<and> mh_size (max_heap c) \<le> int (mh_max (max_heap c)) then Inl Bad_Access
                 else Inl Abort
       | Some b \<Rightarrow>
           bindE (if isreserve then Inr (max_heap c) else mh_insert_append (max_heap c) b) (\<lambda>h.
           bindE (index (base_block p) b) (\<lambda>_.
             Inr (upd_block b (\<lambda>x. x\<lparr>b_seg_idx := seg_map_idx p\<rparr>)
                    (set_channel i \<lparr>free_block = q, max_heap = h\<rparr> p), bs @ [b]))))))"

definition base_get_segment :: "bool \<Rightarrow> bbm_pri \<Rightarrow> (addr \<times> bbm_pri) res" where
  "base_get_segment isreserve p0 =
     bindE (foldE (get_segment_step isreserve) [0..<BPS] (p0, [])) (\<lambda>(p, bs).
       let a = seg_fresh p;
           s = \<lparr>s_seg_idx = seg_map_idx p, s_blocks = bs, s_now = 0, s_max = BPS, used_page_num = 0,
                invalid_blocks = 0\<rparr>
       in Inr (a, p\<lparr>segs := (segs p)(a \<mapsto> s), seg_fresh := a + 1,
                    seg_map := (seg_map p)(seg_map_idx p \<mapsto> a), seg_map_idx := seg_map_idx p + 1\<rparr>))"

definition insert_heap :: "nat \<Rightarrow> blk \<Rightarrow> bbm_pri \<Rightarrow> bbm_pri res" where
  "insert_heap i b p =
     bindE (index (base_channel p) i) (\<lambda>c.
     bindE (mh_insert_append (max_heap c) b) (\<lambda>h. Inr (set_channel i (c\<lparr>max_heap := h\<rparr>) p)))"

definition base_change_reserve :: "addr \<Rightarrow> bbm_pri \<Rightarrow> (addr \<times> bbm_pri) res" where
  "base_change_reserve reserve p =
     bindE (base_get_segment True p) (\<lambda>(res, p1).
     bindE (deref (segs p1 reserve)) (\<lambda>s.
     bindE (foldE (\<lambda>bidx p2. bindE (index (s_blocks s) bidx) (\<lambda>tblock. insert_heap bidx tblock p2))
              [0..<BPS] p1) (\<lambda>p3.
       Inr (res, p3))))"

definition base_is_gc_needed :: "bbm_pri \<Rightarrow> bool res" where
  "base_is_gc_needed p =
     bindE (index (base_channel p) 0) (\<lambda>c. Inr (q_size (free_block c) = 0))"

section \<open>Garbage collection\<close>

definition gc_target_step :: "nat \<Rightarrow> bbm_pri \<times> blk list \<Rightarrow> (bbm_pri \<times> blk list) res" where
  "gc_target_step i = (\<lambda>(p, bs).
     bindE (index (base_channel p) i) (\<lambda>c.
     bindE (mh_construct (base_get_cnt p) (max_heap c)) (\<lambda>h1.
     bindE (mh_get_max (base_get_cnt p) h1) (\<lambda>(bo, h2).
       case bo of
         None \<Rightarrow> Inl Abort
       | Some b \<Rightarrow> Inr (set_channel i (c\<lparr>max_heap := h2\<rparr>) p, bs @ [b])))))"

text \<open>\<open>invalidate_number\<close> of the \<open>malloc\<close>ed object is not written; the model has 0 there.\<close>

definition base_get_gc_target :: "bbm_pri \<Rightarrow> (gsegment \<times> bbm_pri) res" where
  "base_get_gc_target p =
     bindE (foldE gc_target_step [0..<BPS] (p, [])) (\<lambda>(p', bs).
       Inr (\<lparr>g_blocks = bs, g_now = 0, g_max = 0, invalidate_number = 0\<rparr>, p'))"

text \<open>
  The bookkeeping of the segment a trimmed block came from; the segment is freed with its last
  block. \<open>rb_find_int\<close> on a missing key leaves the sentinel, whose item is \<open>NULL\<close>.
\<close>

definition release_block :: "nat \<Rightarrow> bbm_pri \<Rightarrow> bbm_pri res" where
  "release_block key p =
     bindE (deref (seg_map p key)) (\<lambda>a.
     bindE (deref (segs p a)) (\<lambda>s.
       let s' = s\<lparr>invalid_blocks := inc8 (invalid_blocks s)\<rparr>
       in if invalid_blocks s' = BPS
          then Inr (p\<lparr>segs := (segs p)(a := None), seg_map := (seg_map p)(key := None)\<rparr>)
          else Inr (upd_seg a s' p)))"

definition erased :: "block \<Rightarrow> block" where
  "erased b = b\<lparr>invalid_number := 0, b_now := 0, bitset := (\<lambda>_. 0), oob_list := zero_oob\<rparr>"

definition free_enqueue :: "nat \<Rightarrow> blk \<Rightarrow> bbm_pri \<Rightarrow> bbm_pri res" where
  "free_enqueue i b p =
     bindE (index (base_channel p) i) (\<lambda>c.
     bindE (q_enqueue b (free_block c)) (\<lambda>r. Inr (set_channel i (c\<lparr>free_block := snd r\<rparr>) p)))"

text \<open>\<open>trim\<close> is \<open>li->trim_a_block\<close> of the lower driver, on the driver's state.\<close>

definition trim_step ::
  "(nat \<Rightarrow> 'l \<Rightarrow> 'l res) \<Rightarrow> gsegment \<Rightarrow> nat \<Rightarrow> bbm_pri \<times> 'l \<Rightarrow> (bbm_pri \<times> 'l) res" where
  "trim_step trim gs i = (\<lambda>(p, l).
     bindE (index (g_blocks gs) i) (\<lambda>b.
     bindE (index (base_block p) b) (\<lambda>bl.
     bindE (trim (GETBLOCKPPA bl) l) (\<lambda>l'.
     bindE (free_enqueue i b (upd_block b erased p)) (\<lambda>p1.
     bindE (release_block (b_seg_idx bl) p1) (\<lambda>p2. Inr (p2, l')))))))"

definition base_trim_segment ::
  "(nat \<Rightarrow> 'l \<Rightarrow> 'l res) \<Rightarrow> gsegment \<Rightarrow> bbm_pri \<Rightarrow> 'l \<Rightarrow> (bbm_pri \<times> 'l) res" where
  "base_trim_segment trim gs p l = foldE (trim_step trim gs) [0..<BPS] (p, l)"

section \<open>Page state\<close>

text \<open>\<open>bitset[bt] & (1<<of)\<close>, and the two updates of the bit.\<close>

definition get_bit :: "block \<Rightarrow> nat \<Rightarrow> bool" where
  "get_bit b pn = (bitset b (pn div 8) AND push_bit (pn mod 8) 1 \<noteq> 0)"

definition set_bit_of :: "nat \<Rightarrow> block \<Rightarrow> block" where
  "set_bit_of pn b =
     b\<lparr>bitset := (bitset b)(pn div 8 := bitset b (pn div 8) OR push_bit (pn mod 8) 1)\<rparr>"

definition clear_bit_of :: "nat \<Rightarrow> block \<Rightarrow> block" where
  "clear_bit_of pn b =
     b\<lparr>bitset := (bitset b)(pn div 8 := bitset b (pn div 8) AND NOT (push_bit (pn mod 8) 1))\<rparr>"

text \<open>The integer results tell whether the bit was clear before (resp. set before).\<close>

definition base_populate_bit :: "nat \<Rightarrow> bbm_pri \<Rightarrow> (nat \<times> bbm_pri) res" where
  "base_populate_bit ppa p =
     (let bn = GETBLOCKIDX ppa; pn = GETPAGEIDX ppa in
      bindE (index (base_block p) bn) (\<lambda>b.
        Inr (if get_bit b pn then 0 else 1, upd_block bn (set_bit_of pn) p)))"

definition base_unpopulate_bit :: "nat \<Rightarrow> bbm_pri \<Rightarrow> (nat \<times> bbm_pri) res" where
  "base_unpopulate_bit ppa p =
     (let bn = GETBLOCKIDX ppa; pn = GETPAGEIDX ppa in
      bindE (index (base_block p) bn) (\<lambda>b.
        Inr (if get_bit b pn then 1 else 0,
             upd_block bn (\<lambda>x. (clear_bit_of pn x)\<lparr>invalid_number := inc16 (invalid_number x)\<rparr>) p)))"

text \<open>\<open>mappart_segs\<close> is \<open>MAPPART_SEGS\<close>, a tenth of the segments of the device.\<close>

definition base_erase_bit :: "nat \<Rightarrow> nat \<Rightarrow> bbm_pri \<Rightarrow> (nat \<times> bbm_pri) res" where
  "base_erase_bit mappart_segs ppa p =
     (let bn = GETBLOCKIDX ppa; pn = GETPAGEIDX ppa in
      bindE (index (base_block p) bn) (\<lambda>b.
        if ppa < PPS * mappart_segs \<and> invalid_number b > PPB then Inl Abort
        else Inr (if get_bit b pn then 1 else 0, upd_block bn (clear_bit_of pn) p)))"

definition base_is_valid_page :: "nat \<Rightarrow> bbm_pri \<Rightarrow> bool res" where
  "base_is_valid_page ppa p =
     bindE (index (base_block p) (GETBLOCKIDX ppa)) (\<lambda>b. Inr (get_bit b (GETPAGEIDX ppa)))"

definition base_is_invalid_page :: "nat \<Rightarrow> bbm_pri \<Rightarrow> bool res" where
  "base_is_invalid_page ppa p = bindE (base_is_valid_page ppa p) (\<lambda>v. Inr (\<not> v))"

text \<open>
  \<open>memcpy(d, data, len)\<close>: the first \<open>len\<close> bytes of the 64 of the page are replaced. A longer
  write would run into the next entry.
\<close>

definition base_set_oob :: "u8 list \<Rightarrow> nat \<Rightarrow> nat \<Rightarrow> bbm_pri \<Rightarrow> bbm_pri res" where
  "base_set_oob data len ppa p =
     (if len > OOB_SIZE \<or> len > length data then Inl Bad_Access
      else
        let bn = GETBLOCKIDX ppa; pn = GETPAGEIDX ppa in
        bindE (index (base_block p) bn) (\<lambda>b.
          Inr (upd_block bn (\<lambda>x. x\<lparr>oob_list := (oob_list x)
                 (pn := take len data @ drop len (oob_list x pn))\<rparr>) p)))"

definition base_get_oob :: "nat \<Rightarrow> bbm_pri \<Rightarrow> u8 list res" where
  "base_get_oob ppa p =
     bindE (index (base_block p) (GETBLOCKIDX ppa)) (\<lambda>b. Inr (oob_list b (GETPAGEIDX ppa)))"

definition base_release_segment :: "addr \<Rightarrow> bbm_pri \<Rightarrow> bbm_pri res" where
  "base_release_segment a p = bindE (deref (segs p a)) (\<lambda>_. Inr (p\<lparr>segs := (segs p)(a := None)\<rparr>))"

section \<open>Pages of a segment\<close>

text \<open>\<open>s->now==0\<close> and the last block of the segment has no page left.\<close>

definition seg_exhausted :: "bbm_pri \<Rightarrow> segment \<Rightarrow> bool res" where
  "seg_exhausted p s =
     (if s_now s = 0 then
        bindE (index (s_blocks s) (BPS - 1)) (\<lambda>b.
        bindE (index (base_block p) b) (\<lambda>bl. Inr (b_now bl = PPB)))
      else Inr False)"

definition base_get_page_num :: "addr \<Rightarrow> bbm_pri \<Rightarrow> (int \<times> bbm_pri) res" where
  "base_get_page_num a p =
     bindE (deref (segs p a)) (\<lambda>s.
     bindE (seg_exhausted p s) (\<lambda>ex.
       if ex then Inr (- 1, p)
       else
         bindE (index (s_blocks s) (s_now s)) (\<lambda>b.
         bindE (index (base_block p) b) (\<lambda>bl.
           let now = inc16 (s_now s);
               s' = s\<lparr>s_now := if now = BPS then 0 else now, used_page_num := used_page_num s + 1\<rparr>;
               page = b_now bl;
               p' = upd_seg a s' (upd_block b (\<lambda>x. x\<lparr>b_now := inc16 page\<rparr>) p)
           in if page > PPB then Inl Abort
              else Inr (int (block_num bl + page * 2 ^ 6 + punit_num bl), p')))))"

definition base_pick_page_num :: "addr \<Rightarrow> bbm_pri \<Rightarrow> (int \<times> bbm_pri) res" where
  "base_pick_page_num a p =
     bindE (deref (segs p a)) (\<lambda>s.
     bindE (seg_exhausted p s) (\<lambda>ex.
       if ex then Inr (- 1, p)
       else
         bindE (index (s_blocks s) (s_now s)) (\<lambda>b.
         bindE (index (base_block p) b) (\<lambda>bl.
           let p' = upd_seg a (s\<lparr>s_now := if s_now s = BPS then 0 else s_now s\<rparr>) p
           in if b_now bl > PPB then Inl Abort
              else Inr (int (block_num bl + b_now bl * 2 ^ 6 + punit_num bl), p')))))"

datatype layout_type = MASTER_SEGMENT | MASTER_BLOCK | MASTER_PAGE

definition base_check_full :: "addr \<Rightarrow> layout_type \<Rightarrow> bbm_pri \<Rightarrow> bool res" where
  "base_check_full active type p =
     (case type of
        MASTER_SEGMENT \<Rightarrow> Inr False
      | _ \<Rightarrow>
          bindE (deref (segs p active)) (\<lambda>s.
          bindE (index (s_blocks s) (BPS - 1)) (\<lambda>b.
          bindE (index (base_block p) b) (\<lambda>bl. Inr (b_now bl = PPB)))))"

definition base_pick_block :: "nat \<Rightarrow> bbm_pri \<Rightarrow> blk res" where
  "base_pick_block page_num p =
     bindE (index (base_block p) (GETBLOCKIDX page_num)) (\<lambda>_. Inr (GETBLOCKIDX page_num))"

section \<open>Invariant\<close>

text \<open>The free list and the used blocks of channel \<open>j\<close>.\<close>

abbreviation chan :: "bbm_pri \<Rightarrow> nat \<Rightarrow> channel" where
  "chan p j \<equiv> base_channel p ! j"

abbreviation frees :: "bbm_pri \<Rightarrow> nat \<Rightarrow> blk list" where
  "frees p j \<equiv> q_list (free_block (chan p j))"

abbreviation used :: "bbm_pri \<Rightarrow> nat \<Rightarrow> blk multiset" where
  "used p j \<equiv> mh_items (max_heap (chan p j))"

definition chan_wf :: "nat \<Rightarrow> channel \<Rightarrow> bool" where
  "chan_wf nos c \<longleftrightarrow> q_ok (free_block c) \<and> q_msize (free_block c) = nos \<and>
     mh_ok (max_heap c) \<and> mh_max (max_heap c) = nos"

text \<open>No element occurs twice.\<close>

definition once :: "'a multiset \<Rightarrow> bool" where
  "once M \<longleftrightarrow> (\<forall>x. count M x \<le> 1)"

text \<open>The blocks of channel \<open>j\<close> are the ones whose index is \<open>j\<close> modulo 64; none is in two places.\<close>

definition pool_ok :: "nat \<Rightarrow> bbm_pri \<Rightarrow> bool" where
  "pool_ok nos p \<longleftrightarrow> length (base_channel p) = BPS \<and>
     (\<forall>j < BPS. chan_wf nos (chan p j) \<and> once (mset (frees p j) + used p j) \<and>
        (\<forall>b \<in># mset (frees p j) + used p j. b < nos * BPS \<and> b mod BPS = j))"

definition blocks_ok :: "nat \<Rightarrow> bbm_pri \<Rightarrow> bool" where
  "blocks_ok nos p \<longleftrightarrow> length (base_block p) = nos * BPS \<and>
     (\<forall>b < nos * BPS. punit_num (base_block p ! b) = b mod BPS \<and>
        block_num (base_block p ! b) = b div BPS * PPS \<and> b_now (base_block p ! b) \<le> PPB)"

text \<open>
  The blocks that a segment holds, by the key the block records: those that are not in a free
  list. Every held block has a live segment under its key, which counts how many of its 64 blocks
  have been given back.
\<close>

definition held_blocks :: "nat \<Rightarrow> bbm_pri \<Rightarrow> nat \<Rightarrow> blk set" where
  "held_blocks nos p key =
     {b. b < nos * BPS \<and> b \<notin> set (frees p (b mod BPS)) \<and> b_seg_idx (base_block p ! b) = key}"

definition segs_ok :: "nat \<Rightarrow> bbm_pri \<Rightarrow> bool" where
  "segs_ok nos p \<longleftrightarrow>
     (\<forall>a \<ge> seg_fresh p. segs p a = None) \<and>
     (\<forall>a s. segs p a = Some s \<longrightarrow> length (s_blocks s) = BPS \<and> s_now s < BPS \<and>
        (\<forall>i < BPS. s_blocks s ! i < nos * BPS \<and> s_blocks s ! i mod BPS = i)) \<and>
     (\<forall>key. seg_map p key = None \<longrightarrow> held_blocks nos p key = {}) \<and>
     (\<forall>key a. seg_map p key = Some a \<longrightarrow> key < seg_map_idx p \<and>
        (\<exists>s. segs p a = Some s \<and> invalid_blocks s + card (held_blocks nos p key) = BPS \<and>
             held_blocks nos p key \<noteq> {})) \<and>
     (\<forall>key key' a. seg_map p key = Some a \<longrightarrow> seg_map p key' = Some a \<longrightarrow> key = key')"

text \<open>All channels have the same number of free blocks, so looking at channel 0 is enough.\<close>

definition balanced :: "bbm_pri \<Rightarrow> bool" where
  "balanced p \<longleftrightarrow> (\<forall>j < BPS. length (frees p j) = length (frees p 0))"

definition bm_ok :: "nat \<Rightarrow> bbm_pri \<Rightarrow> bool" where
  "bm_ok nos p \<longleftrightarrow> pool_ok nos p \<and> blocks_ok nos p \<and> segs_ok nos p \<and> balanced p"

lemma BPS_pos [simp]: "0 < BPS" by (simp add: BPS_def)

lemma once_size: "once M \<Longrightarrow> size M = card (set_mset M)"
proof -
  assume "once M"
  then have "count M x = 1" if "x \<in># M" for x
    using that unfolding once_def by (metis One_nat_def Suc_leI count_greater_zero_iff le_antisym)
  then show ?thesis by (simp add: size_multiset_overloaded_eq)
qed

text \<open>So the blocks of a channel fit into its queue and into its heap.\<close>

lemma pool_room:
  assumes "pool_ok nos p" "j < BPS"
  shows "length (frees p j) + size (used p j) \<le> nos"
proof -
  let ?M = "mset (frees p j) + used p j"
  have "set_mset ?M \<subseteq> (\<lambda>k. k * BPS + j) ` {..<nos}"
  proof
    fix b assume "b \<in># ?M"
    then have "b < nos * BPS" "b mod BPS = j" using assms unfolding pool_ok_def by blast+
    then have "b = b div BPS * BPS + j" "b div BPS < nos"
      by (metis div_mult_mod_eq, simp add: less_mult_imp_div_less)
    then show "b \<in> (\<lambda>k. k * BPS + j) ` {..<nos}" by blast
  qed
  then have "card (set_mset ?M) \<le> nos"
    by (metis card_image_le card_lessThan card_mono finite_imageI finite_lessThan le_trans)
  moreover have "once ?M" using assms unfolding pool_ok_def by blast
  ultimately show ?thesis by (metis once_size size_mset size_union)
qed

section \<open>Handing out segments\<close>

text \<open>The state after \<open>i\<close> rounds of the loop of \<open>base_get_segment\<close>.\<close>

definition seg_loop :: "nat \<Rightarrow> bool \<Rightarrow> bbm_pri \<Rightarrow> nat \<Rightarrow> bbm_pri \<times> blk list \<Rightarrow> bool" where
  "seg_loop nos isreserve p0 i = (\<lambda>(p, bs).
     length bs = i \<and> (\<forall>j < i. bs ! j = hd (frees p0 j)) \<and>
     length (base_channel p) = BPS \<and> (\<forall>j < BPS. chan_wf nos (chan p j)) \<and>
     (\<forall>j < i. frees p j = tl (frees p0 j) \<and>
        used p j = (if isreserve then used p0 j else add_mset (bs ! j) (used p0 j))) \<and>
     (\<forall>j < BPS. i \<le> j \<longrightarrow> chan p j = chan p0 j) \<and>
     base_block p = map (\<lambda>b. if b \<in> set bs then (base_block p0 ! b)\<lparr>b_seg_idx := seg_map_idx p0\<rparr>
                            else base_block p0 ! b) [0..<length (base_block p0)] \<and>
     seg_map p = seg_map p0 \<and> seg_map_idx p = seg_map_idx p0 \<and> segs p = segs p0 \<and> seg_fresh p = seg_fresh p0)"

lemma upd_block_map:
  assumes "b < length xs" "b \<notin> S"
  shows "(map (\<lambda>k. if k \<in> S then f (xs ! k) else xs ! k) [0..<length xs])[b := f (xs ! b)] =
         map (\<lambda>k. if k \<in> insert b S then f (xs ! k) else xs ! k) [0..<length xs]"
  using assms by (intro nth_equalityI) (auto simp: nth_list_update)

lemma set_channel_simps [simp]:
  "base_block (set_channel i c p) = base_block p" "seg_map (set_channel i c p) = seg_map p"
  "seg_map_idx (set_channel i c p) = seg_map_idx p" "segs (set_channel i c p) = segs p"
  "seg_fresh (set_channel i c p) = seg_fresh p"
  "base_channel (set_channel i c p) = (base_channel p)[i := c]"
  by (simp_all add: set_channel_def)

lemma upd_block_simps [simp]:
  "base_channel (upd_block i f p) = base_channel p" "seg_map (upd_block i f p) = seg_map p"
  "seg_map_idx (upd_block i f p) = seg_map_idx p" "segs (upd_block i f p) = segs p"
  "seg_fresh (upd_block i f p) = seg_fresh p"
  "base_block (upd_block i f p) = (base_block p)[i := f (base_block p ! i)]"
  by (simp_all add: upd_block_def)

lemma get_segment_step_ok:
  assumes pool: "pool_ok nos p0" and len: "length (base_block p0) = nos * BPS" and i: "i < BPS"
    and ne: "\<forall>j < BPS. frees p0 j \<noteq> []" and inv: "seg_loop nos r p0 i (p, bs)"
  shows "\<exists>t. get_segment_step r i (p, bs) = Inr t \<and> seg_loop nos r p0 (Suc i) t"
proof -
  obtain b rest where fb: "frees p0 i = b # rest" using ne i by (cases "frees p0 i") auto
  note I = inv [unfolded seg_loop_def, simplified]
  have ci: "chan p i = chan p0 i" and wf: "chan_wf nos (chan p i)" and lc: "i < length (base_channel p)"
    using I i by auto
  have fp: "frees p i = b # rest" using fb ci by simp
  obtain q where q: "q_dequeue (free_block (chan p i)) = Inr (Some b, q)" "q_ok q" "q_list q = rest"
      "q_msize q = nos"
    using q_dequeue_cons [OF _ fp] wf unfolding chan_wf_def by auto
  have room: "size (used p0 i) < nos" using pool_room [OF pool i] fb by simp
  have mh: "mh_ok (max_heap (chan p i))" "mh_max (max_heap (chan p i)) = nos" using wf by (auto simp: chan_wf_def)
  have "mh_size (max_heap (chan p i)) < int (mh_max (max_heap (chan p i)))"
    using room size_mh_items [OF mh(1)] mh(2) ci by simp
  then obtain h where h: "mh_insert_append (max_heap (chan p i)) b = Inr h" "mh_ok h"
      "mh_items h = add_mset b (used p i)" "mh_max h = nos"
    using mh_insert_append_ok [OF mh(1), of b] mh(2) by auto
  define h' where "h' = (if r then max_heap (chan p i) else h)"
  have h': "mh_ok h'" "mh_max h' = nos" "mh_items h' = (if r then used p0 i else add_mset b (used p0 i))"
    using h mh ci by (auto simp: h'_def)
  have b: "b < nos * BPS" "b mod BPS = i"
    using pool i fb unfolding pool_ok_def by (metis list.set_intros(1) set_mset_mset union_iff)+
  have nb: "b \<notin> set bs"
  proof
    assume "b \<in> set bs"
    then obtain j where j: "j < i" "bs ! j = b" using I by (auto simp: in_set_conv_nth)
    then have "b = hd (frees p0 j)" using I by auto
    moreover have "frees p0 j \<noteq> []" using ne i j by simp
    ultimately have "b mod BPS = j"
      using pool i j unfolding pool_ok_def by (metis hd_in_set less_trans set_mset_mset union_iff)
    then show False using b j by simp
  qed
  define p' where "p' = upd_block b (\<lambda>x. x\<lparr>b_seg_idx := seg_map_idx p\<rparr>)
                     (set_channel i \<lparr>free_block = q, max_heap = h'\<rparr> p)"
  have lb: "b < length (base_block p0)" "length (base_block p) = length (base_block p0)"
    using b len I by auto
  have run: "get_segment_step r i (p, bs) = Inr (p', bs @ [b])"
    using lc q h lb by (simp add: get_segment_step_def p'_def h'_def index_in)
  have bb: "base_block p' = map (\<lambda>k. if k \<in> set (bs @ [b]) then (base_block p0 ! k)\<lparr>b_seg_idx := seg_map_idx p0\<rparr>
                            else base_block p0 ! k) [0..<length (base_block p0)]"
  proof -
    have "base_block p ! b = base_block p0 ! b" using I lb nb by simp
    then have "base_block p' = (base_block p)[b := (base_block p0 ! b)\<lparr>b_seg_idx := seg_map_idx p0\<rparr>]"
      using I by (simp add: p'_def)
    moreover have "insert b (set bs) = set (bs @ [b])" by simp
    ultimately show ?thesis
      using upd_block_map [OF lb(1) nb, of "\<lambda>x. x\<lparr>b_seg_idx := seg_map_idx p0\<rparr>"] I by metis
  qed
  have ch: "chan p' j = (if j = i then \<lparr>free_block = q, max_heap = h'\<rparr> else chan p j)" if "j < BPS" for j
    using that lc by (simp add: p'_def)
  have same: "length (base_channel p') = BPS" "seg_map p' = seg_map p0" "seg_map_idx p' = seg_map_idx p0"
    "segs p' = segs p0" "seg_fresh p' = seg_fresh p0" using I by (simp_all add: p'_def)
  have "chan_wf nos (chan p' j)" if "j < BPS" for j
    using that ch q(2,4) h' I by (simp add: chan_wf_def)
  moreover have "(bs @ [b]) ! j = hd (frees p0 j) \<and> frees p' j = tl (frees p0 j) \<and>
      used p' j = (if r then used p0 j else add_mset ((bs @ [b]) ! j) (used p0 j))" if "j < Suc i" for j
    using that ch [of j] i I q(3) h'(3) fb by (cases "j = i") (auto simp: nth_append)
  moreover have "chan p' j = chan p0 j" if "j < BPS" "Suc i \<le> j" for j
    using that ch I by simp
  ultimately show ?thesis
    using run bb same I unfolding seg_loop_def by (intro exI [of _ "(p', bs @ [b])"]) simp
qed

lemma get_segment_loop_ok:
  assumes "pool_ok nos p0" "length (base_block p0) = nos * BPS" "\<forall>j < BPS. frees p0 j \<noteq> []"
  shows "\<exists>p bs. foldE (get_segment_step r) [0..<BPS] (p0, []) = Inr (p, bs) \<and> seg_loop nos r p0 BPS (p, bs)"
proof -
  have "\<exists>t. foldE (get_segment_step r) [0..<BPS] (p0, []) = Inr t \<and> seg_loop nos r p0 BPS t"
  proof (rule foldE_upt [where P = "seg_loop nos r p0"])
    show "seg_loop nos r p0 0 (p0, [])"
      using assms(1) map_nth [of "base_block p0"] by (simp add: seg_loop_def pool_ok_def)
    fix i t assume "i < BPS" "seg_loop nos r p0 i t"
    then show "\<exists>t'. get_segment_step r i t = Inr t' \<and> seg_loop nos r p0 (Suc i) t'"
      using get_segment_step_ok [OF assms(1,2) _ assms(3)] by (cases t) blast
  qed
  then show ?thesis by auto
qed

lemma free_distinct:
  assumes "pool_ok nos p" "j < BPS"
  shows "distinct (frees p j)"
proof -
  have "count (mset (frees p j)) x \<le> 1" for x
    using assms unfolding pool_ok_def once_def by (metis add_leE count_union)
  then show ?thesis
    by (metis One_nat_def count_eq_zero_iff distinct_count_atmost_1 le_Suc_eq le_zero_eq set_mset_mset)
qed

lemma free_range:
  assumes "pool_ok nos p" "j < BPS" "b \<in> set (frees p j)"
  shows "b < nos * BPS" "b mod BPS = j"
  using assms unfolding pool_ok_def by (metis set_mset_mset union_iff)+

text \<open>The first blocks of the free lists, which make up the next segment.\<close>

definition firsts :: "bbm_pri \<Rightarrow> blk list" where
  "firsts p = map (\<lambda>j. hd (frees p j)) [0..<BPS]"

lemma firsts_props:
  assumes pool: "pool_ok nos p" and ne: "\<forall>j < BPS. frees p j \<noteq> []"
  shows "length (firsts p) = BPS" "distinct (firsts p)"
    and "\<And>j. j < BPS \<Longrightarrow> firsts p ! j = hd (frees p j) \<and> firsts p ! j < nos * BPS \<and> firsts p ! j mod BPS = j"
    and "\<And>b. b \<in> set (firsts p) \<longleftrightarrow> b = hd (frees p (b mod BPS))"
proof -
  show len: "length (firsts p) = BPS" by (simp add: firsts_def)
  show nth: "firsts p ! j = hd (frees p j) \<and> firsts p ! j < nos * BPS \<and> firsts p ! j mod BPS = j" if "j < BPS" for j
    using that free_range [OF pool that hd_in_set] ne by (simp add: firsts_def)
  show "distinct (firsts p)"
    unfolding distinct_conv_nth len using nth by metis
  show "b \<in> set (firsts p) \<longleftrightarrow> b = hd (frees p (b mod BPS))" for b
  proof
    assume "b \<in> set (firsts p)"
    then obtain j where "j < BPS" "b = firsts p ! j" using len by (auto simp: in_set_conv_nth)
    then show "b = hd (frees p (b mod BPS))" using nth by metis
  next
    assume "b = hd (frees p (b mod BPS))"
    then have "b = firsts p ! (b mod BPS)" using nth [of "b mod BPS"] by simp
    then show "b \<in> set (firsts p)" using len by (metis BPS_pos mod_less_divisor nth_mem)
  qed
qed

lemma held_after_get:
  assumes ok: "bm_ok nos p" and ne: "\<forall>j < BPS. frees p j \<noteq> []" and loop: "seg_loop nos r p BPS (p', bs)"
  shows "bs = firsts p" "held_blocks nos p' key = (if key = seg_map_idx p then set bs else held_blocks nos p key)"
proof -
  have pool: "pool_ok nos p" and len: "length (base_block p) = nos * BPS"
    using ok by (auto simp: bm_ok_def blocks_ok_def)
  note L = loop [unfolded seg_loop_def, simplified]
  show bs: "bs = firsts p"
    by (rule nth_equalityI) (use L firsts_props [OF pool ne] in auto)
  have fr: "b \<in> set (frees p (b mod BPS)) \<longleftrightarrow> b \<in> set (frees p' (b mod BPS)) \<or> b \<in> set bs" for b
  proof -
    have j: "b mod BPS < BPS" by simp
    then obtain x xs where "frees p (b mod BPS) = x # xs" using ne by (metis neq_Nil_conv)
    then show ?thesis using L j firsts_props(4) [OF pool ne, of b] bs by auto
  qed
  have nf: "b \<notin> set (frees p' (b mod BPS))" if "b \<in> set bs" for b
  proof -
    have j: "b mod BPS < BPS" by simp
    then obtain x xs where x: "frees p (b mod BPS) = x # xs" using ne by (metis neq_Nil_conv)
    then have "x \<notin> set xs" using free_distinct [OF pool j] by simp
    then show ?thesis using x L j that firsts_props(4) [OF pool ne, of b] bs by auto
  qed
  have none: "held_blocks nos p (seg_map_idx p) = {}"
    using ok unfolding bm_ok_def segs_ok_def by (metis less_irrefl option.exhaust)
  have idx: "b_seg_idx (base_block p' ! b) = (if b \<in> set bs then seg_map_idx p else b_seg_idx (base_block p ! b))"
    if "b < nos * BPS" for b
    using L that len by simp
  have rng: "b < nos * BPS" if "b \<in> set bs" for b
    using that firsts_props(1,3) [OF pool ne] bs by (metis in_set_conv_nth)
  show "held_blocks nos p' key = (if key = seg_map_idx p then set bs else held_blocks nos p key)"
    using fr nf none idx rng unfolding held_blocks_def by (auto split: if_splits)
qed

lemma pool_after_get:
  assumes pool: "pool_ok nos p" and ne: "\<forall>j < BPS. frees p j \<noteq> []" and loop: "seg_loop nos r p BPS (p', bs)"
  shows "pool_ok nos p'"
proof -
  note L = loop [unfolded seg_loop_def, simplified]
  have "once (mset (frees p' j) + used p' j) \<and> (\<forall>b \<in># mset (frees p' j) + used p' j. b < nos * BPS \<and> b mod BPS = j)"
    if j: "j < BPS" for j
  proof -
    obtain x xs where x: "frees p j = x # xs" using ne j by (metis neq_Nil_conv)
    have "mset (frees p' j) + used p' j \<subseteq># mset (frees p j) + used p j"
      using L j x by auto
    moreover have "once M'" if "M' \<subseteq># M" "once M" for M M' :: "blk multiset"
      using that unfolding once_def by (meson le_trans mset_subset_eq_count)
    ultimately show ?thesis using pool j unfolding pool_ok_def by (meson mset_subset_eqD)
  qed
  then show ?thesis using L by (simp add: pool_ok_def)
qed

lemma segs_ok_new:
  assumes so: "segs_ok nos p"
    and new: "segs p' = (segs p)(seg_fresh p \<mapsto> s)" "seg_fresh p' = seg_fresh p + 1"
      "seg_map p' = (seg_map p)(seg_map_idx p \<mapsto> seg_fresh p)" "seg_map_idx p' = seg_map_idx p + 1"
    and held: "\<And>key. held_blocks nos p' key = (if key = seg_map_idx p then set bs else held_blocks nos p key)"
    and bs: "length bs = BPS" "distinct bs" "\<forall>i < BPS. bs ! i < nos * BPS \<and> bs ! i mod BPS = i"
    and s: "s_blocks s = bs" "s_now s = 0" "invalid_blocks s = 0"
  shows "segs_ok nos p'"
proof -
  note S = so [unfolded segs_ok_def]
  have old: "a \<noteq> seg_fresh p" "key < seg_map_idx p" if "seg_map p key = Some a" for key a
    using S that by (metis order_refl option.distinct(1))+
  have c: "card (set bs) = BPS" "set bs \<noteq> {}" using bs(1,2) by (auto simp: distinct_card BPS_def)
  have "segs p' a = None" if "seg_fresh p' \<le> a" for a using S that new by simp
  moreover have "length (s_blocks t) = BPS \<and> s_now t < BPS \<and>
      (\<forall>i < BPS. s_blocks t ! i < nos * BPS \<and> s_blocks t ! i mod BPS = i)" if "segs p' a = Some t" for a t
    using S that new bs s by (auto split: if_splits)
  moreover have "held_blocks nos p' key = {}" if "seg_map p' key = None" for key
    using S that new held by (auto split: if_splits)
  moreover have "key < seg_map_idx p' \<and> (\<exists>t. segs p' a = Some t \<and>
      invalid_blocks t + card (held_blocks nos p' key) = BPS \<and> held_blocks nos p' key \<noteq> {})"
    if k: "seg_map p' key = Some a" for key a
  proof (cases "key = seg_map_idx p")
    case True
    then show ?thesis using k new c s held by simp
  next
    case False
    then have "seg_map p key = Some a" using k new by simp
    then show ?thesis using S old False new held by fastforce
  qed
  moreover have "key = key'" if "seg_map p' key = Some a" "seg_map p' key' = Some a" for key key' a
    using that new old S by (metis fun_upd_apply option.inject)
  ultimately show ?thesis unfolding segs_ok_def by blast
qed

lemma base_get_segment_ok:
  assumes ok: "bm_ok nos p" and ne: "frees p 0 \<noteq> []"
  shows "\<exists>p' s. base_get_segment r p = Inr (seg_fresh p, p') \<and> bm_ok nos p' \<and>
           segs p' = (segs p)(seg_fresh p \<mapsto> s) \<and>
           s = \<lparr>s_seg_idx = seg_map_idx p, s_blocks = firsts p, s_now = 0, s_max = BPS,
                 used_page_num = 0, invalid_blocks = 0\<rparr> \<and>
           (\<forall>j < BPS. frees p' j = tl (frees p j) \<and>
              used p' j = (if r then used p j else add_mset (firsts p ! j) (used p j))) \<and>
           (\<forall>b < nos * BPS. base_block p' ! b = (if b \<in> set (firsts p)
              then (base_block p ! b)\<lparr>b_seg_idx := seg_map_idx p\<rparr> else base_block p ! b))"
proof -
  have pool: "pool_ok nos p" and bl: "blocks_ok nos p" and so: "segs_ok nos p" and bal: "balanced p"
    using ok by (auto simp: bm_ok_def)
  have len: "length (base_block p) = nos * BPS" using bl by (simp add: blocks_ok_def)
  have ne': "\<forall>j < BPS. frees p j \<noteq> []" using bal ne unfolding balanced_def by (metis length_0_conv)
  obtain p1 bs where run: "foldE (get_segment_step r) [0..<BPS] (p, []) = Inr (p1, bs)"
    and loop: "seg_loop nos r p BPS (p1, bs)" using get_segment_loop_ok [OF pool len ne'] by blast
  note L = loop [unfolded seg_loop_def, simplified]
  have bs: "bs = firsts p" by (rule held_after_get(1) [OF ok ne' loop])
  define s where "s = \<lparr>s_seg_idx = seg_map_idx p, s_blocks = bs, s_now = 0, s_max = BPS,
                 used_page_num = 0, invalid_blocks = 0\<rparr>"
  define p' where "p' = p1\<lparr>segs := (segs p)(seg_fresh p \<mapsto> s), seg_fresh := seg_fresh p + 1,
                    seg_map := (seg_map p)(seg_map_idx p \<mapsto> seg_fresh p), seg_map_idx := seg_map_idx p + 1\<rparr>"
  have get: "base_get_segment r p = Inr (seg_fresh p, p')"
    using L by (simp add: base_get_segment_def run Let_def p'_def s_def)
  have blk: "base_block p' ! b = (if b \<in> set bs then (base_block p ! b)\<lparr>b_seg_idx := seg_map_idx p\<rparr>
      else base_block p ! b)" if "b < nos * BPS" for b
    using that L len by (simp add: p'_def)
  have held: "held_blocks nos p' key = (if key = seg_map_idx p then set bs else held_blocks nos p key)" for key
    using held_after_get(2) [OF ok ne' loop, of key] by (simp add: p'_def held_blocks_def)
  have pool': "pool_ok nos p'" using pool_after_get [OF pool ne' loop] by (simp add: p'_def pool_ok_def)
  have blocks': "blocks_ok nos p'" using bl blk L len by (auto simp: blocks_ok_def p'_def)
  have fr: "frees p' j = tl (frees p j) \<and> used p' j = (if r then used p j else add_mset (bs ! j) (used p j))"
    if "j < BPS" for j using that L by (auto simp: p'_def)
  then have bal': "balanced p'" using bal unfolding balanced_def by (metis length_tl BPS_pos)
  have segs': "segs_ok nos p'"
  proof -
    have fp: "length bs = BPS" "distinct bs" "\<forall>i < BPS. bs ! i < nos * BPS \<and> bs ! i mod BPS = i"
      unfolding bs using firsts_props(1-3) [OF pool ne'] by blast+
    have sf: "s_blocks s = bs" "s_now s = 0" "invalid_blocks s = 0" by (simp_all add: s_def)
    show ?thesis
      by (rule segs_ok_new [OF so _ _ _ _ held fp sf]) (simp_all add: p'_def)
  qed
  have ok': "bm_ok nos p'" using pool' blocks' segs' bal' by (simp only: bm_ok_def)
  have sg: "segs p' = (segs p)(seg_fresh p \<mapsto> s)" by (simp add: p'_def)
  show ?thesis
    by (intro exI [of _ p'] exI [of _ s] conjI)
      (use get ok' sg fr blk in \<open>simp_all add: s_def bs\<close>)
qed

section \<open>Choosing the victims\<close>

text \<open>The state after \<open>i\<close> rounds of the loop of \<open>base_get_gc_target\<close>.\<close>

definition gc_loop :: "nat \<Rightarrow> bbm_pri \<Rightarrow> nat \<Rightarrow> bbm_pri \<times> blk list \<Rightarrow> bool" where
  "gc_loop nos p0 i = (\<lambda>(p, bs).
     length bs = i \<and> length (base_channel p) = BPS \<and> (\<forall>j < BPS. chan_wf nos (chan p j)) \<and>
     (\<forall>j < BPS. free_block (chan p j) = free_block (chan p0 j)) \<and>
     (\<forall>j < i. bs ! j \<in># used p0 j \<and> used p j = used p0 j - {#bs ! j#} \<and>
        (\<forall>b \<in># used p0 j. base_get_cnt p0 b \<le> base_get_cnt p0 (bs ! j))) \<and>
     (\<forall>j < BPS. i \<le> j \<longrightarrow> chan p j = chan p0 j) \<and>
     base_block p = base_block p0 \<and> seg_map p = seg_map p0 \<and> seg_map_idx p = seg_map_idx p0 \<and>
     segs p = segs p0 \<and> seg_fresh p = seg_fresh p0)"

lemma gc_target_step_ok:
  assumes i: "i < BPS" and ne: "used p0 i \<noteq> {#}" and inv: "gc_loop nos p0 i (p, bs)"
  shows "\<exists>t. gc_target_step i (p, bs) = Inr t \<and> gc_loop nos p0 (Suc i) t"
proof -
  note I = inv [unfolded gc_loop_def, simplified]
  have ci: "chan p i = chan p0 i" and wf: "chan_wf nos (chan p i)" and lc: "i < length (base_channel p)"
    and cnt: "base_get_cnt p = base_get_cnt p0"
    using I i by (auto simp: base_get_cnt_def fun_eq_iff)
  have ok: "mh_ok (max_heap (chan p i))" using wf by (simp add: chan_wf_def)
  obtain h1 where h1: "mh_construct (base_get_cnt p) (max_heap (chan p i)) = Inr h1"
    "mh_same (max_heap (chan p i)) h1" "heap_ordered (base_get_cnt p) h1"
    using mh_construct_ordered [OF ok] by blast
  have ok1: "mh_ok h1" and it1: "mh_items h1 = used p0 i" and mx1: "mh_max h1 = nos"
    using mh_same_ok [OF h1(2) ok] mh_same_items [OF h1(2)] h1(2) wf ci
    by (auto simp: mh_same_def chan_wf_def)
  have "0 < mh_size h1" using size_mh_items [OF ok1] it1 ne by (metis nonempty_has_size of_nat_0_less_iff)
  then obtain b h2 where h2: "mh_get_max (base_get_cnt p) h1 = Inr (Some b, h2)" "b \<in># used p0 i"
    "\<forall>y \<in># used p0 i. base_get_cnt p y \<le> base_get_cnt p b" "mh_ok h2" "mh_items h2 = used p0 i - {#b#}"
    "mh_max h2 = nos"
    using mh_get_max_ordered [OF ok1 _ h1(3)] unfolding it1 mx1 by blast
  define p' where "p' = set_channel i ((chan p i)\<lparr>max_heap := h2\<rparr>) p"
  have run: "gc_target_step i (p, bs) = Inr (p', bs @ [b])"
    using lc h1 h2 by (simp add: gc_target_step_def index_in p'_def)
  have ch: "chan p' j = (if j = i then (chan p i)\<lparr>max_heap := h2\<rparr> else chan p j)" if "j < BPS" for j
    using that lc by (simp add: p'_def)
  have "chan_wf nos (chan p' j)" "free_block (chan p' j) = free_block (chan p0 j)" if "j < BPS" for j
    using that ch wf I h2(4,6) by (auto simp: chan_wf_def)
  moreover have "(bs @ [b]) ! j \<in># used p0 j \<and> used p' j = used p0 j - {#(bs @ [b]) ! j#} \<and>
      (\<forall>x \<in># used p0 j. base_get_cnt p0 x \<le> base_get_cnt p0 ((bs @ [b]) ! j))" if "j < Suc i" for j
    using that ch [of j] i I h2(2,3,5) cnt by (cases "j = i") (auto simp: nth_append)
  moreover have "chan p' j = chan p0 j" if "j < BPS" "Suc i \<le> j" for j using that ch I by simp
  moreover have "length (base_channel p') = BPS" "base_block p' = base_block p0" "seg_map p' = seg_map p0"
    "seg_map_idx p' = seg_map_idx p0" "segs p' = segs p0" "seg_fresh p' = seg_fresh p0"
    using I by (simp_all add: p'_def)
  ultimately show ?thesis
    using run I unfolding gc_loop_def by (intro exI [of _ "(p', bs @ [b])"]) simp
qed

lemma base_get_gc_target_ok:
  assumes pool: "pool_ok nos p" and ne: "\<forall>j < BPS. used p j \<noteq> {#}"
  shows "\<exists>gs p'. base_get_gc_target p = Inr (gs, p') \<and> gc_loop nos p BPS (p', g_blocks gs)"
proof -
  have "\<exists>t. foldE gc_target_step [0..<BPS] (p, []) = Inr t \<and> gc_loop nos p BPS t"
  proof (rule foldE_upt [where P = "gc_loop nos p"])
    show "gc_loop nos p 0 (p, [])" using pool by (simp add: gc_loop_def pool_ok_def)
    fix i t assume "i < BPS" "gc_loop nos p i t"
    then show "\<exists>t'. gc_target_step i t = Inr t' \<and> gc_loop nos p (Suc i) t'"
      using gc_target_step_ok ne by (cases t) blast
  qed
  then show ?thesis by (auto simp: base_get_gc_target_def)
qed

section \<open>Giving blocks back\<close>

lemma held_finite: "finite (held_blocks nos p key)"
  by (simp add: held_blocks_def)

lemma seg_eta [simp]: "\<exists>n. s = s\<lparr>invalid_blocks := n\<rparr>"
  by (rule exI [of _ "invalid_blocks s"]) simp

text \<open>
  Giving back one block of key \<open>k\<close>: the counter of its segment follows, and the segment is freed
  exactly when the last of its blocks is given back.
\<close>

lemma release_block_ok:
  assumes so: "segs_ok nos p" and b: "b \<in> held_blocks nos p k"
    and same: "segs p1 = segs p" "seg_map p1 = seg_map p" "seg_map_idx p1 = seg_map_idx p" "seg_fresh p1 = seg_fresh p"
    and held: "\<And>key. held_blocks nos p1 key = held_blocks nos p key - {b}"
  shows "\<exists>p2. release_block k p1 = Inr p2 \<and> segs_ok nos p2 \<and> base_block p2 = base_block p1 \<and>
           base_channel p2 = base_channel p1 \<and>
           (\<forall>a s. segs p1 a = Some s \<longrightarrow> segs p2 a = None \<or> (\<exists>n. segs p2 a = Some (s\<lparr>invalid_blocks := n\<rparr>)))"
proof -
  note S = so [unfolded segs_ok_def]
  obtain a where a: "seg_map p k = Some a" using S b by (metis empty_iff option.exhaust)
  obtain s where s: "segs p a = Some s" "invalid_blocks s + card (held_blocks nos p k) = BPS" using S a by blast
  have c: "card (held_blocks nos p1 k) = card (held_blocks nos p k) - 1" "0 < card (held_blocks nos p k)"
    using b held held_finite by (auto simp: card_gt_0_iff)
  then have inv: "inc8 (invalid_blocks s) = invalid_blocks s + 1" using s(2) by (simp add: BPS_def)
  have only: "b \<notin> held_blocks nos p key" if "key \<noteq> k" for key
    using b that by (auto simp: held_blocks_def)
  then have other: "held_blocks nos p1 key = held_blocks nos p key" if "key \<noteq> k" for key using that held by simp
  have inj: "key = k" if "seg_map p key = Some a" for key using S a that by blast
  show ?thesis
  proof (cases "card (held_blocks nos p k) = 1")
    case True
    then have e: "held_blocks nos p1 k = {}" using c held_finite by simp
    define p2 where "p2 = p1\<lparr>segs := (segs p1)(a := None), seg_map := (seg_map p1)(k := None)\<rparr>"
    have h2: "held_blocks nos p2 key = held_blocks nos p1 key" for key by (simp add: p2_def held_blocks_def)
    have "release_block k p1 = Inr p2"
      using a s True inv same by (simp add: release_block_def deref_def Let_def p2_def)
    moreover have "segs_ok nos p2"
      unfolding segs_ok_def h2 using S e other inj same by (auto simp: p2_def)
    ultimately show ?thesis by (auto simp: p2_def)
  next
    case False
    define p2 where "p2 = upd_seg a (s\<lparr>invalid_blocks := invalid_blocks s + 1\<rparr>) p1"
    have h2: "held_blocks nos p2 key = held_blocks nos p1 key" for key by (simp add: p2_def upd_seg_def held_blocks_def)
    have "release_block k p1 = Inr p2"
      using a s False inv same c by (simp add: release_block_def deref_def Let_def p2_def)
    moreover have ne: "held_blocks nos p1 k \<noteq> {}" using False c by auto
    moreover have "segs_ok nos p2"
    proof -
      have "key < seg_map_idx p \<and> (\<exists>t. segs p2 x = Some t \<and>
          invalid_blocks t + card (held_blocks nos p1 key) = BPS \<and> held_blocks nos p1 key \<noteq> {})"
        if "seg_map p key = Some x" for key x
      proof (cases "key = k")
        case True
        then show ?thesis using that a s c ne S by (auto simp: p2_def upd_seg_def)
      next
        case False
        then have "x \<noteq> a" using inj that by blast
        then show ?thesis using False other S that same by (auto simp: p2_def upd_seg_def)
      qed
      then show ?thesis unfolding segs_ok_def h2 using S s same held
        by (auto simp: p2_def upd_seg_def split: if_splits)
    qed
    ultimately show ?thesis using s same by (auto simp: p2_def upd_seg_def)
  qed
qed

text \<open>A block of channel \<open>j\<close> that is neither free nor in the heap: a victim not yet trimmed.\<close>

definition limbo :: "nat \<Rightarrow> bbm_pri \<Rightarrow> nat \<Rightarrow> blk \<Rightarrow> bool" where
  "limbo nos p j b \<longleftrightarrow> b < nos * BPS \<and> b mod BPS = j \<and> b \<notin> set (frees p j) \<and> b \<notin># used p j"

lemma pool_room_limbo:
  assumes pool: "pool_ok nos p" and j: "j < BPS" and b: "limbo nos p j b"
  shows "Suc (length (frees p j) + size (used p j)) \<le> nos"
proof -
  let ?M = "mset (frees p j) + used p j"
  have "insert b (set_mset ?M) \<subseteq> (\<lambda>k. k * BPS + j) ` {..<nos}"
  proof
    fix x assume "x \<in> insert b (set_mset ?M)"
    then have "x < nos * BPS" "x mod BPS = j" using pool j b unfolding pool_ok_def limbo_def by blast+
    then have "x = x div BPS * BPS + j" "x div BPS < nos"
      by (metis div_mult_mod_eq, simp add: less_mult_imp_div_less)
    then show "x \<in> (\<lambda>k. k * BPS + j) ` {..<nos}" by blast
  qed
  then have "card (insert b (set_mset ?M)) \<le> nos"
    by (metis card_image_le card_lessThan card_mono finite_imageI finite_lessThan le_trans)
  moreover have "b \<notin># ?M" using b by (simp add: limbo_def)
  moreover have "once ?M" using pool j unfolding pool_ok_def by blast
  ultimately show ?thesis by (simp add: once_size [symmetric] del: set_mset_union)
qed

lemma free_enqueue_ok:
  assumes pool: "pool_ok nos p" and i: "i < BPS" and b: "limbo nos p i b"
  shows "\<exists>c. free_enqueue i b p = Inr (set_channel i c p) \<and> q_list (free_block c) = frees p i @ [b] \<and>
           max_heap c = max_heap (chan p i) \<and> pool_ok nos (set_channel i c p)"
proof -
  have lc: "i < length (base_channel p)" and wf: "chan_wf nos (chan p i)" using pool i by (auto simp: pool_ok_def)
  have "length (frees p i) < q_msize (free_block (chan p i))"
    using pool_room_limbo [OF pool i b] wf by (simp add: chan_wf_def)
  then obtain q where q: "q_enqueue b (free_block (chan p i)) = Inr (True, q)" "q_ok q"
      "q_list q = frees p i @ [b]" "q_msize q = nos"
    using q_enqueue_room [of "free_block (chan p i)" b] wf by (auto simp: chan_wf_def)
  define c where "c = (chan p i)\<lparr>free_block := q\<rparr>"
  have "free_enqueue i b p = Inr (set_channel i c p)"
    using lc q by (simp add: free_enqueue_def index_in c_def)
  moreover have "pool_ok nos (set_channel i c p)"
  proof -
    have "once (mset (frees (set_channel i c p) j) + used (set_channel i c p) j) \<and>
        (\<forall>x \<in># mset (frees (set_channel i c p) j) + used (set_channel i c p) j. x < nos * BPS \<and> x mod BPS = j)"
      if j: "j < BPS" for j
    proof (cases "j = i")
      case True
      have "count (mset (frees p i) + used p i) b = 0" using b by (simp add: limbo_def not_in_iff)
      moreover have "once (mset (frees p i) + used p i)" using pool i by (simp add: pool_ok_def)
      ultimately have "once (mset (frees p i @ [b]) + used p i)" by (auto simp: once_def)
      then show ?thesis using True lc q pool i b by (auto simp: c_def pool_ok_def limbo_def)
    next
      case False
      then show ?thesis using pool j by (simp add: pool_ok_def)
    qed
    moreover have "chan_wf nos (chan (set_channel i c p) j)" if "j < BPS" for j
      using that wf q pool lc by (cases "j = i") (auto simp: c_def chan_wf_def pool_ok_def)
    ultimately show ?thesis using pool by (simp add: pool_ok_def)
  qed
  ultimately show ?thesis using q by (auto simp: c_def)
qed

definition trim_loop ::
  "nat \<Rightarrow> (nat \<Rightarrow> 'l \<Rightarrow> 'l) \<Rightarrow> bbm_pri \<Rightarrow> blk list \<Rightarrow> 'l \<Rightarrow> nat \<Rightarrow> bbm_pri \<times> 'l \<Rightarrow> bool" where
  "trim_loop nos tr p0 bs l0 i = (\<lambda>(p, l).
     pool_ok nos p \<and> blocks_ok nos p \<and> segs_ok nos p \<and>
     (\<forall>j < BPS. frees p j = frees p0 j @ (if j < i then [bs ! j] else []) \<and> used p j = used p0 j) \<and>
     base_block p = map (\<lambda>b. if b \<in> set (take i bs) then erased (base_block p0 ! b) else base_block p0 ! b)
                      [0..<length (base_block p0)] \<and>
     l = fold (\<lambda>j. tr (GETBLOCKPPA (base_block p0 ! (bs ! j)))) [0..<i] l0)"

lemma trim_step_ok:
  assumes i: "i < BPS" and lb: "\<forall>j < BPS. limbo nos p0 j (bs ! j)" and len: "length bs = BPS"
    and gs: "g_blocks gs = bs" and len0: "length (base_block p0) = nos * BPS"
    and inv: "trim_loop nos tr p0 bs l0 i (p, l)"
  shows "\<exists>t. trim_step (\<lambda>ppa l. Inr (tr ppa l)) gs i (p, l) = Inr t \<and> trim_loop nos tr p0 bs l0 (Suc i) t"
proof -
  have pool: "pool_ok nos p" and bk: "blocks_ok nos p" and so: "segs_ok nos p"
    and fr: "\<And>j. j < BPS \<Longrightarrow> frees p j = frees p0 j @ (if j < i then [bs ! j] else []) \<and> used p j = used p0 j"
    and bb: "base_block p = map (\<lambda>b. if b \<in> set (take i bs) then erased (base_block p0 ! b) else base_block p0 ! b)
                      [0..<length (base_block p0)]"
    and l: "l = fold (\<lambda>j. tr (GETBLOCKPPA (base_block p0 ! (bs ! j)))) [0..<i] l0"
    using inv unfolding trim_loop_def by auto
  define b where "b = bs ! i"
  have b0: "b < nos * BPS" "b mod BPS = i" using lb i by (auto simp: b_def limbo_def)
  have nb: "b \<notin> set (take i bs)"
  proof
    assume "b \<in> set (take i bs)"
    then obtain j where j: "j < i" "bs ! j = b" using len i by (auto simp: in_set_conv_nth)
    then have "b mod BPS = j" using lb i unfolding limbo_def by (metis less_trans)
    then show False using b0 j by simp
  qed
  have bl: "base_block p ! b = base_block p0 ! b" "length (base_block p) = nos * BPS"
    using bb b0 nb len0 by auto
  have lim: "limbo nos p i b" using fr [OF i] lb i by (auto simp: limbo_def b_def)
  define p1 where "p1 = upd_block b erased p"
  have ch1: "base_channel p1 = base_channel p" by (simp add: p1_def)
  have pool1: "pool_ok nos p1" using pool unfolding pool_ok_def ch1 .
  have lim1: "limbo nos p1 i b" using lim by (simp add: limbo_def ch1)
  obtain c where c: "free_enqueue i b p1 = Inr (set_channel i c p1)" "q_list (free_block c) = frees p1 i @ [b]"
    "max_heap c = max_heap (chan p1 i)" "pool_ok nos (set_channel i c p1)"
    using free_enqueue_ok [OF pool1 i lim1] by blast
  define p2 where "p2 = set_channel i c p1"
  have lc: "i < length (base_channel p)" using pool i by (simp add: pool_ok_def)
  have fr2: "frees p2 j = (if j = i then frees p i @ [b] else frees p j)" "used p2 j = used p j" if "j < BPS" for j
    using that c(2,3) lc by (auto simp: p2_def ch1 nth_list_update)
  have seg2: "b_seg_idx (base_block p2 ! x) = b_seg_idx (base_block p ! x)" if "x < nos * BPS" for x
    using that bl b0 by (cases "x = b") (simp_all add: p2_def p1_def erased_def)
  have held: "held_blocks nos p2 key = held_blocks nos p key - {b}" for key
  proof (rule set_eqI)
    fix x
    have "x mod BPS < BPS" by simp
    from fr2(1) [OF this] have "x \<in> set (frees p2 (x mod BPS)) \<longleftrightarrow> x \<in> set (frees p (x mod BPS)) \<or> x = b"
      using b0(2) by auto
    then show "x \<in> held_blocks nos p2 key \<longleftrightarrow> x \<in> held_blocks nos p key - {b}"
      using seg2 [of x] unfolding held_blocks_def by auto
  qed
  have "b \<in> held_blocks nos p (b_seg_idx (base_block p0 ! b))"
    using b0 bl lim by (simp add: held_blocks_def limbo_def)
  moreover have "segs p2 = segs p" "seg_map p2 = seg_map p" "seg_map_idx p2 = seg_map_idx p" "seg_fresh p2 = seg_fresh p"
    by (simp_all add: p2_def p1_def)
  ultimately obtain p3 where p3: "release_block (b_seg_idx (base_block p0 ! b)) p2 = Inr p3" "segs_ok nos p3"
    "base_block p3 = base_block p2" "base_channel p3 = base_channel p2"
    using release_block_ok [OF so _ _ _ _ _ held] by blast
  have run: "trim_step (\<lambda>ppa l. Inr (tr ppa l)) gs i (p, l) = Inr (p3, tr (GETBLOCKPPA (base_block p0 ! b)) l)"
    using gs len i bl b0 c(1) p3(1) unfolding p1_def p2_def
    by (simp add: trim_step_def index_in b_def [symmetric])
  have "(base_block p)[b := erased (base_block p0 ! b)] =
      map (\<lambda>x. if x \<in> insert b (set (take i bs)) then erased (base_block p0 ! x) else base_block p0 ! x)
        [0..<length (base_block p0)]"
    unfolding bb by (rule upd_block_map) (use b0 len0 nb in auto)
  moreover have "insert b (set (take i bs)) = set (take (Suc i) bs)"
    using len i by (simp add: take_Suc_conv_app_nth b_def)
  ultimately have bb3: "base_block p3 = map (\<lambda>x. if x \<in> set (take (Suc i) bs) then erased (base_block p0 ! x)
      else base_block p0 ! x) [0..<length (base_block p0)]"
    using p3(3) bl by (simp add: p2_def p1_def)
  have "blocks_ok nos p3"
    using bk bl p3(3) b0 by (auto simp: blocks_ok_def p2_def p1_def nth_list_update erased_def)
  moreover have "pool_ok nos p3" using c(4) p3(4) by (simp add: pool_ok_def p2_def)
  moreover have "frees p3 j = frees p0 j @ (if j < Suc i then [bs ! j] else []) \<and> used p3 j = used p0 j" if "j < BPS" for j
    using fr [OF that] fr2 [OF that] p3(4) by (auto simp: b_def)
  moreover have "tr (GETBLOCKPPA (base_block p0 ! b)) l =
      fold (\<lambda>j. tr (GETBLOCKPPA (base_block p0 ! (bs ! j)))) [0..<Suc i] l0"
    by (simp add: l b_def)
  ultimately show ?thesis using run bb3 p3(2) unfolding trim_loop_def by simp
qed

lemma base_trim_segment_ok:
  assumes ok: "bm_ok nos p" and gs: "length (g_blocks gs) = BPS" "\<forall>j < BPS. limbo nos p j (g_blocks gs ! j)"
  shows "\<exists>p'. base_trim_segment (\<lambda>ppa l. Inr (tr ppa l)) gs p l =
             Inr (p', fold (\<lambda>j. tr (GETBLOCKPPA (base_block p ! (g_blocks gs ! j)))) [0..<BPS] l) \<and>
           bm_ok nos p' \<and>
           (\<forall>j < BPS. frees p' j = frees p j @ [g_blocks gs ! j] \<and> used p' j = used p j) \<and>
           (\<forall>b < nos * BPS. base_block p' ! b =
              (if b \<in> set (g_blocks gs) then erased (base_block p ! b) else base_block p ! b))"
proof -
  have len: "length (base_block p) = nos * BPS" and bal: "balanced p"
    using ok by (auto simp: bm_ok_def blocks_ok_def)
  have "\<exists>t. foldE (trim_step (\<lambda>ppa l. Inr (tr ppa l)) gs) [0..<BPS] (p, l) = Inr t \<and>
      trim_loop nos tr p (g_blocks gs) l BPS t"
  proof (rule foldE_upt [where P = "trim_loop nos tr p (g_blocks gs) l"])
    show "trim_loop nos tr p (g_blocks gs) l 0 (p, l)"
      using ok map_nth [of "base_block p"] by (simp add: trim_loop_def bm_ok_def)
    fix i t assume "i < BPS" "trim_loop nos tr p (g_blocks gs) l i t"
    then show "\<exists>t'. trim_step (\<lambda>ppa l. Inr (tr ppa l)) gs i t = Inr t' \<and>
        trim_loop nos tr p (g_blocks gs) l (Suc i) t'"
      using trim_step_ok [OF _ gs(2,1) refl len, of i tr l "fst t" "snd t"] by simp
  qed
  then obtain p' l' where run: "base_trim_segment (\<lambda>ppa l. Inr (tr ppa l)) gs p l = Inr (p', l')"
    and inv: "trim_loop nos tr p (g_blocks gs) l BPS (p', l')" by (auto simp: base_trim_segment_def)
  note T = inv [unfolded trim_loop_def prod.case]
  have fr: "frees p' j = frees p j @ [g_blocks gs ! j] \<and> used p' j = used p j" if "j < BPS" for j
    using T that by simp
  have "balanced p'" using bal fr unfolding balanced_def
    by (metis BPS_pos length_append_singleton)
  then have "bm_ok nos p'" using T by (simp only: bm_ok_def)
  moreover have "base_block p' ! b = (if b \<in> set (g_blocks gs) then erased (base_block p ! b) else base_block p ! b)"
    if "b < nos * BPS" for b
    using T that len gs(1) by simp
  ultimately show ?thesis using run T fr by (intro exI [of _ p'] conjI) blast+
qed

end
