(* ===== verification/Bm_Pages.thy ===== *)
theory Bm_Pages
  imports Base_Bm
begin

unbundle bit_operations_syntax

text \<open>
  The page level of the block manager of \<^verbatim>\<open>src/blockmanager/base_block_manager.c\<close>: the validity
  bitmaps, the addresses of pages, the order in which a segment hands out its pages, the state after
  \<open>base_create\<close>, and the properties of the block manager as a whole.
\<close>

section \<open>Page bits\<close>

lemma pow_bit: "n < 8 \<Longrightarrow> bit (2 ^ k :: u8) n \<longleftrightarrow> n = k"
  by (simp add: bit_exp_iff)

lemma mask_bit: "k < 8 \<Longrightarrow> (w AND push_bit k 1 \<noteq> 0) = bit w k" for w :: u8
proof -
  assume k: "k < 8"
  have "w AND push_bit k 1 = 0 \<longleftrightarrow> (\<forall>n < 8. \<not> bit (w AND push_bit k 1) n)"
    using bit_word_eqI [of "w AND push_bit k 1" 0] by auto
  also have "\<dots> \<longleftrightarrow> \<not> bit w k" using k by (auto simp: bit_and_iff pow_bit)
  finally show ?thesis by simp
qed

lemma get_bit_bit: "get_bit b pn = bit (bitset b (pn div 8)) (pn mod 8)"
  unfolding get_bit_def by (rule mask_bit) simp

lemma page_split: "pn div 8 = qn div 8 \<Longrightarrow> pn mod 8 = qn mod 8 \<Longrightarrow> pn = (qn :: nat)"
  by (metis div_mult_mod_eq)

lemma get_set_bit [simp]: "get_bit (set_bit_of pn b) qn = (qn = pn \<or> get_bit b qn)"
proof -
  have "bit (w OR push_bit (pn mod 8) 1) (qn mod 8) = (bit w (qn mod 8) \<or> pn mod 8 = qn mod 8)" for w :: u8
    by (auto simp: bit_or_iff pow_bit)
  then show ?thesis using page_split [of pn qn] by (auto simp: get_bit_bit set_bit_of_def)
qed

lemma get_clear_bit [simp]: "get_bit (clear_bit_of pn b) qn = (qn \<noteq> pn \<and> get_bit b qn)"
proof -
  have "bit (w AND NOT (push_bit (pn mod 8) 1)) (qn mod 8) = (bit w (qn mod 8) \<and> pn mod 8 \<noteq> qn mod 8)" for w :: u8
    by (auto simp: bit_and_iff bit_not_iff pow_bit)
  then show ?thesis using page_split [of pn qn] by (auto simp: get_bit_bit clear_bit_of_def)
qed

lemma get_bit_upd [simp]: "get_bit (b\<lparr>invalid_number := n\<rparr>) pn = get_bit b pn" "\<not> get_bit (erased b) pn"
  by (simp_all add: get_bit_bit erased_def)

text \<open>The addresses of the pages of the blocks, and back.\<close>

lemma GETPAGEIDX_bound: "GETPAGEIDX ppa < PPB"
  by (simp add: GETPAGEIDX_def PPB_def)

lemma block_addr:
  assumes "page < PPB"
  shows "GETBLOCKIDX (b div BPS * PPS + page * 2 ^ 6 + b mod BPS) = b"
    and "GETPAGEIDX (b div BPS * PPS + page * 2 ^ 6 + b mod BPS) = page"
proof -
  let ?a = "b div BPS * PPS + page * 2 ^ 6 + b mod BPS"
  have m: "b mod BPS < 64" by (simp add: BPS_def)
  have lt: "page * 64 + b mod BPS < 16384" using assms m unfolding PPB_def by linarith
  have d: "?a div 2 ^ 14 = b div BPS"
    using lt div_mult_self3 [of 16384 "b div BPS" "page * 64 + b mod BPS"] by (simp add: add.assoc)
  have e: "?a = (b div BPS * 256 + page) * 64 + b mod BPS" by (simp add: algebra_simps)
  have r: "?a mod 64 = b mod BPS" "?a div 64 = b div BPS * 256 + page"
    unfolding e using m by (simp_all only: mod_mult_self3 div_mult_self3 mod_less div_less)
  show "GETBLOCKIDX ?a = b"
    using d r(1) div_mult_mod_eq [of b BPS] by (simp add: GETBLOCKIDX_def PUNIT_def BPS_def)
  show "GETPAGEIDX ?a = page"
    using r(2) assms by (simp add: GETPAGEIDX_def PPB_def)
qed

lemma addr_block:
  "ppa = GETBLOCKIDX ppa div BPS * PPS + GETPAGEIDX ppa * 2 ^ 6 + GETBLOCKIDX ppa mod BPS"
proof -
  have "ppa mod 16384 = ppa div 64 mod 256 * 64 + ppa mod 64" using mod_mult2_eq [of ppa 64 256] by simp
  then show ?thesis using div_mult_mod_eq [of ppa 16384]
    by (simp add: GETBLOCKIDX_def GETPAGEIDX_def PUNIT_def BPS_def)
qed

section \<open>Updates that keep the invariant\<close>

text \<open>
  Changes of page counters, bitmaps and invalid counts, and of the cursor of a segment, leave the
  pools and the bookkeeping of segments alone.
\<close>

definition minor :: "nat \<Rightarrow> bbm_pri \<Rightarrow> bbm_pri \<Rightarrow> bool" where
  "minor nos p p' \<longleftrightarrow>
     base_channel p' = base_channel p \<and> seg_map p' = seg_map p \<and> seg_map_idx p' = seg_map_idx p \<and>
     seg_fresh p' = seg_fresh p \<and> length (base_block p') = length (base_block p) \<and>
     (\<forall>b < nos * BPS. punit_num (base_block p' ! b) = punit_num (base_block p ! b) \<and>
        block_num (base_block p' ! b) = block_num (base_block p ! b) \<and>
        b_seg_idx (base_block p' ! b) = b_seg_idx (base_block p ! b) \<and> b_now (base_block p' ! b) \<le> PPB) \<and>
     (\<forall>a. (segs p' a = None) = (segs p a = None)) \<and>
     (\<forall>a s s'. segs p a = Some s \<longrightarrow> segs p' a = Some s' \<longrightarrow>
        s_blocks s' = s_blocks s \<and> invalid_blocks s' = invalid_blocks s \<and> s_now s' < BPS)"

lemma minor_held: "minor nos p p' \<Longrightarrow> held_blocks nos p' key = held_blocks nos p key"
  by (auto simp: minor_def held_blocks_def)

lemma minor_segs:
  assumes m: "minor nos p p'" and so: "segs_ok nos p"
  shows "segs_ok nos p'"
proof -
  note S = so [unfolded segs_ok_def] and M = m [unfolded minor_def]
  have bwd: "\<exists>s. segs p a = Some s \<and> s_blocks s' = s_blocks s \<and> invalid_blocks s' = invalid_blocks s \<and> s_now s' < BPS"
    if "segs p' a = Some s'" for a s'
    using M that by (metis option.distinct(1) option.exhaust)
  have fwd: "\<exists>s'. segs p' a = Some s' \<and> invalid_blocks s' = invalid_blocks s" if "segs p a = Some s" for a s
    using M that by (metis option.distinct(1) option.exhaust)
  have "length (s_blocks s) = BPS \<and> s_now s < BPS \<and>
      (\<forall>i < BPS. s_blocks s ! i < nos * BPS \<and> s_blocks s ! i mod BPS = i)" if "segs p' a = Some s" for a s
    using bwd [OF that] S by metis
  moreover have "key < seg_map_idx p' \<and> (\<exists>s. segs p' a = Some s \<and>
      invalid_blocks s + card (held_blocks nos p' key) = BPS \<and> held_blocks nos p' key \<noteq> {})"
    if "seg_map p' key = Some a" for key a
    using that S M fwd unfolding minor_held [OF m] by metis
  ultimately show ?thesis
    unfolding segs_ok_def using S M minor_held [OF m] by auto
qed

lemma minor_ok:
  assumes m: "minor nos p p'" and ok: "bm_ok nos p"
  shows "bm_ok nos p'"
proof -
  have ch: "base_channel p' = base_channel p" using m by (simp add: minor_def)
  have "pool_ok nos p'" "balanced p'" using ok unfolding bm_ok_def pool_ok_def balanced_def ch by blast+
  moreover have "blocks_ok nos p'" using m ok by (simp add: minor_def bm_ok_def blocks_ok_def)
  moreover have "segs_ok nos p'" using minor_segs [OF m] ok by (simp add: bm_ok_def)
  ultimately show ?thesis by (simp add: bm_ok_def)
qed

text \<open>An update of one block that keeps its identity.\<close>

lemma minor_upd_block:
  assumes "\<And>x. punit_num (f x) = punit_num x \<and> block_num (f x) = block_num x \<and> b_seg_idx (f x) = b_seg_idx x"
    and "b_now (f (base_block p ! b)) \<le> PPB" and "bm_ok nos p"
  shows "minor nos p (upd_block b f p)"
proof -
  have ok: "b_now (base_block p ! x) \<le> PPB" if "x < nos * BPS" for x
    using assms(3) that by (simp add: bm_ok_def blocks_ok_def)
  have len: "length (base_block p) = nos * BPS" using assms(3) by (simp add: bm_ok_def blocks_ok_def)
  have sn: "s_now s < BPS" if "segs p a = Some s" for a s
    using assms(3) that by (simp add: bm_ok_def segs_ok_def)
  have nth: "base_block (upd_block b f p) ! x = (if x = b then f (base_block p ! b) else base_block p ! x)"
    if "x < nos * BPS" for x using that len by simp
  show ?thesis using assms(1,2) ok sn nth unfolding minor_def by simp
qed

section \<open>The pages of a segment\<close>

text \<open>\<open>taken p a n\<close>: the segment at \<open>a\<close> has handed out \<open>n\<close> pages, going round its blocks.\<close>

definition taken :: "bbm_pri \<Rightarrow> addr \<Rightarrow> nat \<Rightarrow> bool" where
  "taken p a n \<longleftrightarrow> (\<exists>s. segs p a = Some s \<and> s_now s = n mod BPS \<and>
     (\<forall>j < BPS. b_now (base_block p ! (s_blocks s ! j)) = n div BPS + (if j < n mod BPS then 1 else 0)))"

text \<open>The address of the \<open>n\<close>-th page.\<close>

definition nth_page :: "blk list \<Rightarrow> nat \<Rightarrow> nat" where
  "nth_page bs n = bs ! (n mod BPS) div BPS * PPS + n div BPS * 2 ^ 6 + bs ! (n mod BPS) mod BPS"

lemma seg_facts:
  assumes "bm_ok nos p" "segs p a = Some s"
  shows "length (s_blocks s) = BPS" "s_now s < BPS"
    and "\<And>i. i < BPS \<Longrightarrow> s_blocks s ! i < nos * BPS \<and> s_blocks s ! i mod BPS = i"
  using assms unfolding bm_ok_def segs_ok_def by blast+

lemma base_get_page_num_ok:
  assumes ok: "bm_ok nos p" and s: "segs p a = Some s" and t: "taken p a n" and n: "n < PPS"
  shows "\<exists>p' s'. base_get_page_num a p = Inr (int (nth_page (s_blocks s) n), p') \<and> bm_ok nos p' \<and>
           taken p' a (Suc n) \<and> segs p' = (segs p)(a \<mapsto> s') \<and> s_blocks s' = s_blocks s \<and>
           base_channel p' = base_channel p"
proof -
  define j where "j = n mod BPS"
  define b where "b = s_blocks s ! j"
  have j: "j < BPS" by (simp add: j_def)
  note sf = seg_facts [OF ok s]
  have now: "s_now s = j" and bn: "\<And>k. k < BPS \<Longrightarrow> b_now (base_block p ! (s_blocks s ! k)) = n div BPS + (if k < j then 1 else 0)"
    using t s by (auto simp: taken_def j_def)
  have len: "length (base_block p) = nos * BPS" using ok by (simp add: bm_ok_def blocks_ok_def)
  have b: "b < nos * BPS" "b mod BPS = j" using sf(3) [OF j] by (simp_all add: b_def)
  have nd: "n div BPS < PPB" using n by (simp add: BPS_def PPB_def)
  have bb: "punit_num (base_block p ! b) = b mod BPS" "block_num (base_block p ! b) = b div BPS * PPS"
    using ok b by (simp_all add: bm_ok_def blocks_ok_def)
  have pg: "b_now (base_block p ! b) = n div BPS" using bn [OF j] by (simp add: b_def)
  have ex: "seg_exhausted p s = Inr False"
  proof (cases "j = 0")
    case True
    have last: "BPS - 1 < BPS" by (simp add: BPS_def)
    then show ?thesis
      using True now bn [OF last] sf(1) sf(3) [OF last] len nd by (simp add: seg_exhausted_def index_in)
  qed (simp add: seg_exhausted_def now)
  define s' where "s' = s\<lparr>s_now := if Suc j = BPS then 0 else Suc j, used_page_num := used_page_num s + 1\<rparr>"
  define p1 where "p1 = upd_block b (\<lambda>x. x\<lparr>b_now := Suc (n div BPS)\<rparr>) p"
  define p' where "p' = upd_seg a s' p1"
  have inc: "inc16 j = Suc j" "inc16 (n div BPS) = Suc (n div BPS)"
    using j nd by (simp_all add: BPS_def PPB_def)
  have run: "base_get_page_num a p = Inr (int (nth_page (s_blocks s) n), p')"
    using s ex now sf(1) j b len pg bb nd inc unfolding base_get_page_num_def
    by (simp add: deref_def index_in b_def [symmetric] Let_def nth_page_def j_def [symmetric] p'_def p1_def s'_def)
  have m1: "minor nos p p1" unfolding p1_def
    by (rule minor_upd_block [OF _ _ ok]) (use nd in simp_all)
  have m: "minor nos p p'"
    using m1 s j unfolding minor_def p'_def upd_seg_def s'_def by (auto simp: p1_def)
  have "b_now (base_block p' ! (s_blocks s ! k)) = Suc n div BPS + (if k < Suc n mod BPS then 1 else 0)"
    if k: "k < BPS" for k
  proof -
    have kb: "s_blocks s ! k < nos * BPS" "s_blocks s ! k mod BPS = k" using sf(3) [OF k] by blast+
    have "b_now (base_block p' ! (s_blocks s ! k)) = n div BPS + (if k < Suc j then 1 else 0)"
    proof (cases "k = j")
      case True
      then have "s_blocks s ! k = b" by (simp add: b_def)
      then show ?thesis using True len b(1) by (simp add: p'_def p1_def upd_seg_def)
    next
      case False
      then have "s_blocks s ! k \<noteq> b" using kb(2) b(2) by metis
      then show ?thesis using False bn [OF k] by (simp add: p'_def p1_def upd_seg_def)
    qed
    moreover have "(if Suc j = BPS then Suc (n div BPS) else n div BPS) = Suc n div BPS"
      "(if Suc j = BPS then 0 else Suc j) = Suc n mod BPS" by (simp_all add: j_def mod_Suc div_Suc)
    ultimately show ?thesis using k by (auto split: if_splits)
  qed
  then have "taken p' a (Suc n)"
    unfolding taken_def by (intro exI [of _ s']) (simp add: p'_def upd_seg_def s'_def j_def mod_Suc)
  then show ?thesis using run minor_ok [OF m ok]
    by (intro exI [of _ p'] exI [of _ s']) (simp add: p'_def upd_seg_def p1_def s'_def)
qed

lemma base_get_page_num_full:
  assumes ok: "bm_ok nos p" and t: "taken p a PPS"
  shows "base_get_page_num a p = Inr (- 1, p)"
proof -
  obtain s where s: "segs p a = Some s" "s_now s = 0" "\<forall>j < BPS. b_now (base_block p ! (s_blocks s ! j)) = PPB"
    using t by (auto simp: taken_def BPS_def PPB_def)
  have last: "BPS - 1 < BPS" by (simp add: BPS_def)
  have "length (base_block p) = nos * BPS" using ok by (simp add: bm_ok_def blocks_ok_def)
  then have "seg_exhausted p s = Inr True"
    using s seg_facts(1) [OF ok s(1)] seg_facts(3) [OF ok s(1) last] last by (simp add: seg_exhausted_def index_in)
  then show ?thesis using s by (simp add: base_get_page_num_def deref_def)
qed

text \<open>The loop \<open>while((page=base_get_page_num(bm,s))!=-1)\<close> of a client, for \<open>k\<close> rounds.\<close>

fun get_pages :: "nat \<Rightarrow> addr \<Rightarrow> bbm_pri \<Rightarrow> (int list \<times> bbm_pri) res" where
  "get_pages 0 a p = Inr ([], p)"
| "get_pages (Suc k) a p =
     bindE (base_get_page_num a p) (\<lambda>(x, p1). bindE (get_pages k a p1) (\<lambda>(xs, p2). Inr (x # xs, p2)))"

lemma get_pages_ok:
  assumes "bm_ok nos p" "segs p a = Some s" "taken p a n" "n + k \<le> PPS"
  shows "\<exists>p' s'. get_pages k a p = Inr (map (\<lambda>i. int (nth_page (s_blocks s) i)) [n..<n + k], p') \<and>
           bm_ok nos p' \<and> taken p' a (n + k) \<and> segs p' = (segs p)(a \<mapsto> s') \<and> s_blocks s' = s_blocks s"
  using assms
proof (induction k arbitrary: p s n)
  case 0
  then have "segs p = (segs p)(a \<mapsto> s)" by (simp add: fun_upd_idem)
  then show ?case using "0.prems" by (intro exI [of _ p] exI [of _ s]) simp
next
  case (Suc k)
  then have n: "n < PPS" by simp
  obtain p1 s1 where p1: "base_get_page_num a p = Inr (int (nth_page (s_blocks s) n), p1)" "bm_ok nos p1"
    "taken p1 a (Suc n)" "segs p1 = (segs p)(a \<mapsto> s1)" "s_blocks s1 = s_blocks s"
    using base_get_page_num_ok [OF Suc.prems(1-3) n] by blast
  have s1: "segs p1 a = Some s1" using p1(4) by simp
  obtain p2 s2 where g: "get_pages k a p1 = Inr (map (\<lambda>i. int (nth_page (s_blocks s1) i)) [Suc n..<Suc n + k], p2)"
    "bm_ok nos p2" "taken p2 a (Suc n + k)" "segs p2 = (segs p1)(a \<mapsto> s2)" "s_blocks s2 = s_blocks s1"
    using Suc.IH [OF p1(2) s1 p1(3)] Suc.prems(4) unfolding add_Suc_shift by blast
  have up: "[n..<n + Suc k] = n # [Suc n..<Suc n + k]" by (simp add: upt_conv_Cons)
  have "get_pages (Suc k) a p = Inr (map (\<lambda>i. int (nth_page (s_blocks s) i)) [n..<n + Suc k], p2)"
    unfolding up using p1(1,5) g(1) by simp
  moreover have "segs p2 = (segs p)(a \<mapsto> s2)" using g(4) p1(4) by simp
  ultimately show ?case
    using g(2,3,5) p1(5) by (intro exI [of _ p2] exI [of _ s2]) (simp only: add_Suc_shift simp_thms)
qed

text \<open>The pages of a segment are distinct, and the address of each leads back to its block and page.\<close>

lemma nth_page_addr:
  assumes "n < PPS"
  shows "GETBLOCKIDX (nth_page bs n) = bs ! (n mod BPS)" "GETPAGEIDX (nth_page bs n) = n div BPS"
  using block_addr [of "n div BPS" "bs ! (n mod BPS)"] assms by (simp_all add: nth_page_def BPS_def PPB_def)

lemma nth_page_inj:
  assumes "\<And>i. i < BPS \<Longrightarrow> bs ! i mod BPS = i" "m < PPS" "n < PPS" "nth_page bs m = nth_page bs n"
  shows "m = n"
proof -
  have "bs ! (m mod BPS) = bs ! (n mod BPS)" "m div BPS = n div BPS"
    using nth_page_addr [OF assms(2), of bs] nth_page_addr [OF assms(3), of bs] assms(4) by simp_all
  moreover then have "m mod BPS = n mod BPS" using assms(1) by (metis BPS_pos mod_less_divisor)
  ultimately show ?thesis by (metis div_mult_mod_eq)
qed

section \<open>Creation\<close>

lemma create_blocks_ok:
  assumes "assign c = 0" "nos \<le> length (ent c)" "\<forall>i < nos. origin_segnum (ent c ! i) = i * PPS"
  shows "\<exists>c' bs. create_blocks nos c = Inr (c', bs) \<and> length bs = nos * BPS \<and>
           (\<forall>b < nos * BPS. bs ! b = new_block (b div BPS * PPS) (b mod BPS))"
proof -
  let ?P = "\<lambda>i (c', bs). ent c' = ent c \<and> assign c' = i \<and> length bs = i * BPS \<and>
              (\<forall>b < i * BPS. bs ! b = new_block (b div BPS * PPS) (b mod BPS))"
  have "\<exists>t. create_blocks nos c = Inr t \<and> ?P nos t"
    unfolding create_blocks_def
  proof (rule foldE_upt [where P = ?P])
    show "?P 0 (c, [])" using assms by simp
    fix i and t :: "bb_checker \<times> block list"
    assume i: "i < nos" and P: "?P i t"
    obtain c1 bs where t: "t = (c1, bs)" by (cases t)
    have seg: "bb_checker_get_segid c1 = Inr (i * PPS, c1\<lparr>assign := i + 1\<rparr>)"
      using P t i assms by (simp add: bb_checker_get_segid_def index_in)
    let ?new = "map (new_block (i * PPS)) [0..<PUNIT]"
    have "(bs @ ?new) ! b = new_block (b div BPS * PPS) (b mod BPS)" if b: "b < Suc i * BPS" for b
    proof (cases "b < i * BPS")
      case False
      then obtain d where d: "b = d + i * BPS" "d < BPS" using b by (metis add.commute le_add_diff_inverse
            mult_Suc nat_add_left_cancel_less not_less)
      then have "b div BPS = i" "b mod BPS = d" by simp_all
      then show ?thesis using P t False d by (simp add: nth_append PUNIT_def BPS_def)
    qed (use P t in \<open>simp add: nth_append\<close>)
    then show "\<exists>t'. (\<lambda>(c, bs). bindE (bb_checker_get_segid c)
        (\<lambda>(seg_idx, c'). Inr (c', bs @ map (new_block seg_idx) [0..<PUNIT]))) t = Inr t' \<and> ?P (Suc i) t'"
      using P t seg by (simp add: PUNIT_def BPS_def)
  qed
  then show ?thesis by auto
qed

lemma create_channel_ok:
  assumes "i < BPS"
  shows "\<exists>c. create_channel nos i = Inr c \<and> chan_wf nos c \<and>
           q_list (free_block c) = map (\<lambda>k. k * BPS + i) [0..<nos] \<and> mh_items (max_heap c) = {#}"
proof -
  let ?P = "\<lambda>j q. q_ok q \<and> q_msize q = nos \<and> q_list q = map (\<lambda>k. k * BPS + i) [0..<j]"
  have "\<exists>q. foldE (\<lambda>j q. bindE (q_enqueue (j * BPS + i mod BPS) q) (\<lambda>r. Inr (snd r))) [0..<nos] (q_init nos)
      = Inr q \<and> ?P nos q"
  proof (rule foldE_upt [where P = ?P])
    show "?P 0 (q_init nos)" by (simp add: q_init_ok)
    fix j and q :: "blk queue"
    assume j: "j < nos" and P: "?P j q"
    then have room: "length (q_list q) < q_msize q" by simp
    show "\<exists>q'. bindE (q_enqueue (j * BPS + i mod BPS) q) (\<lambda>r. Inr (snd r)) = Inr q' \<and> ?P (Suc j) q'"
      using q_enqueue_room [of q "j * BPS + i mod BPS", OF _ room] P assms by auto
  qed
  then obtain q where q: "foldE (\<lambda>j q. bindE (q_enqueue (j * BPS + i mod BPS) q) (\<lambda>r. Inr (snd r))) [0..<nos] (q_init nos)
      = Inr q" "?P nos q" by blast
  have "mh_max (mh_init nos :: blk mh) = nos" by (simp add: mh_init_def)
  then have "chan_wf nos \<lparr>free_block = q, max_heap = mh_init nos\<rparr>" using q(2) by (simp add: chan_wf_def mh_init_ok)
  then show ?thesis using q by (simp add: create_channel_def mh_init_ok)
qed

lemma base_create_pri_ok:
  assumes "assign c = 0" "nos \<le> length (ent c)" "\<forall>i < nos. origin_segnum (ent c ! i) = i * PPS"
  shows "\<exists>c' p. base_create_pri nos c = Inr (c', p) \<and> bm_ok nos p \<and>
           (\<forall>j < BPS. frees p j = map (\<lambda>k. k * BPS + j) [0..<nos] \<and> used p j = {#}) \<and>
           (\<forall>b < nos * BPS. base_block p ! b = new_block (b div BPS * PPS) (b mod BPS)) \<and>
           segs p = Map.empty"
proof -
  obtain c' bs where bs: "create_blocks nos c = Inr (c', bs)" "length bs = nos * BPS"
    "\<forall>b < nos * BPS. bs ! b = new_block (b div BPS * PPS) (b mod BPS)"
    using create_blocks_ok [OF assms] by blast
  let ?P = "\<lambda>i cs. length cs = i \<and> (\<forall>j < i. chan_wf nos (cs ! j) \<and>
              q_list (free_block (cs ! j)) = map (\<lambda>k. k * BPS + j) [0..<nos] \<and> mh_items (max_heap (cs ! j)) = {#})"
  have "\<exists>cs. foldE (\<lambda>i cs. bindE (create_channel nos i) (\<lambda>ch. Inr (cs @ [ch]))) [0..<PUNIT] [] = Inr cs \<and> ?P PUNIT cs"
  proof (rule foldE_upt [where P = ?P])
    show "?P 0 []" by simp
    fix i and cs :: "channel list"
    assume i: "i < PUNIT" and P: "?P i cs"
    obtain ch where "create_channel nos i = Inr ch" "chan_wf nos ch"
      "q_list (free_block ch) = map (\<lambda>k. k * BPS + i) [0..<nos]" "mh_items (max_heap ch) = {#}"
      using create_channel_ok [of i nos] i by (auto simp: PUNIT_def BPS_def)
    then show "\<exists>cs'. bindE (create_channel nos i) (\<lambda>ch. Inr (cs @ [ch])) = Inr cs' \<and> ?P (Suc i) cs'"
      using P by (simp add: nth_append less_Suc_eq)
  qed
  then obtain cs where run: "foldE (\<lambda>i cs. bindE (create_channel nos i) (\<lambda>ch. Inr (cs @ [ch]))) [0..<PUNIT] [] = Inr cs"
    and P: "?P BPS cs" by (auto simp: PUNIT_def BPS_def)
  define p where "p = \<lparr>base_block = bs, base_channel = cs, seg_map = Map.empty, seg_map_idx = 0,
                 segs = Map.empty, seg_fresh = 0\<rparr>"
  have ch: "frees p j = map (\<lambda>k. k * BPS + j) [0..<nos]" "used p j = {#}" "chan_wf nos (chan p j)" if "j < BPS" for j
    using P that by (auto simp: p_def)
  have all: "b \<in> set (frees p (b mod BPS))" if "b < nos * BPS" for b
  proof -
    have "b div BPS < nos" using that by (simp add: less_mult_imp_div_less)
    moreover have "b = b div BPS * BPS + b mod BPS" by simp
    ultimately show ?thesis using ch(1) [of "b mod BPS"] by (metis (no_types, lifting) BPS_pos atLeast0LessThan
        atLeast_upt image_eqI lessThan_iff list.set_map mod_less_divisor)
  qed
  have held: "held_blocks nos p key = {}" for key using all by (auto simp: held_blocks_def)
  have "pool_ok nos p"
  proof -
    have "once (mset (frees p j) + used p j) \<and> (\<forall>b \<in># mset (frees p j) + used p j. b < nos * BPS \<and> b mod BPS = j)"
      if j: "j < BPS" for j
    proof -
      have "distinct (frees p j)" unfolding ch(1) [OF j] by (simp add: distinct_map inj_on_def BPS_def)
      then have "once (mset (frees p j))" unfolding once_def by (metis distinct_count_atmost_1 le_numeral_extra(3,4) le0)
      moreover have "k * BPS + j < nos * BPS" if "k < nos" for k
        using that j mult_le_mono1 [of "Suc k" nos BPS] by simp
      ultimately show ?thesis using j by (auto simp: ch)
    qed
    then show ?thesis using P ch(3) by (simp add: pool_ok_def p_def)
  qed
  moreover have "blocks_ok nos p" using bs by (simp add: blocks_ok_def p_def new_block_def)
  moreover have "segs_ok nos p" using held by (simp add: segs_ok_def) (simp add: p_def)
  moreover have "balanced p" using ch(1) by (simp add: balanced_def)
  ultimately have "bm_ok nos p" by (simp add: bm_ok_def)
  moreover have "base_create_pri nos c = Inr (c', p)" using bs(1) run by (simp add: base_create_pri_def p_def)
  ultimately show ?thesis using ch bs(3) by (intro exI [of _ c'] exI [of _ p]) (simp add: p_def)
qed

section \<open>Collecting a target\<close>

lemma gc_target_limbo:
  assumes ok: "bm_ok nos p" and loop: "gc_loop nos p BPS (p', bs)"
  shows "bm_ok nos p'" "length bs = BPS" "\<forall>j < BPS. limbo nos p' j (bs ! j)"
    "\<forall>j < BPS. frees p' j = frees p j \<and> base_block p' = base_block p"
proof -
  have pool: "pool_ok nos p" using ok by (simp add: bm_ok_def)
  have fr: "free_block (chan p' j) = free_block (chan p j)" and us: "used p' j = used p j - {#bs ! j#}"
    and mem: "bs ! j \<in># used p j" if "j < BPS" for j using loop that by (auto simp: gc_loop_def)
  have P: "once (mset (frees p j) + used p j)" "\<forall>b \<in># mset (frees p j) + used p j. b < nos * BPS \<and> b mod BPS = j"
    if "j < BPS" for j using pool that by (auto simp: pool_ok_def)
  have sub: "once (mset (frees p' j) + used p' j)"
    "\<forall>b \<in># mset (frees p' j) + used p' j. b < nos * BPS \<and> b mod BPS = j" if j: "j < BPS" for j
  proof -
    have le: "mset (frees p' j) + used p' j \<subseteq># mset (frees p j) + used p j" by (simp add: fr [OF j] us [OF j])
    show "once (mset (frees p' j) + used p' j)"
      using P(1) [OF j] mset_subset_eq_count [OF le] unfolding once_def by (meson order_trans)
    show "\<forall>b \<in># mset (frees p' j) + used p' j. b < nos * BPS \<and> b mod BPS = j"
      using P(2) [OF j] mset_subset_eqD [OF le] by blast
  qed
  have "pool_ok nos p'" using loop sub by (simp add: pool_ok_def gc_loop_def)
  moreover have "held_blocks nos p' key = held_blocks nos p key" for key
    using fr loop by (auto simp: held_blocks_def gc_loop_def)
  moreover have "segs_ok nos p'" using ok loop calculation(2) by (simp add: bm_ok_def segs_ok_def gc_loop_def)
  moreover have "blocks_ok nos p'" using ok loop by (simp add: bm_ok_def blocks_ok_def gc_loop_def)
  moreover have "balanced p'" using ok fr BPS_pos unfolding bm_ok_def balanced_def by metis
  ultimately show "bm_ok nos p'" by (simp add: bm_ok_def)
  show "length bs = BPS" "\<forall>j < BPS. frees p' j = frees p j \<and> base_block p' = base_block p"
    using loop fr by (auto simp: gc_loop_def)
  show "\<forall>j < BPS. limbo nos p' j (bs ! j)"
  proof (intro allI impI)
    fix j
    assume j: "j < BPS"
    have "count (mset (frees p j)) (bs ! j) + count (used p j) (bs ! j) \<le> 1" using P(1) [OF j] by (simp add: once_def)
    moreover have "0 < count (used p j) (bs ! j)" using mem [OF j] by simp
    ultimately have "bs ! j \<notin> set (frees p j)" "count (used p j) (bs ! j) = 1"
      using count_mset_0_iff [of "frees p j" "bs ! j"] by linarith+
    then show "limbo nos p' j (bs ! j)"
      using P(2) [OF j] mem [OF j] by (auto simp: limbo_def fr [OF j] us [OF j] not_in_iff)
  qed
qed

section \<open>Properties\<close>

text \<open>A bad-block table in which every segment is in its own place.\<close>

definition plain_checker :: "nat \<Rightarrow> bb_checker" where
  "plain_checker nos = \<lparr>ent = map (\<lambda>i. fresh_node False i) [0..<nos], back_index = 0, start_block = 0,
     assign = 0, bb_max = 0, map_first = False, target_cnt = 0, bb_cnt = 0,
     badblock_cnt = 0\<rparr>"

lemma plain_checker_ok:
  "assign (plain_checker nos) = 0" "nos \<le> length (ent (plain_checker nos))"
  "\<forall>i < nos. origin_segnum (ent (plain_checker nos) ! i) = i * PPS"
  by (simp_all add: plain_checker_def fresh_node_def)

lemma balanced_nonempty: "bm_ok nos p \<Longrightarrow> frees p 0 \<noteq> [] \<Longrightarrow> j < BPS \<Longrightarrow> frees p j \<noteq> []"
  unfolding bm_ok_def balanced_def by (metis length_0_conv)

lemma gc_needed_iff: "bm_ok nos p \<Longrightarrow> base_is_gc_needed p = Inr (frees p 0 = [])"
  using q_ok_size [of "free_block (chan p 0)"]
  by (auto simp: bm_ok_def pool_ok_def chan_wf_def base_is_gc_needed_def index_def)

text \<open>
  C32: On the configured device the block manager starts in a state in which the invariant holds:
  every block is in the free list of its own channel and in no heap, the free lists are equally
  long, no segment is live, and \<open>base_is_gc_needed\<close> reports that nothing has to be collected.
\<close>

theorem create_gives_invariant:
  assumes "0 < giga" "giga \<le> 512"
  shows "\<exists>c p. base_create RNOS (NOS giga) None = Inr (c, p) \<and> bm_ok (NOS giga) p \<and>
    base_is_gc_needed p = Inr False \<and>
    (\<forall>j < BPS. frees p j = map (\<lambda>k. k * BPS + j) [0..<NOS giga] \<and> used p j = {#}) \<and> segs p = Map.empty"
proof -
  obtain c total where c: "bb_checker_start RNOS None = Inr (c, int total)" "length (ent c) = RNOS"
    "assign c = 0" "\<forall>i < RNOS. bb_flag (ent c ! i) = static_flag i \<and> origin_segnum (ent c ! i) = i * PPS"
    using bb_checker_start_ok by blast
  have nos: "NOS giga = giga * 8" by (simp add: NOS_def TOTALSIZE_def PAGESIZE_def)
  then have le: "NOS giga \<le> length (ent c)" using assms(2) c(2) by (simp add: RNOS_def PAGESIZE_def)
  have "\<forall>i < NOS giga. origin_segnum (ent c ! i) = i * PPS" using c(2,4) le by simp
  from base_create_pri_ok [OF c(3) le this] obtain c' p where p: "base_create_pri (NOS giga) c = Inr (c', p)" "bm_ok (NOS giga) p" "segs p = Map.empty"
    "\<forall>j < BPS. frees p j = map (\<lambda>k. k * BPS + j) [0..<NOS giga] \<and> used p j = {#}"
    by blast
  have "frees p 0 = map (\<lambda>k. k * BPS + 0) [0..<NOS giga]" using p(4) BPS_pos by blast
  then have "frees p 0 \<noteq> []" using assms(1) nos by simp
  then have "base_is_gc_needed p = Inr False" using gc_needed_iff [OF p(2)] by simp
  moreover have "base_create RNOS (NOS giga) None = Inr (c', p)" using c(1) p(1) by (simp add: base_create_def)
  ultimately show ?thesis using p(2-4) by blast
qed

theorem create_gives_invariant_witness:
  "\<exists>c p. base_create RNOS (NOS 64) None = Inr (c, p) \<and> bm_ok (NOS 64) p \<and> base_is_gc_needed p = Inr False \<and>
     (\<forall>j < BPS. frees p j = map (\<lambda>k. k * BPS + j) [0..<NOS 64] \<and> used p j = {#}) \<and> segs p = Map.empty"
  by (rule create_gives_invariant) simp_all

lemma created:
  assumes "0 < nos"
  obtains c p where "base_create_pri nos (plain_checker nos) = Inr (c, p)" "bm_ok nos p" "frees p 0 \<noteq> []"
    "\<And>j. j < BPS \<Longrightarrow> frees p j = map (\<lambda>k. k * BPS + j) [0..<nos] \<and> used p j = {#}"
    "\<forall>b < nos * BPS. base_block p ! b = new_block (b div BPS * PPS) (b mod BPS)"
proof -
  obtain c p where p: "base_create_pri nos (plain_checker nos) = Inr (c, p)" "bm_ok nos p"
    "\<forall>j < BPS. frees p j = map (\<lambda>k. k * BPS + j) [0..<nos] \<and> used p j = {#}"
    "\<forall>b < nos * BPS. base_block p ! b = new_block (b div BPS * PPS) (b mod BPS)"
    using base_create_pri_ok [OF plain_checker_ok] by blast
  show thesis using p assms by (intro that [of c p]) auto
qed

text \<open>
  C29: When \<open>base_is_gc_needed\<close> says no, \<open>base_get_segment\<close> succeeds on every channel: the new segment
  has the block at the front of the free list of each channel, the blocks leave the free lists and,
  unless the segment is a reserve, enter the victim heaps, and the invariant is kept.
\<close>

theorem get_segment_when_no_gc:
  assumes "bm_ok nos p" "base_is_gc_needed p = Inr False"
  shows "\<exists>a p' s. base_get_segment r p = Inr (a, p') \<and> bm_ok nos p' \<and> segs p' a = Some s \<and>
    length (s_blocks s) = BPS \<and> distinct (s_blocks s) \<and>
    (\<forall>j < BPS. frees p j = s_blocks s ! j # frees p' j \<and> s_blocks s ! j mod BPS = j \<and>
       used p' j = (if r then used p j else add_mset (s_blocks s ! j) (used p j)))"
proof -
  have pool: "pool_ok nos p" using assms(1) by (simp add: bm_ok_def)
  have "frees p 0 \<noteq> []" using gc_needed_iff [OF assms(1)] assms(2) by simp
  then obtain p' s where p': "base_get_segment r p = Inr (seg_fresh p, p')" "bm_ok nos p'"
    "segs p' = (segs p)(seg_fresh p \<mapsto> s)" "s_blocks s = firsts p"
    "\<And>j. j < BPS \<Longrightarrow> frees p' j = tl (frees p j) \<and>
       used p' j = (if r then used p j else add_mset (firsts p ! j) (used p j))"
    using base_get_segment_ok [OF assms(1), of r] by force
  have ne: "\<forall>j < BPS. frees p j \<noteq> []" using \<open>frees p 0 \<noteq> []\<close> balanced_nonempty assms(1) by blast
  note f = firsts_props(1-3) [OF pool ne]
  have "frees p j = firsts p ! j # frees p' j" if "j < BPS" for j
    using f(3) [OF that] p'(5) [OF that] ne that by simp
  then have "\<forall>j < BPS. frees p j = s_blocks s ! j # frees p' j \<and> s_blocks s ! j mod BPS = j \<and>
       used p' j = (if r then used p j else add_mset (s_blocks s ! j) (used p j))"
    using p'(4,5) f(3) by metis
  moreover have "segs p' (seg_fresh p) = Some s" using p'(3) by simp
  ultimately show ?thesis using p'(1,2) f(1,2) p'(4) by metis
qed

theorem get_segment_when_no_gc_witness:
  "\<exists>c p a p' s. base_create_pri 2 (plain_checker 2) = Inr (c, p) \<and> base_get_segment False p = Inr (a, p') \<and>
    bm_ok 2 p' \<and> segs p' a = Some s \<and> length (s_blocks s) = BPS \<and> distinct (s_blocks s) \<and>
    (\<forall>j < BPS. frees p j = s_blocks s ! j # frees p' j \<and> s_blocks s ! j mod BPS = j \<and>
       used p' j = (if False then used p j else add_mset (s_blocks s ! j) (used p j)))"
proof -
  obtain c p where p: "base_create_pri 2 (plain_checker 2) = Inr (c, p)" "bm_ok 2 p" "frees p 0 \<noteq> []"
    using created [of 2] by (metis zero_less_numeral)
  then have "base_is_gc_needed p = Inr False" using gc_needed_iff by auto
  from get_segment_when_no_gc [OF p(2) this, of False] p(1) show ?thesis by blast
qed

text \<open>
  C4: \<open>base_get_gc_target\<close> takes, on every channel, a block whose number of invalid pages is maximal among
  the blocks of that channel's heap. Trimming the target afterwards tells the device to erase exactly
  those blocks, in channel order, resets their page counters, bitmaps and out-of-band areas, appends
  each to the free list of its channel, leaves every other block as it was and keeps the invariant.
\<close>

theorem gc_target_then_trim:
  assumes "bm_ok nos p" "\<forall>j < BPS. used p j \<noteq> {#}"
  shows "\<exists>gs p1 p2. base_get_gc_target p = Inr (gs, p1) \<and> length (g_blocks gs) = BPS \<and>
    (\<forall>j < BPS. g_blocks gs ! j \<in># used p j \<and>
       (\<forall>b \<in># used p j. base_get_cnt p b \<le> base_get_cnt p (g_blocks gs ! j))) \<and>
    base_trim_segment (\<lambda>ppa l. Inr (l @ [ppa])) gs p1 [] =
      Inr (p2, map (\<lambda>b. GETBLOCKPPA (base_block p ! b)) (g_blocks gs)) \<and>
    bm_ok nos p2 \<and> (\<forall>j < BPS. frees p2 j = frees p j @ [g_blocks gs ! j]) \<and>
    (\<forall>b < nos * BPS. base_block p2 ! b =
       (if b \<in> set (g_blocks gs)
        then (base_block p ! b)\<lparr>invalid_number := 0, b_now := 0, bitset := (\<lambda>_. 0), oob_list := zero_oob\<rparr>
        else base_block p ! b))"
proof -
  have pool: "pool_ok nos p" using assms(1) by (simp add: bm_ok_def)
  obtain gs p1 where g: "base_get_gc_target p = Inr (gs, p1)" "gc_loop nos p BPS (p1, g_blocks gs)"
    using base_get_gc_target_ok [OF pool assms(2)] by blast
  note l = gc_target_limbo [OF assms(1) g(2)]
  have bb: "base_block p1 = base_block p" using l(4) BPS_pos by blast
  have fold: "fold (\<lambda>j l. l @ [h j]) js xs = xs @ map h js" for h :: "nat \<Rightarrow> nat" and js xs
    by (induction js arbitrary: xs) simp_all
  have nth: "map (\<lambda>j. GETBLOCKPPA (base_block p ! (g_blocks gs ! j))) [0..<BPS] =
      map (\<lambda>b. GETBLOCKPPA (base_block p ! b)) (g_blocks gs)"
    using l(2) by (simp add: list_eq_iff_nth_eq)
  obtain p2 where p2: "base_trim_segment (\<lambda>ppa l. Inr (l @ [ppa])) gs p1 [] =
      Inr (p2, map (\<lambda>b. GETBLOCKPPA (base_block p ! b)) (g_blocks gs))" "bm_ok nos p2"
    "\<forall>j < BPS. frees p2 j = frees p1 j @ [g_blocks gs ! j]"
    "\<forall>b < nos * BPS. base_block p2 ! b =
       (if b \<in> set (g_blocks gs) then erased (base_block p ! b) else base_block p ! b)"
    using base_trim_segment_ok [OF l(1-3), of "\<lambda>ppa l. l @ [ppa]" "[]"] unfolding bb fold nth append_Nil by blast
  have "\<forall>j < BPS. g_blocks gs ! j \<in># used p j \<and>
       (\<forall>b \<in># used p j. base_get_cnt p b \<le> base_get_cnt p (g_blocks gs ! j))"
    using g(2) unfolding gc_loop_def by blast
  moreover have "\<forall>j < BPS. frees p2 j = frees p j @ [g_blocks gs ! j]" using p2(3) l(4) by simp
  ultimately show ?thesis using g(1) l(2) p2(1,2,4) unfolding erased_def by blast
qed

theorem gc_target_then_trim_witness:
  "\<exists>p gs p1 p2. bm_ok 2 p \<and> (\<forall>j < BPS. used p j \<noteq> {#}) \<and> base_get_gc_target p = Inr (gs, p1) \<and>
    base_trim_segment (\<lambda>ppa l. Inr (l @ [ppa])) gs p1 [] =
      Inr (p2, map (\<lambda>b. GETBLOCKPPA (base_block p ! b)) (g_blocks gs)) \<and> bm_ok 2 p2"
proof -
  obtain c p where p: "base_create_pri 2 (plain_checker 2) = Inr (c, p)" "bm_ok 2 p" "frees p 0 \<noteq> []"
    using created [of 2] by (metis zero_less_numeral)
  obtain q where q: "bm_ok 2 q" "\<forall>j < BPS. used q j \<noteq> {#}"
    using base_get_segment_ok [OF p(2,3), of False] by (metis add_mset_not_empty)
  from gc_target_then_trim [OF q] q show ?thesis by blast
qed

text \<open>
  C7: From a segment none of whose pages has been handed out, \<open>base_get_page_num\<close> hands out every page of
  every block of the segment exactly once, \<open>PPS\<close> in all, walking over the channels round robin, and
  then answers -1; on the way it never aborts and keeps the invariant.
\<close>

theorem get_page_num_enumerates_segment:
  assumes "bm_ok nos p" "segs p a = Some s" "taken p a 0"
  shows "\<exists>xs p'. get_pages PPS a p = Inr (map int xs, p') \<and> length xs = PPS \<and> distinct xs \<and>
    (\<forall>n < PPS. GETBLOCKIDX (xs ! n) = s_blocks s ! (n mod BPS) \<and> GETPAGEIDX (xs ! n) = n div BPS) \<and>
    bm_ok nos p' \<and> base_get_page_num a p' = Inr (- 1, p')"
proof -
  let ?xs = "map (nth_page (s_blocks s)) [0..<PPS]"
  obtain p' where p': "get_pages PPS a p = Inr (map (\<lambda>i. int (nth_page (s_blocks s) i)) [0..<PPS], p')"
    "bm_ok nos p'" "taken p' a PPS" using get_pages_ok [OF assms, of PPS] by auto
  have "inj_on (nth_page (s_blocks s)) {0..<PPS}"
    using nth_page_inj [of "s_blocks s"] seg_facts(3) [OF assms(1,2)] by (auto simp: inj_on_def)
  then have "distinct ?xs" by (simp add: distinct_map)
  moreover have "map (\<lambda>i. int (nth_page (s_blocks s) i)) [0..<PPS] = map int ?xs" by simp
  moreover have "\<forall>n < PPS. GETBLOCKIDX (?xs ! n) = s_blocks s ! (n mod BPS) \<and> GETPAGEIDX (?xs ! n) = n div BPS"
    by (simp add: nth_page_addr)
  moreover have "length ?xs = PPS" by simp
  ultimately show ?thesis using p' base_get_page_num_full [OF p'(2,3)] by metis
qed

lemma fresh_segment:
  obtains p a s where "bm_ok 2 p" "segs p a = Some s" "taken p a 0"
proof -
  obtain c p where p: "base_create_pri 2 (plain_checker 2) = Inr (c, p)" "bm_ok 2 p" "frees p 0 \<noteq> []"
    "\<forall>b < 2 * BPS. base_block p ! b = new_block (b div BPS * PPS) (b mod BPS)"
    using created [of 2] by (metis zero_less_numeral)
  obtain p' s where p': "bm_ok 2 p'" "segs p' = (segs p)(seg_fresh p \<mapsto> s)" "s_now s = 0"
    "\<forall>b < 2 * BPS. base_block p' ! b = (if b \<in> set (firsts p)
       then (base_block p ! b)\<lparr>b_seg_idx := seg_map_idx p\<rparr> else base_block p ! b)"
    using base_get_segment_ok [OF p(2,3), of False] by force
  have s: "segs p' (seg_fresh p) = Some s" using p'(2) by simp
  have "b_now (base_block p' ! b) = 0" if "b < 2 * BPS" for b
    using p'(4) p(4) that by (simp add: new_block_def)
  then have "taken p' (seg_fresh p) 0"
    using s p'(3) seg_facts(3) [OF p'(1) s] unfolding taken_def by (intro exI [of _ s]) simp
  then show thesis using that p'(1) s by blast
qed

theorem get_page_num_enumerates_segment_witness:
  "\<exists>p a s xs p'. bm_ok 2 p \<and> segs p a = Some s \<and> get_pages PPS a p = Inr (map int xs, p') \<and>
    length xs = PPS \<and> distinct xs \<and> bm_ok 2 p' \<and> base_get_page_num a p' = Inr (- 1, p')"
proof -
  obtain p a s where "bm_ok 2 p" "segs p a = Some s" "taken p a 0" by (rule fresh_segment)
  with get_page_num_enumerates_segment [OF this] show ?thesis by blast
qed

text \<open>
  C31: The page bitmaps act as a set of page addresses. \<open>base_populate_bit\<close> on an address of the device
  makes that page valid, \<open>base_unpopulate_bit\<close> makes it invalid and counts it in its block, both report
  whether they changed the bit, no other page of the device is affected, and the invariant is kept.
\<close>

theorem page_bits_are_a_set:
  assumes ok: "bm_ok nos p" and ppa: "GETBLOCKIDX ppa < nos * BPS" and v: "base_is_valid_page ppa p = Inr v"
  shows "\<exists>p1 p2. base_populate_bit ppa p = Inr (if v then 0 else 1, p1) \<and> bm_ok nos p1 \<and>
    (\<forall>q. GETBLOCKIDX q < nos * BPS \<longrightarrow>
       base_is_valid_page q p1 = (if q = ppa then Inr True else base_is_valid_page q p)) \<and>
    base_unpopulate_bit ppa p = Inr (if v then 1 else 0, p2) \<and> bm_ok nos p2 \<and>
    (\<forall>q. GETBLOCKIDX q < nos * BPS \<longrightarrow>
       base_is_valid_page q p2 = (if q = ppa then Inr False else base_is_valid_page q p)) \<and>
    base_get_cnt p2 (GETBLOCKIDX ppa) = inc16 (base_get_cnt p (GETBLOCKIDX ppa))"
proof -
  let ?bn = "GETBLOCKIDX ppa" and ?pn = "GETPAGEIDX ppa"
  let ?f = "set_bit_of ?pn" and ?g = "\<lambda>x. (clear_bit_of ?pn x)\<lparr>invalid_number := inc16 (invalid_number x)\<rparr>"
  have len: "length (base_block p) = nos * BPS" using ok by (simp add: bm_ok_def blocks_ok_def)
  have now: "b_now (base_block p ! ?bn) \<le> PPB" using ok ppa by (simp add: bm_ok_def blocks_ok_def)
  have m: "bm_ok nos (upd_block ?bn ?f p)" "bm_ok nos (upd_block ?bn ?g p)"
    using now ok by (auto intro!: minor_ok [OF minor_upd_block] simp: set_bit_of_def clear_bit_of_def)
  have same: "q = ppa \<longleftrightarrow> GETBLOCKIDX q = ?bn \<and> GETPAGEIDX q = ?pn" for q using addr_block by metis
  have gv: "v = get_bit (base_block p ! ?bn) ?pn" using v ppa len by (simp add: base_is_valid_page_def index_def)
  have val: "base_is_valid_page q (upd_block ?bn h p) =
      (if GETBLOCKIDX q = ?bn then Inr (get_bit (h (base_block p ! ?bn)) (GETPAGEIDX q)) else base_is_valid_page q p)"
    if "GETBLOCKIDX q < nos * BPS" for q h
    using that len by (simp add: base_is_valid_page_def index_def)
  have old: "base_is_valid_page q p = Inr (get_bit (base_block p ! GETBLOCKIDX q) (GETPAGEIDX q))"
    if "GETBLOCKIDX q < nos * BPS" for q using that len by (simp add: base_is_valid_page_def index_def)
  have "base_populate_bit ppa p = Inr (if v then 0 else 1, upd_block ?bn ?f p)"
    "base_unpopulate_bit ppa p = Inr (if v then 1 else 0, upd_block ?bn ?g p)"
    using ppa len gv by (simp_all add: base_populate_bit_def base_unpopulate_bit_def index_def Let_def)
  moreover have "base_get_cnt (upd_block ?bn ?g p) ?bn = inc16 (base_get_cnt p ?bn)"
    using ppa len by (simp add: base_get_cnt_def)
  moreover have "base_is_valid_page q (upd_block ?bn ?f p) = (if q = ppa then Inr True else base_is_valid_page q p)"
    "base_is_valid_page q (upd_block ?bn ?g p) = (if q = ppa then Inr False else base_is_valid_page q p)"
    if q: "GETBLOCKIDX q < nos * BPS" for q
    unfolding val [OF q] same [of q] old [OF q] by simp_all
  ultimately show ?thesis using m by blast
qed

theorem page_bits_are_a_set_witness:
  "\<exists>p p1 p2. bm_ok 2 p \<and> base_is_valid_page 70 p = Inr False \<and> base_populate_bit 70 p = Inr (1, p1) \<and>
     base_is_valid_page 70 p1 = Inr True \<and> base_unpopulate_bit 70 p = Inr (0, p2) \<and>
     base_is_valid_page 70 p2 = Inr False"
proof -
  obtain c p where p: "bm_ok 2 p" "\<forall>b < 2 * BPS. base_block p ! b = new_block (b div BPS * PPS) (b mod BPS)"
    using base_create_pri_ok [OF plain_checker_ok, of 2] by blast
  have i: "GETBLOCKIDX 70 < 2 * BPS" by (simp add: GETBLOCKIDX_def BPS_def PUNIT_def)
  have "length (base_block p) = 2 * BPS" using p(1) by (simp add: bm_ok_def blocks_ok_def)
  then have v: "base_is_valid_page 70 p = Inr False"
    using i p(2) by (simp add: base_is_valid_page_def index_def get_bit_def new_block_def)
  from page_bits_are_a_set [OF p(1) i v] i v p(1) show ?thesis by auto
qed

text \<open>
  C36: The out-of-band area of a page gives back what was stored in it: after \<open>base_set_oob\<close> of
  \<open>len\<close> bytes on a page, \<open>base_get_oob\<close> returns these bytes followed by what the area held beyond them,
  and the area of every other page is unchanged.
\<close>

theorem oob_round_trip:
  assumes ok: "bm_ok nos p" and ppa: "GETBLOCKIDX ppa < nos * BPS" and len: "len \<le> OOB_SIZE" "len \<le> length data"
    and old: "base_get_oob ppa p = Inr area"
  shows "\<exists>p'. base_set_oob data len ppa p = Inr p' \<and> bm_ok nos p' \<and>
    base_get_oob ppa p' = Inr (take len data @ drop len area) \<and>
    (\<forall>q. GETBLOCKIDX q < nos * BPS \<longrightarrow> q \<noteq> ppa \<longrightarrow> base_get_oob q p' = base_get_oob q p)"
proof -
  let ?bn = "GETBLOCKIDX ppa" and ?pn = "GETPAGEIDX ppa"
  let ?f = "\<lambda>x. x\<lparr>oob_list := (oob_list x)(?pn := take len data @ drop len (oob_list x ?pn))\<rparr>"
  have lb: "length (base_block p) = nos * BPS" and now: "b_now (base_block p ! ?bn) \<le> PPB"
    using ok ppa by (simp_all add: bm_ok_def blocks_ok_def)
  have "bm_ok nos (upd_block ?bn ?f p)" using now ok by (auto intro!: minor_ok [OF minor_upd_block])
  moreover have "base_set_oob data len ppa p = Inr (upd_block ?bn ?f p)"
    using ppa lb len by (simp add: base_set_oob_def index_def Let_def)
  moreover have "base_get_oob ppa (upd_block ?bn ?f p) = Inr (take len data @ drop len area)"
    using ppa lb old by (simp add: base_get_oob_def index_def)
  moreover have "base_get_oob q (upd_block ?bn ?f p) = base_get_oob q p"
    if "GETBLOCKIDX q < nos * BPS" "q \<noteq> ppa" for q
  proof -
    have "GETBLOCKIDX q \<noteq> ?bn \<or> GETPAGEIDX q \<noteq> ?pn" using addr_block that(2) by metis
    then show ?thesis using that(1) lb
      by (cases "GETBLOCKIDX q = ?bn") (auto simp: base_get_oob_def index_def nth_list_update)
  qed
  ultimately show ?thesis by blast
qed

theorem oob_round_trip_witness:
  "\<exists>p p' area. bm_ok 2 p \<and> base_set_oob [1, 2, 3, 4] 4 70 p = Inr p' \<and>
     base_get_oob 70 p' = Inr ([1, 2, 3, 4] @ drop 4 area)"
proof -
  obtain c p where p: "bm_ok 2 p" using base_create_pri_ok [OF plain_checker_ok, of 2] by blast
  have i: "GETBLOCKIDX 70 < 2 * BPS" by (simp add: GETBLOCKIDX_def BPS_def PUNIT_def)
  have "length (base_block p) = 2 * BPS" using p(1) by (simp add: bm_ok_def blocks_ok_def)
  then obtain area where a: "base_get_oob 70 p = Inr area" using i by (simp add: base_get_oob_def index_def)
  have "4 \<le> OOB_SIZE" "4 \<le> length [1, 2, 3, 4 :: u8]" by (simp_all add: OOB_SIZE_def)
  from oob_round_trip [OF p i this a] p show ?thesis by auto
qed

end
