(* ===== verification/Sha256.thy ===== *)
theory Sha256
  imports FD_Prelude
begin

text \<open>
  The SHA-256 of \<^verbatim>\<open>src/include/utils/sha256.c\<close>, with which the hash-based FTLs place keys. The context
  is filled block by block; the theory relates this to the definition of the hash function in
  FIPS 180-4 on whole messages, and shows that feeding a message in pieces does not matter.
\<close>

unbundle bit_operations_syntax

section \<open>The code\<close>

definition ror :: "u32 \<Rightarrow> nat \<Rightarrow> u32" where
  "ror v b = drop_bit b v OR push_bit (32 - b) v"

definition STORE32H :: "u32 \<Rightarrow> u8 list" where
  "STORE32H x = [ucast (drop_bit 24 x AND 255), ucast (drop_bit 16 x AND 255), ucast (drop_bit 8 x AND 255),
     ucast (x AND 255)]"

definition LOAD32H :: "u8 list \<Rightarrow> u32" where
  "LOAD32H y = push_bit 24 (ucast (y ! 0 AND 255)) OR push_bit 16 (ucast (y ! 1 AND 255)) OR
     push_bit 8 (ucast (y ! 2 AND 255)) OR ucast (y ! 3 AND 255)"

definition STORE64H :: "u64 \<Rightarrow> u8 list" where
  "STORE64H x = [ucast (drop_bit 56 x AND 255), ucast (drop_bit 48 x AND 255), ucast (drop_bit 40 x AND 255),
     ucast (drop_bit 32 x AND 255), ucast (drop_bit 24 x AND 255), ucast (drop_bit 16 x AND 255),
     ucast (drop_bit 8 x AND 255), ucast (x AND 255)]"

text \<open>The table \<open>K\<close>, one list for each line of the source.\<close>

definition K256 :: "u32 list" where
  "K256 = concat [
     [0x428a2f98, 0x71374491, 0xb5c0fbcf, 0xe9b5dba5, 0x3956c25b],
     [0x59f111f1, 0x923f82a4, 0xab1c5ed5, 0xd807aa98, 0x12835b01],
     [0x243185be, 0x550c7dc3, 0x72be5d74, 0x80deb1fe, 0x9bdc06a7],
     [0xc19bf174, 0xe49b69c1, 0xefbe4786, 0x0fc19dc6, 0x240ca1cc],
     [0x2de92c6f, 0x4a7484aa, 0x5cb0a9dc, 0x76f988da, 0x983e5152],
     [0xa831c66d, 0xb00327c8, 0xbf597fc7, 0xc6e00bf3, 0xd5a79147],
     [0x06ca6351, 0x14292967, 0x27b70a85, 0x2e1b2138, 0x4d2c6dfc],
     [0x53380d13, 0x650a7354, 0x766a0abb, 0x81c2c92e, 0x92722c85],
     [0xa2bfe8a1, 0xa81a664b, 0xc24b8b70, 0xc76c51a3, 0xd192e819],
     [0xd6990624, 0xf40e3585, 0x106aa070, 0x19a4c116, 0x1e376c08],
     [0x2748774c, 0x34b0bcb5, 0x391c0cb3, 0x4ed8aa4a, 0x5b9cca4f],
     [0x682e6ff3, 0x748f82ee, 0x78a5636f, 0x84c87814, 0x8cc70208],
     [0x90befffa, 0xa4506ceb, 0xbef9a3f7, 0xc67178f2]]"

definition Ch :: "u32 \<Rightarrow> u32 \<Rightarrow> u32 \<Rightarrow> u32" where
  "Ch x y z = z XOR (x AND (y XOR z))"

definition Maj :: "u32 \<Rightarrow> u32 \<Rightarrow> u32 \<Rightarrow> u32" where
  "Maj x y z = ((x OR y) AND z) OR (x AND y)"

definition Sigma0 :: "u32 \<Rightarrow> u32" where
  "Sigma0 x = ror x 2 XOR ror x 13 XOR ror x 22"

definition Sigma1 :: "u32 \<Rightarrow> u32" where
  "Sigma1 x = ror x 6 XOR ror x 11 XOR ror x 25"

definition Gamma0 :: "u32 \<Rightarrow> u32" where
  "Gamma0 x = ror x 7 XOR ror x 18 XOR drop_bit 3 (x AND 0xFFFFFFFF)"

definition Gamma1 :: "u32 \<Rightarrow> u32" where
  "Gamma1 x = ror x 17 XOR ror x 19 XOR drop_bit 10 (x AND 0xFFFFFFFF)"

text \<open>\<open>Sha256Round\<close> on \<open>S[0..7]\<close> and the rotation of the array that follows it.\<close>

definition Sha256Round :: "u32 list \<Rightarrow> nat \<Rightarrow> u32 list \<Rightarrow> u32 list" where
  "Sha256Round W i S =
     (let t0 = S ! 7 + Sigma1 (S ! 4) + Ch (S ! 4) (S ! 5) (S ! 6) + K256 ! i + W ! i;
          t1 = Sigma0 (S ! 0) + Maj (S ! 0) (S ! 1) (S ! 2);
          d = S ! 3 + t0;
          h = t0 + t1
      in [h, S ! 0, S ! 1, S ! 2, d, S ! 4, S ! 5, S ! 6])"

record Sha256Context =
  sha_length :: u64
  sha_state :: "u32 list"
  curlen :: nat
  buf :: "u8 list"

definition TransformFunction :: "u8 list \<Rightarrow> u32 list \<Rightarrow> u32 list" where
  "TransformFunction Buffer state =
     (let W16 = map (\<lambda>i. LOAD32H (drop (4 * i) Buffer)) [0..<16];
          W = fold (\<lambda>i W. W @ [Gamma1 (W ! (i - 2)) + W ! (i - 7) + Gamma0 (W ! (i - 15)) + W ! (i - 16)])
                [16..<64] W16;
          S = fold (Sha256Round W) [0..<64] state
      in map (\<lambda>i. state ! i + S ! i) [0..<8])"

definition BLOCK_SIZE :: nat where "BLOCK_SIZE = 64"

definition IV :: "u32 list" where
  "IV = [0x6A09E667, 0xBB67AE85, 0x3C6EF372, 0xA54FF53A, 0x510E527F, 0x9B05688C, 0x1F83D9AB, 0x5BE0CD19]"

definition Sha256Initialise :: "Sha256Context \<Rightarrow> Sha256Context" where
  "Sha256Initialise c = c\<lparr>curlen := 0, sha_length := 0, sha_state := IV\<rparr>"

definition transform :: "u8 list \<Rightarrow> Sha256Context \<Rightarrow> Sha256Context" where
  "transform b c = c\<lparr>sha_state := TransformFunction b (sha_state c)\<rparr>"

text \<open>
  The loop of \<open>Sha256Update\<close> over the bytes that are left. A copy beyond the end of \<open>buf\<close> is a bad access.
\<close>

function update_loop :: "Sha256Context \<Rightarrow> u8 list \<Rightarrow> Sha256Context res" where
  "update_loop c B =
     (if B = [] then Inr c
      else if curlen c = 0 \<and> BLOCK_SIZE \<le> length B then
        update_loop ((transform B c)\<lparr>sha_length := sha_length c + of_nat (BLOCK_SIZE * 8)\<rparr>) (drop BLOCK_SIZE B)
      else
        let n = min (length B) (BLOCK_SIZE - curlen c);
            c1 = c\<lparr>buf := take (curlen c) (buf c) @ take n B @ drop (curlen c + n) (buf c), curlen := curlen c + n\<rparr>
        in if BLOCK_SIZE < curlen c then Inl Bad_Access
           else if curlen c1 = BLOCK_SIZE then
             update_loop ((transform (buf c1) c1)
               \<lparr>sha_length := sha_length c + of_nat (8 * BLOCK_SIZE), curlen := 0\<rparr>) (drop n B)
           else update_loop c1 (drop n B))"
  by pat_completeness auto
termination
  by (relation "measures [\<lambda>(c, B). length B, \<lambda>(c, B). curlen c]") (auto simp: BLOCK_SIZE_def Let_def min_def split: if_splits)

declare update_loop.simps [simp del]

definition Sha256Update :: "Sha256Context \<Rightarrow> u8 list \<Rightarrow> Sha256Context res" where
  "Sha256Update c B = (if curlen c > 64 then Inr c else update_loop c B)"

function zero_loop :: "nat \<Rightarrow> Sha256Context \<Rightarrow> Sha256Context" where
  "zero_loop lim c =
     (if curlen c < lim then zero_loop lim (c\<lparr>buf := (buf c)[curlen c := 0], curlen := curlen c + 1\<rparr>) else c)"
  by pat_completeness auto
termination
  by (relation "measure (\<lambda>(lim, c). lim - curlen c)") auto

declare zero_loop.simps [simp del]

text \<open>The context and the digest after \<open>Sha256Finalise\<close>; the digest is left alone when the context is full.\<close>

definition Sha256Finalise :: "Sha256Context \<Rightarrow> u8 list \<Rightarrow> Sha256Context \<times> u8 list" where
  "Sha256Finalise c Digest =
     (if curlen c \<ge> 64 then (c, Digest)
      else
        let c1 = c\<lparr>sha_length := sha_length c + of_nat (curlen c * 8),
                   buf := (buf c)[curlen c := 0x80], curlen := curlen c + 1\<rparr>;
            c2 = (if curlen c1 > 56
                  then let z = zero_loop 64 c1 in (transform (buf z) z)\<lparr>curlen := 0\<rparr>
                  else c1);
            c3 = zero_loop 56 c2;
            b = take 56 (buf c3) @ STORE64H (sha_length c3);
            c4 = transform b (c3\<lparr>buf := b\<rparr>)
        in (c4, concat (map (\<lambda>i. STORE32H (sha_state c4 ! i)) [0..<8])))"

definition Sha256Calculate :: "Sha256Context \<Rightarrow> u8 list \<Rightarrow> u8 list \<Rightarrow> u8 list res" where
  "Sha256Calculate context B Digest =
     bindE (Sha256Update (Sha256Initialise context) B) (\<lambda>c. Inr (snd (Sha256Finalise c Digest)))"

section \<open>The hash function of FIPS 180-4\<close>

text \<open>The functions of the standard on 32-bit words; rotations are the library's.\<close>

definition fips_Ch :: "u32 \<Rightarrow> u32 \<Rightarrow> u32 \<Rightarrow> u32" where
  "fips_Ch x y z = (x AND y) XOR (NOT x AND z)"

definition fips_Maj :: "u32 \<Rightarrow> u32 \<Rightarrow> u32 \<Rightarrow> u32" where
  "fips_Maj x y z = (x AND y) XOR (x AND z) XOR (y AND z)"

definition fips_S0 :: "u32 \<Rightarrow> u32" where
  "fips_S0 x = word_rotr 2 x XOR word_rotr 13 x XOR word_rotr 22 x"

definition fips_S1 :: "u32 \<Rightarrow> u32" where
  "fips_S1 x = word_rotr 6 x XOR word_rotr 11 x XOR word_rotr 25 x"

definition fips_s0 :: "u32 \<Rightarrow> u32" where
  "fips_s0 x = word_rotr 7 x XOR word_rotr 18 x XOR drop_bit 3 x"

definition fips_s1 :: "u32 \<Rightarrow> u32" where
  "fips_s1 x = word_rotr 17 x XOR word_rotr 19 x XOR drop_bit 10 x"

text \<open>Numbers in big-endian byte order.\<close>

definition to_be :: "nat \<Rightarrow> nat \<Rightarrow> u8 list" where
  "to_be k n = map (\<lambda>i. of_nat (n div 256 ^ (k - 1 - i))) [0..<k]"

definition from_be :: "u8 list \<Rightarrow> u32" where
  "from_be bs = foldl (\<lambda>a b. a * 256 + ucast b) 0 bs"

text \<open>The message schedule, by its recurrence, and the 64 rounds on the eight working variables.\<close>

fun fips_W :: "u8 list \<Rightarrow> nat \<Rightarrow> u32" where
  "fips_W M t =
     (if t < 16 then from_be (take 4 (drop (4 * t) M))
      else fips_s1 (fips_W M (t - 2)) + fips_W M (t - 7) + fips_s0 (fips_W M (t - 15)) + fips_W M (t - 16))"

declare fips_W.simps [simp del]

fun fips_rounds :: "u8 list \<Rightarrow> nat \<Rightarrow> u32 list \<Rightarrow> u32 list" where
  "fips_rounds M 0 v = v"
| "fips_rounds M (Suc t) v =
     (case fips_rounds M t v of
        [a, b, c, d, e, f, g, h] \<Rightarrow>
          let T1 = h + fips_S1 e + fips_Ch e f g + K256 ! t + fips_W M t;
              T2 = fips_S0 a + fips_Maj a b c
          in [T1 + T2, a, b, c, d + T1, e, f, g]
      | _ \<Rightarrow> [])"

definition fips_compress :: "u32 list \<Rightarrow> u8 list \<Rightarrow> u32 list" where
  "fips_compress H M = map2 (+) (fips_rounds M 64 H) H"

text \<open>The blocks of a message, its padding, and the digest.\<close>

definition blocks :: "u8 list \<Rightarrow> u8 list list" where
  "blocks m = map (\<lambda>i. take 64 (drop (64 * i) m)) [0..<length m div 64]"

definition pad :: "u8 list \<Rightarrow> u8 list" where
  "pad m = m @ [0x80] @ replicate ((119 - length m mod 64) mod 64) 0 @ to_be 8 (8 * length m)"

definition fips_sha256 :: "u8 list \<Rightarrow> u8 list" where
  "fips_sha256 m = concat (map (\<lambda>w. to_be 4 (unat w)) (foldl fips_compress IV (blocks (pad m))))"

text \<open>
  The constants are those of the standard: the first 32 bits of the fractional parts of the cube roots of the first 64
  primes and of the square roots of the first eight.
\<close>

definition first_primes :: "int list" where
  "first_primes = [2, 3, 5, 7, 11, 13, 17, 19, 23, 29, 31, 37, 41, 43, 47, 53, 59, 61, 67, 71, 73, 79,
     83, 89, 97, 101, 103, 107, 109, 113, 127, 131, 137, 139, 149, 151, 157, 163, 167, 173, 179, 181, 191, 193,
     197, 199, 211, 223, 227, 229, 233, 239, 241, 251, 257, 263, 269, 271, 277, 281, 283, 293, 307, 311]"

definition root_fraction :: "nat \<Rightarrow> int \<Rightarrow> u32 \<Rightarrow> bool" where
  "root_fraction e p k \<longleftrightarrow>
     (let n = int (length (takeWhile (\<lambda>n. n ^ e \<le> p) [1, 2, 3, 4, 5, 6])); c = n * 2 ^ 32 + uint k
      in c ^ e \<le> p * 2 ^ (32 * e) \<and> p * 2 ^ (32 * e) < (c + 1) ^ e)"

lemma K256_cube_roots: "list_all2 (root_fraction 3) first_primes K256"
  by code_simp

lemma IV_square_roots: "list_all2 (root_fraction 2) (take 8 first_primes) IV"
  by code_simp

section \<open>The round functions\<close>

lemma ror_word_rotr: "b < 32 \<Longrightarrow> ror v b = word_rotr b v"
proof (rule bit_word_eqI)
  fix n
  assume n: "b < 32" "n < LENGTH(32)"
  show "bit (ror v b) n = bit (word_rotr b v) n"
  proof (cases "n + b < 32")
    case True
    then show ?thesis using n by (auto simp: ror_def bit_simps bit_word_rotr_iff ac_simps)
  next
    case False
    then have "(n + b) mod 32 = n + b - 32" using n by (simp add: mod_if)
    moreover have "\<not> bit v (b + n)" using False bit_imp_le_length [of v "b + n"] by auto
    ultimately show ?thesis using n False by (auto simp: ror_def bit_simps bit_word_rotr_iff)
  qed
qed

lemma Ch_fips: "Ch x y z = fips_Ch x y z"
  by (rule bit_word_eqI) (auto simp: Ch_def fips_Ch_def bit_simps)

lemma Maj_fips: "Maj x y z = fips_Maj x y z"
  by (rule bit_word_eqI) (auto simp: Maj_def fips_Maj_def bit_simps)

lemma word_mask32: "x AND 0xFFFFFFFF = (x :: u32)"
proof -
  have e: "(0xFFFFFFFF :: u32) = - 1" by simp
  show ?thesis unfolding e by (rule and.right_neutral)
qed

lemma sigma_fips:
  "Sigma0 = fips_S0" "Sigma1 = fips_S1" "Gamma0 = fips_s0" "Gamma1 = fips_s1"
  by (auto simp: Sigma0_def Sigma1_def Gamma0_def Gamma1_def fips_S0_def fips_S1_def fips_s0_def fips_s1_def
      ror_word_rotr word_mask32)

lemma byte_mask: "ucast (w AND 255) = (ucast w :: u8)" for w :: "'a :: len word"
proof -
  have e: "(255 :: 'a word) = mask 8" by (simp add: mask_eq_exp_minus_1)
  show ?thesis unfolding e
    by (rule bit_word_eqI) (auto simp: bit_simps bit_mask_iff dest: bit_imp_le_length)
qed

lemma ucast_byte: "ucast (drop_bit k w) = (of_nat (unat w div 2 ^ k) :: u8)" for w :: "'a :: len word"
proof -
  have "unat (drop_bit k w) = unat w div 2 ^ k" unfolding unat_drop_bit_eq by (rule drop_bit_eq_div)
  then show ?thesis by (metis of_nat_unat)
qed

lemma STORE32H_be: "STORE32H x = to_be 4 (unat x)"
  using ucast_byte [of 0 x]
  by (simp add: STORE32H_def to_be_def byte_mask ucast_byte upt_rec)

lemma STORE64H_be: "STORE64H x = to_be 8 (unat x)"
  using ucast_byte [of 0 x]
  by (simp add: STORE64H_def to_be_def byte_mask ucast_byte upt_rec)

lemma or_byte: "push_bit 8 x OR ucast b = x * 256 + ucast b" for x :: u32 and b :: u8
proof -
  have "push_bit 8 x AND (ucast b :: u32) = 0"
    by (rule bit_word_eqI) (auto simp: bit_simps dest: bit_imp_le_length)
  then have "push_bit 8 x + ucast b = push_bit 8 x OR (ucast b :: u32)" by (rule disjunctive_add_eq_or)
  then show ?thesis by (simp add: push_bit_eq_mult)
qed

lemma LOAD32H_be: "4 \<le> length y \<Longrightarrow> LOAD32H y = from_be (take 4 y)"
proof -
  assume "4 \<le> length y"
  then obtain a b c d r where y: "y = a # b # c # d # r"
    by (cases y; cases "tl y"; cases "tl (tl y)"; cases "tl (tl (tl y))") auto
  have e: "(255 :: u8) = - 1" by simp
  have m: "x AND 255 = x" for x :: u8 unfolding e by (rule and.right_neutral)
  have "LOAD32H y = push_bit 8 (push_bit 8 (push_bit 8 (ucast a) OR ucast b) OR ucast c) OR ucast d"
    by (simp add: LOAD32H_def y m push_bit_or or.assoc)
  also have "\<dots> = from_be (take 4 y)" by (simp only: or_byte) (simp add: from_be_def y)
  finally show ?thesis .
qed

section \<open>One block\<close>

lemma schedule:
  assumes "64 \<le> length M" "k \<le> 48"
  shows "fold (\<lambda>i W. W @ [Gamma1 (W ! (i - 2)) + W ! (i - 7) + Gamma0 (W ! (i - 15)) + W ! (i - 16)]) [16..<16 + k]
           (map (\<lambda>i. LOAD32H (drop (4 * i) M)) [0..<16]) = map (fips_W M) [0..<16 + k]"
  using assms(2)
proof (induction k)
  case 0
  have "LOAD32H (drop (4 * i) M) = fips_W M i" if "i < 16" for i
    using that assms(1) by (simp add: LOAD32H_be fips_W.simps)
  then show ?case by simp
next
  case (Suc k)
  have "fips_W M (16 + k) = fips_s1 (fips_W M (14 + k)) + fips_W M (9 + k) + fips_s0 (fips_W M (1 + k)) + fips_W M k"
    by (subst fips_W.simps) simp
  moreover have up: "[16..<16 + Suc k] = [16..<16 + k] @ [16 + k]" "[0..<16 + Suc k] = [0..<16 + k] @ [16 + k]"
    unfolding add_Suc_right upt_Suc by simp_all
  ultimately show ?case using Suc unfolding up fold_append by (simp add: sigma_fips)
qed

lemma fips_rounds_length: "length v = 8 \<Longrightarrow> length (fips_rounds M t v) = 8"
  by (induction t) (auto simp: Let_def length_Suc_conv numeral_eq_Suc)

lemma rounds:
  assumes W: "\<And>i. i < 64 \<Longrightarrow> W ! i = fips_W M i" and v: "length v = 8" and "t \<le> 64"
  shows "fold (Sha256Round W) [0..<t] v = fips_rounds M t v"
  using assms(3)
proof (induction t)
  case (Suc t)
  obtain a b c d e f g h where r: "fips_rounds M t v = [a, b, c, d, e, f, g, h]"
    using fips_rounds_length [OF v, of M t] by (auto simp: length_Suc_conv numeral_eq_Suc)
  then show ?case using Suc W [of t]
    by (simp add: Sha256Round_def Let_def sigma_fips Ch_fips Maj_fips)
qed simp

lemma TransformFunction_fips:
  assumes "64 \<le> length M" "length st = 8"
  shows "TransformFunction M st = fips_compress st M"
proof -
  let ?W = "map (fips_W M) [0..<64]"
  have r: "fold (Sha256Round ?W) [0..<64] st = fips_rounds M 64 st"
    by (rule rounds) (use assms(2) in \<open>simp_all del: upt_rec_numeral\<close>)
  have e: "16 + 48 = (64 :: nat)" by simp
  have "map (\<lambda>i. st ! i + fips_rounds M 64 st ! i) [0..<8] = map2 (+) (fips_rounds M 64 st) st"
    using assms(2) fips_rounds_length [OF assms(2), of M 64]
    by (simp add: list_eq_iff_nth_eq add.commute del: upt_rec_numeral)
  then show ?thesis
    using schedule [OF assms(1) order_refl] unfolding e TransformFunction_def Let_def fips_compress_def
    by (simp only: r)
qed

lemma fips_W_take: "fips_W (take 64 M) t = fips_W M t"
proof (induction t rule: less_induct)
  case (less t)
  have "take 4 (drop (4 * t) (take 64 M)) = take 4 (drop (4 * t) M)" if "t < 16"
    using that by (simp add: drop_take min_def)
  then show ?case using less by (simp add: fips_W.simps [of _ t])
qed

lemma fips_compress_take: "fips_compress st (take 64 M) = fips_compress st M"
proof -
  have "fips_rounds (take 64 M) t v = fips_rounds M t v" for t v
    by (induction t) (simp_all add: fips_W_take cong: list.case_cong)
  then show ?thesis by (simp add: fips_compress_def)
qed

lemma fips_compress_length: "length st = 8 \<Longrightarrow> length (fips_compress st M) = 8"
  by (simp add: fips_compress_def fips_rounds_length)

section \<open>Feeding a message\<close>

definition leftover :: "u8 list \<Rightarrow> u8 list" where
  "leftover m = drop (64 * (length m div 64)) m"

lemma leftover_length: "length (leftover m) = length m mod 64"
  by (simp add: leftover_def minus_mult_div_eq_mod)

lemma blocks_short: "length m < 64 \<Longrightarrow> blocks m = []"
  by (simp add: blocks_def)

text \<open>A message with \<open>q\<close> full blocks in front of the bytes \<open>r\<close>.\<close>

lemma blocks_split:
  assumes "length a = 64 * q"
  shows "blocks (a @ r) = blocks a @ blocks r" "leftover (a @ r) = leftover r"
proof -
  have d: "length (a @ r) div 64 = q + length r div 64" "length a div 64 = q" using assms by simp_all
  have "map (\<lambda>i. take 64 (drop (64 * i) (a @ r))) [0..<q] = map (\<lambda>i. take 64 (drop (64 * i) a)) [0..<q]"
  proof (rule map_cong [OF refl])
    fix i
    assume "i \<in> set [0..<q]"
    then have "64 * i + 64 \<le> length a" using assms by simp
    then show "take 64 (drop (64 * i) (a @ r)) = take 64 (drop (64 * i) a)" by simp
  qed
  moreover have "map (\<lambda>i. take 64 (drop (64 * i) (a @ r))) [q..<q + length r div 64] =
      map (\<lambda>i. take 64 (drop (64 * i) r)) [0..<length r div 64]"
    using assms by (simp add: list_eq_iff_nth_eq distrib_left)
  ultimately show "blocks (a @ r) = blocks a @ blocks r"
    unfolding blocks_def d upt_add_eq_append [OF le0] map_append by (rule arg_cong2)
  show "leftover (a @ r) = leftover r" unfolding leftover_def d using assms by (simp add: distrib_left)
qed

lemma blocks_one: "length b = 64 \<Longrightarrow> blocks b = [b]" "length b = 64 \<Longrightarrow> leftover b = []"
  by (simp_all add: blocks_def leftover_def)

lemma leftover_short: "length m < 64 \<Longrightarrow> leftover m = m"
  by (simp add: leftover_def)

lemma split_message: "\<exists>a q. m = a @ leftover m \<and> length a = 64 * q \<and> q = length m div 64"
proof -
  have "64 * (length m div 64) \<le> length m" by simp
  then show ?thesis unfolding leftover_def
    by (intro exI [of _ "take (64 * (length m div 64)) m"] exI [of _ "length m div 64"]) simp
qed

lemma blocks_add:
  assumes "length (leftover m @ x) \<le> 64"
  shows "blocks (m @ x) = blocks m @ (if length (leftover m @ x) = 64 then [leftover m @ x] else [])"
    "leftover (m @ x) = (if length (leftover m @ x) = 64 then [] else leftover m @ x)"
    "length (m @ x) div 64 = length m div 64 + (if length (leftover m @ x) = 64 then 1 else 0)"
proof -
  obtain a q where m: "m = a @ leftover m" "length a = 64 * q" "q = length m div 64" using split_message by blast
  have lm: "length (leftover m) < 64" by (simp add: leftover_length)
  have bm: "blocks m = blocks a" using blocks_split(1) [OF m(2), of "leftover m"] blocks_short [OF lm] m(1) by simp
  have e: "m @ x = a @ (leftover m @ x)" using m(1) by simp
  show "blocks (m @ x) = blocks m @ (if length (leftover m @ x) = 64 then [leftover m @ x] else [])"
    unfolding e blocks_split(1) [OF m(2)] bm using assms by (auto simp: blocks_one blocks_short)
  show "leftover (m @ x) = (if length (leftover m @ x) = 64 then [] else leftover m @ x)"
    unfolding e blocks_split(2) [OF m(2)] using assms by (auto simp: blocks_one leftover_short)
  have "length (m @ x) = 64 * q + length (leftover m @ x)" unfolding e using m(2) by simp
  then have "length (m @ x) div 64 = q + length (leftover m @ x) div 64" by simp
  moreover have "length (leftover m @ x) div 64 = (if length (leftover m @ x) = 64 then 1 else 0)"
    using assms by (cases "length (leftover m @ x) = 64") (simp_all del: length_append)
  ultimately show "length (m @ x) div 64 = length m div 64 + (if length (leftover m @ x) = 64 then 1 else 0)"
    using m(3) by simp
qed

definition absorbed :: "u8 list \<Rightarrow> Sha256Context \<Rightarrow> bool" where
  "absorbed m c \<longleftrightarrow> length (buf c) = 64 \<and> curlen c = length m mod 64 \<and> take (curlen c) (buf c) = leftover m \<and>
     sha_state c = foldl fips_compress IV (blocks m) \<and> sha_length c = of_nat (512 * (length m div 64))"

lemma state_length: "length (foldl fips_compress IV bs) = 8"
  by (induction bs rule: rev_induct) (simp_all add: fips_compress_length IV_def)

lemma absorbed_state: "absorbed m c \<Longrightarrow> length (sha_state c) = 8"
  by (simp add: absorbed_def state_length)

lemma absorb_block:
  assumes c: "absorbed m c" and z: "curlen c = 0" and B: "64 \<le> length B"
  shows "absorbed (m @ take 64 B) ((transform B c)\<lparr>sha_length := sha_length c + 512\<rparr>)"
proof -
  have l: "leftover m = []" using c z by (simp add: absorbed_def)
  have lx: "length (leftover m @ take 64 B) = 64" using B l by simp
  have mz: "length m mod 64 = 0" using c z by (simp add: absorbed_def)
  then have "(length m + 64) mod 64 = 0" by simp
  moreover have "TransformFunction B (sha_state c) = fips_compress (sha_state c) (take 64 B)"
    using TransformFunction_fips [OF B absorbed_state [OF c]] by (simp add: fips_compress_take)
  ultimately show ?thesis
    using c B l z blocks_add [of m "take 64 B"] lx by (simp add: absorbed_def transform_def algebra_simps)
qed

lemma absorb_bytes:
  assumes c: "absorbed m c" and n: "n \<le> length B" "n \<le> 64 - curlen c"
    and c1: "c1 = c\<lparr>buf := take (curlen c) (buf c) @ take n B @ drop (curlen c + n) (buf c), curlen := curlen c + n\<rparr>"
  shows "curlen c + n < 64 \<Longrightarrow> absorbed (m @ take n B) c1"
    and "curlen c + n = 64 \<Longrightarrow>
      absorbed (m @ take n B) ((transform (buf c1) c1)\<lparr>sha_length := sha_length c + 512, curlen := 0\<rparr>)"
proof -
  have cur: "curlen c = length m mod 64" and lb: "length (buf c) = 64"
    and left: "take (curlen c) (buf c) = leftover m" using c by (auto simp: absorbed_def)
  have lx: "length (leftover m @ take n B) = curlen c + n" using n cur by (simp add: leftover_length)
  have le: "length (leftover m @ take n B) \<le> 64" using lx n cur by simp
  have b1: "length (buf c1) = 64" "take (curlen c + n) (buf c1) = leftover m @ take n B"
    using n lb left cur by (simp_all add: c1 leftover_length)
  {
    assume lt: "curlen c + n < 64"
    have "(length m + n) mod 64 = curlen c + n" using lt cur by (metis mod_add_left_eq mod_less)
    then show "absorbed (m @ take n B) c1"
      using c n lt lx b1 blocks_add [OF le] by (simp add: absorbed_def c1)
  next
    assume eq: "curlen c + n = 64"
    have "(length m + n) mod 64 = 0" using eq cur by (metis mod_add_left_eq mod_self)
    moreover have bb: "buf c1 = leftover m @ take n B" using b1 eq by simp
    moreover have "TransformFunction (buf c1) (sha_state c) = fips_compress (sha_state c) (buf c1)"
      using b1(1) absorbed_state [OF c] by (simp add: TransformFunction_fips)
    moreover have "sha_state c1 = sha_state c" by (simp add: c1)
    ultimately show "absorbed (m @ take n B) ((transform (buf c1) c1)\<lparr>sha_length := sha_length c + 512, curlen := 0\<rparr>)"
      using c n lx eq b1(1) blocks_add [OF le] by (simp add: absorbed_def transform_def algebra_simps)
  }
qed

lemma update_loop_absorbs:
  "absorbed m c \<Longrightarrow> \<exists>c'. update_loop c B = Inr c' \<and> absorbed (m @ B) c'"
proof (induction c B arbitrary: m rule: update_loop.induct)
  case (1 c B)
  define n where "n = min (length B) (BLOCK_SIZE - curlen c)"
  define c1 where "c1 = c\<lparr>buf := take (curlen c) (buf c) @ take n B @ drop (curlen c + n) (buf c), curlen := curlen c + n\<rparr>"
  have cur: "curlen c < 64" using "1.prems" by (simp add: absorbed_def)
  have step: "update_loop c B = (if curlen c1 = 64
      then update_loop ((transform (buf c1) c1)\<lparr>sha_length := sha_length c + 512, curlen := 0\<rparr>) (drop n B)
      else update_loop c1 (drop n B))" if "B \<noteq> []" "\<not> (curlen c = 0 \<and> BLOCK_SIZE \<le> length B)"
    apply (subst update_loop.simps)
    apply (fold n_def)
    apply (unfold Let_def)
    apply (fold c1_def)
    using that cur by (auto simp: BLOCK_SIZE_def)
  have n: "n \<le> length B" "n \<le> 64 - curlen c" by (auto simp: n_def BLOCK_SIZE_def)
  consider (empty) "B = []" | (full) "B \<noteq> []" "curlen c = 0" "BLOCK_SIZE \<le> length B"
    | (fill) "B \<noteq> []" "\<not> (curlen c = 0 \<and> BLOCK_SIZE \<le> length B)" "curlen c + n = 64"
    | (part) "B \<noteq> []" "\<not> (curlen c = 0 \<and> BLOCK_SIZE \<le> length B)" "curlen c + n < 64"
    using n(2) cur by fastforce
  then show ?case
  proof cases
    case empty
    then show ?thesis using "1.prems" by (simp add: update_loop.simps)
  next
    case full
    then have "absorbed (m @ take 64 B) ((transform B c)\<lparr>sha_length := sha_length c + 512\<rparr>)"
      using absorb_block "1.prems" by (simp add: BLOCK_SIZE_def)
    with "1.IH"(1) [of "m @ take 64 B"] full show ?thesis
      by (subst update_loop.simps) (simp add: BLOCK_SIZE_def)
  next
    case fill
    have "absorbed (m @ take n B) ((transform (buf c1) c1)\<lparr>sha_length := sha_length c + 512, curlen := 0\<rparr>)"
      using absorb_bytes(2) [OF "1.prems" n c1_def fill(3)] .
    with "1.IH"(2) [OF fill(1,2) n_def c1_def, of "m @ take n B"] fill cur show ?thesis
      by (simp add: step [OF fill(1,2)] c1_def BLOCK_SIZE_def)
  next
    case part
    have "absorbed (m @ take n B) c1" using absorb_bytes(1) [OF "1.prems" n c1_def part(3)] .
    with "1.IH"(3) [OF part(1,2) n_def c1_def, of "m @ take n B"] part cur show ?thesis
      by (simp add: step [OF part(1,2)] c1_def BLOCK_SIZE_def)
  qed
qed

section \<open>Finishing\<close>

lemma zero_loop_fills:
  assumes "curlen c \<le> lim" "lim \<le> length (buf c)"
  shows "zero_loop lim c =
    c\<lparr>buf := take (curlen c) (buf c) @ replicate (lim - curlen c) 0 @ drop lim (buf c), curlen := lim\<rparr>"
  using assms
proof (induction lim c rule: zero_loop.induct)
  case (1 lim c)
  show ?case
  proof (cases "curlen c < lim")
    case True
    have t: "take (Suc (curlen c)) ((buf c)[curlen c := 0]) = take (curlen c) (buf c) @ [0]"
      using True "1.prems" by (simp add: take_Suc_conv_app_nth)
    have z: "lim - curlen c = Suc (lim - Suc (curlen c))" using True by simp
    show ?thesis using 1 True t unfolding z by (subst zero_loop.simps) (simp add: replicate_append_same)
  next
    case False
    then show ?thesis using "1.prems" by (simp add: zero_loop.simps)
  qed
qed

lemma total_length:
  assumes "absorbed m c"
  shows "sha_length c + of_nat (curlen c * 8) = of_nat (8 * length m)"
proof -
  have "512 * (length m div 64) + length m mod 64 * 8 = 8 * length m"
    using div_mult_mod_eq [of "length m" 64] by linarith
  then show ?thesis using assms unfolding absorbed_def by (metis of_nat_add)
qed

text \<open>The last block or two: the leftover bytes, the padding and the length.\<close>

lemma blocks_pad:
  fixes m :: "u8 list"
  defines "l \<equiv> leftover m" and "e \<equiv> to_be 8 (8 * length m)"
  shows "length l \<le> 55 \<Longrightarrow> blocks (pad m) = blocks m @ [l @ 0x80 # replicate (55 - length l) 0 @ e]"
    and "55 < length l \<Longrightarrow>
      blocks (pad m) = blocks m @ [l @ 0x80 # replicate (63 - length l) 0, replicate 56 0 @ e]"
proof -
  obtain a q where m: "m = a @ l" "length a = 64 * q" using split_message l_def by blast
  have ll: "length l < 64" "length l = length m mod 64" by (simp_all add: l_def leftover_length)
  have le: "length e = 8" by (simp add: e_def to_be_def)
  have bm: "blocks m = blocks a" using blocks_split(1) [OF m(2), of l] blocks_short [OF ll(1)] m(1) by simp
  have p: "pad m = a @ (l @ 0x80 # replicate ((119 - length l) mod 64) 0 @ e)"
    unfolding pad_def e_def [symmetric] ll(2) [symmetric] using m(1) by simp
  {
    assume "length l \<le> 55"
    then have "(119 - length l) mod 64 = 55 - length l" by (simp add: mod_if)
    moreover have "length (l @ 0x80 # replicate (55 - length l) 0 @ e) = 64" using \<open>length l \<le> 55\<close> le by simp
    ultimately show "blocks (pad m) = blocks m @ [l @ 0x80 # replicate (55 - length l) 0 @ e]"
      unfolding p bm blocks_split(1) [OF m(2)] by (simp add: blocks_one(1) del: length_append length_Cons)
  next
    assume g: "55 < length l"
    then have "(119 - length l) mod 64 = (63 - length l) + 56" using ll(1) by simp
    then have t: "l @ 0x80 # replicate ((119 - length l) mod 64) 0 @ e =
        (l @ 0x80 # replicate (63 - length l) 0) @ (replicate 56 0 @ e)" by (simp only: replicate_add append.simps append_assoc)
    have l1: "length (l @ 0x80 # replicate (63 - length l) 0) = 64 * 1" using ll(1) by simp
    have l2: "length (replicate 56 0 @ e) = 64" using le by simp
    have b1: "blocks (l @ 0x80 # replicate (63 - length l) 0) = [l @ 0x80 # replicate (63 - length l) 0]"
      using l1 by (simp add: blocks_one(1) del: length_append length_Cons)
    show "blocks (pad m) = blocks m @ [l @ 0x80 # replicate (63 - length l) 0, replicate 56 0 @ e]"
      unfolding p bm blocks_split(1) [OF m(2)] t blocks_split(1) [OF l1] b1 blocks_one(1) [OF l2] by simp
  }
qed

lemma digest_be: "length st = 8 \<Longrightarrow> concat (map (\<lambda>i. STORE32H (st ! i)) [0..<8]) = concat (map (\<lambda>w. to_be 4 (unat w)) st)"
  by (simp add: STORE32H_be list_eq_iff_nth_eq
      arg_cong [of "map (\<lambda>i. to_be 4 (unat (st ! i))) [0..<8]" "map (\<lambda>w. to_be 4 (unat w)) st" concat] del: upt_rec_numeral)

lemma unat_u64: "n < 2 ^ 64 \<Longrightarrow> unat (of_nat n :: u64) = n"
  by (simp add: unsigned_of_nat take_bit_nat_eq_self)

lemma finalise_digest:
  assumes c: "absorbed m c" and len: "8 * length m < 2 ^ 64"
  shows "snd (Sha256Finalise c Digest) = fips_sha256 m"
proof -
  let ?l = "leftover m" and ?e = "to_be 8 (8 * length m)" and ?st = "foldl fips_compress IV (blocks m)"
  define c1 where "c1 = c\<lparr>sha_length := sha_length c + of_nat (curlen c * 8), buf := (buf c)[curlen c := 0x80],
    curlen := curlen c + 1\<rparr>"
  have cur: "curlen c = length ?l" "curlen c < 64" "length (buf c) = 64" "take (curlen c) (buf c) = ?l"
    and st: "sha_state c = ?st" using c by (auto simp: absorbed_def leftover_length)
  have e: "STORE64H (of_nat (8 * length m)) = ?e" unfolding STORE64H_be unat_u64 [OF len] ..
  have c1: "length (buf c1) = 64" "take (curlen c1) (buf c1) = ?l @ [0x80]" "curlen c1 = length ?l + 1"
    "sha_length c1 = of_nat (8 * length m)" "sha_state c1 = ?st"
    using cur st total_length [OF c] by (simp_all add: c1_def take_Suc_conv_app_nth)
  have tf: "transform b x = x\<lparr>sha_state := fips_compress (sha_state x) b\<rparr>"
    if "length b = 64" "length (sha_state x) = 8" for b x
    using that by (simp add: transform_def TransformFunction_fips)
  have le: "length ?e = 8" by (simp add: to_be_def)
  show ?thesis
  proof (cases "length ?l \<le> 55")
    case True
    have z: "zero_loop 56 c1 = c1\<lparr>buf := ?l @ 0x80 # replicate (55 - length ?l) 0 @ drop 56 (buf c1), curlen := 56\<rparr>"
      using zero_loop_fills [of c1 56] c1 True by simp
    have b: "take 56 (buf (zero_loop 56 c1)) = ?l @ 0x80 # replicate (55 - length ?l) 0"
      unfolding z using True by (simp add: take_Cons')
    have sl: "STORE64H (sha_length (zero_loop 56 c1)) = ?e" using e by (simp add: z c1(4))
    have "snd (Sha256Finalise c Digest) = concat (map (\<lambda>i. STORE32H (sha_state (transform
        (take 56 (buf (zero_loop 56 c1)) @ STORE64H (sha_length (zero_loop 56 c1)))
        (zero_loop 56 c1\<lparr>buf := take 56 (buf (zero_loop 56 c1)) @ STORE64H (sha_length (zero_loop 56 c1))\<rparr>)) ! i)) [0..<8])"
      unfolding Sha256Finalise_def Let_def c1_def [symmetric] using cur(2) c1(3) True by simp
    note this [unfolded b sl]
    then show ?thesis using True le c1(5) state_length [of "blocks m"]
      by (simp add: tf z digest_be fips_compress_length fips_sha256_def blocks_pad(1) del: upt_rec_numeral)
  next
    case False
    let ?b1 = "?l @ 0x80 # replicate (63 - length ?l) 0"
    have lb1: "length ?b1 = 64" using cur by simp
    have z: "zero_loop 64 c1 = c1\<lparr>buf := ?b1, curlen := 64\<rparr>"
      using zero_loop_fills [of c1 64] c1 cur by simp
    define c2 where "c2 = (transform (buf (zero_loop 64 c1)) (zero_loop 64 c1))\<lparr>curlen := 0\<rparr>"
    have c2: "c2 = c1\<lparr>buf := ?b1, curlen := 0, sha_state := fips_compress ?st ?b1\<rparr>"
      unfolding c2_def using tf [of ?b1 "zero_loop 64 c1"] lb1 c1(5) state_length by (simp add: z)
    have z2: "zero_loop 56 c2 = c2\<lparr>buf := replicate 56 0 @ drop 56 ?b1, curlen := 56\<rparr>"
      using zero_loop_fills [of c2 56] lb1 by (simp add: c2)
    have b: "take 56 (buf (zero_loop 56 c2)) = replicate 56 0" by (simp add: z2)
    have sl: "STORE64H (sha_length (zero_loop 56 c2)) = ?e" unfolding z2 using e c1(4) by (simp add: c2)
    have "snd (Sha256Finalise c Digest) = concat (map (\<lambda>i. STORE32H (sha_state (transform
        (take 56 (buf (zero_loop 56 c2)) @ STORE64H (sha_length (zero_loop 56 c2)))
        (zero_loop 56 c2\<lparr>buf := take 56 (buf (zero_loop 56 c2)) @ STORE64H (sha_length (zero_loop 56 c2))\<rparr>)) ! i)) [0..<8])"
      unfolding Sha256Finalise_def Let_def c1_def [symmetric] c2_def [symmetric] using cur(2) c1(3) False by simp
    note this [unfolded b sl]
    then show ?thesis using False le state_length [of "blocks m"]
      unfolding z2 by (simp add: tf c2 digest_be fips_compress_length fips_sha256_def blocks_pad(2) del: upt_rec_numeral)
  qed
qed

lemma update_absorbs: "absorbed m c \<Longrightarrow> \<exists>c'. Sha256Update c B = Inr c' \<and> absorbed (m @ B) c'"
proof -
  assume c: "absorbed m c"
  then have "curlen c < 64" by (simp add: absorbed_def)
  then show ?thesis using update_loop_absorbs [OF c] by (simp add: Sha256Update_def)
qed

lemma initialised_absorbed: "length (buf c) = 64 \<Longrightarrow> absorbed [] (Sha256Initialise c)"
  by (simp add: absorbed_def Sha256Initialise_def leftover_def blocks_def)

section \<open>Properties\<close>

text \<open>
  C11: For every message whose length in bits fits into 64 bits, and whatever the context held before,
  feeding the message in any number of pieces of any sizes and finishing gives the SHA-256 digest of
  FIPS 180-4 of the whole message.
\<close>

theorem sha256_streaming_is_fips:
  assumes "length (buf context) = 64" "8 * length (concat pieces) < 2 ^ 64"
  shows "bindE (foldE (\<lambda>B c. Sha256Update c B) pieces (Sha256Initialise context))
           (\<lambda>c. Inr (snd (Sha256Finalise c Digest))) = Inr (fips_sha256 (concat pieces))"
proof -
  have "\<exists>c'. foldE (\<lambda>B c. Sha256Update c B) pieces c = Inr c' \<and> absorbed (m @ concat pieces) c'"
    if "absorbed m c" for m c
    using that
  proof (induction pieces arbitrary: m c)
    case (Cons B pieces)
    obtain c1 where "Sha256Update c B = Inr c1" "absorbed (m @ B) c1" using update_absorbs [OF Cons.prems] by blast
    then show ?case using Cons.IH [of "m @ B" c1] by simp
  qed simp
  from this [OF initialised_absorbed [OF assms(1)]] obtain c' where
    "foldE (\<lambda>B c. Sha256Update c B) pieces (Sha256Initialise context) = Inr c'" "absorbed (concat pieces) c'" by auto
  then show ?thesis using finalise_digest assms(2) by simp
qed

theorem sha256_streaming_is_fips_witness:
  "bindE (foldE (\<lambda>B c. Sha256Update c B) [[0x61], [0x62, 0x63]]
      (Sha256Initialise \<lparr>sha_length = 7, sha_state = [], curlen = 9, buf = replicate 64 1\<rparr>))
    (\<lambda>c. Inr (snd (Sha256Finalise c []))) = Inr (fips_sha256 (concat [[0x61], [0x62, 0x63]]))"
  by (rule sha256_streaming_is_fips) simp_all

text \<open>A context as the callers have it on their stack; what it holds before it is initialised does not matter.\<close>

definition fresh_context :: Sha256Context where
  "fresh_context = \<lparr>sha_length = 0, sha_state = [], curlen = 0, buf = replicate 64 0\<rparr>"

lemma sha256_total:
  assumes "8 * length B < 2 ^ 64"
  shows "Sha256Calculate fresh_context B Digest = Inr (fips_sha256 B)"
proof -
  have "absorbed [] (Sha256Initialise fresh_context)" by (rule initialised_absorbed) (simp add: fresh_context_def)
  from update_absorbs [OF this, of B] obtain c where
    "Sha256Update (Sha256Initialise fresh_context) B = Inr c" "absorbed B c" by auto
  then show ?thesis using finalise_digest [of B c] assms by (simp add: Sha256Calculate_def)
qed

lemma sha256_abc_digest:
  "Sha256Calculate fresh_context [0x61, 0x62, 0x63] [] =
     Inr [0xba, 0x78, 0x16, 0xbf, 0x8f, 0x01, 0xcf, 0xea, 0x41, 0x41, 0x40, 0xde, 0x5d, 0xae, 0x22, 0x23, 0xb0, 0x03, 0x61, 0xa3, 0x96, 0x17, 0x7a, 0x9c, 0xb4, 0x10, 0xff, 0x61, 0xf2, 0x00, 0x15, 0xad]"
  by code_simp

text \<open>
  \<open>Sha256Calculate\<close> computes the digest that FIPS 180-4 publishes for the message \<open>abc\<close>.
\<close>

theorem sha256_abc:
  "Sha256Calculate fresh_context [0x61, 0x62, 0x63] [] =
     Inr [0xba, 0x78, 0x16, 0xbf, 0x8f, 0x01, 0xcf, 0xea, 0x41, 0x41, 0x40, 0xde, 0x5d, 0xae, 0x22, 0x23, 0xb0, 0x03, 0x61, 0xa3, 0x96, 0x17, 0x7a, 0x9c, 0xb4, 0x10, 0xff, 0x61, 0xf2, 0x00, 0x15, 0xad]"
  by (rule sha256_abc_digest)

end
