(* ===== verification/Str_Key.thy ===== *)
theory Str_Key
  imports FD_Prelude
begin

text \<open>
  The variable-length keys of the key-value build (\<open>KEYT\<close> of \<^verbatim>\<open>src/include/settings.h\<close> under \<open>KVSSD\<close>) and their
  comparison. A key is its \<open>len\<close> bytes; \<open>len\<close> is a \<open>uint8_t\<close>, so a \<open>KEYT\<close> has at most 255 of them, and what is
  shown here holds for any number. The comparison is the lexicographic order, which makes the
  keys a linear order; the sorted structures of the key-value FTLs rely on it.
\<close>

section \<open>The code\<close>

datatype str_key = Str_Key (key: "u8 list")

abbreviation key_len :: "str_key \<Rightarrow> nat" where
  "key_len k \<equiv> length (key k)"

text \<open>
  \<open>memcmp\<close> of the C library: the sign of the answer is the order of the first bytes that differ, taken
  as \<open>unsigned char\<close>.
\<close>

fun memcmp :: "u8 list \<Rightarrow> u8 list \<Rightarrow> nat \<Rightarrow> int" where
  "memcmp (x # xs) (y # ys) (Suc n) = (if x = y then memcmp xs ys n else uint x - uint y)"
| "memcmp _ _ _ = 0"

definition KEYCMP :: "str_key \<Rightarrow> str_key \<Rightarrow> int" where
  "KEYCMP a b =
     (if key_len a = 0 \<and> key_len b = 0 then 0
      else if key_len a = 0 then - 1
      else if key_len b = 0 then 1
      else
        let r = memcmp (key a) (key b) (if key_len a > key_len b then key_len b else key_len a)
        in if r \<noteq> 0 \<or> key_len a = key_len b then r
           else if key_len a < key_len b then - 1 else 1)"

text \<open>The comparison with a C string, given by the bytes before its end.\<close>

definition KEYCONSTCOMP :: "str_key \<Rightarrow> u8 list \<Rightarrow> int" where
  "KEYCONSTCOMP a s =
     (let len = length s in
      if key_len a = 0 \<and> len = 0 then 0
      else if key_len a = 0 then - 1
      else if len = 0 then 1
      else
        let r = memcmp (key a) s (if key_len a > len then len else key_len a)
        in if r \<noteq> 0 \<or> key_len a = len then r
           else if key_len a < len then - 1 else 1)"

definition KEYTEST :: "str_key \<Rightarrow> str_key \<Rightarrow> bool" where
  "KEYTEST a b =
     (if key_len a \<noteq> key_len b then False
      else memcmp (key a) (key b) (if key_len a > key_len b then key_len b else key_len a) = 0)"

definition KEYVALCHECK :: "str_key \<Rightarrow> bool" where
  "KEYVALCHECK a =
     (if key_len a \<le> 0 then False else if sint (key a ! 0) < 0 then False else True)"

definition kvssd_cpy_key :: "str_key \<Rightarrow> str_key" where
  "kvssd_cpy_key k = Str_Key (take (key_len k) (key k))"

section \<open>The order\<close>

fun bytes_cmp :: "u8 list \<Rightarrow> u8 list \<Rightarrow> int" where
  "bytes_cmp [] [] = 0"
| "bytes_cmp [] (y # ys) = - 1"
| "bytes_cmp (x # xs) [] = 1"
| "bytes_cmp (x # xs) (y # ys) = (if x = y then bytes_cmp xs ys else uint x - uint y)"

lemma uint_eq: "uint x = uint y \<longleftrightarrow> x = y" for x y :: u8
  by (rule iffI, rule unsigned_word_eqI) simp_all

lemma key_eq [simp]: "key a = key b \<longleftrightarrow> a = b"
  by (cases a; cases b) simp

lemma memcmp_bytes:
  "bytes_cmp xs ys =
     (let r = memcmp xs ys (min (length xs) (length ys))
      in if r \<noteq> 0 \<or> length xs = length ys then r else if length xs < length ys then - 1 else 1)"
proof (induction xs ys rule: bytes_cmp.induct)
  case (4 x xs y ys)
  show ?case
  proof (cases "x = y")
    case True
    then show ?thesis using 4 by simp
  next
    case False
    then have "uint x - uint y \<noteq> 0" by (simp add: uint_eq)
    then show ?thesis using False by simp
  qed
qed simp_all

lemma KEYCMP_bytes: "KEYCMP a b = bytes_cmp (key a) (key b)"
proof (cases "key a = [] \<or> key b = []")
  case True
  then show ?thesis by (cases "key a"; cases "key b") (simp_all add: KEYCMP_def)
next
  case False
  have m: "(if key_len a > key_len b then key_len b else key_len a) = min (key_len a) (key_len b)" by simp
  show ?thesis unfolding KEYCMP_def memcmp_bytes m using False by simp
qed

lemma bytes_cmp_zero: "bytes_cmp xs ys = 0 \<longleftrightarrow> xs = ys"
  by (induction xs ys rule: bytes_cmp.induct) (simp_all add: uint_eq)

lemma bytes_cmp_flip: "bytes_cmp ys xs < 0 \<longleftrightarrow> 0 < bytes_cmp xs ys"
  by (induction xs ys rule: bytes_cmp.induct) auto

lemma bytes_cmp_trans: "bytes_cmp xs ys < 0 \<Longrightarrow> bytes_cmp ys zs < 0 \<Longrightarrow> bytes_cmp xs zs < 0"
proof (induction xs ys arbitrary: zs rule: bytes_cmp.induct)
  case (2 y ys)
  then show ?case by (cases zs) auto
next
  case (4 x xs y ys)
  then show ?case by (cases zs) (auto split: if_splits)
qed auto

lemma bytes_cmp_lexord: "bytes_cmp xs ys < 0 \<longleftrightarrow> (xs, ys) \<in> lexord {(x, y). uint x < uint y}"
  by (induction xs ys rule: bytes_cmp.induct) (auto simp: uint_eq)

lemma KEYCMP_zero: "KEYCMP a b = 0 \<longleftrightarrow> a = b"
  by (simp add: KEYCMP_bytes bytes_cmp_zero)

lemma KEYCMP_flip: "0 < KEYCMP a b \<longleftrightarrow> KEYCMP b a < 0"
  unfolding KEYCMP_bytes by (rule bytes_cmp_flip [symmetric])

lemma KEYCMP_trans: "KEYCMP a b < 0 \<Longrightarrow> KEYCMP b c < 0 \<Longrightarrow> KEYCMP a c < 0"
  unfolding KEYCMP_bytes by (rule bytes_cmp_trans)

lemma KEYCMP_order:
  "KEYCMP a b < 0 \<longleftrightarrow> KEYCMP a b \<le> 0 \<and> \<not> KEYCMP b a \<le> 0"
  "KEYCMP a b \<le> 0 \<Longrightarrow> KEYCMP b c \<le> 0 \<Longrightarrow> KEYCMP a c \<le> 0"
  "KEYCMP a b \<le> 0 \<Longrightarrow> KEYCMP b a \<le> 0 \<Longrightarrow> a = b"
  "KEYCMP a b \<le> 0 \<or> KEYCMP b a \<le> 0"
proof -
  show "KEYCMP a b < 0 \<longleftrightarrow> KEYCMP a b \<le> 0 \<and> \<not> KEYCMP b a \<le> 0" using KEYCMP_flip [of b a] by linarith
  show "KEYCMP a c \<le> 0" if "KEYCMP a b \<le> 0" "KEYCMP b c \<le> 0"
    using that KEYCMP_trans [of a b c] KEYCMP_zero [of a b] KEYCMP_zero [of b c]
    by (cases "a = b"; cases "b = c") auto
  show "a = b" if "KEYCMP a b \<le> 0" "KEYCMP b a \<le> 0"
    using that KEYCMP_flip [of b a] KEYCMP_zero [of a b] by linarith
  show "KEYCMP a b \<le> 0 \<or> KEYCMP b a \<le> 0" using KEYCMP_flip [of a b] by linarith
qed

instantiation str_key :: linorder
begin

definition less_str_key :: "str_key \<Rightarrow> str_key \<Rightarrow> bool" where
  "less_str_key a b \<longleftrightarrow> KEYCMP a b < 0"

definition less_eq_str_key :: "str_key \<Rightarrow> str_key \<Rightarrow> bool" where
  "less_eq_str_key a b \<longleftrightarrow> KEYCMP a b \<le> 0"

instance
proof (intro_classes, unfold less_str_key_def less_eq_str_key_def)
  fix a :: str_key
  show "KEYCMP a a \<le> 0" using KEYCMP_zero [of a a] by simp
qed (rule KEYCMP_order; assumption)+

end

lemma KEYCMP_less [simp]: "KEYCMP a b < 0 \<longleftrightarrow> a < b"
  by (simp add: less_str_key_def)

lemma KEYCMP_eq [simp]: "KEYCMP a b = 0 \<longleftrightarrow> a = b"
  by (rule KEYCMP_zero)

lemma KEYCMP_greater [simp]: "0 < KEYCMP a b \<longleftrightarrow> b < a"
  unfolding less_str_key_def by (rule KEYCMP_flip)

lemma KEYTEST_eq: "KEYTEST a b \<longleftrightarrow> a = b"
proof -
  have "memcmp xs ys (length xs) = 0 \<longleftrightarrow> xs = ys" if "length xs = length ys" for xs ys
    using that by (induction xs ys rule: list_induct2) (simp_all add: uint_eq)
  then show ?thesis by (auto simp: KEYTEST_def)
qed

section \<open>Properties\<close>

text \<open>
  C28: \<open>KEYCMP\<close> is the comparison of the lexicographic order of the bytes, taken as unsigned numbers: it is negative
  exactly when the first byte that differs is smaller or the first key is a proper prefix of the second.
  Hence it is zero exactly on equal keys, its sign turns around when the arguments are exchanged, and it is
  transitive; \<open>KEYTEST\<close> and \<open>KEYCONSTCOMP\<close> agree with it.
\<close>

theorem keycmp_is_a_linear_order:
  "(KEYCMP a b < 0 \<longleftrightarrow> (key a, key b) \<in> lexord {(x, y). uint x < uint y}) \<and>
   (KEYCMP a b = 0 \<longleftrightarrow> key a = key b) \<and> (KEYCMP a b < 0 \<longleftrightarrow> 0 < KEYCMP b a) \<and>
   (KEYCMP a b < 0 \<and> KEYCMP b c < 0 \<longrightarrow> KEYCMP a c < 0) \<and>
   (s \<noteq> [] \<longrightarrow> KEYCMP a (Str_Key (key a @ s)) < 0) \<and>
   (KEYTEST a b \<longleftrightarrow> KEYCMP a b = 0) \<and> KEYCONSTCOMP a s = KEYCMP a (Str_Key s)"
proof -
  have "bytes_cmp xs (xs @ s) < 0" if "s \<noteq> []" for xs using that by (induction xs) (auto simp: neq_Nil_conv)
  then have "s \<noteq> [] \<longrightarrow> KEYCMP a (Str_Key (key a @ s)) < 0"
    unfolding KEYCMP_bytes str_key.sel by blast
  moreover have "KEYCONSTCOMP a s = KEYCMP a (Str_Key s)" unfolding KEYCONSTCOMP_def KEYCMP_def str_key.sel Let_def ..
  moreover have "KEYCMP a b < 0 \<longleftrightarrow> (key a, key b) \<in> lexord {(x, y). uint x < uint y}" unfolding KEYCMP_bytes by (rule bytes_cmp_lexord)
  ultimately show ?thesis unfolding KEYTEST_eq KEYCMP_eq KEYCMP_less KEYCMP_greater key_eq
    by (auto intro: order_less_trans)
qed

theorem keycmp_is_a_linear_order_witness:
  "KEYCMP (Str_Key [1]) (Str_Key [1, 2]) < 0 \<and> KEYCMP (Str_Key [1, 2]) (Str_Key [3]) < 0 \<and>
   KEYCMP (Str_Key [1]) (Str_Key [3]) < 0"
proof -
  have "KEYCMP (Str_Key [1]) (Str_Key [1, 2]) < 0" "KEYCMP (Str_Key [1, 2]) (Str_Key [3]) < 0"
    unfolding KEYCMP_bytes str_key.sel by simp_all
  then show ?thesis
    using keycmp_is_a_linear_order [of "Str_Key [1]" "Str_Key [1, 2]" "Str_Key [3]" "[]"] by blast
qed

end
