(* ===== verification/Bloom_Filter.thy ===== *)
theory Bloom_Filter
  imports Str_Key
begin

text \<open>
  The bloom filter of the LSM tree (\<^verbatim>\<open>src/algorithm/Lsmtree/bloomfilter.c\<close>) in its key-value build: the
  hash functions, setting and checking. The number of bits \<open>m\<close> and of hash functions \<open>k\<close>, which
  \<open>bf_init\<close> computes in floating point from the number of entries and the rate of false positives,
  are arguments of the model.
\<close>

unbundle bit_operations_syntax

section \<open>The code\<close>

definition BITSET :: "u8 \<Rightarrow> nat \<Rightarrow> u8" where
  "BITSET input offset = input OR push_bit offset 1"

definition BITGET :: "u8 \<Rightarrow> nat \<Rightarrow> bool" where
  "BITGET input offset = (input AND push_bit offset 1 \<noteq> 0)"

definition rotl32 :: "u32 \<Rightarrow> nat \<Rightarrow> u32" where
  "rotl32 x r = push_bit r x OR drop_bit (32 - r) x"

definition fmix32 :: "u32 \<Rightarrow> u32" where
  "fmix32 h0 =
     (let h1 = h0 XOR drop_bit 16 h0;
          h2 = h1 * 0x85ebca6b;
          h3 = h2 XOR drop_bit 13 h2;
          h4 = h3 * 0xc2b2ae35
      in h4 XOR drop_bit 16 h4)"

text \<open>\<open>getblock\<close>: four bytes read as a little-endian \<open>uint32_t\<close>.\<close>

definition getblock :: "u8 list \<Rightarrow> nat \<Rightarrow> u32" where
  "getblock data i =
     ucast (data ! (4 * i)) OR push_bit 8 (ucast (data ! (4 * i + 1))) OR
     push_bit 16 (ucast (data ! (4 * i + 2))) OR push_bit 24 (ucast (data ! (4 * i + 3)))"

definition mix_block :: "u32 \<Rightarrow> u32" where
  "mix_block k1 = rotl32 (k1 * 0xcc9e2d51) 15 * 0x1b873593"

definition MurmurHash3_x86_32 :: "u8 list \<Rightarrow> u32 \<Rightarrow> u32" where
  "MurmurHash3_x86_32 data seed =
     (let len = length data;
          nblocks = len div 4;
          h1 = fold (\<lambda>i h. rotl32 (h XOR mix_block (getblock data i)) 13 * 5 + 0xe6546b64) [0..<nblocks] seed;
          tail = drop (nblocks * 4) data;
          k3 = (if len mod 4 \<ge> 3 then push_bit 16 (ucast (tail ! 2)) else 0);
          k2 = (if len mod 4 \<ge> 2 then k3 XOR push_bit 8 (ucast (tail ! 1)) else k3);
          h2 = (if len mod 4 \<ge> 1 then h1 XOR mix_block (k2 XOR ucast (tail ! 0)) else h1)
      in fmix32 (h2 XOR of_nat len))"

definition hashfunction :: "u32 \<Rightarrow> u32" where
  "hashfunction key0 =
     (let key1 = key0 XOR drop_bit 15 key0;
          key2 = key1 * 0x2c1b3c6d;
          key3 = key2 XOR drop_bit 12 key2;
          key4 = key3 * 0x297a2d39
      in key4 XOR drop_bit 15 key4)"

record BF =
  bf_k :: nat
  bf_m :: nat
  bf_targetsize :: nat
  bf_n :: nat
  bf_body :: "u8 list"

text \<open>
  \<open>above1\<close> is the test \<open>fpr>1\<close>. A filter has fewer than \<open>2 ^ 34\<close> bits, so the number of its bytes is an \<open>int\<close>.
\<close>

definition bf_init :: "bool \<Rightarrow> nat \<Rightarrow> nat \<Rightarrow> nat \<Rightarrow> BF option" where
  "bf_init above1 entry m k =
     (if above1 then None
      else let targetsize = (if m mod 8 \<noteq> 0 then m div 8 + 1 else m div 8)
           in Some \<lparr>bf_k = k, bf_m = m, bf_targetsize = targetsize, bf_n = entry, bf_body = replicate targetsize 0\<rparr>)"

definition bf_cpy :: "BF option \<Rightarrow> BF option" where
  "bf_cpy src = (case src of None \<Rightarrow> None | Some b \<Rightarrow> Some (b\<lparr>bf_body := take (bf_targetsize b) (bf_body b)\<rparr>))"

text \<open>The bit of the \<open>i\<close>-th hash function. The division traps when the filter has no bits.\<close>

definition bf_bit :: "BF \<Rightarrow> u32 \<Rightarrow> nat \<Rightarrow> nat res" where
  "bf_bit input th i =
     (if bf_m input = 0 then Inl Abort
      else Inr (unat (hashfunction (th OR push_bit 7 (of_nat i))) mod bf_m input))"

definition bf_set :: "BF option \<Rightarrow> str_key \<Rightarrow> BF option res" where
  "bf_set bf kv =
     bindE (case bf of None \<Rightarrow> Inl Abort | Some b \<Rightarrow> Inr b) (\<lambda>input.
       let th = MurmurHash3_x86_32 (key kv) 2 in
       bindE (foldE (\<lambda>i inp.
                bindE (bf_bit inp th i) (\<lambda>h.
                bindE (index (bf_body inp) (h div 8)) (\<lambda>c.
                  Inr (inp\<lparr>bf_body := (bf_body inp)[h div 8 := BITSET c (h mod 8)]\<rparr>))))
                [0..<bf_k input] input) (\<lambda>b. Inr (Some b)))"

fun check_loop :: "BF \<Rightarrow> u32 \<Rightarrow> nat list \<Rightarrow> bool res" where
  "check_loop input th [] = Inr True"
| "check_loop input th (i # is) =
     bindE (bf_bit input th i) (\<lambda>h.
     bindE (index (bf_body input) (h div 8)) (\<lambda>c.
       if \<not> BITGET c (h mod 8) then Inr False else check_loop input th is))"

definition bf_check :: "BF option \<Rightarrow> str_key \<Rightarrow> bool res" where
  "bf_check bf kv =
     (case bf of
        None \<Rightarrow> Inr True
      | Some input \<Rightarrow> check_loop input (MurmurHash3_x86_32 (key kv) 2) [0..<bf_k input])"

section \<open>Bits\<close>

lemma BITGET_bit: "n < 8 \<Longrightarrow> BITGET c n = bit c n"
proof -
  assume n: "n < 8"
  have e: "c AND push_bit n 1 = (if bit c n then push_bit n 1 else 0)"
    by (rule bit_word_eqI) (auto simp: bit_simps)
  have "push_bit n 1 \<noteq> (0 :: u8)" using n by (simp add: push_bit_of_1 exp_eq_zero_iff)
  then show ?thesis unfolding BITGET_def e by simp
qed

lemma BITGET_BITSET: "m < 8 \<Longrightarrow> n < 8 \<Longrightarrow> BITGET (BITSET c m) n = (n = m \<or> BITGET c n)"
  by (auto simp: BITGET_bit BITSET_def bit_simps)

text \<open>The filter as a set of bit numbers, and the bits of a key.\<close>

definition bf_bits_set :: "BF \<Rightarrow> nat set" where
  "bf_bits_set b = {h. h < bf_m b \<and> BITGET (bf_body b ! (h div 8)) (h mod 8)}"

definition bf_ok :: "BF \<Rightarrow> bool" where
  "bf_ok b \<longleftrightarrow> 0 < bf_m b \<and> bf_targetsize b = length (bf_body b) \<and> bf_m b \<le> 8 * length (bf_body b)"

definition bits_of :: "BF \<Rightarrow> str_key \<Rightarrow> nat set" where
  "bits_of b kv =
     (\<lambda>i. unat (hashfunction (MurmurHash3_x86_32 (key kv) 2 OR push_bit 7 (of_nat i))) mod bf_m b) ` {0..<bf_k b}"

lemma bf_init_ok:
  assumes "0 < m"
  shows "\<exists>b. bf_init False n m k = Some b \<and> bf_ok b \<and> bf_bits_set b = {}"
proof -
  let ?t = "if m mod 8 \<noteq> 0 then m div 8 + 1 else m div 8"
  have t: "m \<le> 8 * ?t"
  proof (cases "m mod 8 = 0")
    case True
    then show ?thesis using div_mult_mod_eq [of m 8] by simp
  next
    case False
    then have "8 * ?t = m div 8 * 8 + 8" by simp
    moreover have "m mod 8 < 8" by simp
    ultimately show ?thesis using div_mult_mod_eq [of m 8] by linarith
  qed
  then have "bf_ok (the (bf_init False n m k))" using assms by (simp add: bf_ok_def bf_init_def Let_def)
  moreover have "h div 8 < ?t" if "h < m" for h using that t by linarith
  then have "bf_bits_set (the (bf_init False n m k)) = {}"
    by (auto simp: bf_bits_set_def bf_init_def Let_def BITGET_def)
  ultimately show ?thesis by (simp add: bf_init_def Let_def)
qed

lemma set_bit_step:
  assumes ok: "bf_ok b" and h: "h < bf_m b"
  shows "\<exists>b'. bindE (index (bf_body b) (h div 8)) (\<lambda>c.
                Inr (b\<lparr>bf_body := (bf_body b)[h div 8 := BITSET c (h mod 8)]\<rparr>)) = Inr b' \<and> bf_ok b' \<and>
           bf_m b' = bf_m b \<and> bf_k b' = bf_k b \<and> bf_bits_set b' = insert h (bf_bits_set b)"
proof -
  have l: "h div 8 < length (bf_body b)" using ok h unfolding bf_ok_def by linarith
  let ?b = "b\<lparr>bf_body := (bf_body b)[h div 8 := BITSET (bf_body b ! (h div 8)) (h mod 8)]\<rparr>"
  have "g \<in> bf_bits_set ?b \<longleftrightarrow> g = h \<or> g \<in> bf_bits_set b" for g
  proof (cases "g div 8 = h div 8")
    case True
    then have "g mod 8 = h mod 8 \<longleftrightarrow> g = h" by (metis div_mult_mod_eq)
    then show ?thesis using True l h by (auto simp: bf_bits_set_def BITGET_BITSET)
  next
    case False
    then show ?thesis by (auto simp: bf_bits_set_def)
  qed
  then have "bf_bits_set ?b = insert h (bf_bits_set b)" by blast
  then show ?thesis using l ok by (simp add: index_def bf_ok_def)
qed

lemma bf_set_ok:
  assumes ok: "bf_ok b"
  shows "\<exists>b'. bf_set (Some b) kv = Inr (Some b') \<and> bf_ok b' \<and> bf_m b' = bf_m b \<and> bf_k b' = bf_k b \<and>
           bf_bits_set b' = bf_bits_set b \<union> bits_of b kv"
proof -
  let ?th = "MurmurHash3_x86_32 (key kv) 2"
  let ?h = "\<lambda>i. unat (hashfunction (?th OR push_bit 7 (of_nat i))) mod bf_m b"
  let ?P = "\<lambda>n b'. bf_ok b' \<and> bf_m b' = bf_m b \<and> bf_k b' = bf_k b \<and> bf_bits_set b' = bf_bits_set b \<union> ?h ` {0..<n}"
  have "\<exists>b'. foldE (\<lambda>i inp. bindE (bf_bit inp ?th i) (\<lambda>h. bindE (index (bf_body inp) (h div 8)) (\<lambda>c.
      Inr (inp\<lparr>bf_body := (bf_body inp)[h div 8 := BITSET c (h mod 8)]\<rparr>)))) [0..<bf_k b] b = Inr b' \<and> ?P (bf_k b) b'"
  proof (rule foldE_upt [where P = ?P])
    show "?P 0 b" using ok by simp
    fix i b1
    assume i: "i < bf_k b" and P: "?P i b1"
    have bit: "bf_bit b1 ?th i = Inr (?h i)" using P ok by (simp add: bf_bit_def bf_ok_def)
    have "?h i < bf_m b1" using P ok by (simp add: bf_ok_def)
    from set_bit_step [OF _ this] P bit
    show "\<exists>t'. bindE (bf_bit b1 ?th i) (\<lambda>h. bindE (index (bf_body b1) (h div 8)) (\<lambda>c.
        Inr (b1\<lparr>bf_body := (bf_body b1)[h div 8 := BITSET c (h mod 8)]\<rparr>))) = Inr t' \<and> ?P (Suc i) t'"
      by (auto simp: atLeast0_lessThan_Suc)
  qed
  then show ?thesis by (auto simp: bf_set_def bits_of_def)
qed

lemma bf_check_ok:
  assumes ok: "bf_ok b"
  shows "bf_check (Some b) kv = Inr (bits_of b kv \<subseteq> bf_bits_set b)"
proof -
  let ?th = "MurmurHash3_x86_32 (key kv) 2"
  let ?h = "\<lambda>i. unat (hashfunction (?th OR push_bit 7 (of_nat i))) mod bf_m b"
  have "check_loop b ?th is = Inr (\<forall>i \<in> set is. ?h i \<in> bf_bits_set b)" for "is"
  proof (induction "is")
    case (Cons i "is")
    have h: "?h i < bf_m b" using ok by (simp add: bf_ok_def)
    then have "?h i div 8 < length (bf_body b)" using ok unfolding bf_ok_def by linarith
    then show ?case using Cons ok h by (simp add: bf_bit_def bf_ok_def index_def bf_bits_set_def)
  qed simp
  then show ?thesis by (auto simp: bf_check_def bits_of_def)
qed

section \<open>The hash functions lose nothing\<close>

definition unshift :: "nat \<Rightarrow> u32 \<Rightarrow> u32" where
  "unshift s y = y XOR drop_bit s y XOR drop_bit (s + s) y"

lemma unshift: "32 \<le> s + s + s \<Longrightarrow> unshift s (x XOR drop_bit s x) = x"
proof (rule bit_word_eqI)
  fix n
  assume "32 \<le> s + s + s" "n < LENGTH(32)"
  then have "\<not> bit x (s + s + s + n)" using bit_imp_le_length [of x "s + s + s + n"] by auto
  then have "\<not> bit x (n + (s + (s + s)))" by (simp only: ac_simps not_False_eq_True)
  then show "bit (unshift s (x XOR drop_bit s x)) n = bit x n"
    by (auto simp: unshift_def bit_simps ac_simps)
qed

text \<open>Multiplication by an odd constant is undone by its inverse modulo \<open>2 ^ 32\<close>.\<close>

definition unhash :: "u32 \<Rightarrow> u32" where
  "unhash y = unshift 15 (unshift 12 (unshift 15 y * 0x0cf0b109) * 0x64ea2d65)"

lemma odd_inverses:
  "(0x2c1b3c6d :: u32) * 0x64ea2d65 = 1" "(0x297a2d39 :: u32) * 0x0cf0b109 = 1"
  by simp_all

lemma unhash: "unhash (hashfunction x) = x"
proof -
  have m: "y * 0x297a2d39 * 0x0cf0b109 = y" "y * 0x2c1b3c6d * 0x64ea2d65 = y" for y :: u32
    unfolding mult.assoc odd_inverses by simp_all
  show ?thesis unfolding unhash_def hashfunction_def Let_def by (simp only: unshift m)
qed

section \<open>Properties\<close>

definition bf_set_all :: "str_key list \<Rightarrow> BF option \<Rightarrow> BF option res" where
  "bf_set_all ks b = foldE (\<lambda>k f. bf_set f k) ks b"

lemma bf_set_all_ok:
  assumes "bf_ok b"
  shows "\<exists>b'. bf_set_all ks (Some b) = Inr (Some b') \<and> bf_ok b' \<and> bf_m b' = bf_m b \<and> bf_k b' = bf_k b \<and>
           bf_bits_set b' = bf_bits_set b \<union> (\<Union>k \<in> set ks. bits_of b k)"
  using assms
proof (induction ks arbitrary: b)
  case (Cons k ks)
  obtain b1 where b1: "bf_set (Some b) k = Inr (Some b1)" "bf_ok b1" "bf_m b1 = bf_m b" "bf_k b1 = bf_k b"
    "bf_bits_set b1 = bf_bits_set b \<union> bits_of b k" using bf_set_ok [OF Cons.prems] by blast
  have "bits_of b1 = bits_of b" using b1 by (simp add: bits_of_def fun_eq_iff)
  then show ?case using Cons.IH [OF b1(2)] b1 by (auto simp: bf_set_all_def)
qed (simp add: bf_set_all_def)

text \<open>
  C27: The filter has no false negatives. In a new filter with at least one bit, after setting any keys,
  \<open>bf_check\<close> answers true for each of them, on the filter and on a copy of it. It answers true for
  another key only when every bit of that key is a bit of one of the keys that were set. No access
  leaves the bit array.
\<close>

theorem bloom_no_false_negatives:
  assumes "0 < m"
  shows "\<exists>b. bf_set_all ks (bf_init False n m k) = Inr (Some b) \<and>
    (\<forall>kv. bf_check (Some b) kv = Inr (bits_of b kv \<subseteq> (\<Union>x \<in> set ks. bits_of b x)) \<and>
          bf_check (bf_cpy (Some b)) kv = bf_check (Some b) kv) \<and>
    (\<forall>kv \<in> set ks. bf_check (Some b) kv = Inr True)"
proof -
  obtain b0 where b0: "bf_init False n m k = Some b0" "bf_ok b0" "bf_bits_set b0 = {}" using bf_init_ok [OF assms] by blast
  obtain b where b: "bf_set_all ks (bf_init False n m k) = Inr (Some b)" "bf_ok b" "bf_m b = bf_m b0" "bf_k b = bf_k b0"
    "bf_bits_set b = (\<Union>x \<in> set ks. bits_of b0 x)"
    using bf_set_all_ok [OF b0(2), of ks] b0(1,3) by auto
  have e: "bits_of b0 = bits_of b" using b(3,4) by (simp add: bits_of_def fun_eq_iff)
  have "bf_cpy (Some b) = Some b" using b(2) by (simp add: bf_cpy_def bf_ok_def)
  then show ?thesis using b(1) bf_check_ok [OF b(2)] unfolding b(5) e by auto
qed

theorem bloom_no_false_negatives_witness:
  "\<exists>b. bf_set_all [Str_Key [1, 2], Str_Key [3]] (bf_init False 2 20 3) = Inr (Some b) \<and>
    (\<forall>kv. bf_check (Some b) kv = Inr (bits_of b kv \<subseteq> (\<Union>x \<in> set [Str_Key [1, 2], Str_Key [3]]. bits_of b x)) \<and>
          bf_check (bf_cpy (Some b)) kv = bf_check (Some b) kv) \<and>
    (\<forall>kv \<in> set [Str_Key [1, 2], Str_Key [3]]. bf_check (Some b) kv = Inr True)"
  by (rule bloom_no_false_negatives) simp

text \<open>
  C39: \<open>hashfunction\<close> is a bijection of the 32-bit words, so it never makes two different inputs collide
  before the reduction modulo the number of bits.
\<close>

theorem hashfunction_bij: "bij hashfunction"
proof -
  have "inj hashfunction" using unhash by (metis injI)
  then show ?thesis by (simp add: bij_def finite_UNIV_inj_surj)
qed

end
