(* ===== verification/Hash_Kv.thy ===== *)
theory Hash_Kv
  imports Sha256 Str_Key
begin

text \<open>
  The open-addressing hash table for string keys (\<^verbatim>\<open>src/include/data_struct/hash_kv.c\<close>). A key is hashed with
  SHA-256 and looked for in ten slots, each computed from the hash of the one before.
\<close>

unbundle bit_operations_syntax

section \<open>The code\<close>

definition hash_function :: "u32 \<Rightarrow> u32" where
  "hash_function a0 =
     (let a1 = (a0 + 0x7ed55d16) + push_bit 12 a0;
          a2 = (a1 XOR 0xc761c23c) XOR drop_bit 19 a1;
          a3 = (a2 + 0x165667b1) + push_bit 5 a2;
          a4 = (a3 + 0xd3a2646c) XOR push_bit 9 a3;
          a5 = (a4 + 0xfd7046c5) + push_bit 3 a4
      in (a5 XOR 0xb55a4f09) XOR drop_bit 16 a5)"

definition MULTIFACTOR :: nat where "MULTIFACTOR = 5"

record ('d, 'p) hash_node =
  nd_inter :: "'p option"
  nd_data :: "'d option"
  nd_idx :: nat
  nd_key :: u32
  nd_kv :: str_key

record ('d, 'p) hash =
  h_table :: "('d, 'p) hash_node list"
  n_size :: int
  m_size :: nat
  table_size :: nat

text \<open>
  \<open>size*MULTIFACTOR\<close> is computed on \<open>uint32_t\<close>; tables have fewer than \<open>2 ^ 32\<close> slots, so it does not wrap. The data of an
  entry is a pointer, \<open>None\<close> for NULL; callers insert non-NULL data.
\<close>

definition hash_init :: "nat \<Rightarrow> ('d, 'p) hash" where
  "hash_init sz =
     \<lparr>h_table = map (\<lambda>i. \<lparr>nd_inter = None, nd_data = None, nd_idx = i, nd_key = 0, nd_kv = Str_Key []\<rparr>)
                  [0..<sz * MULTIFACTOR],
      n_size = 0, m_size = sz, table_size = sz * MULTIFACTOR\<rparr>"

definition hashing_key :: "str_key \<Rightarrow> u32 res" where
  "hashing_key k =
     bindE (Sha256Calculate fresh_context (key k) []) (\<lambda>bytes.
       let bytes_arr = map (\<lambda>i. LOAD32H (drop (i * 4) bytes)) [0..<8]
       in Inr (fold (\<lambda>i hashkey. hashkey XOR bytes_arr ! i) [1..<8] (bytes_arr ! 0)))"

text \<open>The slot of a probe, \<open>h_key%(h->m_size*MULTIFACTOR)\<close>; the division traps when the table is empty.\<close>

definition slot :: "('d, 'p) hash \<Rightarrow> u32 \<Rightarrow> nat res" where
  "slot h h_key =
     (if m_size h = 0 then Inl Abort else Inr (unat h_key mod (m_size h * MULTIFACTOR)))"

text \<open>
  The probing loop of \<open>__hash_insert\<close> with \<open>n\<close> rounds to go; the answer is the return value, the data
  that was replaced (\<open>*updated\<close>) and the table.
\<close>

fun insert_loop ::
  "('d, 'p) hash \<Rightarrow> str_key \<Rightarrow> 'd \<Rightarrow> 'p option \<Rightarrow> u32 \<Rightarrow> nat \<Rightarrow> u32 \<Rightarrow> nat \<Rightarrow>
     (nat \<times> 'd option \<times> ('d, 'p) hash) res" where
  "insert_loop h kv data inter_ptr org_key 0 k res = Inr (res, None, h\<lparr>n_size := n_size h + 1\<rparr>)"
| "insert_loop h kv data inter_ptr org_key (Suc n) k res =
     (let h_key = hash_function k in
      bindE (slot h h_key) (\<lambda>res.
      bindE (index (h_table h) res) (\<lambda>node.
        if nd_data node \<noteq> None then
          if nd_key node = org_key \<and> KEYCMP (nd_kv node) kv = 0 then
            Inr (table_size h + res, nd_data node,
                 h\<lparr>h_table := (h_table h)[res := node\<lparr>nd_data := Some data, nd_key := org_key,
                                                       nd_inter := inter_ptr\<rparr>]\<rparr>)
          else insert_loop h kv data inter_ptr org_key n h_key res
        else
          Inr (res, None,
               h\<lparr>h_table := (h_table h)[res := node\<lparr>nd_data := Some data, nd_key := org_key,
                                                     nd_inter := inter_ptr, nd_kv := kv\<rparr>],
                 n_size := n_size h + 1\<rparr>))))"

definition hash_insert ::
  "('d, 'p) hash \<Rightarrow> str_key \<Rightarrow> 'd \<Rightarrow> 'p option \<Rightarrow> (nat \<times> 'd option \<times> ('d, 'p) hash) res" where
  "hash_insert h kv data inter_ptr =
     (if n_size h = int (m_size h) then Inr (0, None, h)
      else bindE (hashing_key kv) (\<lambda>k. insert_loop h kv data inter_ptr k (2 * MULTIFACTOR) k 0))"

fun find_loop :: "('d, 'p) hash \<Rightarrow> str_key \<Rightarrow> u32 \<Rightarrow> nat \<Rightarrow> u32 \<Rightarrow> nat option res" where
  "find_loop h kv org_key 0 k = Inr None"
| "find_loop h kv org_key (Suc n) k =
     (let h_key = hash_function k in
      bindE (slot h h_key) (\<lambda>res.
      bindE (index (h_table h) res) (\<lambda>node.
        if nd_data node = None then find_loop h kv org_key n h_key
        else if nd_key node = org_key \<and> KEYCMP (nd_kv node) kv = 0 then Inr (Some res)
        else find_loop h kv org_key n h_key)))"

definition hash_find_node :: "('d, 'p) hash \<Rightarrow> str_key \<Rightarrow> nat option res" where
  "hash_find_node h kv = bindE (hashing_key kv) (\<lambda>k. find_loop h kv k (2 * MULTIFACTOR) k)"

definition hash_find_data :: "('d, 'p) hash \<Rightarrow> str_key \<Rightarrow> 'd option res" where
  "hash_find_data h kv =
     bindE (hash_find_node h kv) (\<lambda>node.
       case node of
         None \<Rightarrow> Inr None
       | Some r \<Rightarrow> bindE (index (h_table h) r) (\<lambda>n. Inr (nd_data n)))"

text \<open>Emptying a node, as both deletions do, and the pointer they return.\<close>

definition clear_node :: "('d, 'p) hash \<Rightarrow> nat \<Rightarrow> ('p option \<times> ('d, 'p) hash) res" where
  "clear_node h r =
     bindE (index (h_table h) r) (\<lambda>node.
       Inr (nd_inter node,
            h\<lparr>h_table := (h_table h)[r := node\<lparr>nd_inter := None, nd_data := None, nd_key := 0\<rparr>],
              n_size := n_size h - 1\<rparr>))"

definition hash_delete_by_key :: "('d, 'p) hash \<Rightarrow> str_key \<Rightarrow> ('p option \<times> ('d, 'p) hash) res" where
  "hash_delete_by_key h kv = bindE (hash_find_node h kv) (\<lambda>node. bindE (deref node) (clear_node h))"

definition hash_get_node :: "('d, 'p) hash \<Rightarrow> nat \<Rightarrow> nat res" where
  "hash_get_node h idx = (if idx < length (h_table h) then Inr idx else Inl Bad_Access)"

definition hash_delete_by_idx :: "('d, 'p) hash \<Rightarrow> nat \<Rightarrow> ('p option \<times> ('d, 'p) hash) res" where
  "hash_delete_by_idx h idx = bindE (hash_get_node h idx) (clear_node h)"

section \<open>The slots of a key\<close>

fun probes :: "nat \<Rightarrow> nat \<Rightarrow> u32 \<Rightarrow> nat list" where
  "probes m 0 k = []"
| "probes m (Suc n) k = unat (hash_function k) mod (m * MULTIFACTOR) # probes m n (hash_function k)"

definition holds :: "('d, 'p) hash \<Rightarrow> str_key \<Rightarrow> u32 \<Rightarrow> nat \<Rightarrow> bool" where
  "holds h kv k r \<longleftrightarrow> nd_data (h_table h ! r) \<noteq> None \<and> nd_key (h_table h ! r) = k \<and> nd_kv (h_table h ! r) = kv"

definition hash_ok :: "('d, 'p) hash \<Rightarrow> bool" where
  "hash_ok h \<longleftrightarrow> 0 < m_size h \<and> length (h_table h) = m_size h * MULTIFACTOR \<and> table_size h = m_size h * MULTIFACTOR"

lemma probes_range: "0 < m \<Longrightarrow> r \<in> set (probes m n k) \<Longrightarrow> r < m * MULTIFACTOR"
  by (induction n arbitrary: k) (auto simp: MULTIFACTOR_def)

lemma find_loop_probes:
  "hash_ok h \<Longrightarrow> find_loop h kv org n k = Inr (List.find (holds h kv org) (probes (m_size h) n k))"
proof (induction n arbitrary: k)
  case (Suc n)
  have "unat (hash_function k) mod (m_size h * MULTIFACTOR) < m_size h * MULTIFACTOR"
    using Suc.prems by (simp add: hash_ok_def MULTIFACTOR_def)
  then show ?case using Suc by (simp add: slot_def index_def hash_ok_def holds_def Let_def)
qed simp

lemma hashing_key_total:
  assumes "key_len kv < 256"
  shows "\<exists>k. hashing_key kv = Inr k"
  using assms by (simp add: hashing_key_def sha256_total Let_def)

definition usable :: "('d, 'p) hash \<Rightarrow> str_key \<Rightarrow> u32 \<Rightarrow> nat \<Rightarrow> bool" where
  "usable h kv k r \<longleftrightarrow> nd_data (h_table h ! r) = None \<or> holds h kv k r"

text \<open>The table with the data of a key put into slot \<open>r\<close>.\<close>

definition put :: "('d, 'p) hash \<Rightarrow> str_key \<Rightarrow> 'd \<Rightarrow> 'p option \<Rightarrow> u32 \<Rightarrow> nat \<Rightarrow> ('d, 'p) hash" where
  "put h kv d p k r =
     h\<lparr>h_table := (h_table h)[r := (h_table h ! r)\<lparr>nd_data := Some d, nd_key := k, nd_inter := p, nd_kv := kv\<rparr>],
       n_size := (if nd_data (h_table h ! r) = None then n_size h + 1 else n_size h)\<rparr>"

lemma insert_loop_probes:
  assumes "hash_ok h"
  shows "insert_loop h kv d p org n k res =
    (case List.find (usable h kv org) (probes (m_size h) n k) of
       None \<Rightarrow> Inr (last (res # probes (m_size h) n k), None, h\<lparr>n_size := n_size h + 1\<rparr>)
     | Some r \<Rightarrow> Inr (if nd_data (h_table h ! r) = None then r else table_size h + r,
                    nd_data (h_table h ! r), put h kv d p org r))"
proof (induction n arbitrary: k res)
  case (Suc n)
  let ?r = "unat (hash_function k) mod (m_size h * MULTIFACTOR)"
  have r: "?r < length (h_table h)" using assms by (simp add: hash_ok_def MULTIFACTOR_def)
  have s: "slot h (hash_function k) = Inr ?r" using assms by (simp add: slot_def hash_ok_def)
  have same: "nd_kv node = kv \<Longrightarrow> node\<lparr>nd_data := x, nd_key := y, nd_inter := z, nd_kv := kv\<rparr> =
      node\<lparr>nd_data := x, nd_key := y, nd_inter := z\<rparr>" for node :: "('a, 'b) hash_node" and x y z by auto
  consider (empty) "nd_data (h_table h ! ?r) = None" | (match) "holds h kv org ?r"
    | (other) "nd_data (h_table h ! ?r) \<noteq> None" "\<not> holds h kv org ?r" by (auto simp: holds_def)
  then show ?case
  proof cases
    case empty
    then show ?thesis using r s by (simp add: Let_def index_def usable_def put_def)
  next
    case match
    then have "insert_loop h kv d p org (Suc n) k res = Inr (table_size h + ?r, nd_data (h_table h ! ?r),
        h\<lparr>h_table := (h_table h)[?r := (h_table h ! ?r)\<lparr>nd_data := Some d, nd_key := org, nd_inter := p\<rparr>]\<rparr>)"
      using r s by (simp add: Let_def index_def holds_def)
    moreover have "put h kv d p org ?r =
        h\<lparr>h_table := (h_table h)[?r := (h_table h ! ?r)\<lparr>nd_data := Some d, nd_key := org, nd_inter := p\<rparr>]\<rparr>"
      using match by (simp add: put_def holds_def same)
    moreover have "nd_data (h_table h ! ?r) \<noteq> None" using match by (simp add: holds_def)
    moreover have "List.find (usable h kv org) (probes (m_size h) (Suc n) k) = Some ?r"
      using match by (simp add: usable_def)
    ultimately show ?thesis by (simp del: insert_loop.simps probes.simps) auto
  next
    case other
    then show ?thesis using r s Suc by (auto simp: Let_def index_def usable_def holds_def split: option.splits)
  qed
qed simp

lemma find_first:
  "List.find P xs = Some r \<Longrightarrow> Q r \<Longrightarrow> (\<And>x. Q x \<Longrightarrow> P x) \<Longrightarrow> List.find Q xs = Some r"
  by (induction xs) (auto split: if_splits)

lemma find_SomeD: "List.find P xs = Some r \<Longrightarrow> r \<in> set xs \<and> P r"
  by (induction xs) (auto split: if_splits)

lemma put_holds:
  assumes "r < length (h_table h)"
  shows "holds (put h kv d p k r) kv k x = (x = r \<or> holds h kv k x)"
    and "usable h kv k r \<Longrightarrow> kv2 \<noteq> kv \<Longrightarrow> holds (put h kv d p k r) kv2 k2 x = holds h kv2 k2 x"
  using assms by (auto simp: holds_def put_def usable_def nth_list_update)

lemma hash_find_data_eq:
  assumes "hash_ok h" "hashing_key kv = Inr k"
  shows "hash_find_data h kv =
    (case List.find (holds h kv k) (probes (m_size h) (2 * MULTIFACTOR) k) of
       None \<Rightarrow> Inr None | Some r \<Rightarrow> Inr (nd_data (h_table h ! r)))"
proof -
  have "r < length (h_table h)" if "List.find (holds h kv k) (probes (m_size h) (2 * MULTIFACTOR) k) = Some r" for r
    using find_SomeD [OF that] assms(1) probes_range [of "m_size h" r "2 * MULTIFACTOR" k] by (simp add: hash_ok_def)
  then show ?thesis using assms
    by (simp add: hash_find_data_def hash_find_node_def find_loop_probes index_def split: option.splits)
qed

lemma find_None_all: "List.find P xs = None \<longleftrightarrow> (\<forall>x \<in> set xs. \<not> P x)"
  by (auto simp: find_None_iff)

text \<open>The two outcomes of an insertion: a usable slot, or none.\<close>

lemma insert_into_slot:
  assumes ok: "hash_ok h" and k: "hashing_key kv = Inr k" and room: "n_size h \<noteq> int (m_size h)"
    and r: "List.find (usable h kv k) (probes (m_size h) (2 * MULTIFACTOR) k) = Some r"
  shows "\<exists>n. hash_insert h kv d p = Inr (n, nd_data (h_table h ! r), put h kv d p k r)"
    and "hash_ok (put h kv d p k r)" "hash_find_data (put h kv d p k r) kv = Inr (Some d)"
    and "nd_data (h_table h ! r) \<noteq> None \<Longrightarrow> hash_find_data h kv = Inr (nd_data (h_table h ! r))"
    and "\<And>kv2. kv2 \<noteq> kv \<Longrightarrow> hash_find_data (put h kv d p k r) kv2 = hash_find_data h kv2"
proof -
  have u: "usable h kv k r" and rp: "r \<in> set (probes (m_size h) (2 * MULTIFACTOR) k)"
    using find_SomeD [OF r] by simp_all
  have rl: "r < length (h_table h)" using probes_range [OF _ rp] ok by (simp add: hash_ok_def)
  show "\<exists>n. hash_insert h kv d p = Inr (n, nd_data (h_table h ! r), put h kv d p k r)"
    using k room r by (simp add: hash_insert_def insert_loop_probes [OF ok])
  show ok': "hash_ok (put h kv d p k r)" using ok by (simp add: hash_ok_def put_def)
  have m: "m_size (put h kv d p k r) = m_size h" by (simp add: put_def)
  have "List.find (holds (put h kv d p k r) kv k) (probes (m_size h) (2 * MULTIFACTOR) k) = Some r"
    by (rule find_first [OF r]) (auto simp: put_holds(1) [OF rl] u, simp add: usable_def)
  then show "hash_find_data (put h kv d p k r) kv = Inr (Some d)"
    using rl by (simp add: hash_find_data_eq [OF ok' k] m) (simp add: put_def)
  show "hash_find_data h kv = Inr (nd_data (h_table h ! r))" if "nd_data (h_table h ! r) \<noteq> None"
  proof -
    have "holds h kv k r" using u that by (simp add: usable_def)
    then have "List.find (holds h kv k) (probes (m_size h) (2 * MULTIFACTOR) k) = Some r"
      by (rule find_first [OF r]) (simp add: usable_def)
    then show ?thesis by (simp add: hash_find_data_eq [OF ok k])
  qed
  show "hash_find_data (put h kv d p k r) kv2 = hash_find_data h kv2" if ne: "kv2 \<noteq> kv" for kv2
  proof (cases "hashing_key kv2")
    case (Inr k2)
    have "nd_data (h_table (put h kv d p k r) ! x) = nd_data (h_table h ! x)" if "holds h kv2 k2 x" for x
      using that u ne by (cases "x = r") (auto simp: put_def holds_def usable_def)
    moreover have "holds (put h kv d p k r) kv2 k2 = holds h kv2 k2"
      using put_holds(2) [OF rl u ne] by (simp add: fun_eq_iff)
    ultimately show ?thesis
      by (auto simp: hash_find_data_eq [OF ok' Inr] hash_find_data_eq [OF ok Inr] m split: option.splits dest!: find_SomeD)
  qed (simp add: hash_find_data_def hash_find_node_def)
qed

lemma insert_without_slot:
  assumes ok: "hash_ok h" and k: "hashing_key kv = Inr k" and room: "n_size h \<noteq> int (m_size h)"
    and none: "List.find (usable h kv k) (probes (m_size h) (2 * MULTIFACTOR) k) = None"
  shows "\<exists>n. hash_insert h kv d p = Inr (n, None, h\<lparr>n_size := n_size h + 1\<rparr>)"
    and "hash_ok (h\<lparr>n_size := n_size h + 1\<rparr>)"
    and "hash_find_data (h\<lparr>n_size := n_size h + 1\<rparr>) kv2 = hash_find_data h kv2"
    and "hash_find_data h kv = Inr None"
proof -
  show ok': "hash_ok (h\<lparr>n_size := n_size h + 1\<rparr>)" using ok by (simp add: hash_ok_def)
  show "\<exists>n. hash_insert h kv d p = Inr (n, None, h\<lparr>n_size := n_size h + 1\<rparr>)"
    using k room none by (simp add: hash_insert_def insert_loop_probes [OF ok])
  have "holds (h\<lparr>n_size := n_size h + 1\<rparr>) = holds h" by (simp add: holds_def fun_eq_iff)
  then show "hash_find_data (h\<lparr>n_size := n_size h + 1\<rparr>) kv2 = hash_find_data h kv2"
    by (cases "hashing_key kv2")
      (simp add: hash_find_data_def hash_find_node_def,
       simp add: hash_find_data_eq [OF ok'] hash_find_data_eq [OF ok] split: option.splits)
  have "List.find (holds h kv k) (probes (m_size h) (2 * MULTIFACTOR) k) = None"
    using none unfolding find_None_all usable_def by blast
  then show "hash_find_data h kv = Inr None" by (simp add: hash_find_data_eq [OF ok k])
qed

lemma hash_init_ok: "0 < n \<Longrightarrow> hash_ok (hash_init n)"
  by (simp add: hash_ok_def hash_init_def)

section \<open>Properties\<close>

text \<open>
  C26: In a table that is not full, \<open>__hash_insert\<close> never fails and never changes what the table has for any
  other key. When one of the ten slots of the key is free or holds the key, the table afterwards
  has the new data for the key, and the data reported as replaced is what the table had for it.
  Otherwise nothing is stored, although the counter of entries is incremented and the answer does
  not tell: a following search does not find the key.
\<close>

theorem hash_insert_then_find:
  assumes "hash_ok h" "n_size h \<noteq> int (m_size h)" "hashing_key kv = Inr k"
  shows "\<exists>n u h'. hash_insert h kv d p = Inr (n, u, h') \<and> hash_ok h' \<and>
    (\<forall>kv2. kv2 \<noteq> kv \<longrightarrow> hash_find_data h' kv2 = hash_find_data h kv2) \<and>
    (if \<exists>r \<in> set (probes (m_size h) 10 k). nd_data (h_table h ! r) = None \<or> holds h kv k r
     then hash_find_data h' kv = Inr (Some d) \<and> (u \<noteq> None \<longrightarrow> hash_find_data h kv = Inr u)
     else h_table h' = h_table h \<and> n_size h' = n_size h + 1 \<and> u = None \<and> hash_find_data h' kv = Inr None)"
proof -
  have m: "2 * MULTIFACTOR = 10" by (simp add: MULTIFACTOR_def)
  show ?thesis
  proof (cases "List.find (usable h kv k) (probes (m_size h) (2 * MULTIFACTOR) k)")
    case None
    then have "\<not> (\<exists>r \<in> set (probes (m_size h) 10 k). nd_data (h_table h ! r) = None \<or> holds h kv k r)"
      unfolding find_None_all usable_def m by blast
    then show ?thesis
      using insert_without_slot(1) [OF assms(1,3,2) None, of d p] insert_without_slot(2-4) [OF assms(1,3,2) None] by auto
  next
    case (Some r)
    then have "\<exists>r \<in> set (probes (m_size h) 10 k). nd_data (h_table h ! r) = None \<or> holds h kv k r"
      using find_SomeD [OF Some] unfolding usable_def m by blast
    then show ?thesis
      using insert_into_slot(1-3) [OF assms(1,3,2) Some, of d p] insert_into_slot(4,5) [OF assms(1,3,2) Some] by auto
  qed
qed

theorem hash_insert_then_find_witness:
  "\<exists>k n u h'. hashing_key (Str_Key [7]) = Inr k \<and>
     hash_insert (hash_init 3 :: (nat, nat) hash) (Str_Key [7]) 5 None = Inr (n, u, h') \<and> hash_ok h' \<and>
     hash_find_data h' (Str_Key [7]) = Inr (Some 5)"
proof -
  let ?h = "hash_init 3 :: (nat, nat) hash"
  obtain k where k: "hashing_key (Str_Key [7]) = Inr k" using hashing_key_total [of "Str_Key [7]"] by auto
  have ok: "hash_ok ?h" by (rule hash_init_ok) simp
  have room: "n_size ?h \<noteq> int (m_size ?h)" by (simp add: hash_init_def)
  let ?r = "unat (hash_function k) mod (3 * MULTIFACTOR)"
  have "?r < 3 * MULTIFACTOR" by (simp add: MULTIFACTOR_def)
  then have "nd_data (h_table ?h ! ?r) = None" by (simp add: hash_init_def)
  moreover have "?r \<in> set (probes (m_size ?h) 10 k)" by (simp add: numeral_eq_Suc) (simp add: hash_init_def)
  ultimately have "\<exists>r \<in> set (probes (m_size ?h) 10 k). nd_data (h_table ?h ! r) = None \<or> holds ?h (Str_Key [7]) k r"
    by blast
  with hash_insert_then_find [OF ok room k, of 5 None] k show ?thesis by auto
qed

text \<open>
  C40: Deleting a key can bring an old value of it back. When the first slot of a key has become free
  (by the deletion of another key) while the key still sits in its second slot, inserting the key
  again puts it into the first slot and leaves the old entry in the second; after
  \<open>__hash_delete_by_key\<close> the search finds the old data instead of nothing.
\<close>

theorem hash_delete_resurrects:
  assumes ok: "hash_ok h" and room: "n_size h \<noteq> int (m_size h)" and k: "hashing_key kv = Inr k"
    and ps: "probes (m_size h) 10 k = a # b # ps" "a \<noteq> b"
    and old: "nd_data (h_table h ! a) = None" "holds h kv k b" "nd_data (h_table h ! b) = Some old"
  shows "\<exists>n h1 h2. hash_insert h kv d p = Inr (n, None, h1) \<and> hash_find_data h1 kv = Inr (Some d) \<and>
    hash_delete_by_key h1 kv = Inr (p, h2) \<and> hash_find_data h2 kv = Inr (Some old)"
proof -
  have m: "2 * MULTIFACTOR = 10" by (simp add: MULTIFACTOR_def)
  have fa: "List.find (usable h kv k) (probes (m_size h) (2 * MULTIFACTOR) k) = Some a"
    using old(1) by (simp add: m ps usable_def)
  have "a \<in> set (probes (m_size h) 10 k)" "b \<in> set (probes (m_size h) 10 k)" using ps by simp_all
  then have al: "a < length (h_table h)" "b < length (h_table h)"
    using probes_range [of "m_size h"] ok by (auto simp: hash_ok_def)
  let ?h1 = "put h kv d p k a"
  let ?h2 = "?h1\<lparr>h_table := (h_table ?h1)[a := (h_table ?h1 ! a)\<lparr>nd_inter := None, nd_data := None, nd_key := 0\<rparr>],
    n_size := n_size ?h1 - 1\<rparr>"
  note i = insert_into_slot(1-3) [OF ok k room fa, of d p]
  have m1: "m_size ?h1 = m_size h" by (simp add: put_def)
  have "hash_find_node ?h1 kv = Inr (Some a)"
    using k by (simp add: hash_find_node_def find_loop_probes [OF i(2)] m m1 ps put_holds(1) [OF al(1)])
  then have del: "hash_delete_by_key ?h1 kv = Inr (p, ?h2)"
    using al by (simp add: hash_delete_by_key_def clear_node_def deref_def index_def) (simp add: put_def)
  have ok2: "hash_ok ?h2" using i(2) by (simp add: hash_ok_def)
  have "\<not> holds ?h2 kv k a" "holds ?h2 kv k b" "h_table ?h2 ! b = h_table h ! b"
    using al ps(2) old(2) by (simp_all add: holds_def put_def)
  then have "hash_find_data ?h2 kv = Inr (Some old)"
    using old(3) by (simp add: hash_find_data_eq [OF ok2 k] m ps m1)
  then show ?thesis using i(1,3) del old(1) by auto
qed

text \<open>The hash of \<open>abc\<close>, and its slots in a table for two entries.\<close>

lemma hashing_key_abc: "hashing_key (Str_Key [0x61, 0x62, 0x63]) = Inr 0x49924a5b"
  unfolding hashing_key_def str_key.sel sha256_abc_digest bindE_Inr by code_simp

lemma probes_abc: "probes 2 10 0x49924a5b = 3 # 2 # probes 2 8 0x8543aeb2"
proof -
  have c: "hash_function 0x49924a5b = 0xa3f68a33" "hash_function 0xa3f68a33 = 0x8543aeb2" by code_simp+
  have n: "10 = Suc (Suc 8)" by simp
  show ?thesis unfolding n probes.simps c MULTIFACTOR_def by simp
qed

theorem hash_delete_resurrects_witness:
  "\<exists>(h :: (nat, nat) hash) n h1 h2. hash_ok h \<and> hash_insert h (Str_Key [0x61, 0x62, 0x63]) 9 None = Inr (n, None, h1) \<and>
     hash_find_data h1 (Str_Key [0x61, 0x62, 0x63]) = Inr (Some 9) \<and>
     hash_delete_by_key h1 (Str_Key [0x61, 0x62, 0x63]) = Inr (None, h2) \<and>
     hash_find_data h2 (Str_Key [0x61, 0x62, 0x63]) = Inr (Some 4)"
proof -
  let ?kv = "Str_Key [0x61, 0x62, 0x63]"
  let ?h = "put (hash_init 2) ?kv 4 None 0x49924a5b 2 :: (nat, nat) hash"
  have ok: "hash_ok ?h" by (simp add: hash_ok_def put_def hash_init_def)
  have t: "h_table ?h ! 3 = \<lparr>nd_inter = None, nd_data = None, nd_idx = 3, nd_key = 0, nd_kv = Str_Key []\<rparr>"
    "h_table ?h ! 2 = \<lparr>nd_inter = None, nd_data = Some 4, nd_idx = 2, nd_key = 0x49924a5b, nd_kv = ?kv\<rparr>"
    by (simp_all add: put_def hash_init_def MULTIFACTOR_def)
  have ms: "m_size ?h = 2" "n_size ?h \<noteq> int (m_size ?h)" by (simp_all add: put_def hash_init_def MULTIFACTOR_def)
  have "\<exists>n h1 h2. hash_insert ?h ?kv 9 None = Inr (n, None, h1) \<and> hash_find_data h1 ?kv = Inr (Some 9) \<and>
    hash_delete_by_key h1 ?kv = Inr (None, h2) \<and> hash_find_data h2 ?kv = Inr (Some 4)"
  proof (rule hash_delete_resurrects [OF ok ms(2) hashing_key_abc])
    show "probes (m_size ?h) 10 0x49924a5b = 3 # 2 # probes 2 8 0x8543aeb2"
      unfolding ms(1) by (rule probes_abc)
  qed (simp_all add: t holds_def)
  then show ?thesis using ok by blast
qed

end
