(* ===== verification/Posix_Mem.thy ===== *)
theory Posix_Mem
  imports FD_Prelude
begin

text \<open>
  The in-memory lower driver (\<^verbatim>\<open>src/lower/posix_memory/posix.c\<close>, built with \<open>LASYNC\<close> 0), the device of the
  simulation: a table of pages, each absent or a buffer of \<open>PAGESIZE\<close> bytes. A page must be trimmed
  before it is written again; the driver aborts otherwise. The theory shows that the driver is a
  store of pages with these rules, and that trimming a block empties exactly the pages of the block.
\<close>

section \<open>State and requests\<close>

text \<open>
  \<open>seg_table\<close> is the array of \<open>li->NOP\<close> entries; \<open>None\<close> is a \<open>NULL\<close> storage. \<open>p_start\<close> is
  \<open>checker.start_block\<close>. Addresses are \<open>uint32_t\<close>.
\<close>

record posix =
  p_nop :: nat
  p_ts :: nat
  p_start :: nat
  seg_table :: "nat \<rightharpoonup> u8 list"
  req_type_cnt :: "nat \<Rightarrow> nat"
  write_op :: nat
  read_op :: nat
  trim_op :: nat

record value_set =
  vs_value :: "u8 list"
  dmatag :: int

record algo_req =
  ar_ppa :: nat
  ar_type :: nat
  ar_type_lower :: nat

definition LREQ_TYPE_NUM :: nat where "LREQ_TYPE_NUM = 11"
definition TRIM :: nat where "TRIM = 0"
definition MAPPINGR :: nat where "MAPPINGR = 1"

definition posix_create :: "nat \<Rightarrow> nat \<Rightarrow> posix" where
  "posix_create giga start =
     \<lparr>p_nop = NOP giga, p_ts = TOTALSIZE giga, p_start = start, seg_table = Map.empty,
      req_type_cnt = (\<lambda>_. 0), write_op = 0, read_op = 0, trim_op = 0\<rparr>"

definition posix_refresh :: "posix \<Rightarrow> posix" where
  "posix_refresh d = d\<lparr>write_op := 0, read_op := 0, trim_op := 0\<rparr>"

definition posix_destroy :: "posix \<Rightarrow> posix" where
  "posix_destroy d = d\<lparr>seg_table := Map.empty\<rparr>"

definition convert_type :: "nat \<Rightarrow> nat" where
  "convert_type type = type mod 128"

definition convert_ppa :: "posix \<Rightarrow> nat \<Rightarrow> nat" where
  "convert_ppa d PPA = nat ((int PPA - int (p_start d * PPS)) mod 2 ^ 32)"

text \<open>\<open>my_posix.SOP*PPA >= my_posix.TS\<close>: the product of two \<open>uint32_t\<close>, compared with a \<open>uint64_t\<close>.\<close>

definition size_check :: "posix \<Rightarrow> nat \<Rightarrow> bool" where
  "size_check d PPA = (PAGESIZE * PPA mod 2 ^ 32 \<ge> p_ts d)"

definition count_type :: "nat \<Rightarrow> posix \<Rightarrow> posix" where
  "count_type type d =
     (if convert_type type < LREQ_TYPE_NUM
      then d\<lparr>req_type_cnt := (req_type_cnt d)(convert_type type := req_type_cnt d (convert_type type) + 1)\<rparr>
      else d)"

text \<open>\<open>seg_table[PPA].storage\<close>, an access inside the array only.\<close>

definition storage :: "posix \<Rightarrow> nat \<Rightarrow> u8 list option res" where
  "storage d PPA = (if PPA < p_nop d then Inr (seg_table d PPA) else Inl Bad_Access)"

section \<open>Operations\<close>

text \<open>\<open>fresh\<close> is what the buffer that \<open>malloc\<close> returns holds.\<close>

definition posix_push_data :: "u8 list \<Rightarrow> nat \<Rightarrow> nat \<Rightarrow> value_set \<Rightarrow> algo_req \<Rightarrow> posix \<Rightarrow> posix res" where
  "posix_push_data fresh PPA0 sz value req d =
     (let PPA = convert_ppa d PPA0 in
      if PPA > p_nop d then Inl Abort
      else if dmatag value = - 1 then Inl Abort
      else if size_check d PPA then Inl Abort
      else
        let d1 = count_type (ar_type req) d in
        bindE (storage d1 PPA) (\<lambda>st.
          if st \<noteq> None then Inl Abort
          else if sz > PAGESIZE \<or> sz > length (vs_value value) then Inl Bad_Access
          else Inr (d1\<lparr>seg_table := (seg_table d1)(PPA \<mapsto> take sz (vs_value value) @ drop sz fresh)\<rparr>)))"

text \<open>The value is left alone when the page was never written.\<close>

definition posix_pull_data ::
  "nat \<Rightarrow> nat \<Rightarrow> value_set \<Rightarrow> algo_req \<Rightarrow> posix \<Rightarrow> (value_set \<times> algo_req \<times> posix) res" where
  "posix_pull_data PPA0 sz value req d =
     (let PPA = convert_ppa d PPA0 in
      if PPA > p_nop d then Inl Abort
      else
        let req1 = (if ar_type_lower req \<noteq> 1 \<and> ar_type_lower req \<noteq> 0 then req\<lparr>ar_type_lower := 0\<rparr> else req) in
        if dmatag value = - 1 then Inl Abort
        else if size_check d PPA then Inl Abort
        else
          let d1 = count_type (ar_type req1) d in
          bindE (storage d1 PPA) (\<lambda>st.
          bindE (case st of
                   None \<Rightarrow> Inr value
                 | Some page \<Rightarrow>
                     if sz > length page \<or> sz > length (vs_value value) then Inl Bad_Access
                     else Inr (value\<lparr>vs_value := take sz page @ drop sz (vs_value value)\<rparr>)) (\<lambda>value1.
            Inr (value1, req1\<lparr>ar_type_lower := 1\<rparr>, d1))))"

text \<open>\<open>posix_trim_block\<close> begins with \<open>abort()\<close>.\<close>

definition posix_trim_block :: "nat \<Rightarrow> posix \<Rightarrow> posix res" where
  "posix_trim_block PPA d = Inl Abort"

definition posix_trim_a_block :: "nat \<Rightarrow> posix \<Rightarrow> posix res" where
  "posix_trim_a_block PPA0 d =
     (let PPA = convert_ppa d PPA0 in
      if PPA > p_nop d then Inl Abort
      else
        foldE (\<lambda>i d1.
          let t = (PPA + i * PUNIT) mod 2 ^ 32 in
          bindE (storage d1 t) (\<lambda>_. Inr (d1\<lparr>seg_table := (seg_table d1)(t := None)\<rparr>)))
          [0..<PPB] (count_type TRIM d))"

section \<open>The driver is a store of pages\<close>

text \<open>The device as the upper layers see it: their addresses and the pages behind them.\<close>

definition page_at :: "posix \<Rightarrow> nat \<Rightarrow> u8 list option" where
  "page_at d ppa = seg_table d (convert_ppa d ppa)"

text \<open>The addresses of the device, behind the segments the bad-block table reserves.\<close>

definition on_device :: "posix \<Rightarrow> nat \<Rightarrow> bool" where
  "on_device d ppa \<longleftrightarrow> p_start d * PPS \<le> ppa \<and> ppa < p_start d * PPS + p_nop d"

definition dev_ok :: "posix \<Rightarrow> bool" where
  "dev_ok d \<longleftrightarrow> p_nop d \<le> 2 ^ 32 \<and> 2 ^ 32 \<le> p_ts d \<and> (\<forall>page\<in>ran (seg_table d). length page = PAGESIZE)"

named_theorems dev_simps \<open>the parts of the device an operation leaves alone\<close>

lemma count_type_fields [simp, dev_simps]:
  "p_nop (count_type t d) = p_nop d" "p_ts (count_type t d) = p_ts d" "p_start (count_type t d) = p_start d"
  "seg_table (count_type t d) = seg_table d"
  by (simp_all add: count_type_def)

lemma convert_ppa_fields [simp]:
  "convert_ppa (d\<lparr>seg_table := m\<rparr>) ppa = convert_ppa d ppa" "convert_ppa (count_type t d) ppa = convert_ppa d ppa"
  by (simp_all add: convert_ppa_def)

lemma convert_ppa_on_device:
  assumes "on_device d ppa" "dev_ok d"
  shows "convert_ppa d ppa = ppa - p_start d * PPS"
proof -
  have "int ppa - int (p_start d * PPS) = int (ppa - p_start d * PPS)"
    using assms by (simp add: on_device_def del: PPS_value)
  moreover have "ppa - p_start d * PPS < 2 ^ 32"
    using assms unfolding on_device_def dev_ok_def by linarith
  ultimately show ?thesis by (simp add: convert_ppa_def del: PPS_value)
qed

lemma convert_ppa_bound: "on_device d ppa \<Longrightarrow> dev_ok d \<Longrightarrow> convert_ppa d ppa < p_nop d"
  by (auto simp: convert_ppa_on_device on_device_def)

lemma convert_ppa_inj:
  "on_device d p \<Longrightarrow> on_device d q \<Longrightarrow> dev_ok d \<Longrightarrow> convert_ppa d p = convert_ppa d q \<longleftrightarrow> p = q"
  by (auto simp: convert_ppa_on_device on_device_def)

text \<open>The product in the second range check has 32 bits, so the check never fires.\<close>

lemma size_check_idle: "dev_ok d \<Longrightarrow> \<not> size_check d n"
proof -
  assume "dev_ok d"
  moreover have "PAGESIZE * n mod 2 ^ 32 < 2 ^ 32" by simp
  ultimately show ?thesis unfolding size_check_def dev_ok_def by linarith
qed

lemma push_data_result:
  assumes ok: "dev_ok d" and p: "on_device d ppa" and tag: "dmatag v \<noteq> - 1"
    and sz: "sz \<le> PAGESIZE" "sz \<le> length (vs_value v)"
  shows "posix_push_data fresh ppa sz v req d =
           (if page_at d ppa = None
            then Inr ((count_type (ar_type req) d)\<lparr>seg_table :=
                        (seg_table d)(convert_ppa d ppa \<mapsto> take sz (vs_value v) @ drop sz fresh)\<rparr>)
            else Inl Abort)"
  using convert_ppa_bound [OF p ok] size_check_idle [OF ok] tag sz
  by (simp add: posix_push_data_def storage_def page_at_def Let_def)

lemma pull_data_result:
  assumes ok: "dev_ok d" and p: "on_device d ppa" and tag: "dmatag v \<noteq> - 1"
    and sz: "sz \<le> PAGESIZE" "sz \<le> length (vs_value v)"
  shows "\<exists>req'. posix_pull_data ppa sz v req d =
           Inr (case page_at d ppa of None \<Rightarrow> v
                | Some page \<Rightarrow> v\<lparr>vs_value := take sz page @ drop sz (vs_value v)\<rparr>, req', count_type (ar_type req) d)"
proof (cases "page_at d ppa")
  case None
  then show ?thesis
    using convert_ppa_bound [OF p ok] size_check_idle [OF ok] tag sz
    by (simp add: posix_pull_data_def storage_def page_at_def Let_def)
next
  case (Some page)
  then have "length page = PAGESIZE" using ok by (auto simp: dev_ok_def page_at_def ran_def)
  then show ?thesis
    using Some convert_ppa_bound [OF p ok] size_check_idle [OF ok] tag sz
    by (simp add: posix_pull_data_def storage_def page_at_def Let_def)
qed

lemma push_data_keeps_ok:
  assumes "dev_ok d" "length fresh = PAGESIZE" "sz \<le> PAGESIZE" "sz \<le> length (vs_value v)"
  shows "dev_ok ((count_type t d)\<lparr>seg_table := (seg_table d)(i \<mapsto> take sz (vs_value v) @ drop sz fresh)\<rparr>)"
  using assms by (auto simp: dev_ok_def ran_def)

lemma posix_create_ok: "4 \<le> giga \<Longrightarrow> giga \<le> 32768 \<Longrightarrow> dev_ok (posix_create giga start)"
  by (simp add: dev_ok_def posix_create_def NOP_def TOTALSIZE_def PAGESIZE_def)

text \<open>
  C12: a page that is written can be read back; every other page of the device keeps its content,
  and a second write without a trim in between aborts.
\<close>

theorem posix_push_then_pull:
  assumes "dev_ok d" "on_device d ppa" "page_at d ppa = None"
    and "length fresh = PAGESIZE" "length (vs_value v) = PAGESIZE" "dmatag v \<noteq> - 1"
    and "length (vs_value w) = PAGESIZE" "dmatag w \<noteq> - 1"
  shows "\<exists>d1. posix_push_data fresh ppa PAGESIZE v req d = Inr d1 \<and> dev_ok d1 \<and>
           (\<exists>req' d2. posix_pull_data ppa PAGESIZE w req2 d1 = Inr (w\<lparr>vs_value := vs_value v\<rparr>, req', d2)) \<and>
           (\<forall>q. on_device d q \<and> q \<noteq> ppa \<longrightarrow> page_at d1 q = page_at d q) \<and>
           posix_push_data fresh ppa PAGESIZE w req2 d1 = Inl Abort"
proof -
  let ?d1 = "(count_type (ar_type req) d)\<lparr>seg_table :=
                (seg_table d)(convert_ppa d ppa \<mapsto> take PAGESIZE (vs_value v) @ drop PAGESIZE fresh)\<rparr>"
  have ok: "dev_ok ?d1" by (rule push_data_keeps_ok) (use assms in simp_all)
  have on: "on_device ?d1 ppa" using assms(2) by (simp add: on_device_def)
  have push: "posix_push_data fresh ppa PAGESIZE v req d = Inr ?d1"
    using push_data_result [of d ppa v PAGESIZE fresh req] assms by simp
  have at: "page_at ?d1 ppa = Some (vs_value v)" using assms by (simp add: page_at_def)
  obtain req' where "posix_pull_data ppa PAGESIZE w req2 ?d1 =
      Inr (case page_at ?d1 ppa of None \<Rightarrow> w
           | Some page \<Rightarrow> w\<lparr>vs_value := take PAGESIZE page @ drop PAGESIZE (vs_value w)\<rparr>, req',
           count_type (ar_type req2) ?d1)"
    using pull_data_result [OF ok on, of w PAGESIZE req2] assms by auto
  then have pull: "\<exists>req' d2. posix_pull_data ppa PAGESIZE w req2 ?d1 = Inr (w\<lparr>vs_value := vs_value v\<rparr>, req', d2)"
    using at assms by simp
  have other: "page_at ?d1 q = page_at d q" if "on_device d q" "q \<noteq> ppa" for q
    using that assms(1,2) by (simp add: page_at_def convert_ppa_inj)
  have again: "posix_push_data fresh ppa PAGESIZE w req2 ?d1 = Inl Abort"
    using push_data_result [OF ok on, of w PAGESIZE fresh req2] at assms by simp
  show ?thesis using push ok pull other again by blast
qed

theorem posix_push_then_pull_witness:
  "\<exists>d1 req' d2.
     posix_push_data (replicate PAGESIZE 0) 16389 PAGESIZE \<lparr>vs_value = replicate PAGESIZE 7, dmatag = 0\<rparr>
       \<lparr>ar_ppa = 0, ar_type = 6, ar_type_lower = 0\<rparr> (posix_create 8 1) = Inr d1 \<and>
     posix_pull_data 16389 PAGESIZE \<lparr>vs_value = replicate PAGESIZE 1, dmatag = 0\<rparr>
       \<lparr>ar_ppa = 0, ar_type = 5, ar_type_lower = 0\<rparr> d1 =
       Inr (\<lparr>vs_value = replicate PAGESIZE 7, dmatag = 0\<rparr>, req', d2)"
proof -
  have "dev_ok (posix_create 8 1)" by (rule posix_create_ok) simp_all
  moreover have "on_device (posix_create 8 1) 16389" "page_at (posix_create 8 1) 16389 = None"
    by (simp_all add: on_device_def page_at_def posix_create_def NOP_def TOTALSIZE_def PAGESIZE_def)
  ultimately show ?thesis
    using posix_push_then_pull [of "posix_create 8 1" 16389 "replicate PAGESIZE 0"
        "\<lparr>vs_value = replicate PAGESIZE 7, dmatag = 0\<rparr>" "\<lparr>vs_value = replicate PAGESIZE 1, dmatag = 0\<rparr>"
        "\<lparr>ar_ppa = 0, ar_type = 6, ar_type_lower = 0\<rparr>" "\<lparr>ar_ppa = 0, ar_type = 5, ar_type_lower = 0\<rparr>"]
    by fastforce
qed

section \<open>Trimming\<close>

text \<open>The pages of the block whose first page is \<open>ppa\<close>: one on every \<open>PUNIT\<close>-th address.\<close>

definition block_pages :: "nat \<Rightarrow> nat set" where
  "block_pages ppa = (\<lambda>i. ppa + i * PUNIT) ` {..<PPB}"

lemma block_page_step:
  assumes "dev_ok d" "on_device d ppa" "on_device d (ppa + (PPB - 1) * PUNIT)" "i < PPB"
  shows "on_device d (ppa + i * PUNIT)"
    and "(convert_ppa d ppa + i * PUNIT) mod 2 ^ 32 = convert_ppa d (ppa + i * PUNIT)"
proof -
  have "i * PUNIT \<le> (PPB - 1) * PUNIT" using assms(4) by (intro mult_right_mono) simp_all
  then show on: "on_device d (ppa + i * PUNIT)" using assms(2,3) unfolding on_device_def by linarith
  have "convert_ppa d ppa + i * PUNIT = convert_ppa d (ppa + i * PUNIT)"
    using assms(1,2) on by (simp add: convert_ppa_on_device) (simp add: on_device_def)
  moreover have "convert_ppa d (ppa + i * PUNIT) < 2 ^ 32"
    using convert_ppa_bound [OF on assms(1)] assms(1) unfolding dev_ok_def by linarith
  ultimately show "(convert_ppa d ppa + i * PUNIT) mod 2 ^ 32 = convert_ppa d (ppa + i * PUNIT)" by simp
qed

lemma trim_a_block_result:
  assumes ok: "dev_ok d" and p: "on_device d ppa" "on_device d (ppa + (PPB - 1) * PUNIT)"
  shows "posix_trim_a_block ppa d =
           Inr ((count_type TRIM d)\<lparr>seg_table := seg_table d |` (- convert_ppa d ` block_pages ppa)\<rparr>)"
proof -
  let ?c = "count_type TRIM d"
  let ?P = "\<lambda>i t. t = ?c\<lparr>seg_table := seg_table d |` (- (\<lambda>i. convert_ppa d (ppa + i * PUNIT)) ` {..<i})\<rparr>"
  have "\<exists>t. foldE (\<lambda>i d1. let t = (convert_ppa d ppa + i * PUNIT) mod 2 ^ 32 in
              bindE (storage d1 t) (\<lambda>_. Inr (d1\<lparr>seg_table := (seg_table d1)(t := None)\<rparr>))) [0..<PPB] ?c = Inr t
            \<and> ?P PPB t"
  proof (rule foldE_upt)
    show "?P 0 ?c" by (rule posix.equality) (simp_all add: restrict_map_def)
  next
    fix i t assume "i < PPB" "?P i t"
    moreover note step = block_page_step [OF ok p \<open>i < PPB\<close>]
    moreover note convert_ppa_bound [OF step(1) ok]
    moreover have "(seg_table d |` (- (\<lambda>i. convert_ppa d (ppa + i * PUNIT)) ` {..<i}))(convert_ppa d (ppa + i * PUNIT) := None) =
        seg_table d |` (- (\<lambda>i. convert_ppa d (ppa + i * PUNIT)) ` {..<Suc i})"
      by (auto simp: fun_eq_iff restrict_map_def lessThan_Suc)
    ultimately show "\<exists>t'. (let u = (convert_ppa d ppa + i * PUNIT) mod 2 ^ 32 in
        bindE (storage t u) (\<lambda>_. Inr (t\<lparr>seg_table := (seg_table t)(u := None)\<rparr>))) = Inr t' \<and> ?P (Suc i) t'"
      by (simp add: Let_def storage_def)
  qed
  then show ?thesis
    using convert_ppa_bound [OF p(1) ok] by (simp add: posix_trim_a_block_def block_pages_def image_image)
qed

text \<open>
  C19: trimming the block that begins at a page of the device empties the 256 pages of that block,
  so that each of them can be written again, and no other page.
\<close>

theorem posix_trim_a_block_exact:
  assumes "dev_ok d" "on_device d ppa" "on_device d (ppa + (PPB - 1) * PUNIT)"
  shows "\<exists>d1. posix_trim_a_block ppa d = Inr d1 \<and> dev_ok d1 \<and>
           (\<forall>q. on_device d q \<longrightarrow> page_at d1 q = (if q \<in> block_pages ppa then None else page_at d q)) \<and>
           (\<forall>q \<in> block_pages ppa. \<forall>v fresh req. dmatag v \<noteq> - 1 \<and> length (vs_value v) = PAGESIZE \<longrightarrow>
              (\<exists>d2. posix_push_data fresh q PAGESIZE v req d1 = Inr d2))"
proof -
  let ?d1 = "(count_type TRIM d)\<lparr>seg_table := seg_table d |` (- convert_ppa d ` block_pages ppa)\<rparr>"
  have ok: "dev_ok ?d1" using assms(1) by (auto simp: dev_ok_def ran_def restrict_map_def)
  have on: "on_device d q" if "q \<in> block_pages ppa" for q
    using that block_page_step(1) [OF assms] by (auto simp: block_pages_def)
  have at: "page_at ?d1 q = (if q \<in> block_pages ppa then None else page_at d q)" if "on_device d q" for q
    using that on assms(1) by (auto simp: page_at_def restrict_map_def convert_ppa_inj)
  have "\<exists>d2. posix_push_data fresh q PAGESIZE v req ?d1 = Inr d2"
    if "q \<in> block_pages ppa" "dmatag v \<noteq> - 1" "length (vs_value v) = PAGESIZE" for q v fresh req
  proof -
    have "on_device ?d1 q" using on [OF that(1)] by (simp add: on_device_def)
    moreover have "page_at ?d1 q = None" using at [OF on [OF that(1)]] that(1) by simp
    ultimately show ?thesis using push_data_result [OF ok, of q v PAGESIZE fresh req] that by simp
  qed
  then show ?thesis using trim_a_block_result [OF assms] ok at by blast
qed

theorem posix_trim_a_block_exact_witness:
  "\<exists>d1. posix_trim_a_block 16384 (posix_create 8 1) = Inr d1 \<and> page_at d1 16448 = None"
proof -
  let ?d = "posix_create 8 1"
  have "dev_ok ?d" by (rule posix_create_ok) simp_all
  moreover have on: "on_device ?d 16384" "on_device ?d (16384 + (PPB - 1) * PUNIT)" "on_device ?d 16448"
    by (simp_all add: on_device_def posix_create_def NOP_def TOTALSIZE_def geometry)
  moreover have "page_at ?d 16448 = None" by (simp add: page_at_def posix_create_def)
  ultimately show ?thesis using posix_trim_a_block_exact [of ?d 16384] by auto
qed

text \<open>
  The range checks accept the first address behind the device. They compare with \<open>>\<close> instead
  of \<open>>=\<close>, and the product in the second check has 32 bits; a write or a read there is an access
  behind the page table.
\<close>

theorem posix_accepts_first_address_behind:
  assumes "dev_ok d" "p_nop d < 2 ^ 32" "dmatag v \<noteq> - 1"
  shows "posix_push_data fresh (p_start d * PPS + p_nop d) sz v req d = Inl Bad_Access \<and>
         posix_pull_data (p_start d * PPS + p_nop d) sz v req d = Inl Bad_Access"
proof -
  have "convert_ppa d (p_start d * PPS + p_nop d) = p_nop d"
    using assms(2) by (simp add: convert_ppa_def)
  then show ?thesis
    using assms size_check_idle [OF assms(1)]
    by (simp add: posix_push_data_def posix_pull_data_def Let_def storage_def)
qed

theorem posix_accepts_first_address_behind_witness:
  "posix_push_data [] (NOP 8) PAGESIZE \<lparr>vs_value = replicate PAGESIZE 0, dmatag = 0\<rparr>
     \<lparr>ar_ppa = 0, ar_type = 6, ar_type_lower = 0\<rparr> (posix_create 8 0) = Inl Bad_Access"
proof -
  have "dev_ok (posix_create 8 0)" by (rule posix_create_ok) simp_all
  moreover have "p_nop (posix_create 8 0) = NOP 8" "NOP 8 < 2 ^ 32" "p_start (posix_create 8 0) = 0"
    by (simp_all add: posix_create_def NOP_def TOTALSIZE_def PAGESIZE_def)
  ultimately show ?thesis
    using posix_accepts_first_address_behind [of "posix_create 8 0"] by simp
qed

end
