(* ===== verification/Pipe_Lower.thy ===== *)
theory Pipe_Lower
  imports Str_Key Posix_Mem
begin

text \<open>
  Pages of sorted keys and the accelerator of the in-memory device
  (\<^verbatim>\<open>src/lower/posix_memory/pipe_lower.c\<close> and \<open>posix_read_hw\<close> of \<^verbatim>\<open>posix.c\<close>, built with \<open>KVSSD\<close>): a reader and a
  writer of runs of key pages, and the search in one page. The theory describes the bytes of a page by the
  entries it holds, and shows that the reader returns what the writer was given across page boundaries and that
  the search finds exactly the keys of the page.
\<close>

section \<open>Pages\<close>

text \<open>
  A page begins with 512 numbers of 16 bits, \<open>bitmap\<close>: the first is the number of entries, the \<open>i\<close>-th the offset
  of entry \<open>i\<close>, and one more the end of the last entry. The entries, an address of four bytes followed by the
  key, begin at byte 1024. All numbers are little endian.
\<close>

definition get16 :: "u8 list \<Rightarrow> nat \<Rightarrow> nat res" where
  "get16 body i =
     (if 2 * i + 1 < length body then Inr (unat (body ! (2 * i)) + 256 * unat (body ! (2 * i + 1))) else Inl Bad_Access)"

definition put16 :: "u8 list \<Rightarrow> nat \<Rightarrow> nat \<Rightarrow> u8 list res" where
  "put16 body i v =
     (if 2 * i + 1 < length body then Inr (body[2 * i := word_of_nat v, 2 * i + 1 := word_of_nat (v div 256)]) else Inl Bad_Access)"

definition get32 :: "u8 list \<Rightarrow> nat \<Rightarrow> nat res" where
  "get32 body off = (if off + 4 \<le> length body then Inr (of_bytes32 (take 4 (drop off body))) else Inl Bad_Access)"

text \<open>\<open>memcpy\<close> into a page.\<close>

definition splice :: "u8 list \<Rightarrow> nat \<Rightarrow> u8 list \<Rightarrow> u8 list res" where
  "splice body off xs =
     (if off + length xs \<le> length body then Inr (take off body @ xs @ drop (off + length xs) body) else Inl Bad_Access)"

text \<open>The key of entry \<open>i\<close>; its length is a \<open>uint8_t\<close>.\<close>

definition entry_len :: "nat \<Rightarrow> nat \<Rightarrow> nat" where
  "entry_len off nxt = nat ((int nxt - int off - 4) mod 256)"

definition entry_key :: "u8 list \<Rightarrow> nat \<Rightarrow> str_key res" where
  "entry_key body i =
     bindE (get16 body i) (\<lambda>off.
     bindE (get16 body (i + 1)) (\<lambda>nxt.
       let len = entry_len off nxt in
       if off + 4 + len \<le> length body then Inr (Str_Key (take len (drop (off + 4) body))) else Inl Bad_Access))"

section \<open>The reader and the writer\<close>

text \<open>
  \<open>now_page\<close> points nowhere, to the storage of a page of the device, or to a page from \<open>malloc\<close> that is not yet
  stored. \<open>bitmap_ptr\<close> is always \<open>now_page\<close>, and \<open>data_ptr\<close> the table of the device.
\<close>

datatype page_ptr = Null | Stored nat | Fresh "u8 list"

record pl_body =
  max_page :: nat
  pidx :: nat
  map_ppa_list :: "nat list"
  now_page :: page_ptr
  pl_length :: nat
  max_key :: nat
  kidx :: nat

definition plbody_init :: "nat list \<Rightarrow> nat \<Rightarrow> pl_body" where
  "plbody_init ppas list_size =
     \<lparr>max_page = list_size, pidx = 0, map_ppa_list = ppas, now_page = Null, pl_length = 0, max_key = 0, kidx = 0\<rparr>"

fun page_bytes :: "posix \<Rightarrow> page_ptr \<Rightarrow> u8 list res" where
  "page_bytes d Null = Inl Bad_Access"
| "page_bytes d (Stored i) = deref (seg_table d i)"
| "page_bytes d (Fresh body) = Inr body"

text \<open>\<open>fresh\<close> is what the page that \<open>malloc\<close> returns holds.\<close>

definition new_page_set :: "u8 list \<Rightarrow> bool \<Rightarrow> posix \<Rightarrow> pl_body \<Rightarrow> pl_body res" where
  "new_page_set fresh iswrite d p =
     bindE (index (map_ppa_list p) (pidx p)) (\<lambda>ppa.
     bindE (storage d (convert_ppa d ppa)) (\<lambda>st.
       let np = (case st of Some _ \<Rightarrow> Stored (convert_ppa d ppa) | None \<Rightarrow> if iswrite then Fresh fresh else Null) in
       bindE (page_bytes d np) (\<lambda>body.
       bindE (get16 body 0) (\<lambda>mk.
         Inr (p\<lparr>pidx := pidx p + 1, now_page := np, kidx := 1, max_key := mk, pl_length := 1024\<rparr>)))))"

text \<open>The answer \<open>None\<close> is a key of length 255, the \<open>-1\<close> of the code; it comes without an address.\<close>

definition plbody_get_next_key :: "posix \<Rightarrow> pl_body \<Rightarrow> ((str_key \<times> nat) option \<times> pl_body) res" where
  "plbody_get_next_key d p0 =
     bindE (if now_page p0 = Null \<or> pidx p0 < max_page p0 \<and> kidx p0 > max_key p0
            then new_page_set [] False d p0 else Inr p0) (\<lambda>p.
       if pidx p \<ge> max_page p \<and> kidx p > max_key p then Inr (None, p)
       else
         bindE (page_bytes d (now_page p)) (\<lambda>body.
         bindE (get16 body (kidx p)) (\<lambda>off.
         bindE (get32 body off) (\<lambda>ppa.
         bindE (get16 body (kidx p + 1)) (\<lambda>nxt.
         bindE (entry_key body (kidx p)) (\<lambda>k.
           Inr (if entry_len off nxt = 255 then None else Some (k, ppa), p\<lparr>kidx := kidx p + 1\<rparr>)))))))"

text \<open>The end of a page: the count, the end of the last entry, and the page becomes the storage of its address.\<close>

definition close_page :: "posix \<Rightarrow> pl_body \<Rightarrow> (u8 list \<times> pl_body \<times> posix) res" where
  "close_page d p =
     bindE (page_bytes d (now_page p)) (\<lambda>body.
     bindE (put16 body 0 (kidx p - 1)) (\<lambda>b1.
     bindE (put16 b1 (kidx p) (pl_length p)) (\<lambda>b2.
     bindE (index (map_ppa_list p) (pidx p - 1)) (\<lambda>ppa.
     bindE (storage d (convert_ppa d ppa)) (\<lambda>_.
       Inr (b2, p\<lparr>now_page := Stored (convert_ppa d ppa)\<rparr>, d\<lparr>seg_table := (seg_table d)(convert_ppa d ppa \<mapsto> b2)\<rparr>))))))"

text \<open>A new entry at the end of the current page.\<close>

definition put_entry :: "str_key \<Rightarrow> nat \<Rightarrow> posix \<Rightarrow> pl_body \<Rightarrow> (pl_body \<times> posix) res" where
  "put_entry k ppa d p =
     bindE (page_bytes d (now_page p)) (\<lambda>body.
     bindE (splice body (pl_length p) (bytes32 ppa @ key k)) (\<lambda>b1.
     bindE (put16 b1 (kidx p) (pl_length p)) (\<lambda>b2.
       let p1 = p\<lparr>kidx := kidx p + 1, pl_length := pl_length p + 4 + key_len k\<rparr> in
       case now_page p of
         Stored i \<Rightarrow> Inr (p1, d\<lparr>seg_table := (seg_table d)(i \<mapsto> b2)\<rparr>)
       | _ \<Rightarrow> Inr (p1\<lparr>now_page := Fresh b2\<rparr>, d))))"

text \<open>
  The limit on \<open>kidx\<close> is \<open>(PAGESIZE-1024)/sizeof(uint16_t)-2\<close>. The result is the page that was closed.
\<close>

definition plbody_insert_new_key ::
  "u8 list \<Rightarrow> str_key \<Rightarrow> nat \<Rightarrow> bool \<Rightarrow> posix \<Rightarrow> pl_body \<Rightarrow> (u8 list option \<times> pl_body \<times> posix) res" where
  "plbody_insert_new_key fresh k ppa flush d p =
     (if flush \<and> kidx p > 1 \<or> now_page p = Null \<or> kidx p \<ge> (PAGESIZE - 1024) div 2 - 2 \<or> pl_length p + 4 + key_len k > PAGESIZE then
        bindE (if now_page p \<noteq> Null then bindE (close_page d p) (\<lambda>(b, p1, d1). Inr (Some b, p1, d1)) else Inr (None, p, d)) (\<lambda>(r, p1, d1).
          if flush then Inr (r, p1, d1)
          else
            bindE (new_page_set fresh True d1 p1) (\<lambda>p2.
            bindE (put_entry k ppa d1 p2) (\<lambda>(p3, d3). Inr (r, p3, d3))))
      else bindE (put_entry k ppa d p) (\<lambda>(p3, d3). Inr (None, p3, d3)))"

section \<open>The search\<close>

function search_loop :: "u8 list \<Rightarrow> str_key \<Rightarrow> int \<Rightarrow> int \<Rightarrow> nat res" where
  "search_loop body temp s e =
     (if s \<le> e then
        let mid = (s + e) div 2 in
        case entry_key body (nat mid) of
          Inl x \<Rightarrow> Inl x
        | Inr target \<Rightarrow>
            let r = KEYCMP target temp in
            if r = 0 then bindE (get16 body (nat mid)) (get32 body)
            else if r < 0 then search_loop body temp (mid + 1) e
            else search_loop body temp s (mid - 1)
      else Inr UINT_MAX)"
  by pat_completeness auto
termination
  by (relation "measure (\<lambda>(body, temp, s, e). nat (e - s + 1))") auto

declare search_loop.simps [simp del]

text \<open>
  The key is passed as a buffer and a \<open>uint32_t\<close> length, which \<open>temp.len=len\<close> narrows to the \<open>uint8_t\<close> of a \<open>KEYT\<close>.
  The buffer has at least the bytes of the narrowed length.
\<close>

definition narrowed_key :: "u8 list \<Rightarrow> nat \<Rightarrow> str_key" where
  "narrowed_key buf len = Str_Key (take (len mod 2 ^ 8) buf)"

definition find_ppa_from :: "u8 list \<Rightarrow> u8 list \<Rightarrow> nat \<Rightarrow> nat res" where
  "find_ppa_from body buf len = bindE (get16 body 0) (\<lambda>e. search_loop body (narrowed_key buf len) 1 (int e))"

text \<open>A search in a page by the device; a miss sets the type of the request to 255.\<close>

definition posix_read_hw :: "nat \<Rightarrow> u8 list \<Rightarrow> nat \<Rightarrow> value_set \<Rightarrow> algo_req \<Rightarrow> posix \<Rightarrow> (algo_req \<times> posix) res" where
  "posix_read_hw PPA0 buf len value req d =
     (let PPA = convert_ppa d PPA0 in
      if PPA > p_nop d then Inl Abort
      else
        let req1 = (if ar_type_lower req \<noteq> 1 \<and> ar_type_lower req \<noteq> 0 then req\<lparr>ar_type_lower := 0\<rparr> else req) in
        if dmatag value = - 1 then Inl Abort
        else
          let d1 = count_type MAPPINGR d in
          if size_check d1 PPA then Inl Abort
          else
            bindE (storage d1 PPA) (\<lambda>st.
              case st of
                None \<Rightarrow> Inl Abort
              | Some page \<Rightarrow>
                  bindE (find_ppa_from page buf len) (\<lambda>res.
                    Inr (if res = UINT_MAX then req1\<lparr>ar_type := 255\<rparr> else req1\<lparr>ar_ppa := res\<rparr>, d1))))"

section \<open>The bytes of a page\<close>

type_synonym entry = "str_key \<times> nat"

abbreviation esize :: "entry \<Rightarrow> nat" where
  "esize e \<equiv> 4 + key_len (fst e)"

definition entry_bytes :: "entry \<Rightarrow> u8 list" where
  "entry_bytes e = bytes32 (snd e) @ key (fst e)"

text \<open>The offset of entry \<open>i\<close>, and of the end with \<open>i\<close> the number of entries.\<close>

definition off :: "entry list \<Rightarrow> nat \<Rightarrow> nat" where
  "off es i = 1024 + sum_list (map esize (take i es))"

abbreviation fin :: "entry list \<Rightarrow> nat" where
  "fin es \<equiv> off es (length es)"

text \<open>
  Entries whose keys are neither longer than a \<open>uint8_t\<close> can say nor so short that 512 of them fit in a page,
  which is more than the numbers at its beginning have room for.
\<close>

definition good_entry :: "entry \<Rightarrow> bool" where
  "good_entry e \<longleftrightarrow> 10 < key_len (fst e) \<and> key_len (fst e) < 255 \<and> snd e < 2 ^ 32"

definition holds :: "u8 list \<Rightarrow> entry list \<Rightarrow> bool" where
  "holds body es \<longleftrightarrow> length body = PAGESIZE \<and> fin es \<le> PAGESIZE \<and> (\<forall>e \<in> set es. good_entry e) \<and>
     (\<forall>i < length es. get16 body (i + 1) = Inr (off es i) \<and> take (esize (es ! i)) (drop (off es i) body) = entry_bytes (es ! i))"

definition closed :: "u8 list \<Rightarrow> entry list \<Rightarrow> bool" where
  "closed body es \<longleftrightarrow> holds body es \<and> get16 body 0 = Inr (length es) \<and> get16 body (length es + 1) = Inr (fin es)"

lemma off_Suc: "i < length es \<Longrightarrow> off es (Suc i) = off es i + esize (es ! i)"
  by (simp add: off_def take_Suc_conv_app_nth)

lemma off_append: "i \<le> length es \<Longrightarrow> off (es @ fs) i = off es i"
  by (simp add: off_def)

lemma fin_snoc: "fin (es @ [e]) = fin es + esize e"
  by (simp add: off_def)

lemma off_mono: "i \<le> j \<Longrightarrow> j \<le> length es \<Longrightarrow> off es i \<le> off es j"
proof (induction j)
  case (Suc j)
  then show ?case using off_Suc [of j es] by (cases "i = Suc j") auto
qed simp

lemma off_ge: "1024 \<le> off es i"
  by (simp add: off_def)

lemma few_entries:
  assumes "\<forall>e \<in> set es. good_entry e" "fin es \<le> PAGESIZE"
  shows "length es \<le> 477"
proof -
  have "1024 + 15 * length es \<le> fin es"
    using assms(1) by (induction es) (auto simp: off_def good_entry_def)
  then show ?thesis using assms(2) by (simp add: PAGESIZE_def)
qed

subsection \<open>Writing numbers and bytes\<close>

lemma put16_ok:
  assumes "2 * i + 1 < length body" "v < 65536"
  shows "\<exists>b. put16 body i v = Inr b \<and> length b = length body \<and> get16 b i = Inr v \<and>
    (\<forall>j. j \<noteq> i \<longrightarrow> get16 b j = get16 body j) \<and> (\<forall>o'. 2 * i + 1 < o' \<longrightarrow> drop o' b = drop o' body)"
proof -
  let ?b = "body[2 * i := word_of_nat v, 2 * i + 1 := word_of_nat (v div 256)]"
  have "v div 256 < 256" using assms(2) by (simp add: less_mult_imp_div_less)
  then have "unat (word_of_nat v :: u8) + 256 * unat (word_of_nat (v div 256) :: u8) = v" by (simp add: unat_of_nat)
  then have "get16 ?b i = Inr v" using assms(1) by (simp add: get16_def)
  moreover have "get16 ?b j = get16 body j" if "j \<noteq> i" for j
  proof -
    have "2 * j \<noteq> 2 * i + 1" "2 * j + 1 \<noteq> 2 * i" by presburger+
    then show ?thesis using that by (simp add: get16_def nth_list_update)
  qed
  ultimately show ?thesis using assms(1) by (simp add: put16_def drop_update_cancel)
qed

lemma splice_ok:
  assumes "o' + length xs \<le> length body"
  shows "\<exists>b. splice body o' xs = Inr b \<and> length b = length body \<and> take (length xs) (drop o' b) = xs \<and>
    (\<forall>j. 2 * j + 1 < o' \<longrightarrow> get16 b j = get16 body j) \<and> (\<forall>u n. u + n \<le> o' \<longrightarrow> take n (drop u b) = take n (drop u body))"
proof -
  let ?b = "take o' body @ xs @ drop (o' + length xs) body"
  have nth: "?b ! j = body ! j" if "j < o'" for j using that assms by (simp add: nth_append)
  have len: "length ?b = length body" using assms by simp
  have "take n (drop u ?b) = take n (drop u body)" if "u + n \<le> o'" for u n
    using that assms by (simp add: take_drop)
  moreover have "get16 ?b j = get16 body j" if "2 * j + 1 < o'" for j unfolding get16_def len using that nth by simp
  ultimately show ?thesis using assms len by (simp add: splice_def)
qed

subsection \<open>Adding and reading entries\<close>

lemma holds_entry_bound:
  assumes "holds body es" "i < length es"
  shows "off es i + esize (es ! i) \<le> fin es" "fin es \<le> length body" "1024 \<le> off es i"
  using assms off_Suc [of i es] off_mono [of "Suc i" "length es" es] off_ge [of es i] by (auto simp: holds_def)

lemma holds_put:
  assumes h: "holds body es" and e: "good_entry e" and room: "fin es + esize e \<le> PAGESIZE"
  shows "\<exists>b1 b2. splice body (fin es) (entry_bytes e) = Inr b1 \<and> put16 b1 (length es + 1) (fin es) = Inr b2 \<and> holds b2 (es @ [e])"
proof -
  have len: "length body = PAGESIZE" and g: "\<forall>x \<in> set (es @ [e]). good_entry x" using h e by (auto simp: holds_def)
  have el: "length (entry_bytes e) = esize e" by (simp add: entry_bytes_def)
  have few: "length es \<le> 477" using few_entries [of es] g room by auto
  obtain b1 where b1: "splice body (fin es) (entry_bytes e) = Inr b1" "length b1 = PAGESIZE" "take (esize e) (drop (fin es) b1) = entry_bytes e"
    "\<forall>j. 2 * j + 1 < fin es \<longrightarrow> get16 b1 j = get16 body j" "\<forall>u n. u + n \<le> fin es \<longrightarrow> take n (drop u b1) = take n (drop u body)"
    using splice_ok [of "fin es" "entry_bytes e" body] room len el by auto
  have ix: "2 * (length es + 1) + 1 < length b1" "fin es < 65536" using few b1(2) room by (simp_all add: PAGESIZE_def)
  obtain b2 where b2: "put16 b1 (length es + 1) (fin es) = Inr b2" "length b2 = length b1" "get16 b2 (length es + 1) = Inr (fin es)"
    "\<forall>j. j \<noteq> length es + 1 \<longrightarrow> get16 b2 j = get16 b1 j" "\<forall>u. 2 * (length es + 1) + 1 < u \<longrightarrow> drop u b2 = drop u b1"
    using put16_ok [OF ix] by blast
  have "get16 b2 (i + 1) = Inr (off (es @ [e]) i) \<and> take (esize ((es @ [e]) ! i)) (drop (off (es @ [e]) i) b2) = entry_bytes ((es @ [e]) ! i)"
    if i: "i < length (es @ [e])" for i
  proof -
    have d: "drop (off es i) b2 = drop (off es i) b1" using b2(5) few off_ge [of es i] by simp
    have o: "off (es @ [e]) i = off es i" using i by (intro off_append) simp
    show ?thesis
    proof (cases "i = length es")
      case True
      then show ?thesis using b2(3) b1(3) d o by simp
    next
      case False
      then have i': "i < length es" using i by simp
      note hb = holds_entry_bound [OF h i']
      have "get16 b2 (i + 1) = get16 body (i + 1)" using b2(4) b1(4) i' few off_ge [of es "length es"] by simp
      then show ?thesis using h i' b1(5) hb d unfolding o by (simp add: holds_def nth_append)
    qed
  qed
  then have "holds b2 (es @ [e])" using b2(2) b1(2) g room unfolding holds_def fin_snoc by simp
  then show ?thesis using b1(1) b2(1) by blast
qed

lemma holds_close:
  assumes h: "holds body es"
  shows "\<exists>b1 b2. put16 body 0 (length es) = Inr b1 \<and> put16 b1 (length es + 1) (fin es) = Inr b2 \<and> closed b2 es"
proof -
  have len: "length body = PAGESIZE" "fin es \<le> PAGESIZE" and few: "length es \<le> 477" using h few_entries [of es] by (auto simp: holds_def)
  have ix: "2 * 0 + 1 < length body" "length es < 65536" "2 * (length es + 1) + 1 < length body" "fin es < 65536"
    using few len by (simp_all add: PAGESIZE_def)
  obtain b1 where b1: "put16 body 0 (length es) = Inr b1" "length b1 = length body" "get16 b1 0 = Inr (length es)"
    "\<forall>j. j \<noteq> 0 \<longrightarrow> get16 b1 j = get16 body j" "\<forall>u. 2 * 0 + 1 < u \<longrightarrow> drop u b1 = drop u body" using put16_ok [OF ix(1,2)] by blast
  obtain b2 where b2: "put16 b1 (length es + 1) (fin es) = Inr b2" "length b2 = length b1" "get16 b2 (length es + 1) = Inr (fin es)"
    "\<forall>j. j \<noteq> length es + 1 \<longrightarrow> get16 b2 j = get16 b1 j" "\<forall>u. 2 * (length es + 1) + 1 < u \<longrightarrow> drop u b2 = drop u b1"
    using put16_ok [of "length es + 1" b1 "fin es"] ix(3,4) b1(2) by auto
  have d: "drop (off es i) b2 = drop (off es i) body" for i using b2(5) b1(5) few off_ge [of es i] by simp
  have "get16 b2 (i + 1) = get16 body (i + 1)" if "i < length es" for i using b2(4) b1(4) that by simp
  then have "holds b2 es" using h b1(2) b2(2) d by (simp add: holds_def)
  then show ?thesis using b1 b2 by (auto simp: closed_def)
qed

lemma read_entry:
  assumes c: "closed body es" and i: "i < length es"
  shows "get16 body (Suc i) = Inr (off es i)" "get16 body (Suc (Suc i)) = Inr (off es (Suc i))"
    "get32 body (off es i) = Inr (snd (es ! i))" "entry_key body (Suc i) = Inr (fst (es ! i))"
    "entry_len (off es i) (off es (Suc i)) = key_len (fst (es ! i))"
proof -
  have h: "holds body es" and g: "good_entry (es ! i)" using c i by (auto simp: closed_def holds_def)
  note hb = holds_entry_bound [OF h i]
  show 1: "get16 body (Suc i) = Inr (off es i)" using h i by (simp add: holds_def)
  show 2: "get16 body (Suc (Suc i)) = Inr (off es (Suc i))"
    using h c i by (cases "Suc i = length es") (simp_all add: holds_def closed_def)
  have eb: "take (esize (es ! i)) (drop (off es i) body) = entry_bytes (es ! i)" using h i by (simp add: holds_def)
  have "take 4 (drop (off es i) body) = take 4 (entry_bytes (es ! i))" unfolding eb [symmetric] by (simp add: min_def)
  then show "get32 body (off es i) = Inr (snd (es ! i))"
    using hb g by (simp add: get32_def entry_bytes_def of_bytes32_inverse good_entry_def)
  show 3: "entry_len (off es i) (off es (Suc i)) = key_len (fst (es ! i))"
    using g unfolding entry_len_def off_Suc [OF i] good_entry_def by simp
  have "take (key_len (fst (es ! i))) (drop (off es i + 4) body) = drop 4 (entry_bytes (es ! i))"
    unfolding eb [symmetric] by (simp add: drop_take add.commute)
  then show "entry_key body (Suc i) = Inr (fst (es ! i))"
    using 1 2 hb by (simp add: entry_key_def 3 Let_def entry_bytes_def)
qed

section \<open>Searching a page\<close>

definition sorted_keys :: "entry list \<Rightarrow> bool" where
  "sorted_keys es \<longleftrightarrow> sorted_wrt (<) (map fst es)"

lemma sorted_keys_nth: "sorted_keys es \<Longrightarrow> i < length es \<Longrightarrow> j < length es \<Longrightarrow> fst (es ! i) < fst (es ! j) \<longleftrightarrow> i < j"
  unfolding sorted_keys_def sorted_wrt_iff_nth_less by (metis length_map less_asym less_irrefl nat_neq_iff nth_map)

lemma sorted_keys_map_of:
  assumes "sorted_keys es" "i < length es"
  shows "map_of es (fst (es ! i)) = Some (snd (es ! i))"
proof -
  have "distinct (map fst es)" using assms(1) strict_sorted_iff unfolding sorted_keys_def by blast
  then show ?thesis using assms(2) by (simp add: map_of_is_SomeI)
qed

text \<open>The binary search, as long as the key, if it is there, is between the two ends.\<close>

lemma search_loop_finds:
  assumes c: "closed body es" and so: "sorted_keys es"
  shows "1 \<le> s \<Longrightarrow> e \<le> int (length es) \<Longrightarrow>
    (\<And>i. i < length es \<Longrightarrow> fst (es ! i) = k \<Longrightarrow> s \<le> int i + 1 \<and> int i + 1 \<le> e) \<Longrightarrow>
    search_loop body k s e = Inr (case map_of es k of None \<Rightarrow> UINT_MAX | Some ppa \<Rightarrow> ppa)"
proof (induction "nat (e - s + 1)" arbitrary: s e rule: less_induct)
  case less
  show ?case
  proof (cases "s \<le> e")
    case False
    then have "k \<notin> set (map fst es)" using less.prems(3) by (force simp: in_set_conv_nth)
    then have "map_of es k = None" by (simp add: map_of_eq_None_iff)
    then show ?thesis using False by (simp add: search_loop.simps)
  next
    case True
    define m where "m = (s + e) div 2"
    define i where "i = nat m - 1"
    have m: "s \<le> m" "m \<le> e" using True by (auto simp: m_def)
    then have i: "i < length es" "nat m = Suc i" "m = int i + 1" using less.prems(1,2) by (auto simp: i_def)
    note r = read_entry [OF c i(1)]
    let ?k = "fst (es ! i)"
    have step: "search_loop body k s e = (if ?k = k then Inr (snd (es ! i)) else if ?k < k then search_loop body k (m + 1) e
        else search_loop body k s (m - 1))"
      using True r i(2) by (subst search_loop.simps) (simp add: Let_def m_def [symmetric])
    consider "?k = k" | "?k < k" | "k < ?k" by (rule linorder_cases)
    then show ?thesis
    proof cases
      case 1
      then show ?thesis using step sorted_keys_map_of [OF so i(1)] by simp
    next
      case 2
      have "search_loop body k (m + 1) e = Inr (case map_of es k of None \<Rightarrow> UINT_MAX | Some ppa \<Rightarrow> ppa)"
      proof (rule less.hyps)
        fix j
        assume j: "j < length es" "fst (es ! j) = k"
        then show "m + 1 \<le> int j + 1 \<and> int j + 1 \<le> e" using less.prems(3) [OF j] 2 sorted_keys_nth [OF so i(1) j(1)] i(3) by simp
      qed (use m less.prems in auto)
      then show ?thesis using step 2 by auto
    next
      case 3
      have "search_loop body k s (m - 1) = Inr (case map_of es k of None \<Rightarrow> UINT_MAX | Some ppa \<Rightarrow> ppa)"
      proof (rule less.hyps)
        fix j
        assume j: "j < length es" "fst (es ! j) = k"
        then show "s \<le> int j + 1 \<and> int j + 1 \<le> m - 1" using less.prems(3) [OF j] 3 sorted_keys_nth [OF so j(1) i(1)] i(3) by simp
      qed (use m less.prems in auto)
      then show ?thesis using step 3 by auto
    qed
  qed
qed

lemma find_ppa_ok:
  assumes "closed body es" "sorted_keys es"
  shows "find_ppa_from body buf len = Inr (case map_of es (narrowed_key buf len) of None \<Rightarrow> UINT_MAX | Some ppa \<Rightarrow> ppa)"
proof -
  have "search_loop body (narrowed_key buf len) 1 (int (length es)) = Inr (case map_of es (narrowed_key buf len) of None \<Rightarrow> UINT_MAX | Some ppa \<Rightarrow> ppa)"
    by (rule search_loop_finds [OF assms]) auto
  then show ?thesis using assms(1) by (simp add: find_ppa_from_def closed_def)
qed

section \<open>Reading a run of pages\<close>

text \<open>The pages at the addresses hold the entries, a page at least one.\<close>

definition stored_run :: "posix \<Rightarrow> nat list \<Rightarrow> entry list list \<Rightarrow> bool" where
  "stored_run d ppas pages \<longleftrightarrow> length pages \<le> length ppas \<and> (\<forall>k < length pages. pages ! k \<noteq> [] \<and>
     convert_ppa d (ppas ! k) < p_nop d \<and> (\<exists>b. seg_table d (convert_ppa d (ppas ! k)) = Some b \<and> closed b (pages ! k)))"

text \<open>The reader is in page \<open>k\<close> and has returned \<open>j\<close> of its entries.\<close>

definition in_page :: "posix \<Rightarrow> pl_body \<Rightarrow> entry list list \<Rightarrow> nat \<Rightarrow> nat \<Rightarrow> bool" where
  "in_page d p pages k j \<longleftrightarrow> k < length pages \<and> j \<le> length (pages ! k) \<and> now_page p = Stored (convert_ppa d (map_ppa_list p ! k)) \<and>
     pidx p = Suc k \<and> kidx p = Suc j \<and> max_key p = length (pages ! k)"

definition reading :: "posix \<Rightarrow> pl_body \<Rightarrow> entry list list \<Rightarrow> entry list \<Rightarrow> bool" where
  "reading d p pages rest \<longleftrightarrow> stored_run d (map_ppa_list p) pages \<and> max_page p = length pages \<and> pages \<noteq> [] \<and>
     (now_page p = Null \<and> pidx p = 0 \<and> rest = concat pages \<or>
      (\<exists>k j. in_page d p pages k j \<and> rest = drop j (pages ! k) @ concat (drop (Suc k) pages)))"

lemma init_reading:
  "stored_run d ppas pages \<Longrightarrow> pages \<noteq> [] \<Longrightarrow> reading d (plbody_init ppas (length pages)) pages (concat pages)"
  by (simp add: reading_def plbody_init_def)

lemma new_page_read:
  assumes r: "stored_run d (map_ppa_list p) pages" and k: "pidx p = k" "k < length pages"
  shows "\<exists>p'. new_page_set fresh iswrite d p = Inr p' \<and> in_page d p' pages k 0 \<and> map_ppa_list p' = map_ppa_list p \<and> max_page p' = max_page p"
proof -
  obtain b where b: "seg_table d (convert_ppa d (map_ppa_list p ! k)) = Some b" "closed b (pages ! k)"
    "convert_ppa d (map_ppa_list p ! k) < p_nop d" "k < length (map_ppa_list p)" using r k by (auto simp: stored_run_def)
  then show ?thesis using k by (auto simp: new_page_set_def storage_def closed_def in_page_def Let_def)
qed

lemma page_turn:
  assumes R: "reading d p pages rest"
  shows "\<exists>p1 k j. (if now_page p = Null \<or> pidx p < max_page p \<and> kidx p > max_key p then new_page_set [] False d p else Inr p) = Inr p1 \<and>
      in_page d p1 pages k j \<and> map_ppa_list p1 = map_ppa_list p \<and> max_page p1 = max_page p \<and>
      rest = drop j (pages ! k) @ concat (drop (Suc k) pages) \<and> (j < length (pages ! k) \<or> Suc k = length pages)"
proof -
  have sr: "stored_run d (map_ppa_list p) pages" and mx: "max_page p = length pages" "pages \<noteq> []" using R by (auto simp: reading_def)
  show ?thesis
  proof (cases "now_page p = Null")
    case True
    then have z: "pidx p = 0" "rest = concat pages" using R by (auto simp: reading_def in_page_def)
    have l: "0 < length pages" using mx(2) by simp
    obtain p1 where "new_page_set [] False d p = Inr p1" "in_page d p1 pages 0 0" "map_ppa_list p1 = map_ppa_list p" "max_page p1 = max_page p"
      using new_page_read [OF sr z(1) l] by blast
    moreover have "0 < length (pages ! 0)" using sr l by (simp add: stored_run_def)
    moreover have "concat pages = drop 0 (pages ! 0) @ concat (drop (Suc 0) pages)" using mx(2) by (cases pages) auto
    ultimately show ?thesis using True z(2) by (intro exI [of _ p1] exI [of _ 0]) simp
  next
    case False
    then obtain k j where i: "in_page d p pages k j" "rest = drop j (pages ! k) @ concat (drop (Suc k) pages)" using R by (auto simp: reading_def)
    show ?thesis
    proof (cases "j < length (pages ! k) \<or> Suc k = length pages")
      case True
      then show ?thesis using False i mx(1) by (intro exI [of _ p] exI [of _ k] exI [of _ j]) (auto simp: in_page_def)
    next
      case end': False
      then have k: "Suc k < length pages" "j = length (pages ! k)" using i(1) by (auto simp: in_page_def)
      have pk: "pidx p = Suc k" using i(1) by (simp add: in_page_def)
      obtain p1 where p1: "new_page_set [] False d p = Inr p1" "in_page d p1 pages (Suc k) 0" "map_ppa_list p1 = map_ppa_list p" "max_page p1 = max_page p"
        using new_page_read [OF sr pk k(1)] by blast
      have "drop (Suc k) pages = pages ! Suc k # drop (Suc (Suc k)) pages" by (rule Cons_nth_drop_Suc [symmetric, OF k(1)])
      then have "rest = drop 0 (pages ! Suc k) @ concat (drop (Suc (Suc k)) pages)" using i(2) k(2) by simp
      moreover have "0 < length (pages ! Suc k)" using sr k(1) by (simp add: stored_run_def)
      ultimately show ?thesis using p1 k i(1) mx(1) by (intro exI [of _ p1] exI [of _ "Suc k"] exI [of _ 0]) (simp add: in_page_def)
    qed
  qed
qed

lemma next_key_ok:
  assumes R: "reading d p pages rest"
  shows "\<exists>p'. plbody_get_next_key d p = Inr (case rest of [] \<Rightarrow> None | e # _ \<Rightarrow> Some e, p') \<and> reading d p' pages (tl rest)"
proof -
  have sr: "stored_run d (map_ppa_list p) pages" and mx: "max_page p = length pages" "pages \<noteq> []" using R by (auto simp: reading_def)
  obtain p1 k j where p1: "(if now_page p = Null \<or> pidx p < max_page p \<and> kidx p > max_key p then new_page_set [] False d p else Inr p) = Inr p1"
    "in_page d p1 pages k j" "map_ppa_list p1 = map_ppa_list p" "max_page p1 = max_page p"
    "rest = drop j (pages ! k) @ concat (drop (Suc k) pages)" "j < length (pages ! k) \<or> Suc k = length pages" using page_turn [OF R] by blast
  have ip: "k < length pages" "now_page p1 = Stored (convert_ppa d (map_ppa_list p ! k))" "pidx p1 = Suc k" "kidx p1 = Suc j" "max_key p1 = length (pages ! k)"
    "j \<le> length (pages ! k)" using p1(2,3) by (auto simp: in_page_def)
  show ?thesis
  proof (cases "j < length (pages ! k)")
    case True
    obtain b where b: "seg_table d (convert_ppa d (map_ppa_list p ! k)) = Some b" "closed b (pages ! k)" using sr ip(1) by (auto simp: stored_run_def)
    note re = read_entry [OF b(2) True]
    have "good_entry (pages ! k ! j)" using b(2) True by (simp add: closed_def holds_def)
    then have "key_len (fst (pages ! k ! j)) \<noteq> 255" by (simp add: good_entry_def)
    then have "plbody_get_next_key d p = Inr (Some (pages ! k ! j), p1\<lparr>kidx := Suc (Suc j)\<rparr>)"
      using p1(1) ip True b(1) re by (simp add: plbody_get_next_key_def)
    moreover have "rest = pages ! k ! j # (drop (Suc j) (pages ! k) @ concat (drop (Suc k) pages))"
      using p1(5) Cons_nth_drop_Suc [OF True] by simp
    moreover have "in_page d (p1\<lparr>kidx := Suc (Suc j)\<rparr>) pages k (Suc j)" using p1(2) True by (simp add: in_page_def)
    ultimately show ?thesis using sr mx p1(3,4) by (auto simp: reading_def)
  next
    case False
    then have "rest = []" using p1(5,6) by simp
    moreover have "plbody_get_next_key d p = Inr (None, p1)"
      using p1(1,4,6) ip mx(1) False by (simp add: plbody_get_next_key_def)
    moreover have "reading d p1 pages []" using sr mx p1(2-5) \<open>rest = []\<close> unfolding reading_def by simp blast
    ultimately show ?thesis by simp
  qed
qed

section \<open>Writing a run of pages\<close>

text \<open>What the writer is to do with an entry: the pages that are complete, and the one in work.\<close>

fun add_entry :: "entry list list \<times> entry list \<Rightarrow> entry \<Rightarrow> entry list list \<times> entry list" where
  "add_entry (full, cur) e =
     (if cur = [] then (full, [e]) else if fin cur + esize e > PAGESIZE then (full @ [cur], [e]) else (full, cur @ [e]))"

definition targets_ok :: "posix \<Rightarrow> nat list \<Rightarrow> bool" where
  "targets_ok d ppas \<longleftrightarrow> distinct (map (convert_ppa d) ppas) \<and>
     (\<forall>ppa \<in> set ppas. convert_ppa d ppa < p_nop d \<and> seg_table d (convert_ppa d ppa) = None)"

text \<open>
  The writer that began on the device \<open>d0\<close>: the complete pages are stored at the first addresses, nothing else
  of the device has changed, and the page in work is not yet stored.
\<close>

definition kept :: "posix \<Rightarrow> posix \<Rightarrow> nat list \<Rightarrow> bool" where
  "kept d0 d ppas \<longleftrightarrow> d = d0\<lparr>seg_table := seg_table d\<rparr> \<and>
     (\<forall>x. x \<notin> convert_ppa d0 ` set ppas \<longrightarrow> seg_table d x = seg_table d0 x)"

definition writing :: "posix \<Rightarrow> posix \<Rightarrow> pl_body \<Rightarrow> entry list list \<Rightarrow> entry list \<Rightarrow> bool" where
  "writing d0 d p full cur \<longleftrightarrow> stored_run d (map_ppa_list p) full \<and> kept d0 d (take (length full) (map_ppa_list p)) \<and>
     (if cur = [] then full = [] \<and> now_page p = Null \<and> pidx p = 0
      else \<exists>body. now_page p = Fresh body \<and> holds body cur \<and> pidx p = Suc (length full) \<and> kidx p = Suc (length cur) \<and> pl_length p = fin cur)"

lemma kept_convert: "kept d0 d ppas \<Longrightarrow> convert_ppa d ppa = convert_ppa d0 ppa \<and> p_nop d = p_nop d0"
proof -
  assume "kept d0 d ppas"
  then obtain m where "d = d0\<lparr>seg_table := m\<rparr>" by (auto simp: kept_def)
  then show ?thesis by simp
qed

lemma target_free:
  assumes t: "targets_ok d0 ppas" and k: "kept d0 d (take n ppas)" and n: "n < length ppas"
  shows "storage d (convert_ppa d (ppas ! n)) = Inr None"
proof -
  have "convert_ppa d0 (ppas ! n) \<notin> convert_ppa d0 ` set (take n ppas)"
    using t n by (auto simp: targets_ok_def distinct_conv_nth in_set_conv_nth)
  then show ?thesis using t n k kept_convert [OF k] by (simp add: targets_ok_def kept_def storage_def)
qed

lemma init_writing: "writing d d (plbody_init ppas n) [] []"
  by (simp add: writing_def plbody_init_def stored_run_def kept_def)

lemma holds_Nil: "length body = PAGESIZE \<Longrightarrow> holds body []"
  by (simp add: holds_def off_def PAGESIZE_def)

lemma new_page_write:
  assumes "targets_ok d0 (map_ppa_list p)" "kept d0 d (take n (map_ppa_list p))" "n < length (map_ppa_list p)" "pidx p = n" "length fresh = PAGESIZE"
  shows "\<exists>m. new_page_set fresh True d p = Inr (p\<lparr>pidx := Suc n, now_page := Fresh fresh, kidx := 1, max_key := m, pl_length := 1024\<rparr>)"
  using target_free [OF assms(1-3)] assms(3-5) by (auto simp: new_page_set_def get16_def PAGESIZE_def)

lemma put_entry_fresh:
  assumes "now_page p = Fresh body" "holds body cur" "kidx p = Suc (length cur)" "pl_length p = fin cur" "good_entry e" "fin cur + esize e \<le> PAGESIZE"
  shows "\<exists>b. put_entry (fst e) (snd e) d p = Inr (p\<lparr>kidx := Suc (Suc (length cur)), pl_length := fin (cur @ [e]), now_page := Fresh b\<rparr>, d) \<and>
    holds b (cur @ [e])"
  using holds_put [OF assms(2,5,6)] assms(1,3,4) by (auto simp: put_entry_def entry_bytes_def fin_snoc [simplified] Let_def add.assoc)

lemma store_page:
  assumes w: "writing d0 d p full cur" and c: "cur \<noteq> []" and t: "targets_ok d0 (map_ppa_list p)" and room: "length full < length (map_ppa_list p)"
  shows "\<exists>b x d1. close_page d p = Inr (b, p\<lparr>now_page := Stored x\<rparr>, d1) \<and> closed b cur \<and>
    stored_run d1 (map_ppa_list p) (full @ [cur]) \<and> kept d0 d1 (take (Suc (length full)) (map_ppa_list p))"
proof -
  let ?ppas = "map_ppa_list p" let ?x = "convert_ppa d (?ppas ! length full)"
  obtain body where p: "now_page p = Fresh body" "holds body cur" "pidx p = Suc (length full)" "kidx p = Suc (length cur)" "pl_length p = fin cur"
    and sr: "stored_run d ?ppas full" and k: "kept d0 d (take (length full) ?ppas)" using w c by (auto simp: writing_def)
  obtain b1 b where b: "put16 body 0 (length cur) = Inr b1" "put16 b1 (length cur + 1) (fin cur) = Inr b" "closed b cur" using holds_close [OF p(2)] by blast
  have st: "storage d ?x = Inr None" by (rule target_free [OF t k room])
  let ?d = "d\<lparr>seg_table := (seg_table d)(?x \<mapsto> b)\<rparr>"
  have free: "?x < p_nop d" "seg_table d ?x = None" using st by (auto simp: storage_def split: if_splits)
  have "close_page d p = Inr (b, p\<lparr>now_page := Stored ?x\<rparr>, ?d)" using p b st room by (simp add: close_page_def)
  moreover have "stored_run ?d ?ppas (full @ [cur])"
    using sr free b(3) c room by (auto simp: stored_run_def nth_append less_Suc_eq)
  moreover have "kept d0 ?d (take (Suc (length full)) ?ppas)"
  proof -
    have tk: "take (Suc (length full)) ?ppas = take (length full) ?ppas @ [?ppas ! length full]" using room by (rule take_Suc_conv_app_nth)
    obtain m where "d = d0\<lparr>seg_table := m\<rparr>" using k by (auto simp: kept_def)
    then show ?thesis using k kept_convert [OF k] by (auto simp: kept_def tk)
  qed
  ultimately show ?thesis using b(3) by blast
qed

text \<open>An entry into the page that has just begun.\<close>

lemma put_first:
  assumes "length fresh = PAGESIZE" "good_entry e" "now_page q = Fresh fresh" "kidx q = 1" "pl_length q = 1024"
  shows "\<exists>b. put_entry (fst e) (snd e) d q = Inr (q\<lparr>kidx := Suc (Suc 0), pl_length := fin [e], now_page := Fresh b\<rparr>, d) \<and> holds b [e]"
proof -
  have "fin [] + esize e \<le> PAGESIZE" using assms(2) by (simp add: good_entry_def off_def PAGESIZE_def)
  moreover have "pl_length q = fin []" using assms(5) by (simp add: off_def)
  ultimately show ?thesis using put_entry_fresh [OF assms(3) holds_Nil [OF assms(1)] _ _ assms(2), of d] assms(4) by simp
qed

text \<open>
  The three ways of an entry: the first of the run, one that fits in the page, and one that begins another page.
\<close>

lemma insert_first:
  assumes w: "writing d0 d p [] []" and t: "targets_ok d0 (map_ppa_list p)" and e: "good_entry e" and f: "length fresh = PAGESIZE"
    and room: "0 < length (map_ppa_list p)"
  shows "\<exists>p'. plbody_insert_new_key fresh (fst e) (snd e) False d p = Inr (None, p', d) \<and> writing d0 d p' [] [e] \<and> map_ppa_list p' = map_ppa_list p"
proof -
  have p: "now_page p = Null" "pidx p = 0" and k: "kept d0 d (take 0 (map_ppa_list p))" and sr: "stored_run d (map_ppa_list p) []"
    using w by (auto simp: writing_def)
  obtain m where n: "new_page_set fresh True d p = Inr (p\<lparr>pidx := Suc 0, now_page := Fresh fresh, kidx := 1, max_key := m, pl_length := 1024\<rparr>)" (is "_ = Inr ?q")
    using new_page_write [OF t k room p(2) f] by blast
  obtain b where b: "put_entry (fst e) (snd e) d ?q = Inr (?q\<lparr>kidx := Suc (Suc 0), pl_length := fin [e], now_page := Fresh b\<rparr>, d)" "holds b [e]"
    using put_first [OF f e, of ?q d] by auto
  have "plbody_insert_new_key fresh (fst e) (snd e) False d p = Inr (None, ?q\<lparr>kidx := Suc (Suc 0), pl_length := fin [e], now_page := Fresh b\<rparr>, d)"
    using p(1) n b(1) unfolding plbody_insert_new_key_def by simp
  then show ?thesis using b(2) sr k by (simp add: writing_def)
qed

lemma insert_fits:
  assumes w: "writing d0 d p full cur" and e: "good_entry e" and c: "cur \<noteq> []" and fits: "fin cur + esize e \<le> PAGESIZE"
  shows "\<exists>p'. plbody_insert_new_key fresh (fst e) (snd e) False d p = Inr (None, p', d) \<and> writing d0 d p' full (cur @ [e]) \<and> map_ppa_list p' = map_ppa_list p"
proof -
  obtain body where p: "now_page p = Fresh body" "holds body cur" "pidx p = Suc (length full)" "kidx p = Suc (length cur)" "pl_length p = fin cur"
    using w c by (auto simp: writing_def)
  obtain b where b: "put_entry (fst e) (snd e) d p = Inr (p\<lparr>kidx := Suc (Suc (length cur)), pl_length := fin (cur @ [e]), now_page := Fresh b\<rparr>, d)" (is "_ = Inr (?q, d)")
    "holds b (cur @ [e])" using put_entry_fresh [OF p(1,2,4,5) e fits, of d] by blast
  have "length cur \<le> 477" using p(2) few_entries by (auto simp: holds_def)
  then have "\<not> kidx p \<ge> (PAGESIZE - 1024) div 2 - 2" using p(4) by (simp add: PAGESIZE_def)
  then have "plbody_insert_new_key fresh (fst e) (snd e) False d p = Inr (None, ?q, d)"
    using fits p(1,5) b(1) unfolding plbody_insert_new_key_def by simp
  then show ?thesis using b(2) p(3) w by (simp add: writing_def)
qed

lemma insert_over:
  assumes w: "writing d0 d p full cur" and t: "targets_ok d0 (map_ppa_list p)" and e: "good_entry e" and f: "length fresh = PAGESIZE"
    and c: "cur \<noteq> []" and over: "fin cur + esize e > PAGESIZE" and room: "Suc (length full) < length (map_ppa_list p)"
  shows "\<exists>b p' d'. plbody_insert_new_key fresh (fst e) (snd e) False d p = Inr (Some b, p', d') \<and> closed b cur \<and>
    writing d0 d' p' (full @ [cur]) [e] \<and> map_ppa_list p' = map_ppa_list p"
proof -
  have p: "now_page p \<noteq> Null" "pidx p = Suc (length full)" "pl_length p = fin cur" using w c by (auto simp: writing_def)
  obtain b x d1 where s: "close_page d p = Inr (b, p\<lparr>now_page := Stored x\<rparr>, d1)" "closed b cur"
    "stored_run d1 (map_ppa_list p) (full @ [cur])" "kept d0 d1 (take (Suc (length full)) (map_ppa_list p))"
    using store_page [OF w c t] room by auto
  obtain m where q: "new_page_set fresh True d1 (p\<lparr>now_page := Stored x\<rparr>) =
      Inr (p\<lparr>now_page := Stored x, pidx := Suc (Suc (length full)), now_page := Fresh fresh, kidx := 1, max_key := m, pl_length := 1024\<rparr>)" (is "_ = Inr ?q")
    using new_page_write [of d0 "p\<lparr>now_page := Stored x\<rparr>" d1 "Suc (length full)" fresh] t s(4) room p(2) f by auto
  obtain b' where b': "put_entry (fst e) (snd e) d1 ?q = Inr (?q\<lparr>kidx := Suc (Suc 0), pl_length := fin [e], now_page := Fresh b'\<rparr>, d1)" "holds b' [e]"
    using put_first [OF f e, of ?q d1] by auto
  have "plbody_insert_new_key fresh (fst e) (snd e) False d p = Inr (Some b, ?q\<lparr>kidx := Suc (Suc 0), pl_length := fin [e], now_page := Fresh b'\<rparr>, d1)"
    using s(1) q b'(1) p over unfolding plbody_insert_new_key_def by simp
  then show ?thesis using b'(2) s(2-4) by (simp add: writing_def)
qed

lemma insert_ok:
  assumes w: "writing d0 d p full cur" and t: "targets_ok d0 (map_ppa_list p)" and e: "good_entry e" and f: "length fresh = PAGESIZE"
    and a: "add_entry (full, cur) e = (full', cur')" and room: "length full' < length (map_ppa_list p)"
  shows "\<exists>r p' d'. plbody_insert_new_key fresh (fst e) (snd e) False d p = Inr (r, p', d') \<and> writing d0 d' p' full' cur' \<and>
    map_ppa_list p' = map_ppa_list p \<and> (case r of None \<Rightarrow> full' = full | Some b \<Rightarrow> full' = full @ [cur] \<and> closed b cur)"
proof -
  consider (first) "cur = []" "full = []" | (fits) "cur \<noteq> []" "fin cur + esize e \<le> PAGESIZE" | (over) "cur \<noteq> []" "fin cur + esize e > PAGESIZE"
    using w unfolding writing_def by (metis linorder_not_less)
  then show ?thesis
  proof cases
    case first
    then have "full' = []" "cur' = [e]" using a by auto
    then show ?thesis using insert_first [OF w [unfolded first] t e f] first room by auto
  next
    case fits
    then have "full' = full" "cur' = cur @ [e]" using a by auto
    then show ?thesis using insert_fits [OF w e fits, of fresh] by auto
  next
    case over
    then have n: "full' = full @ [cur]" "cur' = [e]" using a by auto
    show ?thesis using insert_over [OF w t e f over] room unfolding n by fastforce
  qed
qed

lemma flush_ok:
  assumes w: "writing d0 d p full cur" and c: "cur \<noteq> []" and t: "targets_ok d0 (map_ppa_list p)" and room: "length full < length (map_ppa_list p)"
  shows "\<exists>b p' d'. plbody_insert_new_key fresh k ppa True d p = Inr (Some b, p', d') \<and> closed b cur \<and>
    stored_run d' (map_ppa_list p) (full @ [cur]) \<and> kept d0 d' (take (Suc (length full)) (map_ppa_list p))"
proof -
  have "now_page p \<noteq> Null" "kidx p > 1" using w c by (auto simp: writing_def)
  then show ?thesis using store_page [OF w c t room] unfolding plbody_insert_new_key_def by auto
qed

section \<open>Whole runs\<close>

text \<open>The pages a list of entries is cut into.\<close>

definition paginate :: "entry list \<Rightarrow> entry list list" where
  "paginate es = (case foldl add_entry ([], []) es of (full, cur) \<Rightarrow> if cur = [] then full else full @ [cur])"

lemma add_entry_concat:
  "foldl add_entry (full, cur) es = (full', cur') \<Longrightarrow> concat full' @ cur' = concat full @ cur @ es \<and> length full \<le> length full' \<and> (es \<noteq> [] \<longrightarrow> cur' \<noteq> [])"
proof (induction es arbitrary: full cur)
  case (Cons e es)
  obtain f1 c1 where a: "add_entry (full, cur) e = (f1, c1)" by force
  then have "concat f1 @ c1 = concat full @ cur @ [e]" "length full \<le> length f1" "c1 \<noteq> []" by (auto split: if_splits)
  moreover have "foldl add_entry (f1, c1) es = (full', cur')" using Cons.prems a by simp
  ultimately show ?case using Cons.IH [of f1 c1] Cons.prems by (cases "es = []") auto
qed simp

lemma paginate_concat: "concat (paginate es) = es"
  using add_entry_concat [of "[]" "[]" es] by (auto simp: paginate_def split: prod.splits)

lemma paginate_empty: "paginate es = [] \<longleftrightarrow> es = []"
  using paginate_concat [of es] by (auto simp: paginate_def)

text \<open>A page holds a part of the entries, in their order.\<close>

lemma paginate_part:
  assumes "i < length (paginate es)"
  shows "set (paginate es ! i) \<subseteq> set es" "sorted_keys es \<Longrightarrow> sorted_keys (paginate es ! i)"
proof -
  have "concat (paginate es) = concat (take i (paginate es)) @ paginate es ! i @ concat (drop (Suc i) (paginate es))"
    using id_take_nth_drop [OF assms] by (metis concat.simps(2) concat_append)
  then have e: "es = concat (take i (paginate es)) @ paginate es ! i @ concat (drop (Suc i) (paginate es))" by (simp only: paginate_concat)
  show "set (paginate es ! i) \<subseteq> set es" by (subst (2) e) auto
  assume "sorted_keys es"
  then show "sorted_keys (paginate es ! i)" by (subst (asm) e) (simp add: sorted_keys_def sorted_wrt_append)
qed

text \<open>A run is written by inserting every entry and flushing; it is read key by key.\<close>

definition write_run :: "(nat \<Rightarrow> u8 list) \<Rightarrow> nat list \<Rightarrow> entry list \<Rightarrow> posix \<Rightarrow> posix res" where
  "write_run fresh ppas es d =
     bindE (foldE (\<lambda>(k, ppa) (p, d). bindE (plbody_insert_new_key (fresh (pidx p)) k ppa False d p) (\<lambda>(r, p', d'). Inr (p', d')))
        es (plbody_init ppas (length ppas), d)) (\<lambda>(p, d).
     bindE (plbody_insert_new_key [] (Str_Key []) 0 True d p) (\<lambda>(r, p', d'). Inr d'))"

fun read_run :: "nat \<Rightarrow> posix \<Rightarrow> pl_body \<Rightarrow> entry option list res" where
  "read_run 0 d p = Inr []"
| "read_run (Suc n) d p = bindE (plbody_get_next_key d p) (\<lambda>(e, p'). bindE (read_run n d p') (\<lambda>es. Inr (e # es)))"

lemma inserts_ok:
  assumes "writing d0 d p full cur" "targets_ok d0 (map_ppa_list p)" "\<forall>e \<in> set es. good_entry e" "\<And>i. length (fresh i) = PAGESIZE"
    "foldl add_entry (full, cur) es = (full', cur')" "length full' < length (map_ppa_list p)"
  shows "\<exists>p' d'. foldE (\<lambda>(k, ppa) (p, d). bindE (plbody_insert_new_key (fresh (pidx p)) k ppa False d p) (\<lambda>(r, p', d'). Inr (p', d'))) es (p, d) = Inr (p', d') \<and>
    writing d0 d' p' full' cur' \<and> map_ppa_list p' = map_ppa_list p"
  using assms
proof (induction es arbitrary: d p full cur)
  case (Cons e es)
  obtain f1 c1 where a: "add_entry (full, cur) e = (f1, c1)" by force
  then have rest: "foldl add_entry (f1, c1) es = (full', cur')" using Cons.prems(5) by simp
  then have "length f1 < length (map_ppa_list p)" using add_entry_concat [OF rest] Cons.prems(6) by simp
  then obtain r p1 d1 where i: "plbody_insert_new_key (fresh (pidx p)) (fst e) (snd e) False d p = Inr (r, p1, d1)" "writing d0 d1 p1 f1 c1"
    "map_ppa_list p1 = map_ppa_list p" using insert_ok [OF Cons.prems(1,2) _ Cons.prems(4) [of "pidx p"] a] Cons.prems(3) by auto
  have "targets_ok d0 (map_ppa_list p1)" "\<forall>e \<in> set es. good_entry e" "length full' < length (map_ppa_list p1)" using Cons.prems(2,3,6) i(3) by simp_all
  note ih = Cons.IH [OF i(2) this(1,2) Cons.prems(4) rest this(3)]
  then show ?case using i(1,3) by (auto simp: split_beta)
qed auto

lemma write_run_ok:
  assumes t: "targets_ok d ppas" and g: "\<forall>e \<in> set es. good_entry e" and f: "\<And>i. length (fresh i) = PAGESIZE"
    and room: "length (paginate es) \<le> length ppas" and ne: "es \<noteq> []"
  shows "\<exists>d'. write_run fresh ppas es d = Inr d' \<and> stored_run d' ppas (paginate es) \<and> kept d d' (take (length (paginate es)) ppas)"
proof -
  let ?p = "plbody_init ppas (length ppas)"
  obtain full cur where a: "foldl add_entry ([], []) es = (full, cur)" by force
  then have c: "cur \<noteq> []" using add_entry_concat [OF a] ne by simp
  then have pg: "paginate es = full @ [cur]" using a by (simp add: paginate_def)
  have m: "map_ppa_list ?p = ppas" by (simp add: plbody_init_def)
  have l: "length full < length ppas" using room pg by simp
  obtain p' d' where i: "foldE (\<lambda>(k, ppa) (p, d). bindE (plbody_insert_new_key (fresh (pidx p)) k ppa False d p) (\<lambda>(r, p', d'). Inr (p', d'))) es (?p, d) = Inr (p', d')"
    "writing d d' p' full cur" "map_ppa_list p' = ppas" using inserts_ok [OF init_writing _ g _ a, of d ppas "length ppas" fresh] t l m f by auto
  obtain b p2 d2 where "plbody_insert_new_key [] (Str_Key []) 0 True d' p' = Inr (Some b, p2, d2)" "stored_run d2 ppas (full @ [cur])"
    "kept d d2 (take (Suc (length full)) ppas)" using flush_ok [OF i(2) c, of "[]" "Str_Key []" 0] t l i(3) by auto
  then show ?thesis using i(1) pg by (simp add: write_run_def)
qed

lemma read_run_ok: "reading d p pages rest \<Longrightarrow> read_run (Suc (length rest)) d p = Inr (map Some rest @ [None])"
proof (induction rest arbitrary: p)
  case Nil
  then show ?case using next_key_ok [OF Nil] by auto
next
  case (Cons e rest)
  obtain p' where "plbody_get_next_key d p = Inr (Some e, p')" "reading d p' pages rest" using next_key_ok [OF Cons.prems] by auto
  then show ?case using Cons.IH [of p'] by (subst read_run.simps) (simp del: read_run.simps)
qed

section \<open>Properties\<close>

text \<open>
  C14: a run that the writer has stored is read back unchanged. For any entries whose keys have 11 to 254 bytes,
  written with \<open>plbody_insert_new_key\<close> to empty pages, as many as are needed, and flushed, a reader over
  these pages gets from \<open>plbody_get_next_key\<close> every key with its address in order, across the page
  boundaries, and then the end mark; no other page of the device changes. What the new pages held before
  plays no part.
\<close>

theorem key_pages_round_trip:
  assumes "targets_ok d ppas" "\<forall>e \<in> set es. good_entry e" "\<forall>i. length (fresh i) = PAGESIZE"
    "length (paginate es) \<le> length ppas" "es \<noteq> []"
  shows "\<exists>d'. write_run fresh ppas es d = Inr d' \<and>
    read_run (Suc (length es)) d' (plbody_init ppas (length (paginate es))) = Inr (map Some es @ [None]) \<and>
    (\<forall>x. x \<notin> convert_ppa d ` set (take (length (paginate es)) ppas) \<longrightarrow> seg_table d' x = seg_table d x)"
proof -
  obtain d' where w: "write_run fresh ppas es d = Inr d'" "stored_run d' ppas (paginate es)" "kept d d' (take (length (paginate es)) ppas)"
    using write_run_ok [OF assms(1,2) _ assms(4,5), of fresh] assms(3) by auto
  have "reading d' (plbody_init ppas (length (paginate es))) (paginate es) es"
    using init_reading [OF w(2)] assms(5) by (simp add: paginate_empty paginate_concat)
  then show ?thesis using w read_run_ok by (auto simp: kept_def)
qed

lemma free_device:
  "targets_ok (posix_create 8 0) [3, 4]" "seg_table (posix_create 8 0) x = None" "dev_ok (posix_create 8 0)"
  using posix_create_ok [of 8 0]
  by (simp_all add: targets_ok_def posix_create_def convert_ppa_def NOP_def TOTALSIZE_def PAGESIZE_def)

theorem key_pages_round_trip_witness:
  "\<exists>d'. write_run (\<lambda>_. replicate PAGESIZE 7) [3, 4] [(Str_Key (replicate 11 1), 5), (Str_Key (replicate 20 1), 6)] (posix_create 8 0) = Inr d' \<and>
     read_run 3 d' (plbody_init [3, 4] 1) = Inr [Some (Str_Key (replicate 11 1), 5), Some (Str_Key (replicate 20 1), 6), None]"
proof -
  let ?es = "[(Str_Key (replicate 11 1), 5), (Str_Key (replicate 20 1), 6)] :: entry list"
  have "\<forall>e \<in> set ?es. good_entry e" by (simp add: good_entry_def)
  moreover have "length (paginate ?es) = 1" by (simp add: paginate_def off_def PAGESIZE_def)
  ultimately show ?thesis using key_pages_round_trip [OF free_device(1), of ?es "\<lambda>_. replicate PAGESIZE 7"]
    by (auto simp: numeral_3_eq_3 simp del: read_run.simps)
qed

text \<open>
  C15: the search by the device answers exactly what the page holds. After a run of entries in strictly ascending
  order of keys has been written, \<open>posix_read_hw\<close> on the \<open>i\<close>-th page puts the address stored with a key into the
  request if this page has the key, and otherwise marks the request with the type 255; only the counter of
  mapping reads changes. The key that is searched is the one of the first \<open>len mod 256\<close> bytes of the buffer, which is
  the whole key whenever it has at most 255 bytes.
\<close>

theorem hw_search_exact:
  assumes "targets_ok d ppas" "\<forall>e \<in> set es. good_entry e \<and> snd e \<noteq> UINT_MAX" "\<forall>i. length (fresh i) = PAGESIZE"
    "length (paginate es) \<le> length ppas" "sorted_keys es" "i < length (paginate es)" "dev_ok d" "dmatag value \<noteq> - 1" "ar_type_lower req \<le> 1"
    "len mod 2 ^ 8 \<le> length buf"
  shows "\<exists>d'. write_run fresh ppas es d = Inr d' \<and>
    posix_read_hw (ppas ! i) buf len value req d' =
      Inr (case map_of (paginate es ! i) (Str_Key (take (len mod 2 ^ 8) buf)) of None \<Rightarrow> req\<lparr>ar_type := 255\<rparr> | Some ppa \<Rightarrow> req\<lparr>ar_ppa := ppa\<rparr>, count_type MAPPINGR d')"
proof -
  let ?pg = "paginate es ! i" let ?k = "Str_Key (take (len mod 2 ^ 8) buf)"
  have ne: "es \<noteq> []" using assms(6) by (auto simp: paginate_def)
  obtain d' where w: "write_run fresh ppas es d = Inr d'" "stored_run d' ppas (paginate es)" "kept d d' (take (length (paginate es)) ppas)"
    using write_run_ok [OF assms(1) _ _ assms(4) ne, of fresh] assms(2,3) by auto
  obtain b where b: "convert_ppa d' (ppas ! i) < p_nop d'" "seg_table d' (convert_ppa d' (ppas ! i)) = Some b" "closed b ?pg"
    using w(2) assms(6) by (auto simp: stored_run_def)
  have "\<not> size_check (count_type MAPPINGR d') n" for n
  proof -
    have "p_ts d' = p_ts d" using w(3) unfolding kept_def by (metis posix.select_convs(2) posix.surjective posix.update_convs(4))
    then show ?thesis using size_check_idle [OF assms(7), of n] by (simp add: size_check_def)
  qed
  moreover have sub: "sorted_keys ?pg" "set ?pg \<subseteq> set es" using paginate_part [OF assms(6)] assms(5) by simp_all
  moreover have "\<forall>a. map_of ?pg ?k = Some a \<longrightarrow> a \<noteq> UINT_MAX" using sub(2) assms(2) by (fastforce dest!: map_of_SomeD)
  ultimately have "posix_read_hw (ppas ! i) buf len value req d' =
      Inr (case map_of ?pg ?k of None \<Rightarrow> req\<lparr>ar_type := 255\<rparr> | Some ppa \<Rightarrow> req\<lparr>ar_ppa := ppa\<rparr>, count_type MAPPINGR d')"
    using b find_ppa_ok [OF b(3), of buf len, unfolded narrowed_key_def] assms(8,9) by (auto simp: posix_read_hw_def Let_def storage_def split: option.splits)
  then show ?thesis using w(1) by blast
qed

lemma sample_keys: "Str_Key (replicate 11 1) < Str_Key (replicate 11 2)"
proof -
  have "replicate 11 x = x # replicate 10 x" for x :: u8 using replicate_Suc [of 10 x] by simp
  then show ?thesis by (simp add: less_str_key_def KEYCMP_bytes del: KEYCMP_less)
qed

theorem hw_search_exact_witness:
  "\<exists>d'. write_run (\<lambda>_. replicate PAGESIZE 7) [3, 4] [(Str_Key (replicate 11 1), 5), (Str_Key (replicate 11 2), 6)] (posix_create 8 0) = Inr d' \<and>
     posix_read_hw 3 (replicate 11 2) 11 \<lparr>vs_value = [], dmatag = 0\<rparr> \<lparr>ar_ppa = 0, ar_type = 1, ar_type_lower = 0\<rparr> d' =
       Inr (\<lparr>ar_ppa = 6, ar_type = 1, ar_type_lower = 0\<rparr>, count_type MAPPINGR d')"
proof -
  let ?es = "[(Str_Key (replicate 11 1), 5), (Str_Key (replicate 11 2), 6)] :: entry list"
  have "\<forall>e \<in> set ?es. good_entry e \<and> snd e \<noteq> UINT_MAX" by (simp add: good_entry_def UINT_MAX_def)
  moreover have pg: "paginate ?es = [?es]" by (simp add: paginate_def off_def PAGESIZE_def)
  moreover have "sorted_keys ?es" "Str_Key (replicate 11 1) \<noteq> Str_Key (replicate 11 2)" using sample_keys by (auto simp: sorted_keys_def)
  ultimately show ?thesis
    using hw_search_exact [OF free_device(1), of ?es "\<lambda>_. replicate PAGESIZE 7" 0 "\<lparr>vs_value = [], dmatag = 0\<rparr>"
      "\<lparr>ar_ppa = 0, ar_type = 1, ar_type_lower = 0\<rparr>" 11 "replicate 11 2"] free_device(3) by auto
qed

end
