(* ===== verification/Pipe_Merge.thy ===== *)
theory Pipe_Merge
  imports Pipe_Lower
begin

text \<open>
  The merge of two runs of key pages by the in-memory device (\<open>posix_hw_do_merge\<close> of
  \<^verbatim>\<open>src/lower/posix_memory/posix.c\<close>): a client of the reader and the writer of \<open>Pipe_Lower\<close>. For sorted runs the
  result is the sorted run of both, with the higher run winning where a key is in both, and the addresses that
  the lower run loses are reported.
\<close>

section \<open>The merge\<close>

definition PPA_LIST_SIZE :: nat where
  "PPA_LIST_SIZE = 240 * 1024"

text \<open>
  The local variables of the merge and the buffers it fills. \<open>result_addr\<close> has room for \<open>PPA_LIST_SIZE\<close> pages and
  \<open>invalidate_ppa_ptr\<close> for twenty times as many addresses. The key of length 255 that ends a run is \<open>None\<close>. A key
  is kept with its bytes; in the code it points into a page of its run, which the merge does not write to.
\<close>

record merge =
  lp :: pl_body
  hp :: pl_body
  rp :: pl_body
  lp_key :: "(str_key \<times> nat) option"
  hp_key :: "(str_key \<times> nat) option"
  insert_key :: str_key
  result_addr :: "u8 list list"
  invalidate_ppa :: "nat list"
  device :: posix

text \<open>
  The key to insert, its address, \<open>next_pop\<close> and the address that becomes invalid. The loop has ended when both
  runs have, so that the first case does not occur.
\<close>

fun merge_pick :: "(str_key \<times> nat) option \<Rightarrow> (str_key \<times> nat) option \<Rightarrow> (str_key \<times> nat \<times> int \<times> nat list) res" where
  "merge_pick None None = Inl Abort"
| "merge_pick None (Some (hk, hppa)) = Inr (hk, hppa, 1, [])"
| "merge_pick (Some (lk, lppa)) None = Inr (lk, lppa, - 1, [])"
| "merge_pick (Some (lk, lppa)) (Some (hk, hppa)) =
     (if \<not> KEYVALCHECK lk then Inl Abort
      else if \<not> KEYVALCHECK hk then Inl Abort
      else
        let next_pop = KEYCMP lk hk in
        if next_pop < 0 then Inr (lk, lppa, next_pop, [])
        else if next_pop > 0 then Inr (hk, hppa, next_pop, [])
        else Inr (hk, hppa, next_pop, [lppa]))"

definition put_result :: "u8 list option \<Rightarrow> u8 list list \<Rightarrow> u8 list list res" where
  "put_result r rs =
     (case r of
        None \<Rightarrow> Inr rs
      | Some page \<Rightarrow> if length rs < PPA_LIST_SIZE then Inr (rs @ [page]) else Inl Bad_Access)"

definition put_invalid :: "nat list \<Rightarrow> nat list \<Rightarrow> nat list res" where
  "put_invalid xs ivs = (if length (ivs @ xs) \<le> PPA_LIST_SIZE * 20 then Inr (ivs @ xs) else Inl Bad_Access)"

text \<open>One round of the loop; \<open>fresh n\<close> is what the page allocated for the \<open>n\<close>-th target holds.\<close>

definition merge_round :: "(nat \<Rightarrow> u8 list) \<Rightarrow> merge \<Rightarrow> merge res" where
  "merge_round fresh m =
     bindE (merge_pick (lp_key m) (hp_key m)) (\<lambda>(k, rppa, next_pop, xs).
     bindE (put_invalid xs (invalidate_ppa m)) (\<lambda>ivs.
     bindE (plbody_insert_new_key (fresh (pidx (rp m))) k rppa False (device m) (rp m)) (\<lambda>(r, rp', d').
     bindE (put_result r (result_addr m)) (\<lambda>rs.
     bindE (if next_pop \<le> 0 then plbody_get_next_key d' (lp m) else Inr (lp_key m, lp m)) (\<lambda>(lk, lp').
     bindE (if next_pop \<ge> 0 then plbody_get_next_key d' (hp m) else Inr (hp_key m, hp m)) (\<lambda>(hk, hp').
       Inr \<lparr>lp = lp', hp = hp', rp = rp', lp_key = lk, hp_key = hk, insert_key = k, result_addr = rs,
            invalidate_ppa = ivs, device = d'\<rparr>))))))"

text \<open>Fuel is one more than the number of keys of both runs.\<close>

fun merge_loop :: "nat \<Rightarrow> (nat \<Rightarrow> u8 list) \<Rightarrow> merge \<Rightarrow> merge res" where
  "merge_loop 0 fresh m = Inl Hang"
| "merge_loop (Suc n) fresh m =
     (if lp_key m = None \<and> hp_key m = None then Inr m else bindE (merge_round fresh m) (merge_loop n fresh))"

text \<open>
  The pages of \<open>result_addr\<close> and the addresses of \<open>invalidate_ppa_ptr\<close> are the answer; their numbers are
  \<open>*ktable_num\<close> and \<open>*invliadate_num\<close>.
\<close>

definition posix_hw_do_merge ::
  "nat \<Rightarrow> (nat \<Rightarrow> u8 list) \<Rightarrow> nat \<Rightarrow> nat list \<Rightarrow> nat \<Rightarrow> nat list \<Rightarrow> nat list \<Rightarrow> posix \<Rightarrow> (u8 list list \<times> nat list \<times> posix) res" where
  "posix_hw_do_merge fuel fresh lp_num lp_array hp_num hp_array tp_array d =
     (if lp_num = 0 \<or> hp_num = 0 then Inl Abort
      else
        bindE (plbody_get_next_key d (plbody_init lp_array lp_num)) (\<lambda>(lk, l).
        bindE (plbody_get_next_key d (plbody_init hp_array hp_num)) (\<lambda>(hk, h).
        bindE (merge_loop fuel fresh
          \<lparr>lp = l, hp = h, rp = plbody_init tp_array (lp_num + hp_num), lp_key = lk, hp_key = hk, insert_key = Str_Key [],
           result_addr = [], invalidate_ppa = [], device = d\<rparr>) (\<lambda>m.
        bindE (plbody_insert_new_key [] (insert_key m) 0 True (device m) (rp m)) (\<lambda>(r, _, d').
          if r \<noteq> None \<and> length (result_addr m) > PPA_LIST_SIZE * 2 then Inl Abort
          else bindE (put_result r (result_addr m)) (\<lambda>rs. Inr (rs, invalidate_ppa m, d')))))))"

section \<open>What it is to compute\<close>

fun merge_runs :: "entry list \<Rightarrow> entry list \<Rightarrow> entry list" where
  "merge_runs [] hs = hs"
| "merge_runs ls [] = ls"
| "merge_runs (l # ls) (h # hs) =
     (if fst l < fst h then l # merge_runs ls (h # hs)
      else if fst h < fst l then h # merge_runs (l # ls) hs
      else h # merge_runs ls hs)"

fun lost :: "entry list \<Rightarrow> entry list \<Rightarrow> nat list" where
  "lost [] hs = []"
| "lost ls [] = []"
| "lost (l # ls) (h # hs) =
     (if fst l < fst h then lost ls (h # hs)
      else if fst h < fst l then lost (l # ls) hs
      else snd l # lost ls hs)"

lemma merge_runs_Nil [simp]: "merge_runs ls [] = ls" "lost ls [] = []"
  by (cases ls; simp)+

lemma merge_runs_keys: "fst ` set (merge_runs ls hs) = fst ` set ls \<union> fst ` set hs"
  by (induction ls hs rule: merge_runs.induct) (auto simp: image_iff)

lemma merge_runs_set: "set (merge_runs ls hs) \<subseteq> set ls \<union> set hs"
  by (induction ls hs rule: merge_runs.induct) auto

lemma sorted_keys_Cons: "sorted_keys (e # es) \<longleftrightarrow> (\<forall>k \<in> fst ` set es. fst e < k) \<and> sorted_keys es"
  by (auto simp: sorted_keys_def)

lemma merge_runs_sorted: "sorted_keys ls \<Longrightarrow> sorted_keys hs \<Longrightarrow> sorted_keys (merge_runs ls hs)"
proof (induction ls hs rule: merge_runs.induct)
  case (3 l ls h hs)
  consider "fst l < fst h" | "fst h < fst l" | "fst l = fst h" by (rule linorder_cases)
  then show ?case using 3 unfolding sorted_keys_Cons
    by cases (auto simp: sorted_keys_Cons merge_runs_keys ball_Un intro: order.strict_trans)
qed simp_all

lemma merge_runs_map: "sorted_keys ls \<Longrightarrow> sorted_keys hs \<Longrightarrow> map_of (merge_runs ls hs) = map_of ls ++ map_of hs"
proof (induction ls hs rule: merge_runs.induct)
  case (3 l ls h hs)
  obtain lk la hk ha where e: "l = (lk, la)" "h = (hk, ha)" by (cases l; cases h)
  have n: "k \<notin> fst ` set es \<Longrightarrow> map_of es k = None" for k and es :: "entry list" by (simp add: map_of_eq_None_iff)
  consider "lk < hk" | "hk < lk" | "lk = hk" by (rule linorder_cases)
  then show ?case
  proof cases
    case 1
    then have "lk \<notin> fst ` set (h # hs)" using 3(4,5) e by (auto simp: sorted_keys_Cons)
    then show ?thesis using 1 3 e n [of lk "h # hs"] by (auto simp: sorted_keys_Cons map_add_def fun_eq_iff)
  next
    case 2
    then show ?thesis using 3 e by (auto simp: sorted_keys_Cons map_add_def fun_eq_iff)
  next
    case 3
    then show ?thesis using \<open>sorted_keys (l # ls)\<close> \<open>sorted_keys (h # hs)\<close> "3.IH"(3) e
      by (auto simp: sorted_keys_Cons map_add_def fun_eq_iff)
  qed
qed (simp_all add: map_add_def fun_eq_iff split: option.splits)

lemma lost_filter:
  "sorted_keys ls \<Longrightarrow> sorted_keys hs \<Longrightarrow> lost ls hs = map snd (filter (\<lambda>e. fst e \<in> fst ` set hs) ls)"
proof (induction ls hs rule: lost.induct)
  case (3 l ls h hs)
  consider "fst l < fst h" | "fst h < fst l" | "fst l = fst h" by (rule linorder_cases)
  then show ?case
  proof cases
    case 1
    then have "fst l \<notin> fst ` set (h # hs)" using 3(4,5) by (auto simp: sorted_keys_Cons)
    then show ?thesis using 1 3 by (simp add: sorted_keys_Cons)
  next
    case 2
    have "\<forall>e \<in> set (l # ls). fst e \<noteq> fst h" using 2 3(4) by (auto simp: sorted_keys_Cons)
    then have "filter (\<lambda>e. fst e \<in> fst ` set (h # hs)) (l # ls) = filter (\<lambda>e. fst e \<in> fst ` set hs) (l # ls)"
      by (intro filter_cong) auto
    then show ?thesis using 2 3 by (simp add: sorted_keys_Cons)
  next
    case eq: 3
    have "\<forall>e \<in> set ls. fst e \<noteq> fst h" using eq 3(4) by (auto simp: sorted_keys_Cons)
    then have "filter (\<lambda>e. fst e \<in> fst ` set (h # hs)) ls = filter (\<lambda>e. fst e \<in> fst ` set hs) ls"
      by (intro filter_cong) auto
    then show ?thesis using eq 3 by (simp add: sorted_keys_Cons)
  qed
qed simp_all

section \<open>The loop\<close>

text \<open>A reader is not disturbed by what the writer does to its targets, which were empty.\<close>

lemma stored_run_kept:
  assumes r: "stored_run d0 ppas pages" and t: "targets_ok d0 tps" and k: "kept d0 d (take n tps)"
  shows "stored_run d ppas pages"
proof -
  have "seg_table d x = seg_table d0 x" if x: "seg_table d0 x \<noteq> None" for x
  proof -
    have "x \<notin> convert_ppa d0 ` set (take n tps)" using x t by (auto simp: targets_ok_def dest!: in_set_takeD)
    then show ?thesis using k by (simp add: kept_def)
  qed
  then show ?thesis using r kept_convert [OF k] by (fastforce simp: stored_run_def)
qed

text \<open>The reader has delivered the first of the entries \<open>es\<close>, or found the end.\<close>

definition ahead :: "posix \<Rightarrow> pl_body \<Rightarrow> (str_key \<times> nat) option \<Rightarrow> entry list list \<Rightarrow> entry list \<Rightarrow> bool" where
  "ahead d p k pages es \<longleftrightarrow> reading d p pages (tl es) \<and> k = (case es of [] \<Rightarrow> None | e # _ \<Rightarrow> Some e)"

lemma reading_kept:
  assumes R: "reading d p pages rest" and s: "stored_run d' (map_ppa_list p) pages" and c: "\<And>x. convert_ppa d' x = convert_ppa d x"
  shows "reading d' p pages rest"
  using R s unfolding reading_def in_page_def c by blast

lemma next_key_list: "plbody_get_next_key d p = Inr (k, p') \<Longrightarrow> map_ppa_list p' = map_ppa_list p"
  by (auto simp: plbody_get_next_key_def new_page_set_def bindE_eq_Inr Let_def split: if_splits)

lemma ahead_next:
  assumes a: "ahead d p k pages (e # es)" and s: "stored_run d' (map_ppa_list p) pages" and c: "\<And>x. convert_ppa d' x = convert_ppa d x"
  shows "\<exists>k' p'. plbody_get_next_key d' p = Inr (k', p') \<and> ahead d' p' k' pages es \<and> map_ppa_list p' = map_ppa_list p"
proof -
  have "reading d' p pages es" using a reading_kept [OF _ s c] by (simp add: ahead_def)
  then show ?thesis using next_key_ok [of d' p pages es] next_key_list [of d' p] by (auto simp: ahead_def)
qed

lemma ahead_kept:
  assumes "ahead d p k pages es" "stored_run d' (map_ppa_list p) pages" "\<And>x. convert_ppa d' x = convert_ppa d x"
  shows "ahead d' p k pages es"
  using assms reading_kept unfolding ahead_def by blast

text \<open>The runs, the targets and the state of the loop with the entries that are still to be merged.\<close>

record job =
  j_dev :: posix
  j_lps :: "nat list"
  j_lpages :: "entry list list"
  j_hps :: "nat list"
  j_hpages :: "entry list list"
  j_tps :: "nat list"

definition job_ok :: "job \<Rightarrow> bool" where
  "job_ok J \<longleftrightarrow> stored_run (j_dev J) (j_lps J) (j_lpages J) \<and> stored_run (j_dev J) (j_hps J) (j_hpages J) \<and> targets_ok (j_dev J) (j_tps J)"

definition merging :: "job \<Rightarrow> merge \<Rightarrow> entry list \<Rightarrow> entry list \<Rightarrow> entry list list \<times> entry list \<Rightarrow> bool" where
  "merging J m ls hs w \<longleftrightarrow>
     ahead (device m) (lp m) (lp_key m) (j_lpages J) ls \<and> map_ppa_list (lp m) = j_lps J \<and>
     ahead (device m) (hp m) (hp_key m) (j_hpages J) hs \<and> map_ppa_list (hp m) = j_hps J \<and>
     writing (j_dev J) (device m) (rp m) (fst w) (snd w) \<and> map_ppa_list (rp m) = j_tps J \<and>
     list_all2 closed (result_addr m) (fst w)"

lemma put_result_ok:
  assumes "list_all2 closed rs full" "case r of None \<Rightarrow> full' = full | Some b \<Rightarrow> full' = full @ [cur] \<and> closed b cur" "length full' \<le> PPA_LIST_SIZE"
  shows "\<exists>rs'. put_result r rs = Inr rs' \<and> list_all2 closed rs' full'"
  using assms list_all2_lengthD [OF assms(1)] by (auto simp: put_result_def list_all2_appendI split: option.splits)

lemma round_ok:
  assumes J: "job_ok J" and M: "merging J m ls hs w" and f: "\<And>i. length (fresh i) = PAGESIZE"
    and pick: "merge_pick (lp_key m) (hp_key m) = Inr (k, a, np, xs)" and src: "np \<le> 0 \<Longrightarrow> ls \<noteq> []" "np \<ge> 0 \<Longrightarrow> hs \<noteq> []"
    and g: "good_entry (k, a)" and room: "length (fst (add_entry w (k, a))) < length (j_tps J)" "length (fst (add_entry w (k, a))) \<le> PPA_LIST_SIZE"
    and iv: "length (invalidate_ppa m @ xs) \<le> PPA_LIST_SIZE * 20"
  shows "\<exists>m'. merge_round fresh m = Inr m' \<and> merging J m' (if np \<le> 0 then tl ls else ls) (if np \<ge> 0 then tl hs else hs) (add_entry w (k, a)) \<and>
    invalidate_ppa m' = invalidate_ppa m @ xs"
proof -
  let ?d = "device m" let ?base = "j_dev J"
  obtain full cur full' cur' where w: "w = (full, cur)" "add_entry (full, cur) (k, a) = (full', cur')" by (metis surj_pair)
  have L: "ahead ?d (lp m) (lp_key m) (j_lpages J) ls" "map_ppa_list (lp m) = j_lps J" and H: "ahead ?d (hp m) (hp_key m) (j_hpages J) hs" "map_ppa_list (hp m) = j_hps J"
    and W: "writing ?base ?d (rp m) full cur" "map_ppa_list (rp m) = j_tps J" and rs: "list_all2 closed (result_addr m) full"
    using M w(1) by (auto simp: merging_def)
  have t: "targets_ok ?base (map_ppa_list (rp m))" using J W(2) by (simp add: job_ok_def)
  obtain r p' d' where ins: "plbody_insert_new_key (fresh (pidx (rp m))) k a False ?d (rp m) = Inr (r, p', d')" "writing ?base d' p' full' cur'"
    "map_ppa_list p' = j_tps J" "case r of None \<Rightarrow> full' = full | Some b \<Rightarrow> full' = full @ [cur] \<and> closed b cur"
    using insert_ok [OF W(1) t g f [of "pidx (rp m)"] w(2)] room(1) w W(2) by auto
  obtain rs' where rs': "put_result r (result_addr m) = Inr rs'" "list_all2 closed rs' full'"
    using put_result_ok [OF rs ins(4)] room(2) w by auto
  have k': "kept ?base d' (take (length full') (j_tps J))" and k0: "kept ?base ?d (take (length full) (j_tps J))"
    using ins(2,3) W by (auto simp: writing_def)
  have cv: "convert_ppa d' x = convert_ppa ?d x" for x using kept_convert [OF k'] kept_convert [OF k0] by simp
  have sl: "stored_run d' (map_ppa_list (lp m)) (j_lpages J)" and sh: "stored_run d' (map_ppa_list (hp m)) (j_hpages J)"
    using J stored_run_kept [OF _ _ k'] L(2) H(2) by (auto simp: job_ok_def)
  have "\<exists>lk lp'. (if np \<le> 0 then plbody_get_next_key d' (lp m) else Inr (lp_key m, lp m)) = Inr (lk, lp') \<and>
      ahead d' lp' lk (j_lpages J) (if np \<le> 0 then tl ls else ls) \<and> map_ppa_list lp' = j_lps J"
    using ahead_next [OF _ sl cv] ahead_kept [OF L(1) sl cv] L src(1) by (cases ls) auto
  moreover have "\<exists>hk hp'. (if np \<ge> 0 then plbody_get_next_key d' (hp m) else Inr (hp_key m, hp m)) = Inr (hk, hp') \<and>
      ahead d' hp' hk (j_hpages J) (if np \<ge> 0 then tl hs else hs) \<and> map_ppa_list hp' = j_hps J"
    using ahead_next [OF _ sh cv] ahead_kept [OF H(1) sh cv] H src(2) by (cases hs) auto
  ultimately obtain lk lp' hk hp' where n: "(if np \<le> 0 then plbody_get_next_key d' (lp m) else Inr (lp_key m, lp m)) = Inr (lk, lp')"
      "ahead d' lp' lk (j_lpages J) (if np \<le> 0 then tl ls else ls)" "map_ppa_list lp' = j_lps J"
      "(if np \<ge> 0 then plbody_get_next_key d' (hp m) else Inr (hp_key m, hp m)) = Inr (hk, hp')"
      "ahead d' hp' hk (j_hpages J) (if np \<ge> 0 then tl hs else hs)" "map_ppa_list hp' = j_hps J" by blast
  have "merge_round fresh m = Inr \<lparr>lp = lp', hp = hp', rp = p', lp_key = lk, hp_key = hk, insert_key = k, result_addr = rs',
      invalidate_ppa = invalidate_ppa m @ xs, device = d'\<rparr>"
    using pick iv ins(1) rs'(1) n(1,4) unfolding merge_round_def put_invalid_def by simp
  then show ?thesis using n(2,3,5,6) ins(2,3) rs'(2) w by (simp add: merging_def)
qed

text \<open>What a round takes is the next entry of the merged run.\<close>

abbreviation first_key :: "entry list \<Rightarrow> (str_key \<times> nat) option" where
  "first_key es \<equiv> (case es of [] \<Rightarrow> None | e # _ \<Rightarrow> Some e)"

lemma pick_ok:
  assumes ne: "\<not> (ls = [] \<and> hs = [])" and v: "\<forall>e \<in> set ls \<union> set hs. KEYVALCHECK (fst e)"
  shows "\<exists>k a np xs. merge_pick (first_key ls) (first_key hs) = Inr (k, a, np, xs) \<and> (np \<le> 0 \<longrightarrow> ls \<noteq> []) \<and> (np \<ge> 0 \<longrightarrow> hs \<noteq> []) \<and>
    (k, a) \<in> set ls \<union> set hs \<and> merge_runs ls hs = (k, a) # merge_runs (if np \<le> 0 then tl ls else ls) (if np \<ge> 0 then tl hs else hs) \<and>
    lost ls hs = xs @ lost (if np \<le> 0 then tl ls else ls) (if np \<ge> 0 then tl hs else hs)"
proof (cases ls)
  case Nil
  then obtain hk ha hs' where "hs = (hk, ha) # hs'" using ne by (cases hs) auto
  then show ?thesis using Nil by auto
next
  case (Cons l ls')
  obtain lk la where l: "l = (lk, la)" by force
  show ?thesis
  proof (cases hs)
    case Nil
    then show ?thesis using Cons l by auto
  next
    case (Cons h hs')
    obtain hk ha where h: "h = (hk, ha)" by force
    have vv: "KEYVALCHECK lk" "KEYVALCHECK hk" using v Cons \<open>ls = l # ls'\<close> l h by auto
    consider "lk < hk" | "hk < lk" | "lk = hk" by (rule linorder_cases)
    then show ?thesis
    proof cases
      case 1
      then obtain n where "KEYCMP lk hk = n" "n < 0" "\<not> hk < lk" by auto
      then show ?thesis using vv Cons \<open>ls = l # ls'\<close> l h 1 by auto
    next
      case 2
      then obtain n where "KEYCMP lk hk = n" "n > 0" "\<not> lk < hk" by auto
      then show ?thesis using vv Cons \<open>ls = l # ls'\<close> l h 2 by auto
    next
      case 3
      have "KEYCMP hk hk \<le> 0" "0 \<le> KEYCMP hk hk" by (metis KEYCMP_zero order.refl)+
      then show ?thesis using vv Cons \<open>ls = l # ls'\<close> l h 3 by auto
    qed
  qed
qed

lemma add_entries_length: "length (fst w) \<le> length (fst (foldl add_entry w es))"
proof -
  obtain full' cur' where "foldl add_entry w es = (full', cur')" by force
  then show ?thesis using add_entry_concat [of "fst w" "snd w" es] by simp
qed

lemma loop_ok:
  assumes "job_ok J" "merging J m ls hs w" "\<And>i. length (fresh i) = PAGESIZE" "\<forall>e \<in> set ls \<union> set hs. good_entry e \<and> KEYVALCHECK (fst e)"
    "length (fst (foldl add_entry w (merge_runs ls hs))) < length (j_tps J)" "length (fst (foldl add_entry w (merge_runs ls hs))) \<le> PPA_LIST_SIZE"
    "length (invalidate_ppa m @ lost ls hs) \<le> PPA_LIST_SIZE * 20" "length ls + length hs < n"
  shows "\<exists>m'. merge_loop n fresh m = Inr m' \<and> merging J m' [] [] (foldl add_entry w (merge_runs ls hs)) \<and>
    invalidate_ppa m' = invalidate_ppa m @ lost ls hs"
  using assms
proof (induction n arbitrary: m ls hs w)
  case (Suc n)
  have hd: "lp_key m = first_key ls" "hp_key m = first_key hs" using Suc.prems(2) by (auto simp: merging_def ahead_def)
  show ?case
  proof (cases "ls = [] \<and> hs = []")
    case True
    then show ?thesis using Suc.prems(2) hd by simp
  next
    case False
    have "\<forall>e \<in> set ls \<union> set hs. KEYVALCHECK (fst e)" using Suc.prems(4) by blast
    then obtain k a np xs where p: "merge_pick (lp_key m) (hp_key m) = Inr (k, a, np, xs)" "np \<le> 0 \<Longrightarrow> ls \<noteq> []" "np \<ge> 0 \<Longrightarrow> hs \<noteq> []"
      "(k, a) \<in> set ls \<union> set hs" "merge_runs ls hs = (k, a) # merge_runs (if np \<le> 0 then tl ls else ls) (if np \<ge> 0 then tl hs else hs)"
      "lost ls hs = xs @ lost (if np \<le> 0 then tl ls else ls) (if np \<ge> 0 then tl hs else hs)"
      using pick_ok [OF False] hd by auto
    let ?ls = "if np \<le> 0 then tl ls else ls" let ?hs = "if np \<ge> 0 then tl hs else hs" let ?w = "add_entry w (k, a)"
    have fold: "foldl add_entry w (merge_runs ls hs) = foldl add_entry ?w (merge_runs ?ls ?hs)" unfolding p(5) by simp
    note l = add_entries_length [of ?w "merge_runs ?ls ?hs"]
    obtain m1 where m1: "merge_round fresh m = Inr m1" "merging J m1 ?ls ?hs ?w" "invalidate_ppa m1 = invalidate_ppa m @ xs"
      using round_ok [OF Suc.prems(1-3) p(1-3)] Suc.prems(4-7) p(4,6) l unfolding fold by force
    have "length ?ls + length ?hs < n" using Suc.prems(8) p(2,3) by (cases "np \<le> 0"; cases ls; cases hs) auto
    moreover have "\<forall>e \<in> set ?ls \<union> set ?hs. good_entry e \<and> KEYVALCHECK (fst e)" 
    proof -
      have "set ?ls \<subseteq> set ls" "set ?hs \<subseteq> set hs" by (cases ls; simp; blast)+ (cases hs; simp; blast)
      then show ?thesis using Suc.prems(4) by blast
    qed
    ultimately obtain m' where "merge_loop n fresh m1 = Inr m'" "merging J m' [] [] (foldl add_entry ?w (merge_runs ?ls ?hs))"
      "invalidate_ppa m' = invalidate_ppa m1 @ lost ?ls ?hs"
      using Suc.IH [OF Suc.prems(1) m1(2) Suc.prems(3)] Suc.prems(5-7) p(6) m1(3) unfolding fold by auto
    then show ?thesis using m1 p(6) False hd unfolding fold by (auto split: list.splits)
  qed
qed simp

section \<open>Properties\<close>

lemma run_good: "stored_run d ppas pages \<Longrightarrow> e \<in> set (concat pages) \<Longrightarrow> good_entry e"
  by (fastforce simp: stored_run_def closed_def holds_def in_set_conv_nth)

lemma lost_length: "length (lost ls hs) \<le> length ls"
  by (induction ls hs rule: lost.induct) auto

lemma first_keys:
  assumes "stored_run d ppas pages" "pages \<noteq> []"
  shows "\<exists>k p. plbody_get_next_key d (plbody_init ppas (length pages)) = Inr (k, p) \<and> ahead d p k pages (concat pages) \<and> map_ppa_list p = ppas"
proof -
  have "reading d (plbody_init ppas (length pages)) pages (concat pages)" by (rule init_reading [OF assms])
  then show ?thesis using next_key_ok next_key_list [of d "plbody_init ppas (length pages)"]
    unfolding ahead_def by (fastforce simp: plbody_init_def)
qed

lemma do_merge_ok:
  assumes J: "stored_run d lps lpages" "stored_run d hps hpages" "targets_ok d tps" and f: "\<And>i. length (fresh i) = PAGESIZE"
    and v: "\<forall>e \<in> set (concat lpages @ concat hpages). KEYVALCHECK (fst e)"
    and ne: "lpages \<noteq> []" "hpages \<noteq> []" and pg: "pages = paginate (merge_runs (concat lpages) (concat hpages))"
    and room: "length pages \<le> length tps" "length pages \<le> PPA_LIST_SIZE" "length (concat lpages) \<le> PPA_LIST_SIZE * 20"
    and n: "length (concat lpages) + length (concat hpages) < n"
  shows "\<exists>rs d'. posix_hw_do_merge n fresh (length lpages) lps (length hpages) hps tps d = Inr (rs, lost (concat lpages) (concat hpages), d') \<and>
    list_all2 closed rs pages \<and> stored_run d' tps pages \<and> kept d d' (take (length pages) tps)"
proof -
  let ?ls = "concat lpages" let ?hs = "concat hpages"
  let ?J = "\<lparr>j_dev = d, j_lps = lps, j_lpages = lpages, j_hps = hps, j_hpages = hpages, j_tps = tps\<rparr>"
  obtain lk l where l: "plbody_get_next_key d (plbody_init lps (length lpages)) = Inr (lk, l)" "ahead d l lk lpages ?ls" "map_ppa_list l = lps"
    using first_keys [OF J(1) ne(1)] by blast
  obtain hk h where h: "plbody_get_next_key d (plbody_init hps (length hpages)) = Inr (hk, h)" "ahead d h hk hpages ?hs" "map_ppa_list h = hps"
    using first_keys [OF J(2) ne(2)] by blast
  let ?m = "\<lparr>lp = l, hp = h, rp = plbody_init tps (length lpages + length hpages), lp_key = lk, hp_key = hk, insert_key = Str_Key [],
           result_addr = [], invalidate_ppa = [], device = d\<rparr>"
  have M: "merging ?J ?m ?ls ?hs ([], [])" using l h init_writing [of d tps] by (simp add: merging_def plbody_init_def)
  have "hpages ! 0 \<noteq> []" using J(2) ne(2) by (simp add: stored_run_def)
  then have "?hs \<noteq> []" using ne(2) by (cases hpages) auto
  then have some: "merge_runs ?ls ?hs \<noteq> []" using merge_runs_keys [of ?ls ?hs] by auto
  obtain full cur where a: "foldl add_entry ([], []) (merge_runs ?ls ?hs) = (full, cur)" by force
  then have c: "cur \<noteq> []" "pages = full @ [cur]" using add_entry_concat [OF a] some pg by (auto simp: paginate_def)
  have g: "\<forall>e \<in> set ?ls \<union> set ?hs. good_entry e \<and> KEYVALCHECK (fst e)" using run_good [OF J(1)] run_good [OF J(2)] v unfolding set_append by blast
  obtain m' where m': "merge_loop n fresh ?m = Inr m'" "merging ?J m' [] [] (full, cur)" "invalidate_ppa m' = lost ?ls ?hs"
    using loop_ok [OF _ M _ g _ _ _ n, of fresh] f J a c room lost_length [of ?ls ?hs] by (auto simp: job_ok_def)
  have w: "writing d (device m') (rp m') full cur" "map_ppa_list (rp m') = tps" "list_all2 closed (result_addr m') full"
    using m'(2) by (auto simp: merging_def)
  obtain b p' d' where fl: "plbody_insert_new_key [] (insert_key m') 0 True (device m') (rp m') = Inr (Some b, p', d')" "closed b cur"
    "stored_run d' tps (full @ [cur])" "kept d d' (take (Suc (length full)) tps)"
    using flush_ok [OF w(1) c(1), of "[]" "insert_key m'" 0] w(2) J(3) room(1) c(2) by auto
  have "length (result_addr m') < PPA_LIST_SIZE" using w(3) room(2) c(2) by (auto dest: list_all2_lengthD)
  then have "posix_hw_do_merge n fresh (length lpages) lps (length hpages) hps tps d = Inr (result_addr m' @ [b], lost ?ls ?hs, d')"
    using ne l(1) h(1) m'(1,3) fl(1) by (simp add: posix_hw_do_merge_def put_result_def)
  then show ?thesis using w(3) fl(2-4) c(2) by (auto simp: list_all2_appendI)
qed

lemma targets_kept:
  assumes t: "targets_ok d0 (xs @ ys)" and k: "kept d0 d (take n xs)"
  shows "targets_ok d ys"
proof -
  have "convert_ppa d0 ppa \<notin> convert_ppa d0 ` set (take n xs)" if "ppa \<in> set ys" for ppa
    using that t by (auto simp: targets_ok_def dest!: in_set_takeD)
  moreover have c: "convert_ppa d = convert_ppa d0" "p_nop d = p_nop d0" using kept_convert [OF k] by auto
  ultimately show ?thesis using t k unfolding targets_ok_def kept_def c by simp
qed

text \<open>
  C13: merging two runs on the device. Let two runs of entries in strictly ascending order of valid keys of 11 to 254
  bytes be written to empty pages, and let there be as many empty target pages as the merged run needs. Then
  \<open>posix_hw_do_merge\<close> ends after at most as many rounds as there are entries; reading the targets gives a run in
  ascending order whose map from keys to addresses is that of the lower run overridden by the higher one, the
  pages handed to the host hold the same entries page by page, the reported invalid addresses are exactly those
  of the lower run's keys that the higher run has too, in order, and no page but the targets changes.
\<close>

theorem hw_merge_of_runs:
  assumes "targets_ok d (lps @ hps @ tps)" "\<forall>e \<in> set (ls @ hs). good_entry e \<and> KEYVALCHECK (fst e)" "sorted_keys ls" "sorted_keys hs"
    "ls \<noteq> []" "hs \<noteq> []" "\<forall>i. length (fresh i) = PAGESIZE" "length (paginate ls) \<le> length lps" "length (paginate hs) \<le> length hps"
    "length (paginate (merge_runs ls hs)) \<le> length tps" "length (paginate (merge_runs ls hs)) \<le> PPA_LIST_SIZE" "length ls \<le> PPA_LIST_SIZE * 20"
  shows "\<exists>d1 d2 d3 rs es. write_run fresh lps ls d = Inr d1 \<and> write_run fresh hps hs d1 = Inr d2 \<and>
    posix_hw_do_merge (Suc (length ls + length hs)) fresh (length (paginate ls)) lps (length (paginate hs)) hps tps d2 =
      Inr (rs, map snd (filter (\<lambda>e. fst e \<in> fst ` set hs) ls), d3) \<and>
    sorted_keys es \<and> map_of es = map_of ls ++ map_of hs \<and>
    read_run (Suc (length es)) d3 (plbody_init tps (length rs)) = Inr (map Some es @ [None]) \<and> list_all2 closed rs (paginate es) \<and>
    (\<forall>x. x \<notin> convert_ppa d ` set tps \<longrightarrow> seg_table d3 x = seg_table d2 x)"
proof -
  let ?es = "merge_runs ls hs"
  have g: "\<forall>e \<in> set ls. good_entry e" "\<forall>e \<in> set hs. good_entry e" "\<forall>e \<in> set (ls @ hs). KEYVALCHECK (fst e)" using assms(2) by auto
  have t: "targets_ok d lps" using assms(1) by (simp add: targets_ok_def)
  obtain d1 where d1: "write_run fresh lps ls d = Inr d1" "stored_run d1 lps (paginate ls)" "kept d d1 (take (length (paginate ls)) lps)"
    using write_run_ok [OF t g(1) _ assms(8,5)] assms(7) by blast
  have t1: "targets_ok d1 (hps @ tps)" by (rule targets_kept [OF assms(1) d1(3)])
  then have t1': "targets_ok d1 hps" by (simp add: targets_ok_def)
  obtain d2 where d2: "write_run fresh hps hs d1 = Inr d2" "stored_run d2 hps (paginate hs)" "kept d1 d2 (take (length (paginate hs)) hps)"
    using write_run_ok [OF t1' g(2) _ assms(9,6)] assms(7) by blast
  have t2: "targets_ok d2 tps" by (rule targets_kept [OF t1 d2(3)])
  have l2: "stored_run d2 lps (paginate ls)" by (rule stored_run_kept [OF d1(2) t1' d2(3)])
  obtain rs d3 where d3: "posix_hw_do_merge (Suc (length ls + length hs)) fresh (length (paginate ls)) lps (length (paginate hs)) hps tps d2 =
      Inr (rs, lost ls hs, d3)" "list_all2 closed rs (paginate ?es)" "stored_run d3 tps (paginate ?es)" "kept d2 d3 (take (length (paginate ?es)) tps)"
    using do_merge_ok [OF l2 d2(2) t2, of fresh "paginate ?es" "Suc (length ls + length hs)"] assms(5-7,10-12) g(3)
    by (auto simp: paginate_concat paginate_empty)
  have ne: "paginate ?es \<noteq> []" using assms(5) merge_runs_keys [of ls hs] by (auto simp: paginate_empty)
  have "read_run (Suc (length ?es)) d3 (plbody_init tps (length rs)) = Inr (map Some ?es @ [None])"
    using read_run_ok [OF init_reading [OF d3(3) ne]] list_all2_lengthD [OF d3(2)] by (simp add: paginate_concat del: read_run.simps)
  moreover have "seg_table d3 x = seg_table d2 x" if "x \<notin> convert_ppa d ` set tps" for x
  proof -
    have "convert_ppa d2 = convert_ppa d" using kept_convert [OF d1(3)] kept_convert [OF d2(3)] by auto
    then have "x \<notin> convert_ppa d2 ` set (take (length (paginate ?es)) tps)" using that by (auto dest: in_set_takeD)
    then show ?thesis using d3(4) by (simp add: kept_def)
  qed
  ultimately show ?thesis using d1(1) d2(1) d3(1,2) merge_runs_sorted [OF assms(3,4)] merge_runs_map [OF assms(3,4)] lost_filter [OF assms(3,4)]
    by (intro exI [of _ d1] exI [of _ d2] exI [of _ d3] exI [of _ rs] exI [of _ ?es] conjI allI impI) simp_all
qed

theorem hw_merge_of_runs_witness:
  "\<exists>d1 d2 d3 rs es. write_run (\<lambda>_. replicate PAGESIZE 7) [3] [(Str_Key (replicate 11 1), 5), (Str_Key (replicate 11 2), 6)] (posix_create 8 0) = Inr d1 \<and>
     write_run (\<lambda>_. replicate PAGESIZE 7) [4] [(Str_Key (replicate 11 2), 9)] d1 = Inr d2 \<and>
     posix_hw_do_merge 4 (\<lambda>_. replicate PAGESIZE 7) 1 [3] 1 [4] [5] d2 = Inr (rs, [6], d3) \<and>
     map_of es (Str_Key (replicate 11 1)) = Some 5 \<and> map_of es (Str_Key (replicate 11 2)) = Some 9 \<and>
     read_run (Suc (length es)) d3 (plbody_init [5] (length rs)) = Inr (map Some es @ [None])"
proof -
  let ?a = "Str_Key (replicate 11 1)" let ?b = "Str_Key (replicate 11 2)"
  let ?ls = "[(?a, 5), (?b, 6)] :: entry list" let ?hs = "[(?b, 9)] :: entry list" let ?d = "posix_create 8 0"
  have ab: "?a < ?b" "?a \<noteq> ?b" using sample_keys by auto
  have t: "targets_ok ?d ([3] @ [4] @ [5])"
    by (simp add: targets_ok_def posix_create_def convert_ppa_def NOP_def TOTALSIZE_def PAGESIZE_def)
  have v: "\<forall>e \<in> set (?ls @ ?hs). good_entry e \<and> KEYVALCHECK (fst e)" by (simp add: good_entry_def KEYVALCHECK_def)
  have pg: "paginate ?ls = [?ls]" "paginate ?hs = [?hs]" "merge_runs ?ls ?hs = [(?a, 5), (?b, 9)]" "paginate [(?a, 5), (?b, 9)] = [[(?a, 5), (?b, 9)]]"
    using ab by (simp_all add: paginate_def off_def PAGESIZE_def)
  have so: "sorted_keys ?ls" "sorted_keys ?hs" using ab by (auto simp: sorted_keys_def)
  have il: "map snd (filter (\<lambda>e. fst e \<in> fst ` set ?hs) ?ls) = [6]" using ab by auto
  obtain d1 d2 d3 rs es where r: "write_run (\<lambda>_. replicate PAGESIZE 7) [3] ?ls ?d = Inr d1" "write_run (\<lambda>_. replicate PAGESIZE 7) [4] ?hs d1 = Inr d2"
    "posix_hw_do_merge (Suc (length ?ls + length ?hs)) (\<lambda>_. replicate PAGESIZE 7) (length (paginate ?ls)) [3] (length (paginate ?hs)) [4] [5] d2 =
      Inr (rs, map snd (filter (\<lambda>e. fst e \<in> fst ` set ?hs) ?ls), d3)"
    "map_of es = map_of ?ls ++ map_of ?hs" "read_run (Suc (length es)) d3 (plbody_init [5] (length rs)) = Inr (map Some es @ [None])"
    using hw_merge_of_runs [OF t v so, of "\<lambda>_. replicate PAGESIZE 7"] pg by (auto simp: PPA_LIST_SIZE_def simp del: read_run.simps)
  have n: "Suc (length ?ls + length ?hs) = 4" by simp
  show ?thesis using r(1,2,4,5) r(3) [unfolded n il pg(1,2)] ab
    by (intro exI [of _ d1] exI [of _ d2] exI [of _ d3] exI [of _ rs] exI [of _ es] conjI) (simp_all del: read_run.simps)
qed

end
