(* ===== verification/List_Head.thy ===== *)
theory List_Head
  imports FD_Prelude
begin

text \<open>
  The circular doubly linked lists of \<^verbatim>\<open>src/lower/bdbm_drv/common/3rd/ulist.h\<close>, which the queues and the
  block manager of the BlueDBM driver are built on. A \<open>struct list_head\<close> is embedded in every element
  and in every list; the store maps each of them to the two it points to. \<open>None\<close> is a pointer that is
  not set or poisoned. The theory shows that the operations act on the lists behind the heads as
  insertion, removal and concatenation of lists act, and leave every other list of the store alone.
\<close>

section \<open>The code\<close>

record 'n links =
  lnext :: "'n \<rightharpoonup> 'n"
  lprev :: "'n \<rightharpoonup> 'n"

definition INIT_LIST_HEAD :: "'n \<Rightarrow> 'n links \<Rightarrow> 'n links" where
  "INIT_LIST_HEAD ptr S = S\<lparr>lnext := (lnext S)(ptr \<mapsto> ptr), lprev := (lprev S)(ptr \<mapsto> ptr)\<rparr>"

definition list_add_between :: "'n \<Rightarrow> 'n \<Rightarrow> 'n \<Rightarrow> 'n links \<Rightarrow> 'n links" where
  "list_add_between new prv nxt S =
     S\<lparr>lprev := (lprev S)(nxt \<mapsto> new, new \<mapsto> prv), lnext := (lnext S)(new \<mapsto> nxt, prv \<mapsto> new)\<rparr>"

definition list_add :: "'n \<Rightarrow> 'n \<Rightarrow> 'n links \<Rightarrow> 'n links res" where
  "list_add new head S = bindE (deref (lnext S head)) (\<lambda>nxt. Inr (list_add_between new head nxt S))"

definition list_add_tail :: "'n \<Rightarrow> 'n \<Rightarrow> 'n links \<Rightarrow> 'n links res" where
  "list_add_tail new head S = bindE (deref (lprev S head)) (\<lambda>prv. Inr (list_add_between new prv head S))"

definition list_del_between :: "'n \<Rightarrow> 'n \<Rightarrow> 'n links \<Rightarrow> 'n links" where
  "list_del_between prv nxt S = S\<lparr>lprev := (lprev S)(nxt \<mapsto> prv), lnext := (lnext S)(prv \<mapsto> nxt)\<rparr>"

text \<open>\<open>__list_del(entry->prev, entry->next)\<close>.\<close>

definition list_unlink :: "'n \<Rightarrow> 'n links \<Rightarrow> 'n links res" where
  "list_unlink entry S =
     bindE (deref (lprev S entry)) (\<lambda>prv. bindE (deref (lnext S entry)) (\<lambda>nxt. Inr (list_del_between prv nxt S)))"

definition list_del :: "'n \<Rightarrow> 'n links \<Rightarrow> 'n links res" where
  "list_del entry S =
     bindE (list_unlink entry S) (\<lambda>S1.
       Inr (S1\<lparr>lnext := (lnext S1)(entry := None), lprev := (lprev S1)(entry := None)\<rparr>))"

definition list_del_init :: "'n \<Rightarrow> 'n links \<Rightarrow> 'n links res" where
  "list_del_init entry S = bindE (list_unlink entry S) (\<lambda>S1. Inr (INIT_LIST_HEAD entry S1))"

definition list_move :: "'n \<Rightarrow> 'n \<Rightarrow> 'n links \<Rightarrow> 'n links res" where
  "list_move l head S = bindE (list_unlink l S) (list_add l head)"

definition list_move_tail :: "'n \<Rightarrow> 'n \<Rightarrow> 'n links \<Rightarrow> 'n links res" where
  "list_move_tail l head S = bindE (list_unlink l S) (list_add_tail l head)"

definition list_empty :: "'n \<Rightarrow> 'n links \<Rightarrow> bool res" where
  "list_empty head S = bindE (deref (lnext S head)) (\<lambda>nxt. Inr (nxt = head))"

definition list_splice_raw :: "'n \<Rightarrow> 'n \<Rightarrow> 'n links \<Rightarrow> 'n links res" where
  "list_splice_raw l head S =
     bindE (deref (lnext S l)) (\<lambda>first.
     bindE (deref (lprev S l)) (\<lambda>last.
     bindE (deref (lnext S head)) (\<lambda>at.
       Inr (S\<lparr>lprev := (lprev S)(first \<mapsto> head, at \<mapsto> last), lnext := (lnext S)(head \<mapsto> first, last \<mapsto> at)\<rparr>))))"

definition list_splice :: "'n \<Rightarrow> 'n \<Rightarrow> 'n links \<Rightarrow> 'n links res" where
  "list_splice l head S =
     bindE (list_empty l S) (\<lambda>e. if e then Inr S else list_splice_raw l head S)"

definition list_splice_init :: "'n \<Rightarrow> 'n \<Rightarrow> 'n links \<Rightarrow> 'n links res" where
  "list_splice_init l head S =
     bindE (list_empty l S) (\<lambda>e. if e then Inr S
       else bindE (list_splice_raw l head S) (\<lambda>S1. Inr (INIT_LIST_HEAD l S1)))"

text \<open>
  \<open>list_for_each(pos, head)\<close> up to the first element that satisfies \<open>P\<close>, for at most \<open>n\<close> elements: the
  elements visited.
\<close>

fun list_walk :: "nat \<Rightarrow> ('n \<Rightarrow> bool) \<Rightarrow> 'n \<Rightarrow> 'n \<Rightarrow> 'n links \<Rightarrow> 'n list res" where
  "list_walk 0 P head pos S = Inl Hang"
| "list_walk (Suc n) P head pos S =
     bindE (deref (lnext S pos)) (\<lambda>nxt.
       if nxt = head then Inr []
       else if P nxt then Inr [nxt]
       else bindE (list_walk n P head nxt S) (\<lambda>xs. Inr (nxt # xs)))"

definition list_for_each :: "nat \<Rightarrow> ('n \<Rightarrow> bool) \<Rightarrow> 'n \<Rightarrow> 'n links \<Rightarrow> 'n list res" where
  "list_for_each n P head S = list_walk n P head head S"

section \<open>Rings\<close>

text \<open>\<open>lpath S a xs\<close>: from \<open>a\<close> the links run through \<open>xs\<close>, in both directions.\<close>

fun lpath :: "'n links \<Rightarrow> 'n \<Rightarrow> 'n list \<Rightarrow> bool" where
  "lpath S a [] \<longleftrightarrow> True"
| "lpath S a (x # xs) \<longleftrightarrow> lnext S a = Some x \<and> lprev S x = Some a \<and> lpath S x xs"

definition ring :: "'n links \<Rightarrow> 'n \<Rightarrow> 'n list \<Rightarrow> bool" where
  "ring S h xs \<longleftrightarrow> lpath S h (xs @ [h]) \<and> distinct (h # xs)"

text \<open>The lists \<open>L\<close> behind the heads \<open>H\<close> of a store; no element is in two of them.\<close>

definition rings :: "'n links \<Rightarrow> 'n set \<Rightarrow> ('n \<Rightarrow> 'n list) \<Rightarrow> bool" where
  "rings S H L \<longleftrightarrow> (\<forall>h \<in> H. ring S h (L h)) \<and>
     (\<forall>h \<in> H. \<forall>g \<in> H. h \<noteq> g \<longrightarrow> set (h # L h) \<inter> set (g # L g) = {})"

definition nodes :: "'n set \<Rightarrow> ('n \<Rightarrow> 'n list) \<Rightarrow> 'n set" where
  "nodes H L = (\<Union>h \<in> H. set (h # L h))"

lemma lpath_append: "lpath S a (xs @ ys) \<longleftrightarrow> lpath S a xs \<and> lpath S (last (a # xs)) ys"
  by (induction xs arbitrary: a) auto

lemma lpath_cong:
  assumes "\<And>x. x \<in> set (butlast (a # xs)) \<Longrightarrow> lnext S' x = lnext S x" "\<And>x. x \<in> set xs \<Longrightarrow> lprev S' x = lprev S x"
  shows "lpath S' a xs = lpath S a xs"
  using assms by (induction xs arbitrary: a) auto

text \<open>A ring cut at two neighbours: the last element of the front and the first of the rear.\<close>

definition end_of :: "'n \<Rightarrow> 'n list \<Rightarrow> 'n" where
  "end_of h xs = last (h # xs)"

definition start_of :: "'n list \<Rightarrow> 'n \<Rightarrow> 'n" where
  "start_of ys h = hd (ys @ [h])"

definition after_start :: "'n list \<Rightarrow> 'n \<Rightarrow> 'n list" where
  "after_start ys h = tl (ys @ [h])"

lemma start_of_simps [simp]: "start_of [] h = h" "start_of (y # ys) h = y" "after_start (y # ys) h = ys @ [h]"
  "end_of h [] = h" "end_of h (xs @ [x]) = x"
  by (simp_all add: start_of_def after_start_def end_of_def)

lemma lpath_start:
  "lpath S a (ys @ [h]) \<longleftrightarrow> lnext S a = Some (start_of ys h) \<and> lprev S (start_of ys h) = Some a \<and>
     lpath S (start_of ys h) (after_start ys h)"
  by (cases ys) (simp_all add: start_of_def after_start_def)

lemma ring_cut:
  "ring S h (xs @ ys) \<longleftrightarrow> distinct (h # xs @ ys) \<and> lpath S h xs \<and>
     lnext S (end_of h xs) = Some (start_of ys h) \<and> lprev S (start_of ys h) = Some (end_of h xs) \<and>
     lpath S (start_of ys h) (after_start ys h)"
  unfolding ring_def append.assoc lpath_append [of S h xs] end_of_def [symmetric] lpath_start by blast

lemma cut_ends:
  assumes "distinct (h # xs @ ys)"
  shows "end_of h xs \<in> set (h # xs)" "start_of ys h \<in> set (ys @ [h])"
    "end_of h xs \<notin> set (butlast (h # xs))" "end_of h xs \<notin> set ys" "start_of ys h \<notin> set xs"
    "start_of ys h \<notin> set (after_start ys h)" "butlast (start_of ys h # after_start ys h) = ys"
    "set (after_start ys h) \<subseteq> set (ys @ [h])"
proof -
  have "distinct (butlast (h # xs) @ [last (h # xs)])"
    using assms by (subst append_butlast_last_id) auto
  then show "end_of h xs \<notin> set (butlast (h # xs))" unfolding end_of_def by simp
  show e: "end_of h xs \<in> set (h # xs)" unfolding end_of_def by (rule last_in_set) simp
  then show "end_of h xs \<notin> set ys" using assms by auto
  show f: "start_of ys h \<in> set (ys @ [h])" by (cases ys) (simp_all add: start_of_def)
  then show "start_of ys h \<notin> set xs" using assms by auto
  show "start_of ys h \<notin> set (after_start ys h)"
    using assms by (cases ys) (auto simp: start_of_def after_start_def)
  show "butlast (start_of ys h # after_start ys h) = ys" "set (after_start ys h) \<subseteq> set (ys @ [h])"
    by (cases ys; auto simp: start_of_def after_start_def)+
qed

text \<open>A change of the two links at the cut, and of links of other nodes, keeps the two parts.\<close>

lemma cut_frame:
  assumes d: "distinct (h # xs @ ys)"
    and fr: "\<And>y. y \<in> set (h # xs @ ys) \<Longrightarrow> (y \<noteq> end_of h xs \<longrightarrow> lnext S' y = lnext S y) \<and>
               (y \<noteq> start_of ys h \<longrightarrow> lprev S' y = lprev S y)"
  shows "lpath S' h xs = lpath S h xs"
    "lpath S' (start_of ys h) (after_start ys h) = lpath S (start_of ys h) (after_start ys h)"
proof -
  note e = cut_ends [OF d]
  show "lpath S' h xs = lpath S h xs"
  proof (rule lpath_cong)
    fix y assume y: "y \<in> set (butlast (h # xs))"
    then have "y \<in> set (h # xs)" by (rule in_set_butlastD)
    then show "lnext S' y = lnext S y" using fr [of y] y e(3) by auto
  next
    fix y assume y: "y \<in> set xs"
    then show "lprev S' y = lprev S y" using fr [of y] e(5) by auto
  qed
  show "lpath S' (start_of ys h) (after_start ys h) = lpath S (start_of ys h) (after_start ys h)"
  proof (rule lpath_cong, unfold e(7))
    fix y assume y: "y \<in> set ys"
    then show "lnext S' y = lnext S y" using fr [of y] e(4) by auto
  next
    fix y assume y: "y \<in> set (after_start ys h)"
    then have "y \<in> set (h # xs @ ys)" "y \<noteq> start_of ys h" using e(6,8) by auto
    then show "lprev S' y = lprev S y" using fr by blast
  qed
qed

lemma rings_ring: "rings S H L \<Longrightarrow> h \<in> H \<Longrightarrow> ring S h (L h)"
  by (simp add: rings_def)

lemma ring_cong:
  assumes "\<And>x. x \<in> set (h # xs) \<Longrightarrow> lnext S' x = lnext S x \<and> lprev S' x = lprev S x"
  shows "ring S' h xs = ring S h xs"
  unfolding ring_def using lpath_cong [of h "xs @ [h]" S' S] assms by (auto simp: butlast_append)

text \<open>A change of the ring of one head, from old elements and \<open>N\<close>, keeps the other rings.\<close>

lemma rings_update:
  assumes R: "rings S H L" and h: "h \<in> H" and r: "ring S' h xs"
    and sub: "set xs \<subseteq> set (L h) \<union> N" and N: "N \<inter> nodes H L = {}"
    and frame: "\<And>x. x \<notin> set (h # L h) \<union> N \<Longrightarrow> lnext S' x = lnext S x \<and> lprev S' x = lprev S x"
  shows "rings S' H (L(h := xs))"
proof -
  have disj: "set (h # L h) \<inter> set (g # L g) = {}" if "g \<in> H" "g \<noteq> h" for g
    using R h that unfolding rings_def by metis
  have out: "N \<inter> set (g # L g) = {}" if "g \<in> H" for g using N that by (auto simp: nodes_def)
  have "ring S' g (L g)" if g: "g \<in> H" "g \<noteq> h" for g
  proof -
    have "ring S' g (L g) = ring S g (L g)"
      by (rule ring_cong, rule frame) (use disj [OF g] out [OF g(1)] in blast)
    then show ?thesis using rings_ring [OF R g(1)] by simp
  qed
  moreover have "set (g # L g) \<inter> set (h # xs) = {}" if "g \<in> H" "g \<noteq> h" for g
    using disj [OF that] out [OF that(1)] sub by auto
  moreover have "set (f # L f) \<inter> set (g # L g) = {}" if "f \<in> H" "g \<in> H" "f \<noteq> g" for f g
    using R that unfolding rings_def by metis
  ultimately show ?thesis using r unfolding rings_def by (auto simp: Int_commute)
qed


section \<open>Insertion and removal\<close>

lemma ring_insert:
  assumes r: "ring S h (xs @ ys)" and x: "x \<notin> set (h # xs @ ys)"
  shows "ring (list_add_between x (end_of h xs) (start_of ys h) S) h (xs @ x # ys)" (is "ring ?S h _")
proof -
  have d: "distinct (h # xs @ ys)" using r by (simp add: ring_def)
  note e = cut_ends [OF d] and c = r [unfolded ring_cut]
  have ne: "x \<noteq> end_of h xs" "x \<noteq> start_of ys h" using x e(1,2) by auto
  have keep: "lpath ?S h xs = lpath S h xs"
    "lpath ?S (start_of ys h) (after_start ys h) = lpath S (start_of ys h) (after_start ys h)"
    by (rule cut_frame [OF d]; use x in \<open>auto simp: list_add_between_def\<close>)+
  show ?thesis unfolding ring_cut [of ?S h xs "x # ys"] start_of_simps lpath_start keep
    using c x ne by (auto simp: list_add_between_def)
qed

lemma ring_remove:
  assumes r: "ring S h (xs @ x # ys)"
  shows "lprev S x = Some (end_of h xs)" "lnext S x = Some (start_of ys h)"
    "ring (list_del_between (end_of h xs) (start_of ys h) S) h (xs @ ys)" (is "ring ?S h _")
proof -
  have d: "distinct (h # xs @ ys)" using r by (auto simp: ring_def)
  note c = r [unfolded ring_cut start_of_simps lpath_start]
  show "lprev S x = Some (end_of h xs)" "lnext S x = Some (start_of ys h)" using c by blast+
  have keep: "lpath ?S h xs = lpath S h xs"
    "lpath ?S (start_of ys h) (after_start ys h) = lpath S (start_of ys h) (after_start ys h)"
    by (rule cut_frame [OF d]; auto simp: list_del_between_def)+
  show "ring ?S h (xs @ ys)" unfolding ring_cut keep
    using c d by (simp add: list_del_between_def)
qed

text \<open>The operations on the lists of a store.\<close>

lemma list_add_tail_rings:
  assumes R: "rings S H L" and h: "h \<in> H" and x: "x \<notin> nodes H L"
  shows "\<exists>S'. list_add_tail x h S = Inr S' \<and> rings S' H (L(h := L h @ [x]))"
proof -
  have r: "ring S h (L h @ [])" and xh: "x \<notin> set (h # L h @ [])" and xn: "{x} \<inter> nodes H L = {}"
    using rings_ring [OF R h] x h by (auto simp: nodes_def)
  let ?S = "list_add_between x (end_of h (L h)) h S"
  have "ring ?S h (L h @ [x])" using ring_insert [OF r xh] by simp
  moreover have "end_of h (L h) \<in> set (h # L h)" using cut_ends(1) r by (metis ring_def)
  then have "lnext ?S y = lnext S y \<and> lprev ?S y = lprev S y" if "y \<notin> set (h # L h) \<union> {x}" for y
    using that by (auto simp: list_add_between_def)
  ultimately have "rings ?S H (L(h := L h @ [x]))" by (intro rings_update [OF R h _ _ xn]) auto
  moreover have "lprev S h = Some (end_of h (L h))" using r unfolding ring_cut by simp
  ultimately show ?thesis by (simp add: list_add_tail_def)
qed

lemma list_add_rings:
  assumes R: "rings S H L" and h: "h \<in> H" and x: "x \<notin> nodes H L"
  shows "\<exists>S'. list_add x h S = Inr S' \<and> rings S' H (L(h := x # L h))"
proof -
  have r: "ring S h ([] @ L h)" and xh: "x \<notin> set (h # [] @ L h)" and xn: "{x} \<inter> nodes H L = {}"
    using rings_ring [OF R h] x h by (auto simp: nodes_def)
  let ?S = "list_add_between x h (start_of (L h) h) S"
  have "ring ?S h (x # L h)" using ring_insert [OF r xh] by simp
  moreover have "start_of (L h) h \<in> set (h # L h)" using cut_ends(2) [of h "[]" "L h"] r by (auto simp: ring_def)
  then have "lnext ?S y = lnext S y \<and> lprev ?S y = lprev S y" if "y \<notin> set (h # L h) \<union> {x}" for y
    using that by (auto simp: list_add_between_def)
  ultimately have "rings ?S H (L(h := x # L h))" by (intro rings_update [OF R h _ _ xn]) auto
  moreover have "lnext S h = Some (start_of (L h) h)" using r unfolding ring_cut by simp
  ultimately show ?thesis by (simp add: list_add_def)
qed

lemma list_unlink_rings:
  assumes R: "rings S H L" and h: "h \<in> H" and x: "x \<in> set (L h)"
  shows "\<exists>S'. list_unlink x S = Inr S' \<and> rings S' H (L(h := remove1 x (L h)))"
proof -
  obtain xs ys where L: "L h = xs @ x # ys" "x \<notin> set xs" using split_list_first [OF x] by blast
  have r: "ring S h (xs @ x # ys)" using rings_ring [OF R h] L by simp
  note e = cut_ends [of h xs ys]
  let ?S = "list_del_between (end_of h xs) (start_of ys h) S"
  have d: "distinct (h # xs @ ys)" using r by (auto simp: ring_def)
  have "ring ?S h (xs @ ys)" by (rule ring_remove(3) [OF r])
  moreover have "lnext ?S y = lnext S y \<and> lprev ?S y = lprev S y" if "y \<notin> set (h # L h) \<union> {}" for y
    using that e(1,2) [OF d] L by (auto simp: list_del_between_def)
  ultimately have "rings ?S H (L(h := xs @ ys))" using L by (intro rings_update [OF R h]) auto
  moreover have "remove1 x (L h) = xs @ ys" using L by (simp add: remove1_append)
  ultimately show ?thesis using ring_remove(1,2) [OF r] by (simp add: list_unlink_def)
qed

lemma rings_other:
  assumes R: "rings S H L" and fr: "\<And>y. y \<in> nodes H L \<Longrightarrow> lnext S' y = lnext S y \<and> lprev S' y = lprev S y"
  shows "rings S' H L"
proof -
  have "ring S' h (L h) = ring S h (L h)" if "h \<in> H" for h
    by (rule ring_cong, rule fr) (use that in \<open>auto simp: nodes_def\<close>)
  then show ?thesis using R by (simp add: rings_def)
qed

text \<open>After its removal the element is in no list.\<close>

lemma removed_outside:
  assumes R: "rings S H L" and h: "h \<in> H" and x: "x \<in> set (L h)"
  shows "x \<notin> nodes H (L(h := remove1 x (L h)))"
proof -
  have d: "distinct (h # L h)" using rings_ring [OF R h] by (simp add: ring_def)
  have "x \<notin> set (g # L g)" if "g \<in> H" "g \<noteq> h" for g
    using R h that x unfolding rings_def by (metis disjoint_iff list.set_intros(2))
  then show ?thesis using d x by (auto simp: nodes_def)
qed

lemma list_del_rings:
  assumes R: "rings S H L" and h: "h \<in> H" and x: "x \<in> set (L h)"
  shows "\<exists>S'. list_del x S = Inr S' \<and> rings S' H (L(h := remove1 x (L h)))"
proof -
  obtain S1 where S1: "list_unlink x S = Inr S1" "rings S1 H (L(h := remove1 x (L h)))"
    using list_unlink_rings [OF assms] by blast
  have "rings (S1\<lparr>lnext := (lnext S1)(x := None), lprev := (lprev S1)(x := None)\<rparr>) H (L(h := remove1 x (L h)))"
    by (rule rings_other [OF S1(2)]) (use removed_outside [OF assms] in auto)
  then show ?thesis using S1(1) by (simp add: list_del_def)
qed

lemma list_empty_rings: "rings S H L \<Longrightarrow> h \<in> H \<Longrightarrow> list_empty h S = Inr (L h = [])"
proof -
  assume "rings S H L" "h \<in> H"
  then have r: "ring S h ([] @ L h)" using rings_ring by fastforce
  then have "start_of (L h) h = h \<longleftrightarrow> L h = []" by (cases "L h") (auto simp: ring_def)
  then show ?thesis using r unfolding ring_cut by (simp add: list_empty_def)
qed

section \<open>What the clients rely on\<close>

text \<open>
  The contract of a store of lists whose elements can be taken out and appended. Taking an element
  out of one list and appending it to another, the step every client makes, never fails.
\<close>

locale element_lists =
  fixes rep :: "'s \<Rightarrow> 'n set \<Rightarrow> ('n \<Rightarrow> 'n list) \<Rightarrow> bool"
    and take_out :: "'n \<Rightarrow> 's \<Rightarrow> 's res"
    and put_last :: "'n \<Rightarrow> 'n \<Rightarrow> 's \<Rightarrow> 's res"
  assumes take_out: "rep S H L \<Longrightarrow> h \<in> H \<Longrightarrow> x \<in> set (L h) \<Longrightarrow>
      \<exists>S'. take_out x S = Inr S' \<and> rep S' H (L(h := remove1 x (L h)))"
    and put_last: "rep S H L \<Longrightarrow> h \<in> H \<Longrightarrow> x \<notin> nodes H L \<Longrightarrow>
      \<exists>S'. put_last x h S = Inr S' \<and> rep S' H (L(h := L h @ [x]))"
    and outside: "rep S H L \<Longrightarrow> h \<in> H \<Longrightarrow> x \<in> set (L h) \<Longrightarrow> x \<notin> nodes H (L(h := remove1 x (L h)))"
begin

lemma relocate:
  assumes "rep S H L" "h \<in> H" "g \<in> H" "x \<in> set (L h)"
  shows "\<exists>S1 S'. take_out x S = Inr S1 \<and> put_last x g S1 = Inr S' \<and>
           rep S' H ((L(h := remove1 x (L h)))(g := (L(h := remove1 x (L h))) g @ [x]))"
proof -
  obtain S1 where S1: "take_out x S = Inr S1" "rep S1 H (L(h := remove1 x (L h)))"
    using take_out [OF assms(1,2,4)] by blast
  obtain S' where "put_last x g S1 = Inr S'"
    "rep S' H ((L(h := remove1 x (L h)))(g := (L(h := remove1 x (L h))) g @ [x]))"
    using put_last [OF S1(2) assms(3) outside [OF assms(1,2,4)]] by blast
  then show ?thesis using S1(1) by blast
qed

end

interpretation ld: element_lists rings list_del list_add_tail
  by unfold_locales (rule list_del_rings list_add_tail_rings removed_outside; assumption)+

interpretation lu: element_lists rings list_unlink list_add_tail
  by unfold_locales (rule list_unlink_rings list_add_tail_rings removed_outside; assumption)+

text \<open>The same with \<open>list_add\<close>: the element becomes the first of its list.\<close>

lemma list_move_tail_rings:
  assumes "rings S H L" "h \<in> H" "g \<in> H" "x \<in> set (L h)"
  shows "\<exists>S'. list_move_tail x g S = Inr S' \<and>
           rings S' H ((L(h := remove1 x (L h)))(g := (L(h := remove1 x (L h))) g @ [x]))"
proof -
  obtain S1 S' where "list_unlink x S = Inr S1" "list_add_tail x g S1 = Inr S'"
    "rings S' H ((L(h := remove1 x (L h)))(g := (L(h := remove1 x (L h))) g @ [x]))"
    using lu.relocate [of S H L h g x] assms by blast
  then show ?thesis by (simp add: list_move_tail_def)
qed

lemma list_move_rings:
  assumes "rings S H L" "h \<in> H" "g \<in> H" "x \<in> set (L h)"
  shows "\<exists>S'. list_move x g S = Inr S' \<and>
           rings S' H ((L(h := remove1 x (L h)))(g := x # (L(h := remove1 x (L h))) g))"
proof -
  obtain S1 where S1: "list_unlink x S = Inr S1" "rings S1 H (L(h := remove1 x (L h)))"
    using list_unlink_rings [OF assms(1,2,4)] by blast
  then show ?thesis
    using list_add_rings [OF S1(2) assms(3) removed_outside [OF assms(1,2,4)]] by (simp add: list_move_def)
qed

lemma list_walk_path:
  assumes "lpath S a (xs @ [h])" "h \<notin> set xs" "length xs < n"
  shows "list_walk n P h a S = Inr (takeWhile (\<lambda>x. \<not> P x) xs @ take 1 (dropWhile (\<lambda>x. \<not> P x) xs))"
  using assms
proof (induction xs arbitrary: a n)
  case Nil
  then show ?case by (cases n) auto
next
  case (Cons x xs)
  then obtain m where n: "n = Suc m" "length xs < m" by (cases n) auto
  then show ?case using Cons.IH [of x m] Cons.prems by auto
qed

lemma list_for_each_rings:
  assumes "rings S H L" "h \<in> H" "length (L h) < n"
  shows "list_for_each n P h S =
           Inr (takeWhile (\<lambda>x. \<not> P x) (L h) @ take 1 (dropWhile (\<lambda>x. \<not> P x) (L h)))"
  using list_walk_path [of S h "L h" h n P] rings_ring [OF assms(1,2)] assms(3)
  by (simp add: list_for_each_def ring_def)

lemma INIT_LIST_HEAD_rings:
  assumes R: "rings S H L" and h: "h \<notin> nodes H L"
  shows "rings (INIT_LIST_HEAD h S) (insert h H) (L(h := []))"
proof -
  have "rings (INIT_LIST_HEAD h S) H L"
    by (rule rings_other [OF R]) (use h in \<open>auto simp: INIT_LIST_HEAD_def\<close>)
  moreover have "ring (INIT_LIST_HEAD h S) h []" by (simp add: ring_def INIT_LIST_HEAD_def)
  moreover have "h \<notin> H" "\<And>g. g \<in> H \<Longrightarrow> h \<notin> set (g # L g)" using h by (auto simp: nodes_def)
  ultimately show ?thesis unfolding rings_def by auto
qed

text \<open>The links after \<open>__list_splice\<close>: the elements of \<open>g\<close> run between \<open>h\<close> and its old elements.\<close>

lemma spliced_ring:
  assumes rg: "ring S g (z # zs)" and rh: "ring S h ys" and dis: "set (g # z # zs) \<inter> set (h # ys) = {}"
  shows "ring (S\<lparr>lprev := (lprev S)(z \<mapsto> h, start_of ys h \<mapsto> end_of g (z # zs)),
                lnext := (lnext S)(h \<mapsto> z, end_of g (z # zs) \<mapsto> start_of ys h)\<rparr>) h ((z # zs) @ ys)" (is "ring ?S h _")
proof -
  have d: "distinct (g # z # zs @ [])" "distinct (h # [] @ ys)" using rg rh by (auto simp: ring_def)
  have e: "end_of g (z # zs) \<in> set (z # zs)" "end_of g (z # zs) \<notin> set (butlast (z # zs))"
  proof -
    have "distinct (butlast (z # zs) @ [last (z # zs)])"
      using d(1) append_butlast_last_id [of "z # zs"] by (metis append_Nil2 distinct.simps(2) list.discI)
    then show "end_of g (z # zs) \<notin> set (butlast (z # zs))" by (simp add: end_of_def)
  qed (simp add: end_of_def)
  note f = cut_ends [OF d(2)]
  have 1: "lpath ?S z zs = lpath S z zs"
  proof (rule lpath_cong)
    fix y assume y: "y \<in> set (butlast (z # zs))"
    then have "y \<in> set (z # zs)" by (rule in_set_butlastD)
    then show "lnext ?S y = lnext S y" using y e(2) dis by auto
  next
    fix y assume y: "y \<in> set zs"
    then have "y \<noteq> z" "y \<noteq> start_of ys h" using d(1) dis f(2) by auto
    then show "lprev ?S y = lprev S y" by simp
  qed
  have 2: "lpath ?S (start_of ys h) (after_start ys h) = lpath S (start_of ys h) (after_start ys h)"
  proof (rule lpath_cong, unfold f(7))
    fix y assume y: "y \<in> set ys"
    then have "y \<noteq> h" "y \<noteq> end_of g (z # zs)" using d(2) dis e(1) by auto
    then show "lnext ?S y = lnext S y" by simp
  next
    fix y assume y: "y \<in> set (after_start ys h)"
    then have "y \<noteq> start_of ys h" "y \<in> set (h # ys)" using f(6,8) by auto
    moreover from this have "y \<noteq> z" using dis by auto
    ultimately show "lprev ?S y = lprev S y" by simp
  qed
  have ne: "start_of ys h \<noteq> z" "h \<noteq> end_of g (z # zs)" "last (h # z # zs) = end_of g (z # zs)"
    using f(2) e(1) dis by (auto simp: end_of_def)
  have "lpath S z zs" using rg by (simp add: ring_def lpath_append)
  moreover have "lpath S (start_of ys h) (after_start ys h)" using rh unfolding ring_def lpath_start by blast
  ultimately have "lpath ?S h ((z # zs) @ ys @ [h])"
    unfolding lpath_append [of ?S h "z # zs"] ne(3) lpath_start 2 using 1 ne by simp
  then show ?thesis using d dis by (auto simp: ring_def)
qed

lemma list_splice_rings:
  assumes R: "rings S H L" and g: "g \<in> H" and h: "h \<in> H" and gh: "g \<noteq> h"
  shows "\<exists>S'. list_splice_init g h S = Inr S' \<and> rings S' H (L(h := L g @ L h, g := []))"
proof (cases "L g")
  case Nil
  then have "L(h := L g @ L h, g := []) = L" by (auto simp: fun_eq_iff)
  then show ?thesis using list_empty_rings [OF R g] Nil R by (simp add: list_splice_init_def)
next
  case (Cons z zs)
  have rg: "ring S g ([] @ L g)" "ring S g (L g @ [])" and rh: "ring S h ([] @ L h)"
    using rings_ring [OF R] g h by auto
  have dis: "set (g # L g) \<inter> set (h # L h) = {}" using R g h gh unfolding rings_def by metis
  define S1 where "S1 = S\<lparr>lprev := (lprev S)(z \<mapsto> h, start_of (L h) h \<mapsto> end_of g (z # zs)),
     lnext := (lnext S)(h \<mapsto> z, end_of g (z # zs) \<mapsto> start_of (L h) h)\<rparr>"
  have raw: "list_splice_raw g h S = Inr S1"
    using rg [unfolded ring_cut] rh [unfolded ring_cut] Cons by (simp add: list_splice_raw_def S1_def)
  have r: "ring S1 h (L g @ L h)" unfolding S1_def Cons
    by (rule spliced_ring) (use rg rh dis Cons in auto)
  have sub: "rings S (H - {g}) L" "h \<in> H - {g}" using R h gh by (auto simp: rings_def)
  have out: "set (g # L g) \<inter> nodes (H - {g}) L = {}"
    using R g unfolding rings_def nodes_def by (auto simp: disjoint_iff)
  have ends: "start_of (L h) h \<in> set (h # L h)" "end_of g (z # zs) \<in> set (L g)"
    using cut_ends(2) [of h "[]" "L h"] rh Cons by (auto simp: ring_def end_of_def)
  have "rings S1 (H - {g}) (L(h := L g @ L h))"
  proof (rule rings_update [OF sub r, of "set (L g)"])
    show "lnext S1 x = lnext S x \<and> lprev S1 x = lprev S x" if "x \<notin> set (h # L h) \<union> set (L g)" for x
      using that ends Cons by (auto simp: S1_def)
  qed (use out in auto)
  moreover have "g \<notin> nodes (H - {g}) (L(h := L g @ L h))"
    using out dis rg h gh by (auto simp: nodes_def ring_def split: if_splits)
  ultimately have "rings (INIT_LIST_HEAD g S1) (insert g (H - {g})) (L(h := L g @ L h, g := []))"
    by (rule INIT_LIST_HEAD_rings)
  moreover have "insert g (H - {g}) = H" using g by blast
  ultimately show ?thesis using list_empty_rings [OF R g] Cons raw by (simp add: list_splice_init_def)
qed

section \<open>Sequences of operations\<close>

datatype 'n list_op =
  Add 'n 'n | Add_Tail 'n 'n | Del 'n | Move 'n 'n | Move_Tail 'n 'n | Splice_Init 'n 'n

fun list_step :: "'n list_op \<Rightarrow> 'n links \<Rightarrow> 'n links res" where
  "list_step (Add x h) S = list_add x h S"
| "list_step (Add_Tail x h) S = list_add_tail x h S"
| "list_step (Del x) S = list_del x S"
| "list_step (Move x h) S = list_move x h S"
| "list_step (Move_Tail x h) S = list_move_tail x h S"
| "list_step (Splice_Init g h) S = list_splice_init g h S"

text \<open>
  What the operations mean for the lists \<open>L\<close> behind the heads \<open>H\<close>, and when the client may call them:
  an element is added when it is in no list, and removed or moved when it is in one.
\<close>

definition without :: "'n \<Rightarrow> ('n \<Rightarrow> 'n list) \<Rightarrow> 'n \<Rightarrow> 'n list" where
  "without x L = (\<lambda>g. remove1 x (L g))"

fun spec_step :: "'n list \<Rightarrow> 'n list_op \<Rightarrow> ('n \<Rightarrow> 'n list) \<Rightarrow> ('n \<Rightarrow> 'n list) option" where
  "spec_step H (Add x h) L =
     (if h \<in> set H \<and> x \<notin> set (H @ concat (map L H)) then Some (L(h := x # L h)) else None)"
| "spec_step H (Add_Tail x h) L =
     (if h \<in> set H \<and> x \<notin> set (H @ concat (map L H)) then Some (L(h := L h @ [x])) else None)"
| "spec_step H (Del x) L = (if x \<in> set (concat (map L H)) then Some (without x L) else None)"
| "spec_step H (Move x h) L =
     (if h \<in> set H \<and> x \<in> set (concat (map L H)) then Some ((without x L)(h := x # without x L h)) else None)"
| "spec_step H (Move_Tail x h) L =
     (if h \<in> set H \<and> x \<in> set (concat (map L H)) then Some ((without x L)(h := without x L h @ [x])) else None)"
| "spec_step H (Splice_Init g h) L =
     (if g \<in> set H \<and> h \<in> set H \<and> g \<noteq> h then Some (L(h := L g @ L h, g := [])) else None)"

fun spec_run :: "'n list \<Rightarrow> 'n list_op list \<Rightarrow> ('n \<Rightarrow> 'n list) \<Rightarrow> ('n \<Rightarrow> 'n list) option" where
  "spec_run H [] L = Some L"
| "spec_run H (p # ps) L = (case spec_step H p L of None \<Rightarrow> None | Some L1 \<Rightarrow> spec_run H ps L1)"

lemma rings_cong: "(\<And>h. h \<in> H \<Longrightarrow> L h = L' h) \<Longrightarrow> rings S H L = rings S H L'"
  by (auto simp: rings_def)

lemma nodes_list: "nodes (set H) L = set (H @ concat (map L H))"
  by (auto simp: nodes_def)

text \<open>Only the list of \<open>x\<close> changes when \<open>x\<close> is taken out.\<close>

lemma rings_without:
  assumes R: "rings S (set H) L" and x: "x \<in> set (concat (map L H))"
  obtains h where "h \<in> set H" "x \<in> set (L h)"
    "\<And>g. g \<in> set H \<Longrightarrow> without x L g = (L(h := remove1 x (L h))) g"
proof -
  obtain h where h: "h \<in> set H" "x \<in> set (L h)" using x by auto
  have "x \<notin> set (L g)" if "g \<in> set H" "g \<noteq> h" for g
    using R h that unfolding rings_def by (metis disjoint_iff list.set_intros(2))
  then have "without x L g = (L(h := remove1 x (L h))) g" if "g \<in> set H" for g
    using that by (auto simp: without_def remove1_idem)
  then show thesis using that h by blast
qed

lemma list_step_refines:
  assumes R: "rings S (set H) L" and st: "spec_step H p L = Some L'"
  shows "\<exists>S'. list_step p S = Inr S' \<and> rings S' (set H) L'"
proof (cases p)
  case (Add x h)
  then show ?thesis using st list_add_rings [OF R, of h x] unfolding nodes_list by (auto split: if_splits)
next
  case (Add_Tail x h)
  then show ?thesis using st list_add_tail_rings [OF R, of h x] unfolding nodes_list by (auto split: if_splits)
next
  case (Del x)
  then have x: "x \<in> set (concat (map L H))" and L': "L' = without x L" using st by (auto split: if_splits)
  obtain h where h: "h \<in> set H" "x \<in> set (L h)"
    "\<And>g. g \<in> set H \<Longrightarrow> without x L g = (L(h := remove1 x (L h))) g" by (rule rings_without [OF R x]) blast
  have "L' g = (L(h := remove1 x (L h))) g" if "g \<in> set H" for g using h(3) [OF that] L' by simp
  then have "rings T (set H) L' = rings T (set H) (L(h := remove1 x (L h)))" for T by (rule rings_cong)
  then show ?thesis using list_del_rings [OF R h(1,2)] Del by (metis list_step.simps(3))
next
  case (Move x k)
  then have k: "k \<in> set H" and x: "x \<in> set (concat (map L H))" and L': "L' = (without x L)(k := x # without x L k)"
    using st by (auto split: if_splits)
  obtain h where h: "h \<in> set H" "x \<in> set (L h)"
    "\<And>g. g \<in> set H \<Longrightarrow> without x L g = (L(h := remove1 x (L h))) g" by (rule rings_without [OF R x]) blast
  have "L' g = ((L(h := remove1 x (L h)))(k := x # (L(h := remove1 x (L h))) k)) g" if "g \<in> set H" for g
    using h(3) [OF that] h(3) [OF k] L' by simp
  then have "rings T (set H) L' = rings T (set H) ((L(h := remove1 x (L h)))(k := x # (L(h := remove1 x (L h))) k))"
    for T by (rule rings_cong)
  then show ?thesis using list_move_rings [OF R h(1) k h(2)] Move by (metis list_step.simps(4))
next
  case (Move_Tail x k)
  then have k: "k \<in> set H" and x: "x \<in> set (concat (map L H))" and L': "L' = (without x L)(k := without x L k @ [x])"
    using st by (auto split: if_splits)
  obtain h where h: "h \<in> set H" "x \<in> set (L h)"
    "\<And>g. g \<in> set H \<Longrightarrow> without x L g = (L(h := remove1 x (L h))) g" by (rule rings_without [OF R x]) blast
  have "L' g = ((L(h := remove1 x (L h)))(k := (L(h := remove1 x (L h))) k @ [x])) g" if "g \<in> set H" for g
    using h(3) [OF that] h(3) [OF k] L' by simp
  then have "rings T (set H) L' = rings T (set H) ((L(h := remove1 x (L h)))(k := (L(h := remove1 x (L h))) k @ [x]))"
    for T by (rule rings_cong)
  then show ?thesis using list_move_tail_rings [OF R h(1) k h(2)] Move_Tail by (metis list_step.simps(5))
next
  case (Splice_Init g h)
  then show ?thesis using st list_splice_rings [OF R, of g h] by (auto split: if_splits)
qed

text \<open>The heads of a new store.\<close>

definition init_heads :: "'n list \<Rightarrow> 'n links" where
  "init_heads H = fold INIT_LIST_HEAD H \<lparr>lnext = Map.empty, lprev = Map.empty\<rparr>"

lemma init_heads_fold:
  assumes "rings S G (\<lambda>_. [])" "distinct H" "set H \<inter> G = {}"
  shows "rings (fold INIT_LIST_HEAD H S) (set H \<union> G) (\<lambda>_. [])"
  using assms
proof (induction H arbitrary: S G)
  case (Cons h H)
  have "(\<lambda>_. [])(h := []) = (\<lambda>_ :: 'a. [] :: 'a list)" by (simp add: fun_eq_iff)
  then have "rings (INIT_LIST_HEAD h S) (insert h G) (\<lambda>_. [])"
    using INIT_LIST_HEAD_rings [OF Cons.prems(1), of h] Cons.prems(3) by (auto simp: nodes_def)
  then show ?case using Cons.IH [of "INIT_LIST_HEAD h S" "insert h G"] Cons.prems by (auto simp: Un_commute)
qed simp

lemma init_heads_rings: "distinct H \<Longrightarrow> rings (init_heads H) (set H) (\<lambda>_. [])"
  using init_heads_fold [of _ "{}" H] by (simp add: init_heads_def rings_def)

lemma while_True [simp]: "takeWhile (\<lambda>_. True) xs = xs" "dropWhile (\<lambda>_. True) xs = []"
  by (induction xs) simp_all

text \<open>
  C25: For every sequence of operations that adds elements that are in no list, and removes and moves
  elements that are in one, the linked lists behave as lists: no operation fails or follows a poisoned
  pointer, and after the sequence every head, walked over with \<open>list_for_each\<close>, shows exactly the
  elements the same operations on lists leave.
\<close>

theorem list_heads_refine_lists:
  assumes "distinct H" "spec_run H ps (\<lambda>_. []) = Some L"
  shows "\<exists>S. foldE list_step ps (init_heads H) = Inr S \<and>
           (\<forall>h \<in> set H. \<forall>n > length (L h). list_for_each n (\<lambda>_. False) h S = Inr (L h))"
proof -
  have run: "\<exists>S'. foldE list_step ps S = Inr S' \<and> rings S' (set H) L"
    if "rings S (set H) L0" "spec_run H ps L0 = Some L" for S L0
    using that
  proof (induction ps arbitrary: S L0)
    case (Cons p ps)
    then obtain L1 where L1: "spec_step H p L0 = Some L1" "spec_run H ps L1 = Some L" by (auto split: option.splits)
    obtain S1 where "list_step p S = Inr S1" "rings S1 (set H) L1"
      using list_step_refines [OF Cons.prems(1) L1(1)] by blast
    then show ?case using Cons.IH L1(2) by simp
  qed simp
  obtain S where "foldE list_step ps (init_heads H) = Inr S" "rings S (set H) L"
    using run [OF init_heads_rings [OF assms(1)] assms(2)] by blast
  then show ?thesis using list_for_each_rings [of S "set H" L] by auto
qed

theorem list_heads_refine_lists_witness:
  "\<exists>S. foldE list_step [Add_Tail 3 1, Add_Tail 4 1, Add 5 2, Move_Tail 3 2, Splice_Init 2 1, Del 5]
         (init_heads [1, 2 :: nat]) = Inr S \<and>
       list_for_each 9 (\<lambda>_. False) 1 S = Inr [3, 4] \<and> list_for_each 9 (\<lambda>_. False) 2 S = Inr []"
proof -
  let ?ps = "[Add_Tail 3 1, Add_Tail 4 1, Add 5 2, Move_Tail 3 2, Splice_Init 2 1, Del 5]"
  obtain L where L: "spec_run [1, 2 :: nat] ?ps (\<lambda>_. []) = Some L" "L 1 = [3, 4]" "L 2 = []"
    by (simp add: without_def)
  show ?thesis using list_heads_refine_lists [of "[1, 2 :: nat]", OF _ L(1)] L(2,3) by auto
qed

end
