(* ===== verification/Bdbm_Queue.thy ===== *)
theory Bdbm_Queue
  imports List_Head
begin

text \<open>
  The request queues of the BlueDBM driver (\<^verbatim>\<open>src/lower/bdbm_drv/ftl/queue/queue.c\<close>): a fixed number of
  FIFO lists with a common bound on the number of items. The items are linked through the
  \<open>struct list_head\<close> they contain. Every operation holds the spin lock of the queue from its first to
  its last access, so an operation is one step. The theory shows that the queues behave as a family
  of lists.
\<close>

section \<open>The code\<close>

text \<open>The two kinds of objects with a \<open>struct list_head\<close>: the heads \<open>qlh[i]\<close> and the allocated items.\<close>

type_synonym addr = nat

datatype bdbm_qnode = QHead nat | QItem addr

definition INFINITE_QUEUE :: int where "INFINITE_QUEUE = - 1"

record 'r bdbm_queue =
  nr_queues :: nat
  max_size :: int
  qic :: int
  qlh :: "bdbm_qnode links"
  q_items :: "addr \<rightharpoonup> 'r"
  q_fresh :: addr
  max_queue_items :: int

definition bdbm_queue_create :: "nat \<Rightarrow> int \<Rightarrow> 'r bdbm_queue" where
  "bdbm_queue_create nr sz =
     \<lparr>nr_queues = nr, max_size = sz, qic = 0, qlh = init_heads (map QHead [0..<nr]), q_items = Map.empty,
      q_fresh = 0, max_queue_items = 0\<rparr>"

text \<open>
  \<open>mem\<close> tells whether \<open>bdbm_malloc_atomic\<close> gives a new item. \<open>link\<close> is \<open>list_add_tail\<close> in
  \<open>bdbm_queue_enqueue\<close> and \<open>list_add\<close> in \<open>bdbm_queue_enqueue_top\<close>; the functions are otherwise the same.
\<close>

definition enqueue_with ::
  "(bdbm_qnode \<Rightarrow> bdbm_qnode \<Rightarrow> bdbm_qnode links \<Rightarrow> bdbm_qnode links res) \<Rightarrow> bool \<Rightarrow> nat \<Rightarrow> 'r \<Rightarrow> 'r bdbm_queue \<Rightarrow>
     (nat \<times> 'r bdbm_queue) res" where
  "enqueue_with link mem qid req mq =
     (if qid \<ge> nr_queues mq then Inr (1, mq)
      else if max_size mq = INFINITE_QUEUE \<or> qic mq < max_size mq then
        if \<not> mem then Inr (1, mq)
        else
          let a = q_fresh mq in
          bindE (link (QItem a) (QHead qid) (qlh mq)) (\<lambda>l.
            Inr (0, mq\<lparr>qlh := l, q_items := (q_items mq)(a \<mapsto> req), q_fresh := a + 1, qic := qic mq + 1,
                       max_queue_items := (if qic mq + 1 > max_queue_items mq then qic mq + 1
                                           else max_queue_items mq)\<rparr>))
      else Inr (1, mq))"

definition bdbm_queue_enqueue :: "bool \<Rightarrow> nat \<Rightarrow> 'r \<Rightarrow> 'r bdbm_queue \<Rightarrow> (nat \<times> 'r bdbm_queue) res" where
  "bdbm_queue_enqueue = enqueue_with list_add_tail"

definition bdbm_queue_enqueue_top :: "bool \<Rightarrow> nat \<Rightarrow> 'r \<Rightarrow> 'r bdbm_queue \<Rightarrow> (nat \<times> 'r bdbm_queue) res" where
  "bdbm_queue_enqueue_top = enqueue_with list_add"

text \<open>The loop \<open>list_for_each\<close> that leaves at its first element.\<close>

definition first_item :: "nat \<Rightarrow> bdbm_qnode links \<Rightarrow> addr option res" where
  "first_item qid l =
     bindE (deref (lnext l (QHead qid))) (\<lambda>n.
       if n = QHead qid then Inr None
       else case n of QItem a \<Rightarrow> Inr (Some a) | QHead _ \<Rightarrow> Inl Bad_Access)"

definition bdbm_queue_is_empty :: "nat \<Rightarrow> 'r bdbm_queue \<Rightarrow> nat res" where
  "bdbm_queue_is_empty qid mq =
     (if qic mq > 0 then bindE (first_item qid (qlh mq)) (\<lambda>q. Inr (if q \<noteq> None then 0 else 1)) else Inr 1)"

definition bdbm_queue_dequeue :: "nat \<Rightarrow> 'r bdbm_queue \<Rightarrow> ('r option \<times> 'r bdbm_queue) res" where
  "bdbm_queue_dequeue qid mq =
     (if qic mq > 0 then
        bindE (first_item qid (qlh mq)) (\<lambda>q.
          case q of
            None \<Rightarrow> Inr (None, mq)
          | Some a \<Rightarrow>
              bindE (deref (q_items mq a)) (\<lambda>req.
              bindE (list_del (QItem a) (qlh mq)) (\<lambda>l.
                Inr (Some req, mq\<lparr>qlh := l, q_items := (q_items mq)(a := None), qic := qic mq - 1\<rparr>))))
      else Inr (None, mq))"

text \<open>\<open>bdbm_bug_on\<close> stops the driver.\<close>

definition bdbm_queue_is_full :: "'r bdbm_queue \<Rightarrow> nat res" where
  "bdbm_queue_is_full mq =
     (if max_size mq \<noteq> INFINITE_QUEUE then
        if qic mq > max_size mq then Inl Abort else Inr (if qic mq = max_size mq then 1 else 0)
      else Inr 0)"

definition bdbm_queue_is_all_empty :: "'r bdbm_queue \<Rightarrow> nat" where
  "bdbm_queue_is_all_empty mq = (if qic mq = 0 then 1 else 0)"

definition bdbm_queue_get_nr_items :: "'r bdbm_queue \<Rightarrow> int" where
  "bdbm_queue_get_nr_items mq = qic mq"

section \<open>Lists of items\<close>

text \<open>
  The items of a family of queues: the addresses \<open>A i\<close> behind head \<open>i\<close>, and a store that has exactly
  these items.
\<close>

definition heads :: "nat \<Rightarrow> bdbm_qnode set" where
  "heads nr = QHead ` {..<nr}"

definition item_lists :: "(nat \<Rightarrow> addr list) \<Rightarrow> bdbm_qnode \<Rightarrow> bdbm_qnode list" where
  "item_lists A n = (case n of QHead i \<Rightarrow> map QItem (A i) | QItem _ \<Rightarrow> [])"

definition qrep :: "nat \<Rightarrow> bdbm_qnode links \<Rightarrow> (addr \<rightharpoonup> 'i) \<Rightarrow> addr \<Rightarrow> (nat \<Rightarrow> addr list) \<Rightarrow> bool" where
  "qrep nr S items fresh A \<longleftrightarrow> rings S (heads nr) (item_lists A) \<and>
     dom items = (\<Union>i < nr. set (A i)) \<and> (\<forall>a \<in> dom items. a < fresh)"

lemma item_lists_head [simp]: "item_lists A (QHead i) = map QItem (A i)"
  by (simp add: item_lists_def)

lemma item_lists_update: "(item_lists A)(QHead i := map QItem xs) = item_lists (A(i := xs))"
  by (auto simp: item_lists_def fun_eq_iff split: bdbm_qnode.splits)

lemma qnodes: "QItem a \<in> nodes (heads nr) (item_lists A) \<longleftrightarrow> a \<in> (\<Union>i < nr. set (A i))"
  by (auto simp: nodes_def heads_def)

lemma qrep_distinct: "qrep nr S items fresh A \<Longrightarrow> i < nr \<Longrightarrow> distinct (A i)"
  using rings_ring [of S "heads nr" "item_lists A" "QHead i"]
  by (auto simp: qrep_def heads_def ring_def distinct_map)

lemma qrep_disjoint:
  assumes "qrep nr S items fresh A" "i < nr" "j < nr" "i \<noteq> j"
  shows "set (A i) \<inter> set (A j) = {}"
proof -
  have "rings S (heads nr) (item_lists A)" "QHead i \<in> heads nr" "QHead j \<in> heads nr" "QHead i \<noteq> QHead j"
    using assms by (auto simp: qrep_def heads_def)
  then have "set (QHead i # item_lists A (QHead i)) \<inter> set (QHead j # item_lists A (QHead j)) = {}"
    unfolding rings_def by blast
  then show ?thesis by auto
qed

lemma qrep_init: "qrep nr (init_heads (map QHead [0..<nr])) Map.empty fresh (\<lambda>_. [])"
proof -
  have "(\<lambda>_. []) = item_lists (\<lambda>_. [])" by (auto simp: fun_eq_iff item_lists_def split: bdbm_qnode.splits)
  moreover have "set (map QHead [0..<nr]) = heads nr" by (auto simp: heads_def)
  moreover have "distinct (map QHead [0..<nr])" by (simp add: distinct_map inj_on_def)
  ultimately show ?thesis using init_heads_rings [of "map QHead [0..<nr]"] by (simp add: qrep_def)
qed

lemma union_insert: "i < nr \<Longrightarrow> set xs = insert x (set (A i)) \<Longrightarrow>
    (\<Union>j < nr. set ((A(i := xs)) j)) = insert x (\<Union>j < nr. set (A j))"
  by (force split: if_splits)

text \<open>Linking a new item at one end of a list.\<close>

lemma qrep_add_tail:
  assumes q: "qrep nr S items fresh A" and i: "i < nr"
  shows "\<exists>S'. list_add_tail (QItem fresh) (QHead i) S = Inr S' \<and>
           qrep nr S' (items(fresh \<mapsto> x)) (fresh + 1) (A(i := A i @ [fresh]))"
proof -
  have R: "rings S (heads nr) (item_lists A)" and h: "QHead i \<in> heads nr"
    and n: "QItem fresh \<notin> nodes (heads nr) (item_lists A)"
    using q i unfolding qrep_def qnodes by (auto simp: heads_def)
  have u: "(item_lists A)(QHead i := item_lists A (QHead i) @ [QItem fresh]) = item_lists (A(i := A i @ [fresh]))"
    using item_lists_update [of A i "A i @ [fresh]"] by simp
  have "(\<Union>j < nr. set ((A(i := A i @ [fresh])) j)) = insert fresh (\<Union>j < nr. set (A j))"
    by (rule union_insert [OF i]) simp
  then show ?thesis
    using list_add_tail_rings [OF R h n] q unfolding u qrep_def dom_fun_upd by (simp add: less_Suc_eq)
qed

lemma qrep_add_at:
  assumes q: "qrep nr S items fresh A" and i: "i < nr" and a: "a \<notin> dom items" "a < fresh'" "fresh \<le> fresh'"
  shows "\<exists>S'. list_add (QItem a) (QHead i) S = Inr S' \<and>
           qrep nr S' (items(a \<mapsto> x)) fresh' (A(i := a # A i))"
proof -
  have R: "rings S (heads nr) (item_lists A)" and h: "QHead i \<in> heads nr"
    and n: "QItem a \<notin> nodes (heads nr) (item_lists A)"
    using q i a(1) unfolding qrep_def qnodes by (auto simp: heads_def)
  have u: "(item_lists A)(QHead i := QItem a # item_lists A (QHead i)) = item_lists (A(i := a # A i))"
    using item_lists_update [of A i "a # A i"] by simp
  have "(\<Union>j < nr. set ((A(i := a # A i)) j)) = insert a (\<Union>j < nr. set (A j))"
    by (rule union_insert [OF i]) simp
  moreover have "b < fresh'" if "b \<in> dom items" for b
    using q that a(3) unfolding qrep_def by (meson order.strict_trans2)
  then have "\<forall>b \<in> dom (items(a \<mapsto> x)). b < fresh'" unfolding dom_fun_upd using a(2) by simp
  ultimately show ?thesis using list_add_rings [OF R h n] q unfolding u qrep_def by simp
qed

lemma qrep_add:
  assumes q: "qrep nr S items fresh A" and i: "i < nr"
  shows "\<exists>S'. list_add (QItem fresh) (QHead i) S = Inr S' \<and>
           qrep nr S' (items(fresh \<mapsto> x)) (fresh + 1) (A(i := fresh # A i))"
  by (rule qrep_add_at [OF q i]) (use q in \<open>auto simp: qrep_def\<close>)

lemma first_item_qrep:
  assumes q: "qrep nr S items fresh A" and i: "i < nr"
  shows "first_item i S = Inr (case A i of [] \<Rightarrow> None | a # _ \<Rightarrow> Some a)"
proof -
  have "ring S (QHead i) ([] @ map QItem (A i))"
    using rings_ring [of S "heads nr" "item_lists A" "QHead i"] q i by (auto simp: qrep_def heads_def)
  then have "lnext S (QHead i) = Some (start_of (map QItem (A i)) (QHead i))" unfolding ring_cut by simp
  then show ?thesis by (cases "A i") (simp_all add: first_item_def)
qed

lemma qrep_del:
  assumes q: "qrep nr S items fresh A" and i: "i < nr" and a: "a \<in> set (A i)"
  shows "\<exists>S'. list_del (QItem a) S = Inr S' \<and> qrep nr S' (items(a := None)) fresh (A(i := remove1 a (A i)))"
proof -
  have R: "rings S (heads nr) (item_lists A)" and h: "QHead i \<in> heads nr"
    and n: "QItem a \<in> set (item_lists A (QHead i))"
    using q i a unfolding qrep_def by (auto simp: heads_def)
  have "remove1 (QItem a) (map QItem xs) = map QItem (remove1 a xs)" for xs by (induction xs) simp_all
  then have u: "(item_lists A)(QHead i := remove1 (QItem a) (item_lists A (QHead i))) = item_lists (A(i := remove1 a (A i)))"
    using item_lists_update [of A i "remove1 a (A i)"] by simp
  have "a \<notin> set (A j)" if "j < nr" "j \<noteq> i" for j using qrep_disjoint [OF q that(1) i that(2)] a by auto
  moreover have "set (remove1 a (A i)) = set (A i) - {a}" using qrep_distinct [OF q i] by simp
  ultimately have "(\<Union>j < nr. set ((A(i := remove1 a (A i))) j)) = (\<Union>j < nr. set (A j)) - {a}"
    using i by (auto split: if_splits)
  then show ?thesis using list_del_rings [OF R h n] q unfolding u qrep_def by auto
qed

section \<open>Queues as lists\<close>

datatype 'r queue_op =
  Enqueue bool nat 'r | Enqueue_Top bool nat 'r | Dequeue nat | Is_Empty nat | Is_Full | Is_All_Empty | Nr_Items

datatype 'r queue_answer = Code nat | Item "'r option" | Count int

fun queue_step :: "'r queue_op \<Rightarrow> 'r bdbm_queue \<Rightarrow> ('r queue_answer \<times> 'r bdbm_queue) res" where
  "queue_step (Enqueue mem qid r) mq = bindE (bdbm_queue_enqueue mem qid r mq) (\<lambda>(c, mq'). Inr (Code c, mq'))"
| "queue_step (Enqueue_Top mem qid r) mq = bindE (bdbm_queue_enqueue_top mem qid r mq) (\<lambda>(c, mq'). Inr (Code c, mq'))"
| "queue_step (Dequeue qid) mq = bindE (bdbm_queue_dequeue qid mq) (\<lambda>(r, mq'). Inr (Item r, mq'))"
| "queue_step (Is_Empty qid) mq = bindE (bdbm_queue_is_empty qid mq) (\<lambda>c. Inr (Code c, mq))"
| "queue_step Is_Full mq = bindE (bdbm_queue_is_full mq) (\<lambda>c. Inr (Code c, mq))"
| "queue_step Is_All_Empty mq = Inr (Code (bdbm_queue_is_all_empty mq), mq)"
| "queue_step Nr_Items mq = Inr (Count (bdbm_queue_get_nr_items mq), mq)"

fun queue_run :: "'r queue_op list \<Rightarrow> 'r bdbm_queue \<Rightarrow> 'r queue_answer list res" where
  "queue_run [] mq = Inr []"
| "queue_run (p # ps) mq =
     bindE (queue_step p mq) (\<lambda>(a, mq'). bindE (queue_run ps mq') (\<lambda>as. Inr (a # as)))"

text \<open>The same operations on a family \<open>Q\<close> of lists, of which there are \<open>nr\<close>, with the bound \<open>mx\<close>.\<close>

definition total_items :: "nat \<Rightarrow> (nat \<Rightarrow> 'r list) \<Rightarrow> nat" where
  "total_items nr Q = (\<Sum>i < nr. length (Q i))"

definition room :: "nat \<Rightarrow> int \<Rightarrow> (nat \<Rightarrow> 'r list) \<Rightarrow> bool" where
  "room nr mx Q \<longleftrightarrow> mx = - 1 \<or> int (total_items nr Q) < mx"

fun queue_spec :: "nat \<Rightarrow> int \<Rightarrow> 'r queue_op \<Rightarrow> (nat \<Rightarrow> 'r list) \<Rightarrow> 'r queue_answer \<times> (nat \<Rightarrow> 'r list)" where
  "queue_spec nr mx (Enqueue mem qid r) Q =
     (if qid < nr \<and> room nr mx Q \<and> mem then (Code 0, Q(qid := Q qid @ [r])) else (Code 1, Q))"
| "queue_spec nr mx (Enqueue_Top mem qid r) Q =
     (if qid < nr \<and> room nr mx Q \<and> mem then (Code 0, Q(qid := r # Q qid)) else (Code 1, Q))"
| "queue_spec nr mx (Dequeue qid) Q =
     (case Q qid of [] \<Rightarrow> (Item None, Q) | r # rs \<Rightarrow> (Item (Some r), Q(qid := rs)))"
| "queue_spec nr mx (Is_Empty qid) Q = (Code (if Q qid = [] then 1 else 0), Q)"
| "queue_spec nr mx Is_Full Q = (Code (if mx = int (total_items nr Q) then 1 else 0), Q)"
| "queue_spec nr mx Is_All_Empty Q = (Code (if total_items nr Q = 0 then 1 else 0), Q)"
| "queue_spec nr mx Nr_Items Q = (Count (int (total_items nr Q)), Q)"

fun spec_answers :: "nat \<Rightarrow> int \<Rightarrow> 'r queue_op list \<Rightarrow> (nat \<Rightarrow> 'r list) \<Rightarrow> 'r queue_answer list" where
  "spec_answers nr mx [] Q = []"
| "spec_answers nr mx (p # ps) Q = (let (a, Q') = queue_spec nr mx p Q in a # spec_answers nr mx ps Q')"

text \<open>A client names an existing queue when it looks into one; \<open>enqueue\<close> checks the number itself.\<close>

fun names_queue :: "nat \<Rightarrow> 'r queue_op \<Rightarrow> bool" where
  "names_queue nr (Dequeue qid) \<longleftrightarrow> qid < nr"
| "names_queue nr (Is_Empty qid) \<longleftrightarrow> qid < nr"
| "names_queue nr _ \<longleftrightarrow> True"

definition shows_lists :: "nat \<Rightarrow> bdbm_qnode links \<Rightarrow> (addr \<rightharpoonup> 'r) \<Rightarrow> addr \<Rightarrow> (nat \<Rightarrow> 'r list) \<Rightarrow> bool" where
  "shows_lists nr S items fresh Q \<longleftrightarrow>
     (\<exists>A. qrep nr S items fresh A \<and> (\<forall>i < nr. map items (A i) = map Some (Q i)))"

definition bq_rel :: "'r bdbm_queue \<Rightarrow> nat \<Rightarrow> int \<Rightarrow> (nat \<Rightarrow> 'r list) \<Rightarrow> bool" where
  "bq_rel mq nr mx Q \<longleftrightarrow> nr_queues mq = nr \<and> max_size mq = mx \<and> qic mq = int (total_items nr Q) \<and>
     (mx = - 1 \<or> int (total_items nr Q) \<le> mx) \<and>
     shows_lists nr (qlh mq) (q_items mq) (q_fresh mq) Q"

lemma total_items_update:
  assumes "qid < nr"
  shows "total_items nr (Q(qid := xs)) + length (Q qid) = total_items nr Q + length xs"
proof -
  have fin: "finite {..<nr}" and m: "qid \<in> {..<nr}" using assms by auto
  have "(\<Sum>i \<in> {..<nr} - {qid}. length ((Q(qid := xs)) i)) = (\<Sum>i \<in> {..<nr} - {qid}. length (Q i))"
    by (rule sum.cong) auto
  then show ?thesis unfolding total_items_def sum.remove [OF fin m] by simp
qed

lemma bq_rel_linked:
  assumes rel: "bq_rel mq nr mx Q" and i: "qid < nr" and rm: "room nr mx Q"
    and rs: "rs = Q qid @ [r] \<and> ln = list_add_tail \<or> rs = r # Q qid \<and> ln = list_add"
  shows "\<exists>mq'. enqueue_with ln True qid r mq = Inr (0, mq') \<and> bq_rel mq' nr mx (Q(qid := rs))"
proof -
  obtain A where A: "qrep nr (qlh mq) (q_items mq) (q_fresh mq) A" "\<forall>i < nr. map (q_items mq) (A i) = map Some (Q i)"
    and hd: "nr_queues mq = nr" "max_size mq = mx" "qic mq = int (total_items nr Q)" using rel by (auto simp: bq_rel_def shows_lists_def)
  let ?a = "q_fresh mq" and ?it = "(q_items mq)(q_fresh mq \<mapsto> r)"
  obtain as S' where S': "ln (QItem ?a) (QHead qid) (qlh mq) = Inr S'" "qrep nr S' ?it (?a + 1) (A(qid := as))"
    and as: "as = A qid @ [?a] \<and> rs = Q qid @ [r] \<or> as = ?a # A qid \<and> rs = r # Q qid"
    using qrep_add_tail [OF A(1) i, of r] qrep_add [OF A(1) i, of r] rs by blast
  have fr: "?a \<notin> set (A i)" if "i < nr" for i using A(1) that unfolding qrep_def by blast
  have old: "map ?it (A i) = map Some (Q i)" if "i < nr" for i
  proof -
    have "map ?it (A i) = map (q_items mq) (A i)" by (rule map_cong) (use fr [OF that] in auto)
    then show ?thesis using A(2) that by simp
  qed
  have "map ?it as = map Some rs" using as old [OF i] by auto
  then have "shows_lists nr S' ?it (?a + 1) (Q(qid := rs))"
    unfolding shows_lists_def using old S'(2) by (intro exI [of _ "A(qid := as)"]) simp
  moreover have t: "total_items nr (Q(qid := rs)) = total_items nr Q + 1"
    using total_items_update [OF i, of Q rs] as by auto
  ultimately show ?thesis using S' hd rm i
    by (auto simp: enqueue_with_def INFINITE_QUEUE_def room_def bq_rel_def Let_def)
qed

lemma enqueue_refused: "\<not> (qid < nr_queues mq \<and> (max_size mq = - 1 \<or> qic mq < max_size mq) \<and> mem) \<Longrightarrow>
    enqueue_with ln mem qid r mq = Inr (1, mq)"
  by (auto simp: enqueue_with_def INFINITE_QUEUE_def)

lemma bq_rel_enqueue:
  assumes rel: "bq_rel mq nr mx Q" and rs: "rs = Q qid @ [r] \<and> ln = list_add_tail \<or> rs = r # Q qid \<and> ln = list_add"
  shows "\<exists>mq'. enqueue_with ln mem qid r mq =
             Inr (if qid < nr \<and> room nr mx Q \<and> mem then 0 else 1, mq') \<and>
           bq_rel mq' nr mx (if qid < nr \<and> room nr mx Q \<and> mem then Q(qid := rs) else Q)"
proof (cases "qid < nr \<and> room nr mx Q \<and> mem")
  case True
  then show ?thesis using bq_rel_linked [OF rel _ _ rs] by auto
next
  case False
  then have "\<not> (qid < nr_queues mq \<and> (max_size mq = - 1 \<or> qic mq < max_size mq) \<and> mem)"
    using rel by (auto simp: bq_rel_def room_def)
  from enqueue_refused [OF this, of ln r] show ?thesis unfolding if_not_P [OF False] using rel by auto
qed

lemma bq_rel_first:
  assumes rel: "bq_rel mq nr mx Q" and i: "qid < nr"
  shows "\<exists>q. first_item qid (qlh mq) = Inr q \<and> (q = None) = (Q qid = [])" "0 < qic mq \<or> Q qid = []"
proof -
  obtain A where A: "qrep nr (qlh mq) (q_items mq) (q_fresh mq) A" "map (q_items mq) (A qid) = map Some (Q qid)"
    using rel i by (auto simp: bq_rel_def shows_lists_def)
  then have "A qid = [] \<longleftrightarrow> Q qid = []" by (metis list.map_disc_iff)
  then show "\<exists>q. first_item qid (qlh mq) = Inr q \<and> (q = None) = (Q qid = [])"
    using first_item_qrep [OF A(1) i] by (cases "A qid") auto
  have "length (Q qid) \<le> total_items nr Q" unfolding total_items_def by (rule member_le_sum) (use i in auto)
  then show "0 < qic mq \<or> Q qid = []" using rel unfolding bq_rel_def by (cases "Q qid") auto
qed

lemma bq_rel_dequeue:
  assumes rel: "bq_rel mq nr mx Q" and i: "qid < nr" and Q: "Q qid = r # rs"
  shows "\<exists>mq'. bdbm_queue_dequeue qid mq = Inr (Some r, mq') \<and> bq_rel mq' nr mx (Q(qid := rs))"
proof -
  obtain A where A: "qrep nr (qlh mq) (q_items mq) (q_fresh mq) A" "\<forall>i < nr. map (q_items mq) (A i) = map Some (Q i)"
    and hd: "nr_queues mq = nr" "max_size mq = mx" "qic mq = int (total_items nr Q)"
      "mx = - 1 \<or> int (total_items nr Q) \<le> mx" using rel by (auto simp: bq_rel_def shows_lists_def)
  obtain a as where a: "A qid = a # as" "q_items mq a = Some r" "map (q_items mq) as = map Some rs"
  proof -
    have "map (q_items mq) (A qid) = map Some (r # rs)" using A(2) i Q by simp
    then show thesis using that by (cases "A qid") auto
  qed
  obtain S' where S': "list_del (QItem a) (qlh mq) = Inr S'"
    "qrep nr S' ((q_items mq)(a := None)) (q_fresh mq) (A(qid := as))"
    using qrep_del [OF A(1) i, of a] a by auto
  have "a \<notin> set as" using qrep_distinct [OF A(1) i] a by simp
  moreover have "a \<notin> set (A i)" if "i < nr" "i \<noteq> qid" for i
    using qrep_disjoint [OF A(1) that(1) i that(2)] a by auto
  ultimately have same: "map ((q_items mq)(a := None)) ((A(qid := as)) i) = map (q_items mq) ((A(qid := as)) i)"
    if "i < nr" for i using that by (intro map_cong) (auto split: if_splits)
  have "shows_lists nr S' ((q_items mq)(a := None)) (q_fresh mq) (Q(qid := rs))"
    unfolding shows_lists_def
    by (rule exI [of _ "A(qid := as)"], intro conjI allI impI, fact S'(2), subst same) (use A(2) a(3) in auto)
  moreover have "Suc (total_items nr (Q(qid := rs))) = total_items nr Q"
    using total_items_update [OF i, of Q rs] Q by simp
  moreover have "0 < qic mq" using bq_rel_first(2) [OF rel i] Q by simp
  ultimately show ?thesis
    using first_item_qrep [OF A(1) i] a(1,2) S' hd by (auto simp: bdbm_queue_dequeue_def bq_rel_def)
qed

lemma queue_step_refines:
  assumes rel: "bq_rel mq nr mx Q" and n: "names_queue nr p"
  shows "\<exists>mq'. queue_step p mq = Inr (fst (queue_spec nr mx p Q), mq') \<and> bq_rel mq' nr mx (snd (queue_spec nr mx p Q))"
proof (cases p)
  case (Enqueue mem qid r)
  then show ?thesis
    using bq_rel_enqueue [OF rel, of "Q qid @ [r]" qid r list_add_tail mem] by (auto simp: bdbm_queue_enqueue_def)
next
  case (Enqueue_Top mem qid r)
  then show ?thesis
    using bq_rel_enqueue [OF rel, of "r # Q qid" qid r list_add mem] by (auto simp: bdbm_queue_enqueue_top_def)
next
  case (Dequeue qid)
  then have i: "qid < nr" using n by simp
  show ?thesis
  proof (cases "Q qid")
    case Nil
    then show ?thesis using Dequeue bq_rel_first [OF rel i] rel by (auto simp: bdbm_queue_dequeue_def)
  next
    case (Cons r rs)
    then show ?thesis using Dequeue bq_rel_dequeue [OF rel i Cons] by auto
  qed
next
  case (Is_Empty qid)
  then show ?thesis using n bq_rel_first [OF rel, of qid] rel by (auto simp: bdbm_queue_is_empty_def)
qed (use rel in \<open>auto simp: bq_rel_def bdbm_queue_is_full_def INFINITE_QUEUE_def bdbm_queue_is_all_empty_def
       bdbm_queue_get_nr_items_def\<close>)

lemma bdbm_queue_create_rel: "mx = - 1 \<or> 0 \<le> mx \<Longrightarrow> bq_rel (bdbm_queue_create nr mx) nr mx (\<lambda>_. [])"
  using qrep_init [of nr 0] by (auto simp: bq_rel_def bdbm_queue_create_def total_items_def shows_lists_def)

text \<open>
  C24: For every sequence of operations the request queues answer like a family of lists with a common
  bound: items leave each queue in FIFO order (behind those put on top), an item is refused exactly when
  the queue does not exist, the bound is reached or memory is exhausted, and no operation fails.
\<close>

theorem bdbm_queue_refines_lists:
  assumes "mx = - 1 \<or> 0 \<le> mx" "\<forall>p \<in> set ps. names_queue nr p"
  shows "queue_run ps (bdbm_queue_create nr mx) = Inr (spec_answers nr mx ps (\<lambda>_. []))"
proof -
  have "queue_run ps mq = Inr (spec_answers nr mx ps Q)"
    if "bq_rel mq nr mx Q" "\<forall>p \<in> set ps. names_queue nr p" for mq Q
    using that
  proof (induction ps arbitrary: mq Q)
    case (Cons p ps)
    then show ?case using queue_step_refines [OF Cons.prems(1), of p] by (auto simp: split_beta)
  qed simp
  then show ?thesis using bdbm_queue_create_rel assms by blast
qed

theorem bdbm_queue_refines_lists_witness:
  "queue_run [Enqueue True 1 ''a'', Enqueue True 1 ''b'', Enqueue_Top True 1 ''c'', Is_Full, Enqueue True 0 ''d'',
      Dequeue 1, Dequeue 1, Is_Empty 0, Nr_Items] (bdbm_queue_create 2 3) =
   Inr [Code 0, Code 0, Code 0, Code 1, Code 1, Item (Some ''c''), Item (Some ''a''), Code 1, Count 1]"
  using bdbm_queue_refines_lists [of 3 "[Enqueue True 1 ''a'', Enqueue True 1 ''b'', Enqueue_Top True 1 ''c'', Is_Full,
      Enqueue True 0 ''d'', Dequeue 1, Dequeue 1, Is_Empty 0, Nr_Items]" 2]
  by (simp add: total_items_def room_def numeral_2_eq_2)

end
