(* ===== verification/Prior_Queue.thy ===== *)
theory Prior_Queue
  imports Bdbm_Queue
begin

text \<open>
  The priority queues of the BlueDBM driver (\<^verbatim>\<open>src/lower/bdbm_drv/ftl/queue/prior_queue.c\<close>). The requests of
  all queues that touch the same logical page get increasing tags, and a request leaves its queue only
  when its tag is the current one of its page. A request that was handed out stays in its queue, locked,
  until it is removed or moved. The theory shows that this serialises the requests of a page: they are
  served in the order of arrival, one at a time, whatever queues they are in.
\<close>

section \<open>The code\<close>

record 'r bdbm_prior_queue_item =
  ptr_req :: 'r
  pi_lpa :: nat
  pi_tag :: nat
  pi_lock :: bool

record bdbm_prior_lpa_item =
  li_lpa :: nat
  cur_tag :: nat
  max_tag :: nat

text \<open>
  \<open>hash_lpa\<close> is a hash table of \<^verbatim>\<open>uthash.h\<close> used with \<open>HASH_FIND_INT\<close> and \<open>HASH_ADD_INT\<close>, which compare
  keys of the size of an \<open>int\<close>: it is a finite map from the low 32 bits of the page number.
\<close>

record 'r bdbm_prior_queue =
  nr_queues :: nat
  max_size :: int
  qic :: int
  qlh :: "bdbm_qnode links"
  p_items :: "addr \<rightharpoonup> 'r bdbm_prior_queue_item"
  p_fresh :: addr
  hash_lpa :: "nat \<rightharpoonup> bdbm_prior_lpa_item"

definition hkey :: "nat \<Rightarrow> nat" where
  "hkey lpa = lpa mod 2 ^ 32"

text \<open>\<open>return -1\<close> of an \<open>uint64_t\<close> function.\<close>

definition get_highest_priority_tag :: "nat \<Rightarrow> 'r bdbm_prior_queue \<Rightarrow> nat" where
  "get_highest_priority_tag lpa mq =
     (case hash_lpa mq (hkey lpa) of Some q \<Rightarrow> cur_tag q | None \<Rightarrow> 2 ^ 64 - 1)"

definition remove_highest_priority_tag :: "nat \<Rightarrow> 'r bdbm_prior_queue \<Rightarrow> 'r bdbm_prior_queue res" where
  "remove_highest_priority_tag lpa mq =
     (case hash_lpa mq (hkey lpa) of
        None \<Rightarrow> Inr mq
      | Some q \<Rightarrow>
          if li_lpa q = lpa then
            if max_tag q = cur_tag q then Inr (mq\<lparr>hash_lpa := (hash_lpa mq)(hkey lpa := None)\<rparr>)
            else if max_tag q > cur_tag q then
              Inr (mq\<lparr>hash_lpa := (hash_lpa mq)(hkey lpa \<mapsto> q\<lparr>cur_tag := cur_tag q + 1\<rparr>)\<rparr>)
            else Inl Abort
          else Inr mq)"

definition get_new_priority_tag :: "nat \<Rightarrow> 'r bdbm_prior_queue \<Rightarrow> nat \<times> 'r bdbm_prior_queue" where
  "get_new_priority_tag lpa mq =
     (case hash_lpa mq (hkey lpa) of
        None \<Rightarrow> (1, mq\<lparr>hash_lpa := (hash_lpa mq)(hkey lpa \<mapsto> \<lparr>li_lpa = lpa, cur_tag = 1, max_tag = 1\<rparr>)\<rparr>)
      | Some q \<Rightarrow> (max_tag q + 1, mq\<lparr>hash_lpa := (hash_lpa mq)(hkey lpa \<mapsto> q\<lparr>max_tag := max_tag q + 1\<rparr>)\<rparr>))"

definition bdbm_prior_queue_create :: "nat \<Rightarrow> int \<Rightarrow> 'r bdbm_prior_queue" where
  "bdbm_prior_queue_create nr sz =
     \<lparr>nr_queues = nr, max_size = sz, qic = 0, qlh = init_heads (map QHead [0..<nr]), p_items = Map.empty,
      p_fresh = 0, hash_lpa = Map.empty\<rparr>"

text \<open>
  \<open>mem\<close> tells whether every allocation of the call succeeds, that of the item and that of the tag entry in
  \<open>get_new_priority_tag\<close>. A failure of either stops at \<open>bdbm_bug_on\<close>.
\<close>

definition bdbm_prior_queue_enqueue ::
  "bool \<Rightarrow> nat \<Rightarrow> nat \<Rightarrow> 'r \<Rightarrow> 'r bdbm_prior_queue \<Rightarrow> (nat \<times> 'r bdbm_prior_queue) res" where
  "bdbm_prior_queue_enqueue mem qid lpa req mq =
     (if qid \<ge> nr_queues mq then Inr (1, mq)
      else if max_size mq = - 1 \<or> qic mq < max_size mq then
        if \<not> mem then Inl Abort
        else
          let (tag, mq1) = get_new_priority_tag lpa mq; a = p_fresh mq1 in
          bindE (list_add_tail (QItem a) (QHead qid) (qlh mq1)) (\<lambda>l.
            Inr (0, mq1\<lparr>qlh := l, qic := qic mq1 + 1, p_fresh := a + 1,
                       p_items := (p_items mq1)(a \<mapsto> \<lparr>ptr_req = req, pi_lpa = lpa, pi_tag = tag, pi_lock = False\<rparr>)\<rparr>))
      else Inr (1, mq))"

text \<open>The first item of a queue; the loops leave after it in any case.\<close>

definition bdbm_prior_queue_is_empty :: "nat \<Rightarrow> 'r bdbm_prior_queue \<Rightarrow> nat res" where
  "bdbm_prior_queue_is_empty qid mq =
     (if qic mq > 0 then
        bindE (first_item qid (qlh mq)) (\<lambda>q.
          case q of
            None \<Rightarrow> Inr 1
          | Some a \<Rightarrow> bindE (deref (p_items mq a)) (\<lambda>it. Inr (if \<not> pi_lock it then 0 else 1)))
      else Inr 1)"

definition bdbm_prior_queue_dequeue ::
  "nat \<Rightarrow> 'r bdbm_prior_queue \<Rightarrow> ((addr \<times> 'r) option \<times> 'r bdbm_prior_queue) res" where
  "bdbm_prior_queue_dequeue qid mq =
     (if qic mq > 0 then
        bindE (first_item qid (qlh mq)) (\<lambda>q.
          case q of
            None \<Rightarrow> Inr (None, mq)
          | Some a \<Rightarrow>
              bindE (deref (p_items mq a)) (\<lambda>it.
                if \<not> pi_lock it \<and> get_highest_priority_tag (pi_lpa it) mq = pi_tag it
                then Inr (Some (a, ptr_req it), mq\<lparr>p_items := (p_items mq)(a \<mapsto> it\<lparr>pi_lock := True\<rparr>)\<rparr>)
                else Inr (None, mq)))
      else Inr (None, mq))"

definition bdbm_prior_queue_remove :: "addr option \<Rightarrow> 'r bdbm_prior_queue \<Rightarrow> 'r bdbm_prior_queue res" where
  "bdbm_prior_queue_remove q mq =
     (case q of
        None \<Rightarrow> Inr mq
      | Some a \<Rightarrow>
          bindE (deref (p_items mq a)) (\<lambda>it.
          bindE (remove_highest_priority_tag (pi_lpa it) mq) (\<lambda>mq1.
          bindE (list_del (QItem a) (qlh mq1)) (\<lambda>l.
            Inr (mq1\<lparr>qlh := l, p_items := (p_items mq1)(a := None), qic := qic mq1 - 1\<rparr>)))))"

definition bdbm_prior_queue_move :: "nat \<Rightarrow> addr option \<Rightarrow> 'r bdbm_prior_queue \<Rightarrow> 'r bdbm_prior_queue res" where
  "bdbm_prior_queue_move qid q mq =
     (case q of
        None \<Rightarrow> Inr mq
      | Some a \<Rightarrow>
          bindE (deref (p_items mq a)) (\<lambda>it.
          bindE (list_del (QItem a) (qlh mq)) (\<lambda>l1.
          bindE (list_add (QItem a) (QHead qid) l1) (\<lambda>l2.
            Inr (mq\<lparr>qlh := l2, p_items := (p_items mq)(a \<mapsto> it\<lparr>pi_lock := False\<rparr>)\<rparr>)))))"

definition bdbm_prior_queue_is_full :: "'r bdbm_prior_queue \<Rightarrow> nat res" where
  "bdbm_prior_queue_is_full mq =
     (if max_size mq \<noteq> - 1 then
        if qic mq > max_size mq then Inl Abort else Inr (if qic mq = max_size mq then 1 else 0)
      else Inr 0)"

definition bdbm_prior_queue_is_all_empty :: "'r bdbm_prior_queue option \<Rightarrow> nat" where
  "bdbm_prior_queue_is_all_empty mq =
     (case mq of None \<Rightarrow> 1 | Some mq \<Rightarrow> if qic mq = 0 then 1 else 0)"

definition bdbm_prior_queue_get_nr_items :: "'r bdbm_prior_queue \<Rightarrow> int" where
  "bdbm_prior_queue_get_nr_items mq = qic mq"

section \<open>The requests of a page\<close>

text \<open>
  \<open>P l\<close> is the list of the requests for page \<open>l\<close> that are in some queue, in the order of arrival. Their
  tags are consecutive from the current tag of the page, and only the first can be locked.
\<close>

fun tags_from :: "(addr \<rightharpoonup> 'r bdbm_prior_queue_item) \<Rightarrow> nat \<Rightarrow> addr list \<Rightarrow> bool" where
  "tags_from items c [] \<longleftrightarrow> True"
| "tags_from items c (a # as) \<longleftrightarrow> map_option pi_tag (items a) = Some c \<and> tags_from items (Suc c) as"

definition tags_ok ::
  "(addr \<rightharpoonup> 'r bdbm_prior_queue_item) \<Rightarrow> bdbm_prior_lpa_item option \<Rightarrow> nat \<Rightarrow> addr list \<Rightarrow> bool" where
  "tags_ok items e l as \<longleftrightarrow>
     distinct as \<and> (\<forall>a \<in> set as. \<exists>it. items a = Some it \<and> pi_lpa it = l \<and> (pi_lock it \<longrightarrow> a = hd as)) \<and>
     (if as = [] then e = None
      else \<exists>c. e = Some \<lparr>li_lpa = l, cur_tag = c, max_tag = c + length as - 1\<rparr> \<and>
               tags_from items c as)"

definition pq_ok :: "nat \<Rightarrow> int \<Rightarrow> 'r bdbm_prior_queue \<Rightarrow> (nat \<Rightarrow> addr list) \<Rightarrow> bool" where
  "pq_ok nr mx mq P \<longleftrightarrow> nr_queues mq = nr \<and> max_size mq = mx \<and>
     (\<exists>A. qrep nr (qlh mq) (p_items mq) (p_fresh mq) A) \<and> qic mq = int (card (dom (p_items mq))) \<and>
     (\<forall>a it. p_items mq a = Some it \<longrightarrow> pi_lpa it < 2 ^ 32 \<and> a \<in> set (P (pi_lpa it))) \<and>
     (\<forall>l < 2 ^ 32. tags_ok (p_items mq) (hash_lpa mq l) l (P l))"

lemma hkey_small [simp]: "l < 2 ^ 32 \<Longrightarrow> hkey l = l"
  by (simp add: hkey_def)

lemma tags_from_append: "tags_from items c (xs @ ys) \<longleftrightarrow> tags_from items c xs \<and> tags_from items (c + length xs) ys"
  by (induction xs arbitrary: c) auto

lemma tags_from_cong:
  "(\<And>a. a \<in> set as \<Longrightarrow> map_option pi_tag (items' a) = map_option pi_tag (items a)) \<Longrightarrow>
    tags_from items' c as = tags_from items c as"
  by (induction as arbitrary: c) auto

lemma tags_from_later: "tags_from items c as \<Longrightarrow> a \<in> set as \<Longrightarrow> items a = Some it \<Longrightarrow> c \<le> pi_tag it"
  by (induction as arbitrary: c) (auto dest: Suc_leD)

text \<open>The tags of a page depend only on the items in its list.\<close>

lemma tags_ok_cong:
  assumes "\<And>a. a \<in> set as \<Longrightarrow> items' a = items a"
  shows "tags_ok items' e l as = tags_ok items e l as"
  proof -
  have "tags_from items' c as = tags_from items c as" for c by (rule tags_from_cong) (simp add: assms)
  then show ?thesis using assms by (auto simp: tags_ok_def)
qed

lemma tags_ok_first:
  assumes "tags_ok items e l (a # as)"
  shows "\<exists>it. items a = Some it \<and> pi_lpa it = l \<and>
    e = Some \<lparr>li_lpa = l, cur_tag = pi_tag it, max_tag = pi_tag it + length as\<rparr> \<and>
    tags_from items (Suc (pi_tag it)) as"
  using assms by (auto simp: tags_ok_def)

text \<open>The tag of any other request of the page is larger than the current one.\<close>

lemma tags_ok_other:
  assumes t: "tags_ok items e l as" and b: "b \<in> set as" "items b = Some it" "b \<noteq> hd as"
  shows "\<exists>q. e = Some q \<and> cur_tag q < pi_tag it"
proof -
  obtain a bs where as: "as = a # bs" using b(1) by (cases as) auto
  obtain it' where it': "items a = Some it'" "e = Some \<lparr>li_lpa = l, cur_tag = pi_tag it', max_tag = pi_tag it' + length bs\<rparr>"
    "tags_from items (Suc (pi_tag it')) bs" using tags_ok_first [OF t [unfolded as]] by blast
  have "b \<in> set bs" using as b(1,3) by auto
  then show ?thesis using tags_from_later [OF it'(3) _ b(2)] it'(2) by simp
qed

lemma tags_ok_enqueue:
  assumes t: "tags_ok items e l as" and a: "items a = None"
    and it: "pi_lpa it = l" "\<not> pi_lock it" "pi_tag it = (case e of None \<Rightarrow> 1 | Some q \<Rightarrow> max_tag q + 1)"
  shows "tags_ok (items(a \<mapsto> it))
           (Some (case e of None \<Rightarrow> \<lparr>li_lpa = l, cur_tag = 1, max_tag = 1\<rparr> | Some q \<Rightarrow> q\<lparr>max_tag := max_tag q + 1\<rparr>)) l (as @ [a])"
proof -
  have na: "a \<notin> set as" using t a by (auto simp: tags_ok_def)
  have same: "tags_from (items(a \<mapsto> it)) c bs = tags_from items c bs" if "set bs \<subseteq> set as" for c bs
    by (rule tags_from_cong) (use na that in auto)
  show ?thesis
  proof (cases as)
    case Nil
    then show ?thesis using t it by (simp add: tags_ok_def)
  next
    case (Cons b bs)
    have "tags_from (items(a \<mapsto> it)) c bs = tags_from items c bs" for c by (rule same) (use Cons in auto)
    then show ?thesis using t it na Cons by (auto simp: tags_ok_def tags_from_append)
  qed
qed

lemma tags_ok_remove:
  assumes t: "tags_ok items e l (a # as)"
  shows "tags_ok (items(a := None))
     (case as of [] \<Rightarrow> None | _ \<Rightarrow> map_option (\<lambda>q. q\<lparr>cur_tag := cur_tag q + 1\<rparr>) e) l as"
proof -
  have na: "a \<notin> set as" "distinct as" using t by (auto simp: tags_ok_def)
  have un: "tags_ok (items(a := None)) e' l as = tags_ok items e' l as" for e'
    by (rule tags_ok_cong) (use na in auto)
  have lk: "\<forall>b \<in> set as. \<exists>it. items b = Some it \<and> pi_lpa it = l \<and> \<not> pi_lock it"
    using t na(1) unfolding tags_ok_def by auto
  show ?thesis
  proof (cases as)
    case Nil
    then show ?thesis by (simp add: tags_ok_def)
  next
    case (Cons b bs)
    then show ?thesis unfolding un using tags_ok_first [OF t] na(2) lk by (auto simp: tags_ok_def)
  qed
qed

section \<open>Operations keep the order\<close>

lemma pq_ok_create: "pq_ok nr mx (bdbm_prior_queue_create nr mx) (\<lambda>_. [])"
  using qrep_init [of nr 0] by (auto simp: pq_ok_def bdbm_prior_queue_create_def tags_ok_def)

lemma pq_okD:
  assumes "pq_ok nr mx mq P"
  shows "nr_queues mq = nr" "max_size mq = mx" "\<exists>A. qrep nr (qlh mq) (p_items mq) (p_fresh mq) A"
    "qic mq = int (card (dom (p_items mq)))"
    "\<And>a it. p_items mq a = Some it \<Longrightarrow> pi_lpa it < 2 ^ 32 \<and> a \<in> set (P (pi_lpa it))"
    "\<And>l. l < 2 ^ 32 \<Longrightarrow> tags_ok (p_items mq) (hash_lpa mq l) l (P l)"
  using assms unfolding pq_ok_def by blast+

lemma qrep_finite: "qrep nr S items fresh A \<Longrightarrow> finite (dom items)"
  by (simp add: qrep_def)

text \<open>Lists of different pages share no request, so a change of one page leaves the others alone.\<close>

lemma tags_ok_page: "tags_ok items e l as \<Longrightarrow> a \<in> set as \<Longrightarrow> \<exists>it. items a = Some it \<and> pi_lpa it = l"
  by (auto simp: tags_ok_def)

lemma pq_ok_update:
  assumes ok: "pq_ok nr mx mq P" and l: "l < 2 ^ 32"
    and fr: "\<And>b. b \<noteq> a \<Longrightarrow> items' b = p_items mq b" "\<And>it. p_items mq a = Some it \<Longrightarrow> pi_lpa it = l"
      "\<And>it. items' a = Some it \<Longrightarrow> pi_lpa it = l \<and> a \<in> set as"
    and sub: "set (P l) - {a} \<subseteq> set as"
    and t: "tags_ok items' e l as" and q: "qrep nr S' items' fresh' A"
    and same: "nr_queues mq' = nr" "max_size mq' = mx" "qlh mq' = S'" "p_items mq' = items'" "p_fresh mq' = fresh'"
      "hash_lpa mq' = (hash_lpa mq)(l := e)" "qic mq' = int (card (dom items'))"
  shows "pq_ok nr mx mq' (P(l := as))"
proof -
  note D = pq_okD [OF ok]
  have "tags_ok items' (hash_lpa mq k) k (P k)" if k: "k < 2 ^ 32" "k \<noteq> l" for k
  proof -
    have "a \<notin> set (P k)" using tags_ok_page [OF D(6) [OF k(1)], of a] fr(2) k(2) by auto
    then have "tags_ok items' (hash_lpa mq k) k (P k) = tags_ok (p_items mq) (hash_lpa mq k) k (P k)"
      by (intro tags_ok_cong, intro fr(1)) auto
    then show ?thesis using D(6) [OF k(1)] by simp
  qed
  moreover have "pi_lpa it < 2 ^ 32 \<and> b \<in> set ((P(l := as)) (pi_lpa it))" if b: "items' b = Some it" for b it
  proof (cases "b = a")
    case False
    then have "p_items mq b = Some it" using b fr(1) by simp
    then show ?thesis using D(5) [of b it] sub False by auto
  qed (use b fr(3) l in auto)
  ultimately show ?thesis using same t q unfolding pq_ok_def by auto
qed

lemma enqueue_ok:
  assumes ok: "pq_ok nr mx mq P" and l: "lpa < 2 ^ 32" and i: "qid < nr" and rm: "mx = - 1 \<or> qic mq < mx"
  shows "\<exists>mq'. bdbm_prior_queue_enqueue True qid lpa r mq = Inr (0, mq') \<and>
           pq_ok nr mx mq' (P(lpa := P lpa @ [p_fresh mq]))"
proof -
  note D = pq_okD [OF ok]
  obtain A where A: "qrep nr (qlh mq) (p_items mq) (p_fresh mq) A" using D(3) by blast
  let ?e = "hash_lpa mq lpa" and ?a = "p_fresh mq"
  let ?it = "\<lparr>ptr_req = r, pi_lpa = lpa, pi_tag = (case ?e of None \<Rightarrow> 1 | Some q \<Rightarrow> max_tag q + 1), pi_lock = False\<rparr>"
  let ?e' = "Some (case ?e of None \<Rightarrow> \<lparr>li_lpa = lpa, cur_tag = 1, max_tag = 1\<rparr> | Some q \<Rightarrow> q\<lparr>max_tag := max_tag q + 1\<rparr>)"
  obtain S' where S': "list_add_tail (QItem ?a) (QHead qid) (qlh mq) = Inr S'"
    "qrep nr S' ((p_items mq)(?a \<mapsto> ?it)) (?a + 1) (A(qid := A qid @ [?a]))" using qrep_add_tail [OF A i] by blast
  have fresh: "p_items mq ?a = None" using A by (auto simp: qrep_def dom_def)
  define mq' where "mq' = mq\<lparr>hash_lpa := (hash_lpa mq)(lpa := ?e'), qlh := S', qic := qic mq + 1, p_fresh := ?a + 1,
                             p_items := (p_items mq)(?a \<mapsto> ?it)\<rparr>"
  have "card (dom ((p_items mq)(?a \<mapsto> ?it))) = Suc (card (dom (p_items mq)))"
    using fresh qrep_finite [OF A] by (simp add: domIff)
  then have "pq_ok nr mx mq' (P(lpa := P lpa @ [?a]))"
    by (intro pq_ok_update [OF ok l _ _ _ _ tags_ok_enqueue [OF D(6) [OF l] fresh] S'(2)])
      (use D fresh in \<open>auto simp: mq'_def\<close>)
  moreover have "bdbm_prior_queue_enqueue True qid lpa r mq = Inr (0, mq')"
    using i rm D(1,2) S'(1) l
    by (cases ?e) (auto simp: bdbm_prior_queue_enqueue_def get_new_priority_tag_def mq'_def Let_def)
  ultimately show ?thesis by blast
qed

lemma tags_ok_lock:
  assumes t: "tags_ok items e l as" and a: "items a = Some it" "pi_lpa it = l" "b \<longrightarrow> a = hd as"
  shows "tags_ok (items(a \<mapsto> it\<lparr>pi_lock := b\<rparr>)) e l as"
proof -
  have "tags_from (items(a \<mapsto> it\<lparr>pi_lock := b\<rparr>)) c as = tags_from items c as" for c
    by (rule tags_from_cong) (use a(1) in auto)
  moreover have "\<forall>x \<in> set as. \<exists>it'. (items(a \<mapsto> it\<lparr>pi_lock := b\<rparr>)) x = Some it' \<and> pi_lpa it' = l \<and> (pi_lock it' \<longrightarrow> x = hd as)"
    using t a by (auto simp: tags_ok_def)
  ultimately show ?thesis using t unfolding tags_ok_def by (cases "as = []") simp_all
qed

lemma qrep_same_dom: "qrep nr S items fresh A \<Longrightarrow> dom items' = dom items \<Longrightarrow> qrep nr S items' fresh A"
  by (simp add: qrep_def)

text \<open>The first item of a queue, if there is one, is in the store, and the count is then positive.\<close>

lemma first_of_queue:
  assumes ok: "pq_ok nr mx mq P" and i: "qid < nr"
  shows "\<exists>q. first_item qid (qlh mq) = Inr q \<and> (\<forall>a. q = Some a \<longrightarrow> (\<exists>it. p_items mq a = Some it) \<and> qic mq > 0)"
proof -
  note D = pq_okD [OF ok]
  obtain A where A: "qrep nr (qlh mq) (p_items mq) (p_fresh mq) A" using D(3) by blast
  show ?thesis
  proof (cases "A qid")
    case (Cons a as)
    then have "a \<in> dom (p_items mq)" using A i by (force simp: qrep_def)
    moreover from this have "0 < card (dom (p_items mq))" using qrep_finite [OF A] by (auto simp: card_gt_0_iff)
    ultimately show ?thesis using first_item_qrep [OF A i] Cons D(4) by auto
  qed (use first_item_qrep [OF A i] in auto)
qed

lemma dequeue_ok:
  assumes ok: "pq_ok nr mx mq P" and i: "qid < nr"
  shows "\<exists>res mq'. bdbm_prior_queue_dequeue qid mq = Inr (res, mq') \<and> pq_ok nr mx mq' P \<and>
    (case res of None \<Rightarrow> mq' = mq
     | Some (a, r) \<Rightarrow> \<exists>it as. p_items mq a = Some it \<and> r = ptr_req it \<and> \<not> pi_lock it \<and> P (pi_lpa it) = a # as \<and>
         p_items mq' = (p_items mq)(a \<mapsto> it\<lparr>pi_lock := True\<rparr>))"
proof -
  note D = pq_okD [OF ok]
  obtain q where q: "first_item qid (qlh mq) = Inr q" "\<forall>a. q = Some a \<longrightarrow> (\<exists>it. p_items mq a = Some it) \<and> qic mq > 0"
    using first_of_queue [OF ok i] by blast
  show ?thesis
  proof (cases "\<exists>a it. q = Some a \<and> p_items mq a = Some it \<and> \<not> pi_lock it \<and> get_highest_priority_tag (pi_lpa it) mq = pi_tag it")
    case False
    then have "bdbm_prior_queue_dequeue qid mq = Inr (None, mq)"
      using q by (cases q) (auto simp: bdbm_prior_queue_dequeue_def)
    then show ?thesis using ok by auto
  next
    case True
    then obtain a it where a: "q = Some a" "p_items mq a = Some it" "\<not> pi_lock it"
      "get_highest_priority_tag (pi_lpa it) mq = pi_tag it" by blast
    let ?l = "pi_lpa it" and ?items = "(p_items mq)(a \<mapsto> it\<lparr>pi_lock := True\<rparr>)"
    have l: "?l < 2 ^ 32" "a \<in> set (P ?l)" using D(5) [OF a(2)] by auto
    have hd: "a = hd (P ?l)"
    proof (rule ccontr)
      assume "a \<noteq> hd (P ?l)"
      then obtain q where "hash_lpa mq ?l = Some q" "cur_tag q < pi_tag it"
        using tags_ok_other [OF D(6) [OF l(1)] l(2) a(2)] by blast
      then show False using a(4) l(1) by (simp add: get_highest_priority_tag_def)
    qed
    then obtain as where as: "P ?l = a # as" using l(2) by (cases "P ?l") auto
    have dom: "dom ?items = dom (p_items mq)" using a(2) by auto
    obtain A where A: "qrep nr (qlh mq) (p_items mq) (p_fresh mq) A" using D(3) by blast
    have "pq_ok nr mx (mq\<lparr>p_items := ?items\<rparr>) (P(?l := P ?l))"
      by (rule pq_ok_update [OF ok l(1) _ _ _ _ tags_ok_lock [OF D(6) [OF l(1)] a(2) refl] qrep_same_dom [OF A dom]])
        (use D dom hd l(2) a(2) in auto)
    then have "pq_ok nr mx (mq\<lparr>p_items := ?items\<rparr>) P" by (simp only: fun_upd_triv)
    moreover have "bdbm_prior_queue_dequeue qid mq = Inr (Some (a, ptr_req it), mq\<lparr>p_items := ?items\<rparr>)"
      using q a by (simp add: bdbm_prior_queue_dequeue_def)
    ultimately show ?thesis using a as by auto
  qed
qed

lemma remove_ok:
  assumes ok: "pq_ok nr mx mq P" and a: "p_items mq a = Some it" "pi_lock it"
  shows "\<exists>mq' as. bdbm_prior_queue_remove (Some a) mq = Inr mq' \<and> P (pi_lpa it) = a # as \<and>
           pq_ok nr mx mq' (P(pi_lpa it := as)) \<and> p_items mq' = (p_items mq)(a := None)"
proof -
  note D = pq_okD [OF ok]
  let ?l = "pi_lpa it" and ?items = "(p_items mq)(a := None)"
  have l: "?l < 2 ^ 32" "a \<in> set (P ?l)" using D(5) [OF a(1)] by auto
  have "a = hd (P ?l)" using D(6) [OF l(1)] l(2) a unfolding tags_ok_def by (metis option.inject)
  then obtain as where as: "P ?l = a # as" using l(2) by (cases "P ?l") auto
  have t: "tags_ok (p_items mq) (hash_lpa mq ?l) ?l (a # as)" using D(6) [OF l(1)] as by simp
  let ?e = "case as of [] \<Rightarrow> None | _ \<Rightarrow> map_option (\<lambda>q. q\<lparr>cur_tag := cur_tag q + 1\<rparr>) (hash_lpa mq ?l)"
  obtain A where A: "qrep nr (qlh mq) (p_items mq) (p_fresh mq) A" using D(3) by blast
  then have "a \<in> (\<Union>i < nr. set (A i))" using a(1) unfolding qrep_def by blast
  then obtain i where i: "i < nr" "a \<in> set (A i)" by blast
  obtain S' where S': "list_del (QItem a) (qlh mq) = Inr S'" "qrep nr S' ?items (p_fresh mq) (A(i := remove1 a (A i)))"
    using qrep_del [OF A i] by blast
  define mq' where "mq' = mq\<lparr>hash_lpa := (hash_lpa mq)(?l := ?e), qlh := S', p_items := ?items, qic := qic mq - 1\<rparr>"
  have "0 < card (dom (p_items mq))" using qrep_finite [OF A] a(1) by (auto simp: card_gt_0_iff)
  then have "qic mq - 1 = int (card (dom ?items))" using D(4) a(1) qrep_finite [OF A] by (simp add: domI of_nat_diff)
  then have "pq_ok nr mx mq' (P(?l := as))"
    by (intro pq_ok_update [OF ok l(1) _ _ _ _ tags_ok_remove [OF t] S'(2)]) (use D a(1) as in \<open>auto simp: mq'_def\<close>)
  moreover have "remove_highest_priority_tag ?l mq = Inr (mq\<lparr>hash_lpa := (hash_lpa mq)(?l := ?e)\<rparr>)"
    using tags_ok_first [OF t] l(1) by (cases as) (auto simp: remove_highest_priority_tag_def)
  then have "bdbm_prior_queue_remove (Some a) mq = Inr mq'"
    using a(1) S'(1) by (simp add: bdbm_prior_queue_remove_def mq'_def)
  ultimately show ?thesis using as by (auto simp: mq'_def)
qed

lemma move_ok:
  assumes ok: "pq_ok nr mx mq P" and a: "p_items mq a = Some it" and j: "qid < nr"
  shows "\<exists>mq'. bdbm_prior_queue_move qid (Some a) mq = Inr mq' \<and> pq_ok nr mx mq' P \<and>
           p_items mq' = (p_items mq)(a \<mapsto> it\<lparr>pi_lock := False\<rparr>)"
proof -
  note D = pq_okD [OF ok]
  let ?l = "pi_lpa it" and ?items = "(p_items mq)(a \<mapsto> it\<lparr>pi_lock := False\<rparr>)"
  have l: "?l < 2 ^ 32" "a \<in> set (P ?l)" using D(5) [OF a(1)] by auto
  obtain A where A: "qrep nr (qlh mq) (p_items mq) (p_fresh mq) A" using D(3) by blast
  then have "a \<in> (\<Union>i < nr. set (A i))" "a < p_fresh mq" using a(1) unfolding qrep_def by blast+
  then obtain i where i: "i < nr" "a \<in> set (A i)" "a < p_fresh mq" by blast
  obtain S1 A1 where S1: "list_del (QItem a) (qlh mq) = Inr S1" "qrep nr S1 ((p_items mq)(a := None)) (p_fresh mq) A1"
    using qrep_del [OF A i(1,2)] by blast
  obtain S2 where S2: "list_add (QItem a) (QHead qid) S1 = Inr S2" "qrep nr S2 ?items (p_fresh mq) (A1(qid := a # A1 qid))"
    using qrep_add_at [OF S1(2) j, of a "p_fresh mq" "it\<lparr>pi_lock := False\<rparr>"] i(3) by auto
  have dom: "dom ?items = dom (p_items mq)" using a(1) by auto
  have "pq_ok nr mx (mq\<lparr>qlh := S2, p_items := ?items\<rparr>) (P(?l := P ?l))"
    by (rule pq_ok_update [OF ok l(1) _ _ _ _ tags_ok_lock [OF D(6) [OF l(1)] a(1) refl] S2(2)])
      (use D dom l(2) a(1) in auto)
  moreover have "bdbm_prior_queue_move qid (Some a) mq = Inr (mq\<lparr>qlh := S2, p_items := ?items\<rparr>)"
    using a(1) S1(1) S2(1) by (simp add: bdbm_prior_queue_move_def)
  ultimately show ?thesis by auto
qed

section \<open>Reachable queues\<close>

text \<open>
  The states a driver thread can bring the queues to, together with the outstanding requests of every
  page in the order of arrival. A client removes or moves only an item it holds, one that was handed
  out and is therefore locked.
\<close>

inductive pq_reach :: "nat \<Rightarrow> int \<Rightarrow> 'r bdbm_prior_queue \<Rightarrow> (nat \<Rightarrow> addr list) \<Rightarrow> bool" for nr mx where
  create: "pq_reach nr mx (bdbm_prior_queue_create nr mx) (\<lambda>_. [])"
| enqueue: "pq_reach nr mx mq P \<Longrightarrow> lpa < 2 ^ 32 \<Longrightarrow> bdbm_prior_queue_enqueue mem qid lpa r mq = Inr (0, mq') \<Longrightarrow>
    pq_reach nr mx mq' (P(lpa := P lpa @ [p_fresh mq]))"
| dequeue: "pq_reach nr mx mq P \<Longrightarrow> qid < nr \<Longrightarrow> bdbm_prior_queue_dequeue qid mq = Inr (res, mq') \<Longrightarrow>
    pq_reach nr mx mq' P"
| remove: "pq_reach nr mx mq P \<Longrightarrow> p_items mq a = Some it \<Longrightarrow> pi_lock it \<Longrightarrow>
    bdbm_prior_queue_remove (Some a) mq = Inr mq' \<Longrightarrow> pq_reach nr mx mq' (P(pi_lpa it := remove1 a (P (pi_lpa it))))"
| move: "pq_reach nr mx mq P \<Longrightarrow> p_items mq a = Some it \<Longrightarrow> pi_lock it \<Longrightarrow> qid < nr \<Longrightarrow>
    bdbm_prior_queue_move qid (Some a) mq = Inr mq' \<Longrightarrow> pq_reach nr mx mq' P"

lemma pq_reach_ok: "pq_reach nr mx mq P \<Longrightarrow> pq_ok nr mx mq P"
proof (induction rule: pq_reach.induct)
  case create
  show ?case by (rule pq_ok_create)
next
  case (enqueue mq P lpa mem qid r mq')
  note D = pq_okD(1,2) [OF enqueue.IH]
  have "qid < nr" "mx = - 1 \<or> qic mq < mx" "mem"
    using enqueue.hyps(3) D by (auto simp: bdbm_prior_queue_enqueue_def split: if_splits)
  then obtain mq1 where mq1: "bdbm_prior_queue_enqueue True qid lpa r mq = Inr (0, mq1)"
    "pq_ok nr mx mq1 (P(lpa := P lpa @ [p_fresh mq]))"
    using enqueue_ok [OF enqueue.IH enqueue.hyps(2), of qid r] by auto
  then have "mq1 = mq'" using enqueue.hyps(3) \<open>mem\<close> by simp
  then show ?case using mq1(2) by (simp only:)
next
  case (dequeue mq P qid res mq')
  then show ?case using dequeue_ok [of nr mx mq P qid] by auto
next
  case (remove mq P a it mq')
  obtain as where as: "P (pi_lpa it) = a # as" "pq_ok nr mx mq' (P(pi_lpa it := as))"
    using remove_ok [OF remove.IH remove.hyps(2,3)] remove.hyps(4) by auto
  have "remove1 a (P (pi_lpa it)) = as" using as(1) by simp
  then show ?case using as(2) by (simp only:)
next
  case (move mq P a it qid mq')
  then show ?case using move_ok [of nr mx mq P a it qid] by auto
qed

text \<open>
  C21: Requests for a logical page are served in the order they arrived and one at a time, whatever
  queues they were put into. In every reachable state \<open>bdbm_prior_queue_dequeue\<close> returns, and a request it
  hands out is the oldest outstanding one of its page, was not handed out before, and no other request
  of the page is handed out. Removing or giving back a request that is held never fails.
\<close>

theorem prior_queue_serves_pages_in_order:
  assumes "pq_reach nr mx mq P" "qid < nr"
  shows "(\<exists>res mq'. bdbm_prior_queue_dequeue qid mq = Inr (res, mq') \<and>
       (\<forall>a r. res = Some (a, r) \<longrightarrow>
          (\<exists>it as. p_items mq a = Some it \<and> r = ptr_req it \<and> \<not> pi_lock it \<and> P (pi_lpa it) = a # as \<and>
             (\<forall>b it'. p_items mq' b = Some it' \<and> pi_lpa it' = pi_lpa it \<and> pi_lock it' \<longrightarrow> b = a)))) \<and>
     (\<forall>a it. p_items mq a = Some it \<and> pi_lock it \<longrightarrow>
       (\<exists>mq1 mq2. bdbm_prior_queue_remove (Some a) mq = Inr mq1 \<and> bdbm_prior_queue_move qid (Some a) mq = Inr mq2))"
proof -
  have ok: "pq_ok nr mx mq P" using pq_reach_ok [OF assms(1)] .
  obtain res mq' where d: "bdbm_prior_queue_dequeue qid mq = Inr (res, mq')" "pq_ok nr mx mq' P"
    "case res of None \<Rightarrow> mq' = mq
     | Some (a, r) \<Rightarrow> \<exists>it as. p_items mq a = Some it \<and> r = ptr_req it \<and> \<not> pi_lock it \<and> P (pi_lpa it) = a # as \<and>
         p_items mq' = (p_items mq)(a \<mapsto> it\<lparr>pi_lock := True\<rparr>)" using dequeue_ok [OF ok assms(2)] by blast
  have one: "b = hd (P (pi_lpa it'))" if "p_items mq' b = Some it'" "pi_lock it'" for b it'
    using pq_okD(5,6) [OF d(2)] that unfolding tags_ok_def by (metis option.inject)
  have "\<exists>it as. p_items mq a = Some it \<and> r = ptr_req it \<and> \<not> pi_lock it \<and> P (pi_lpa it) = a # as \<and>
      (\<forall>b it'. p_items mq' b = Some it' \<and> pi_lpa it' = pi_lpa it \<and> pi_lock it' \<longrightarrow> b = a)"
    if r: "res = Some (a, r)" for a r
  proof -
    obtain it as where it: "p_items mq a = Some it" "r = ptr_req it" "\<not> pi_lock it" "P (pi_lpa it) = a # as"
      using d(3) r by auto
    have "b = a" if "p_items mq' b = Some it'" "pi_lpa it' = pi_lpa it" "pi_lock it'" for b it'
      using one [OF that(1,3)] that(2) it(4) by simp
    then show ?thesis using it by blast
  qed
  then show ?thesis using d(1) remove_ok [OF ok] move_ok [OF ok _ assms(2)] by blast
qed

theorem prior_queue_serves_pages_in_order_witness:
  "\<exists>(mq :: string bdbm_prior_queue) P mq1 res mq'.
     bdbm_prior_queue_enqueue True 0 5 ''write'' (bdbm_prior_queue_create 2 (- 1)) = Inr (0, mq1) \<and>
     bdbm_prior_queue_enqueue True 1 5 ''read'' mq1 = Inr (0, mq) \<and> pq_reach 2 (- 1) mq P \<and>
     bdbm_prior_queue_dequeue 1 mq = Inr (res, mq') \<and> (\<forall>a r. res = Some (a, r) \<longrightarrow> a = 0)"
proof -
  let ?P0 = "\<lambda>_ :: nat. [] :: addr list" and ?mq0 = "bdbm_prior_queue_create 2 (- 1) :: string bdbm_prior_queue"
  have small: "5 < (2 :: nat) ^ 32" and one: "1 < (2 :: nat)" by simp_all
  obtain mq1 where mq1: "bdbm_prior_queue_enqueue True 0 5 ''write'' ?mq0 = Inr (0, mq1)"
    "pq_ok 2 (- 1) mq1 (?P0(5 := ?P0 5 @ [p_fresh ?mq0]))"
    using enqueue_ok [OF pq_ok_create small, of 0 2 "- 1" "''write''"] by auto
  define P1 where "P1 = ?P0(5 := ?P0 5 @ [p_fresh ?mq0])"
  obtain mq2 where mq2: "bdbm_prior_queue_enqueue True 1 5 ''read'' mq1 = Inr (0, mq2)"
    using enqueue_ok [OF mq1(2) small, of 1 "''read''"] by auto
  have "pq_reach 2 (- 1) mq1 P1" unfolding P1_def
    by (rule pq_reach.enqueue [OF pq_reach.create small mq1(1)])
  then have r: "pq_reach 2 (- 1) mq2 (P1(5 := P1 5 @ [p_fresh mq1]))"
    by (rule pq_reach.enqueue [OF _ small mq2])
  have P: "l = 5 \<and> a = 0" if "(P1(5 := P1 5 @ [p_fresh mq1])) l = a # as" for l a as
    using that by (auto simp: P1_def bdbm_prior_queue_create_def split: if_splits)
  obtain res mq' where d: "bdbm_prior_queue_dequeue 1 mq2 = Inr (res, mq')"
    "\<forall>a r. res = Some (a, r) \<longrightarrow> (\<exists>it as. p_items mq2 a = Some it \<and> r = ptr_req it \<and> \<not> pi_lock it \<and>
       (P1(5 := P1 5 @ [p_fresh mq1])) (pi_lpa it) = a # as \<and>
       (\<forall>b it'. p_items mq' b = Some it' \<and> pi_lpa it' = pi_lpa it \<and> pi_lock it' \<longrightarrow> b = a))"
    using prior_queue_serves_pages_in_order [OF r one, THEN conjunct1] by blast
  have "a = 0" if "res = Some (a, r)" for a r
  proof -
    obtain it as where "p_items mq2 a = Some it" "(P1(5 := P1 5 @ [p_fresh mq1])) (pi_lpa it) = a # as" using d(2) \<open>res = Some (a, r)\<close> by blast
    then show ?thesis using P by blast
  qed
  then show ?thesis using mq1(1) mq2 r d(1) by blast
qed

end
