(* ===== verification/Abm.thy ===== *)
theory Abm
  imports List_Head
begin

text \<open>
  The block manager of the BlueDBM FTLs (\<^verbatim>\<open>src/lower/bdbm_drv/ftl/algo/abm.c\<close>): every erase block has a status,
  is linked into the list of its status and chip, and is counted. \<open>bdbm_bug_on\<close> stops the driver, as it
  does in the kernel build with debugging; the theory shows that none of these checks fires. Memory
  allocation succeeds. The theory also shows what the operations do to the status of the blocks, and
  one flaw: \<open>bdbm_abm_get_free_block_prepare\<close> hands out a block twice.
\<close>

section \<open>Data\<close>

record bdbm_device_params =
  nr_channels :: nat
  nr_chips_per_channel :: nat
  nr_blocks_per_chip :: nat
  nr_blocks_per_channel :: nat
  nr_blocks_per_ssd :: nat
  nr_pages_per_block :: nat
  nr_subpages_per_page :: nat
  nr_subpages_per_block :: nat

datatype blk_status = BLK_FREE | BLK_FREE_PREPARE | BLK_CLEAN | BLK_DIRTY | BLK_BAD

datatype subpage_status = SUBPAGE_NOT_INVALID | SUBPAGE_INVALID

record bdbm_abm_block =
  status :: blk_status
  channel_no :: nat
  chip_no :: nat
  block_no :: nat
  erase_count :: nat
  nr_invalid_subpages :: nat
  pst :: "subpage_status list option"

text \<open>The objects with a \<open>struct list_head\<close>: the four arrays of heads and the blocks, by their index.\<close>

datatype abm_node = HFree nat nat | HClean nat nat | HDirty nat nat | HBad nat nat | ABlk nat

record bdbm_abm_info =
  np :: bdbm_device_params
  blocks :: "bdbm_abm_block list"
  abm_links :: "abm_node links"
  nr_total_blks :: nat
  nr_free_blks :: nat
  nr_free_blks_prepared :: nat
  nr_clean_blks :: nat
  nr_dirty_blks :: nat
  nr_bad_blks :: nat

text \<open>The counters are \<open>uint64_t\<close>; a decrement at 0 wraps around.\<close>

definition dec64 :: "nat \<Rightarrow> nat" where
  "dec64 n = (n + 2 ^ 64 - 1) mod 2 ^ 64"

definition get_channel_ofs :: "bdbm_device_params \<Rightarrow> nat \<Rightarrow> nat" where
  "get_channel_ofs d blk_idx = blk_idx div nr_blocks_per_channel d"

definition get_chip_ofs :: "bdbm_device_params \<Rightarrow> nat \<Rightarrow> nat" where
  "get_chip_ofs d blk_idx = blk_idx mod nr_blocks_per_channel d div nr_blocks_per_chip d"

definition get_block_ofs :: "bdbm_device_params \<Rightarrow> nat \<Rightarrow> nat" where
  "get_block_ofs d blk_idx = blk_idx mod nr_blocks_per_chip d"

definition get_block_idx :: "bdbm_device_params \<Rightarrow> nat \<Rightarrow> nat \<Rightarrow> nat \<Rightarrow> nat" where
  "get_block_idx d channel chip blk = channel * nr_blocks_per_channel d + chip * nr_blocks_per_chip d + blk"

definition bug_on :: "bool \<Rightarrow> 'a res \<Rightarrow> 'a res" where
  "bug_on c r = (if c then Inl Abort else r)"

definition check_status :: "bdbm_abm_info \<Rightarrow> 'a res \<Rightarrow> 'a res" where
  "check_status bai =
     bug_on (nr_total_blks bai \<noteq>
       nr_free_blks bai + nr_free_blks_prepared bai + nr_clean_blks bai + nr_dirty_blks bai + nr_bad_blks bai)"

definition create_pst :: "bdbm_device_params \<Rightarrow> subpage_status list" where
  "create_pst d = replicate (nr_subpages_per_block d) SUBPAGE_NOT_INVALID"

section \<open>Creation\<close>

definition new_abm_block :: "bdbm_device_params \<Rightarrow> bool \<Rightarrow> nat \<Rightarrow> bdbm_abm_block" where
  "new_abm_block d use_pst i =
     \<lparr>status = BLK_FREE, channel_no = get_channel_ofs d i, chip_no = get_chip_ofs d i,
      block_no = get_block_ofs d i, erase_count = 0, nr_invalid_subpages = 0,
      pst = (if use_pst then Some (create_pst d) else None)\<rparr>"

definition abm_heads :: "bdbm_device_params \<Rightarrow> abm_node list" where
  "abm_heads d = concat (map (\<lambda>c. concat (map (\<lambda>k. [HFree c k, HClean c k, HDirty c k, HBad c k])
     [0..<nr_chips_per_channel d])) [0..<nr_channels d])"

definition bdbm_abm_create :: "bdbm_device_params \<Rightarrow> bool \<Rightarrow> bdbm_abm_info res" where
  "bdbm_abm_create d use_pst =
     (let bs = map (new_abm_block d use_pst) [0..<nr_blocks_per_ssd d] in
      bindE (foldE (\<lambda>i l. list_add_tail (ABlk i) (HFree (channel_no (bs ! i)) (chip_no (bs ! i))) l)
               [0..<nr_blocks_per_ssd d] (init_heads (abm_heads d))) (\<lambda>l.
        Inr \<lparr>np = d, blocks = bs, abm_links = l, nr_total_blks = nr_blocks_per_ssd d,
             nr_free_blks = nr_blocks_per_ssd d, nr_free_blks_prepared = 0, nr_clean_blks = 0,
             nr_dirty_blks = 0, nr_bad_blks = 0\<rparr>))"

section \<open>Handing out blocks\<close>

definition bdbm_abm_get_block :: "nat \<Rightarrow> nat \<Rightarrow> nat \<Rightarrow> bdbm_abm_info \<Rightarrow> nat option" where
  "bdbm_abm_get_block channel chip blk bai =
     (let blk_idx = get_block_idx (np bai) channel chip blk in
      if blk_idx \<ge> nr_blocks_per_ssd (np bai) then None else Some blk_idx)"

definition upd_blk :: "nat \<Rightarrow> (bdbm_abm_block \<Rightarrow> bdbm_abm_block) \<Rightarrow> bdbm_abm_info \<Rightarrow> bdbm_abm_info" where
  "upd_blk i f bai = bai\<lparr>blocks := (blocks bai)[i := f (blocks bai ! i)]\<rparr>"

definition is_free :: "bdbm_abm_info \<Rightarrow> abm_node \<Rightarrow> bool" where
  "is_free bai n = (case n of ABlk i \<Rightarrow> i < length (blocks bai) \<and> status (blocks bai ! i) = BLK_FREE | _ \<Rightarrow> False)"

text \<open>
  The loop visits the blocks of the free list up to the first whose status is free, and \<open>blk\<close> is the
  last block visited, free or not.
\<close>

definition bdbm_abm_get_free_block_prepare :: "nat \<Rightarrow> nat \<Rightarrow> bdbm_abm_info \<Rightarrow> (nat option \<times> bdbm_abm_info) res" where
  "bdbm_abm_get_free_block_prepare channel chip bai =
     bindE (list_for_each (length (blocks bai) + 1) (is_free bai) (HFree channel chip) (abm_links bai)) (\<lambda>vs.
       if vs = [] then Inr (None, bai)
       else case last vs of
         ABlk i \<Rightarrow>
           if is_free bai (ABlk i) then
             let bai1 = upd_blk i (\<lambda>b. b\<lparr>status := BLK_FREE_PREPARE\<rparr>) bai in
             check_status bai1
               (Inr (Some i, bai1\<lparr>nr_free_blks := dec64 (nr_free_blks bai1),
                                 nr_free_blks_prepared := nr_free_blks_prepared bai1 + 1\<rparr>))
           else Inr (Some i, bai)
       | _ \<Rightarrow> Inl Bad_Access)"

definition bdbm_abm_get_free_block_rollback :: "nat \<Rightarrow> bdbm_abm_info \<Rightarrow> bdbm_abm_info res" where
  "bdbm_abm_get_free_block_rollback i bai =
     bindE (index (blocks bai) i) (\<lambda>b.
     bug_on (status b \<noteq> BLK_FREE_PREPARE)
       (let bai1 = upd_blk i (\<lambda>b. b\<lparr>status := BLK_FREE\<rparr>) bai in
        bug_on (nr_free_blks_prepared bai1 = 0)
          (check_status bai1
             (Inr (bai1\<lparr>nr_free_blks_prepared := dec64 (nr_free_blks_prepared bai1),
                        nr_free_blks := nr_free_blks bai1 + 1\<rparr>)))))"

text \<open>\<open>list_del\<close> followed by \<open>list_add_tail\<close>.\<close>

definition move_block :: "nat \<Rightarrow> abm_node \<Rightarrow> bdbm_abm_info \<Rightarrow> bdbm_abm_info res" where
  "move_block i head bai =
     bindE (list_del (ABlk i) (abm_links bai)) (\<lambda>l1.
     bindE (list_add_tail (ABlk i) head l1) (\<lambda>l2. Inr (bai\<lparr>abm_links := l2\<rparr>)))"

definition bdbm_abm_get_free_block_commit :: "nat \<Rightarrow> bdbm_abm_info \<Rightarrow> bdbm_abm_info res" where
  "bdbm_abm_get_free_block_commit i bai =
     bindE (index (blocks bai) i) (\<lambda>b.
     bug_on (status b \<noteq> BLK_FREE_PREPARE)
       (bindE (move_block i (HClean (channel_no b) (chip_no b)) (upd_blk i (\<lambda>b. b\<lparr>status := BLK_CLEAN\<rparr>) bai)) (\<lambda>bai1.
        bug_on (nr_free_blks_prepared bai1 = 0)
          (check_status bai1
             (Inr (bai1\<lparr>nr_free_blks_prepared := dec64 (nr_free_blks_prepared bai1),
                        nr_clean_blks := nr_clean_blks bai1 + 1\<rparr>))))))"

section \<open>Erasing and invalidating\<close>

text \<open>The decrement of the counter of the old status, the same in the two functions that use it.\<close>

definition uncount :: "blk_status \<Rightarrow> bdbm_abm_info \<Rightarrow> bdbm_abm_info res" where
  "uncount s bai =
     (case s of
        BLK_CLEAN \<Rightarrow> bug_on (nr_clean_blks bai = 0) (Inr (bai\<lparr>nr_clean_blks := dec64 (nr_clean_blks bai)\<rparr>))
      | BLK_DIRTY \<Rightarrow> bug_on (nr_dirty_blks bai = 0) (Inr (bai\<lparr>nr_dirty_blks := dec64 (nr_dirty_blks bai)\<rparr>))
      | BLK_FREE \<Rightarrow> bug_on (nr_free_blks bai = 0) (Inr (bai\<lparr>nr_free_blks := dec64 (nr_free_blks bai)\<rparr>))
      | BLK_FREE_PREPARE \<Rightarrow>
          bug_on (nr_free_blks_prepared bai = 0) (Inr (bai\<lparr>nr_free_blks_prepared := dec64 (nr_free_blks_prepared bai)\<rparr>))
      | BLK_BAD \<Rightarrow> bug_on (nr_bad_blks bai = 0) (Inr (bai\<lparr>nr_bad_blks := dec64 (nr_bad_blks bai)\<rparr>)))"

text \<open>Nothing happens when the address names no block.\<close>

definition bdbm_abm_erase_block :: "nat \<Rightarrow> nat \<Rightarrow> nat \<Rightarrow> bool \<Rightarrow> bdbm_abm_info \<Rightarrow> bdbm_abm_info res" where
  "bdbm_abm_erase_block channel chip blk is_bad bai =
     (let i = get_block_idx (np bai) channel chip blk in
      if i \<ge> nr_blocks_per_ssd (np bai) then Inr bai
      else bindE (index (blocks bai) i) (\<lambda>b.
        if channel_no b \<noteq> channel \<or> chip_no b \<noteq> chip \<or> block_no b \<noteq> blk then Inr bai
        else check_status bai
          (bindE (uncount (status b) bai) (\<lambda>bai1.
           bindE (if is_bad then
                    bindE (move_block i (HBad (channel_no b) (chip_no b)) bai1) (\<lambda>bai2.
                      let bai3 = upd_blk i (\<lambda>b. b\<lparr>status := BLK_BAD\<rparr>) (bai2\<lparr>nr_bad_blks := nr_bad_blks bai2 + 1\<rparr>)
                      in check_status bai3 (Inr bai3))
                  else
                    bindE (move_block i (HFree (channel_no b) (chip_no b)) bai1) (\<lambda>bai2.
                      Inr (upd_blk i (\<lambda>b. b\<lparr>status := BLK_FREE\<rparr>) (bai2\<lparr>nr_free_blks := nr_free_blks bai2 + 1\<rparr>)))) (\<lambda>bai4.
             check_status bai4
               (Inr (upd_blk i (\<lambda>b. b\<lparr>erase_count := (erase_count b + 1) mod 2 ^ 32, nr_invalid_subpages := 0,
                                     pst := map_option (\<lambda>_. create_pst (np bai)) (pst b)\<rparr>) bai4)))))))"

definition bdbm_abm_set_to_dirty_block :: "nat \<Rightarrow> nat \<Rightarrow> nat \<Rightarrow> bdbm_abm_info \<Rightarrow> bdbm_abm_info res" where
  "bdbm_abm_set_to_dirty_block channel chip blk bai =
     (let i = get_block_idx (np bai) channel chip blk in
      if i \<ge> nr_blocks_per_ssd (np bai) then Inr bai
      else bindE (index (blocks bai) i) (\<lambda>b.
        if channel_no b \<noteq> channel \<or> chip_no b \<noteq> chip \<or> block_no b \<noteq> blk then Inr bai
        else check_status bai
          (bindE (uncount (status b) bai) (\<lambda>bai1.
           bindE (move_block i (HDirty (channel_no b) (chip_no b)) bai1) (\<lambda>bai2.
             let bai3 = upd_blk i (\<lambda>b. b\<lparr>status := BLK_DIRTY\<rparr>) (bai2\<lparr>nr_dirty_blks := nr_dirty_blks bai2 + 1\<rparr>)
             in check_status bai3
               (Inr (upd_blk i (\<lambda>b. b\<lparr>nr_invalid_subpages := nr_subpages_per_block (np bai) mod 2 ^ 32,
                   pst := map_option (\<lambda>_. replicate (nr_subpages_per_block (np bai)) SUBPAGE_INVALID) (pst b)\<rparr>) bai3)))))))"

text \<open>A clean block becomes dirty with its first invalid subpage.\<close>

definition first_invalid :: "nat \<Rightarrow> bdbm_abm_info \<Rightarrow> bdbm_abm_info res" where
  "first_invalid i bai =
     bindE (index (blocks bai) i) (\<lambda>b.
     bug_on (status b \<noteq> BLK_CLEAN)
       (bindE (move_block i (HDirty (channel_no b) (chip_no b)) (upd_blk i (\<lambda>b. b\<lparr>status := BLK_DIRTY\<rparr>) bai)) (\<lambda>bai1.
        if nr_clean_blks bai1 > 0 then
          check_status bai1
            (Inr (bai1\<lparr>nr_clean_blks := dec64 (nr_clean_blks bai1), nr_dirty_blks := nr_dirty_blks bai1 + 1\<rparr>))
        else Inr bai1)))"

definition bdbm_abm_invalidate_page ::
  "nat \<Rightarrow> nat \<Rightarrow> nat \<Rightarrow> nat \<Rightarrow> nat \<Rightarrow> bdbm_abm_info \<Rightarrow> bdbm_abm_info res" where
  "bdbm_abm_invalidate_page channel chip blk page_no subpage_no bai =
     (case bdbm_abm_get_block channel chip blk bai of
        None \<Rightarrow> Inl Abort
      | Some i \<Rightarrow>
          bindE (index (blocks bai) i) (\<lambda>b.
          bug_on (page_no \<ge> nr_pages_per_block (np bai) \<or> channel_no b \<noteq> channel \<or> chip_no b \<noteq> chip \<or>
                  block_no b \<noteq> blk \<or> subpage_no \<ge> nr_subpages_per_page (np bai))
            (let pst_off = page_no * nr_subpages_per_page (np bai) + subpage_no in
             bug_on (pst_off \<ge> nr_subpages_per_block (np bai))
               (case pst b of
                  None \<Rightarrow> Inr bai
                | Some tab \<Rightarrow>
                    bindE (index tab pst_off) (\<lambda>st.
                      if st = SUBPAGE_NOT_INVALID then
                        let bai1 = upd_blk i (\<lambda>b. b\<lparr>pst := Some (tab[pst_off := SUBPAGE_INVALID])\<rparr>) bai in
                        bindE (if nr_invalid_subpages b = 0 then first_invalid i bai1 else Inr bai1) (\<lambda>bai2.
                          let n = (nr_invalid_subpages b + 1) mod 2 ^ 32 in
                          bug_on (n > nr_subpages_per_block (np bai))
                            (Inr (upd_blk i (\<lambda>b. b\<lparr>nr_invalid_subpages := n\<rparr>) bai2)))
                      else Inr bai)))))"

section \<open>Invariant\<close>

definition abm_geometry :: "bdbm_device_params \<Rightarrow> bool" where
  "abm_geometry d \<longleftrightarrow> 0 < nr_blocks_per_chip d \<and> 0 < nr_subpages_per_block d \<and> nr_subpages_per_block d < 2 ^ 32 \<and>
     nr_blocks_per_channel d = nr_chips_per_channel d * nr_blocks_per_chip d \<and>
     nr_blocks_per_ssd d = nr_channels d * nr_blocks_per_channel d \<and> nr_blocks_per_ssd d < 2 ^ 64 \<and>
     nr_subpages_per_block d = nr_pages_per_block d * nr_subpages_per_page d"

text \<open>The list a block belongs to.\<close>

definition home :: "bdbm_abm_block \<Rightarrow> abm_node" where
  "home b = (case status b of
     BLK_FREE \<Rightarrow> HFree (channel_no b) (chip_no b)
   | BLK_FREE_PREPARE \<Rightarrow> HFree (channel_no b) (chip_no b)
   | BLK_CLEAN \<Rightarrow> HClean (channel_no b) (chip_no b)
   | BLK_DIRTY \<Rightarrow> HDirty (channel_no b) (chip_no b)
   | BLK_BAD \<Rightarrow> HBad (channel_no b) (chip_no b))"

definition linked :: "bdbm_device_params \<Rightarrow> bdbm_abm_block list \<Rightarrow> abm_node links \<Rightarrow> (abm_node \<Rightarrow> abm_node list) \<Rightarrow> bool" where
  "linked d bs S L \<longleftrightarrow> rings S (set (abm_heads d)) L \<and>
     (\<forall>h \<in> set (abm_heads d). set (L h) = ABlk ` {i. i < length bs \<and> home (bs ! i) = h})"

definition cnt :: "blk_status \<Rightarrow> bdbm_abm_block list \<Rightarrow> nat" where
  "cnt s bs = length (filter (\<lambda>b. status b = s) bs)"

definition pst_ok :: "bdbm_device_params \<Rightarrow> nat \<Rightarrow> subpage_status list option \<Rightarrow> bool" where
  "pst_ok d n p \<longleftrightarrow> (case p of None \<Rightarrow> True
     | Some tab \<Rightarrow> length tab = nr_subpages_per_block d \<and> n = length (filter (\<lambda>x. x = SUBPAGE_INVALID) tab))"

definition block_ok :: "bdbm_device_params \<Rightarrow> nat \<Rightarrow> bdbm_abm_block \<Rightarrow> bool" where
  "block_ok d i b \<longleftrightarrow> channel_no b = get_channel_ofs d i \<and> chip_no b = get_chip_ofs d i \<and>
     block_no b = get_block_ofs d i \<and> (status b = BLK_DIRTY \<longleftrightarrow> 0 < nr_invalid_subpages b) \<and>
     pst_ok d (nr_invalid_subpages b) (pst b)"

definition counted :: "bdbm_abm_info \<Rightarrow> bool" where
  "counted bai \<longleftrightarrow> nr_total_blks bai = length (blocks bai) \<and> nr_free_blks bai = cnt BLK_FREE (blocks bai) \<and>
     nr_free_blks_prepared bai = cnt BLK_FREE_PREPARE (blocks bai) \<and> nr_clean_blks bai = cnt BLK_CLEAN (blocks bai) \<and>
     nr_dirty_blks bai = cnt BLK_DIRTY (blocks bai) \<and> nr_bad_blks bai = cnt BLK_BAD (blocks bai)"

definition abm_ok :: "bdbm_abm_info \<Rightarrow> bool" where
  "abm_ok bai \<longleftrightarrow> abm_geometry (np bai) \<and> length (blocks bai) = nr_blocks_per_ssd (np bai) \<and>
     (\<forall>i < length (blocks bai). block_ok (np bai) i (blocks bai ! i)) \<and>
     (\<exists>L. linked (np bai) (blocks bai) (abm_links bai) L) \<and> counted bai"

subsection \<open>Addresses\<close>

lemma block_idx_inverse:
  assumes "abm_geometry d"
  shows "get_block_idx d (get_channel_ofs d i) (get_chip_ofs d i) (get_block_ofs d i) = i"
proof -
  have "nr_blocks_per_channel d = nr_chips_per_channel d * nr_blocks_per_chip d" using assms by (simp add: abm_geometry_def)
  then have "i mod nr_blocks_per_channel d mod nr_blocks_per_chip d = i mod nr_blocks_per_chip d"
    by (simp add: mod_mod_cancel)
  then show ?thesis
    unfolding get_block_idx_def get_channel_ofs_def get_chip_ofs_def get_block_ofs_def
    by (metis add.assoc div_mult_mod_eq)
qed

lemma block_ofs_range:
  assumes "abm_geometry d" "i < nr_blocks_per_ssd d"
  shows "get_channel_ofs d i < nr_channels d" "get_chip_ofs d i < nr_chips_per_channel d" "get_block_ofs d i < nr_blocks_per_chip d"
proof -
  have g: "nr_blocks_per_channel d = nr_chips_per_channel d * nr_blocks_per_chip d" "0 < nr_blocks_per_chip d"
    "nr_blocks_per_ssd d = nr_channels d * nr_blocks_per_channel d" using assms by (auto simp: abm_geometry_def)
  then show "get_channel_ofs d i < nr_channels d" using assms(2) by (simp add: get_channel_ofs_def less_mult_imp_div_less)
  have "0 < nr_blocks_per_channel d" using assms(2) g(3) by (cases "nr_blocks_per_channel d") auto
  then show "get_chip_ofs d i < nr_chips_per_channel d"
    unfolding get_chip_ofs_def by (intro less_mult_imp_div_less) (simp add: g(1))
  show "get_block_ofs d i < nr_blocks_per_chip d" using g(2) by (simp add: get_block_ofs_def)
qed

lemma ofs_block_idx:
  assumes "abm_geometry d" "k < nr_chips_per_channel d" "b < nr_blocks_per_chip d"
  shows "get_channel_ofs d (get_block_idx d c k b) = c" "get_chip_ofs d (get_block_idx d c k b) = k"
    "get_block_ofs d (get_block_idx d c k b) = b"
proof -
  have g: "nr_blocks_per_channel d = nr_chips_per_channel d * nr_blocks_per_chip d"
    using assms(1) by (auto simp: abm_geometry_def)
  have "Suc k * nr_blocks_per_chip d \<le> nr_blocks_per_channel d" unfolding g using assms(2) by (intro mult_le_mono1) simp
  then have lt: "k * nr_blocks_per_chip d + b < nr_blocks_per_channel d" using assms(3) by simp
  have e: "get_block_idx d c k b = (k * nr_blocks_per_chip d + b) + c * nr_blocks_per_channel d"
    by (simp add: get_block_idx_def)
  have m: "get_block_idx d c k b mod nr_blocks_per_channel d = k * nr_blocks_per_chip d + b"
    unfolding e using lt by simp
  show "get_channel_ofs d (get_block_idx d c k b) = c" unfolding get_channel_ofs_def e using lt by simp
  show "get_chip_ofs d (get_block_idx d c k b) = k" unfolding get_chip_ofs_def m using assms(3) by simp
  have "get_block_idx d c k b mod nr_blocks_per_chip d = (k * nr_blocks_per_chip d + b) mod nr_blocks_per_chip d"
    unfolding m [symmetric] g by (simp add: mod_mod_cancel)
  then show "get_block_ofs d (get_block_idx d c k b) = b" unfolding get_block_ofs_def using assms(3) by simp
qed

lemma heads_mem [simp]:
  "HFree c k \<in> set (abm_heads d) \<longleftrightarrow> c < nr_channels d \<and> k < nr_chips_per_channel d"
  "HClean c k \<in> set (abm_heads d) \<longleftrightarrow> c < nr_channels d \<and> k < nr_chips_per_channel d"
  "HDirty c k \<in> set (abm_heads d) \<longleftrightarrow> c < nr_channels d \<and> k < nr_chips_per_channel d"
  "HBad c k \<in> set (abm_heads d) \<longleftrightarrow> c < nr_channels d \<and> k < nr_chips_per_channel d"
  "ABlk i \<notin> set (abm_heads d)"
  by (auto simp: abm_heads_def)

lemma home_mem:
  "home b \<in> set (abm_heads d) \<longleftrightarrow> channel_no b < nr_channels d \<and> chip_no b < nr_chips_per_channel d"
  by (cases "status b") (simp_all add: home_def)

subsection \<open>Counting\<close>

lemma cnt_Cons: "cnt s (b # bs) = (if status b = s then 1 else 0) + cnt s bs"
  by (simp add: cnt_def)

lemma cnt_update: "i < length bs \<Longrightarrow>
    cnt s (bs[i := b']) + (if status (bs ! i) = s then 1 else 0) = cnt s bs + (if status b' = s then 1 else 0)"
proof (induction bs arbitrary: i)
  case (Cons b bs)
  then show ?case by (cases i) (auto simp: cnt_Cons split: if_splits)
qed simp

lemma cnt_total: "cnt BLK_FREE bs + cnt BLK_FREE_PREPARE bs + cnt BLK_CLEAN bs + cnt BLK_DIRTY bs + cnt BLK_BAD bs = length bs"
proof (induction bs)
  case (Cons b bs)
  then show ?case by (cases "status b") (simp_all add: cnt_Cons)
qed (simp add: cnt_def)

lemma cnt_pos: "i < length bs \<Longrightarrow> status (bs ! i) = s \<Longrightarrow> 0 < cnt s bs"
  unfolding cnt_def using nth_mem by (force simp: filter_empty_conv)

lemma cnt_le: "cnt s bs \<le> length bs"
  by (simp add: cnt_def)

lemma dec64_pos: "0 < n \<Longrightarrow> n \<le> 2 ^ 64 \<Longrightarrow> dec64 n = n - 1"
proof -
  assume "0 < n" "n \<le> 2 ^ 64"
  then have e: "n + 2 ^ 64 - 1 = (n - 1) + 2 ^ 64" "n - 1 < 2 ^ 64" by simp_all
  show ?thesis unfolding dec64_def e(1) mod_add_self2 using e(2) by (rule mod_less)
qed

lemma cnt_update_eq: "i < length bs \<Longrightarrow>
    cnt s (bs[i := b']) = (if status b' = status (bs ! i) then cnt s bs else if status (bs ! i) = s then cnt s bs - 1
                           else if status b' = s then cnt s bs + 1 else cnt s bs)"
  using cnt_update [of i bs s b'] by (auto split: if_splits)

subsection \<open>Moving a block\<close>

lemma abm_okD:
  assumes "abm_ok bai" "i < length (blocks bai)"
  shows "block_ok (np bai) i (blocks bai ! i)" "home (blocks bai ! i) \<in> set (abm_heads (np bai))"
    "channel_no (blocks bai ! i) < nr_channels (np bai)" "chip_no (blocks bai ! i) < nr_chips_per_channel (np bai)"
proof -
  show b: "block_ok (np bai) i (blocks bai ! i)" using assms by (simp add: abm_ok_def)
  have "abm_geometry (np bai)" "i < nr_blocks_per_ssd (np bai)" using assms by (auto simp: abm_ok_def)
  then show "channel_no (blocks bai ! i) < nr_channels (np bai)" "chip_no (blocks bai ! i) < nr_chips_per_channel (np bai)"
    using b block_ofs_range by (auto simp: block_ok_def)
  then show "home (blocks bai ! i) \<in> set (abm_heads (np bai))" by (simp add: home_mem)
qed

lemma counted_check: "counted bai \<Longrightarrow> check_status bai r = r"
  using cnt_total [of "blocks bai"] by (simp add: counted_def check_status_def bug_on_def)

lemma linked_same_home:
  assumes "linked d bs S L" "i < length bs" "home b' = home (bs ! i)"
  shows "linked d (bs[i := b']) S L"
proof -
  have "{j. j < length (bs[i := b']) \<and> home (bs[i := b'] ! j) = h} = {j. j < length bs \<and> home (bs ! j) = h}" for h
    using assms(2,3) by (auto simp: nth_list_update)
  then show ?thesis using assms(1) by (simp add: linked_def)
qed

lemma linked_move:
  assumes lk: "linked d bs S L" and i: "i < length bs" and hs: "home (bs ! i) \<in> set (abm_heads d)" "home b' \<in> set (abm_heads d)"
  shows "\<exists>S1 S' L'. list_del (ABlk i) S = Inr S1 \<and> list_add_tail (ABlk i) (home b') S1 = Inr S' \<and> linked d (bs[i := b']) S' L'"
proof -
  let ?h = "home (bs ! i)" and ?g = "home b'" and ?x = "ABlk i"
  have R: "rings S (set (abm_heads d)) L" and mem: "\<And>h. h \<in> set (abm_heads d) \<Longrightarrow> set (L h) = ABlk ` {j. j < length bs \<and> home (bs ! j) = h}"
    using lk by (auto simp: linked_def)
  have x: "?x \<in> set (L ?h)" using mem [OF hs(1)] i by simp
  let ?L1 = "L(?h := remove1 ?x (L ?h))"
  obtain S1 S' where S: "list_del ?x S = Inr S1" "list_add_tail ?x ?g S1 = Inr S'"
    "rings S' (set (abm_heads d)) (?L1(?g := ?L1 ?g @ [?x]))" using ld.relocate [OF R hs x] by blast
  have dist: "distinct (L ?h)" using rings_ring [OF R hs(1)] by (simp add: ring_def)
  have "set ((?L1(?g := ?L1 ?g @ [?x])) h) = ABlk ` {j. j < length (bs[i := b']) \<and> home (bs[i := b'] ! j) = h}"
    if h: "h \<in> set (abm_heads d)" for h
  proof -
    have "{j. j < length (bs[i := b']) \<and> home (bs[i := b'] ! j) = h} =
        {j. j < length bs \<and> home (bs ! j) = h \<and> j \<noteq> i} \<union> (if h = ?g then {i} else {})"
      using i by (auto simp: nth_list_update)
    moreover have "ABlk ` {j. j < length bs \<and> home (bs ! j) = h \<and> j \<noteq> i} = set (L h) - {?x}" using mem [OF h] by auto
    moreover have "set (?L1 h) = set (L h) - {?x}" using dist mem [OF h] by auto
    ultimately show ?thesis by (auto simp: image_Un)
  qed
  then show ?thesis using S unfolding linked_def by blast
qed

text \<open>Any change of one block that keeps its address and is counted and linked gives a good state again.\<close>

lemma abm_ok_step:
  assumes ok: "abm_ok bai" and i: "i < length (blocks bai)" and b: "block_ok (np bai) i b'"
    and lk: "linked (np bai) ((blocks bai)[i := b']) S' L'" and new: "np bai' = np bai" "blocks bai' = (blocks bai)[i := b']"
      "abm_links bai' = S'" "counted bai'"
  shows "abm_ok bai'"
proof -
  have "block_ok (np bai') j (blocks bai' ! j)" if "j < length (blocks bai')" for j
    using ok b that new by (cases "j = i") (simp_all add: abm_ok_def)
  then show ?thesis using ok lk new unfolding abm_ok_def by auto
qed

lemma move_block_ok:
  assumes ok: "abm_ok bai" and i: "i < length (blocks bai)" and h: "home b' \<in> set (abm_heads (np bai))"
    and same: "abm_links bai1 = abm_links bai"
  shows "\<exists>S' L'. move_block i (home b') bai1 = Inr (bai1\<lparr>abm_links := S'\<rparr>) \<and> linked (np bai) ((blocks bai)[i := b']) S' L'"
proof -
  obtain L where L: "linked (np bai) (blocks bai) (abm_links bai) L" using ok by (auto simp: abm_ok_def)
  show ?thesis using linked_move [OF L i abm_okD(2) [OF ok i] h] same by (auto simp: move_block_def)
qed

section \<open>Operations\<close>

definition on_chip :: "bdbm_abm_info \<Rightarrow> nat \<Rightarrow> nat \<Rightarrow> blk_status \<Rightarrow> nat \<Rightarrow> bool" where
  "on_chip bai c k s i \<longleftrightarrow> i < length (blocks bai) \<and> channel_no (blocks bai ! i) = c \<and> chip_no (blocks bai ! i) = k \<and>
     status (blocks bai ! i) = s"

lemma home_free: "home b = HFree c k \<longleftrightarrow> channel_no b = c \<and> chip_no b = k \<and> (status b = BLK_FREE \<or> status b = BLK_FREE_PREPARE)"
  by (cases "status b") (auto simp: home_def)

text \<open>The blocks the search visits.\<close>

lemma prepare_visits:
  assumes ok: "abm_ok bai" and c: "c < nr_channels (np bai)" "k < nr_chips_per_channel (np bai)"
  obtains xs where "list_for_each (length (blocks bai) + 1) (is_free bai) (HFree c k) (abm_links bai) =
      Inr (takeWhile (\<lambda>x. \<not> is_free bai x) xs @ take 1 (dropWhile (\<lambda>x. \<not> is_free bai x) xs))"
    "set xs = ABlk ` {i. on_chip bai c k BLK_FREE i \<or> on_chip bai c k BLK_FREE_PREPARE i}"
proof -
  obtain L where L: "linked (np bai) (blocks bai) (abm_links bai) L" using ok by (auto simp: abm_ok_def)
  have h: "HFree c k \<in> set (abm_heads (np bai))" using c by simp
  have R: "rings (abm_links bai) (set (abm_heads (np bai))) L"
    and mem: "set (L (HFree c k)) = ABlk ` {i. i < length (blocks bai) \<and> home (blocks bai ! i) = HFree c k}"
    using L h by (auto simp: linked_def)
  have "distinct (L (HFree c k))" using rings_ring [OF R h] by (simp add: ring_def)
  then have "length (L (HFree c k)) = card (set (L (HFree c k)))" by (simp add: distinct_card)
  also have "\<dots> \<le> card {i. i < length (blocks bai) \<and> home (blocks bai ! i) = HFree c k}"
    unfolding mem by (rule card_image_le) simp
  also have "\<dots> \<le> card {..<length (blocks bai)}" by (rule card_mono) auto
  finally have "length (L (HFree c k)) < length (blocks bai) + 1" by simp
  from list_for_each_rings [OF R h this] show thesis
    by (rule that) (auto simp: mem on_chip_def home_free)
qed

lemma search_found:
  assumes "\<exists>x \<in> set xs. P x"
  shows "takeWhile (\<lambda>x. \<not> P x) xs @ take 1 (dropWhile (\<lambda>x. \<not> P x) xs) \<noteq> [] \<and>
    last (takeWhile (\<lambda>x. \<not> P x) xs @ take 1 (dropWhile (\<lambda>x. \<not> P x) xs)) \<in> set xs \<and>
    P (last (takeWhile (\<lambda>x. \<not> P x) xs @ take 1 (dropWhile (\<lambda>x. \<not> P x) xs)))"
proof -
  obtain ys x zs where xs: "xs = ys @ x # zs" "P x" "\<forall>y \<in> set ys. \<not> P y"
    using split_list_first_prop [OF assms] by blast
  then have "takeWhile (\<lambda>x. \<not> P x) xs = ys" "dropWhile (\<lambda>x. \<not> P x) xs = x # zs"
    by (simp_all add: takeWhile_append2 dropWhile_append2)
  then show ?thesis using xs by simp
qed

lemma search_failed:
  assumes "\<forall>x \<in> set xs. \<not> P x"
  shows "takeWhile (\<lambda>x. \<not> P x) xs @ take 1 (dropWhile (\<lambda>x. \<not> P x) xs) = xs"
  using assms by (induction xs) auto

lemma is_free_blk: "is_free bai (ABlk i) \<longleftrightarrow> i < length (blocks bai) \<and> status (blocks bai ! i) = BLK_FREE"
  by (simp add: is_free_def)

lemma counted_bounds: "abm_ok bai \<Longrightarrow> cnt s (blocks bai) \<le> 2 ^ 64"
  using cnt_le [of s "blocks bai"] unfolding abm_ok_def abm_geometry_def by linarith

lemma prepare_free_ok:
  assumes ok: "abm_ok bai" and c: "c < nr_channels (np bai)" "k < nr_chips_per_channel (np bai)"
    and ex: "\<exists>i. on_chip bai c k BLK_FREE i"
  shows "\<exists>i bai'. bdbm_abm_get_free_block_prepare c k bai = Inr (Some i, bai') \<and> on_chip bai c k BLK_FREE i \<and>
           abm_ok bai' \<and> np bai' = np bai \<and> blocks bai' = (blocks bai)[i := (blocks bai ! i)\<lparr>status := BLK_FREE_PREPARE\<rparr>]"
proof -
  obtain xs where xs: "list_for_each (length (blocks bai) + 1) (is_free bai) (HFree c k) (abm_links bai) =
      Inr (takeWhile (\<lambda>x. \<not> is_free bai x) xs @ take 1 (dropWhile (\<lambda>x. \<not> is_free bai x) xs))"
    "set xs = ABlk ` {i. on_chip bai c k BLK_FREE i \<or> on_chip bai c k BLK_FREE_PREPARE i}" by (rule prepare_visits [OF ok c])
  define vs where "vs = takeWhile (\<lambda>x. \<not> is_free bai x) xs @ take 1 (dropWhile (\<lambda>x. \<not> is_free bai x) xs)"
  have "\<exists>x \<in> set xs. is_free bai x" using ex xs(2) by (auto simp: is_free_blk on_chip_def)
  note found = search_found [OF this, folded vs_def]
  then obtain i where i: "last vs = ABlk i" "on_chip bai c k BLK_FREE i"
    using xs(2) by (auto simp: is_free_blk on_chip_def)
  have il: "i < length (blocks bai)" and st: "status (blocks bai ! i) = BLK_FREE" using i(2) by (auto simp: on_chip_def)
  let ?b = "(blocks bai ! i)\<lparr>status := BLK_FREE_PREPARE\<rparr>"
  let ?bai1 = "upd_blk i (\<lambda>b. b\<lparr>status := BLK_FREE_PREPARE\<rparr>) bai"
  let ?bai' = "?bai1\<lparr>nr_free_blks := dec64 (nr_free_blks ?bai1), nr_free_blks_prepared := nr_free_blks_prepared ?bai1 + 1\<rparr>"
  obtain L where L: "linked (np bai) (blocks bai) (abm_links bai) L" and ct: "counted bai" using ok by (auto simp: abm_ok_def)
  have "check_status ?bai1 r = check_status bai r" for r :: "(nat option \<times> bdbm_abm_info) res"
    by (simp add: check_status_def upd_blk_def)
  then have run: "bdbm_abm_get_free_block_prepare c k bai = Inr (Some i, ?bai')"
    using xs(1) [folded vs_def] found i(1) counted_check [OF ct]
    by (simp add: bdbm_abm_get_free_block_prepare_def Let_def)
  have "dec64 (nr_free_blks bai) = cnt BLK_FREE (blocks bai) - 1"
    using ct cnt_pos [OF il st] counted_bounds [OF ok] by (simp add: counted_def dec64_pos)
  then have "counted ?bai'" using ct il st by (simp add: counted_def upd_blk_def cnt_update_eq)
  then have "abm_ok ?bai'"
    by (intro abm_ok_step [OF ok il _ linked_same_home [OF L il], of ?b])
      (use abm_okD(1) [OF ok il] st in \<open>auto simp: upd_blk_def block_ok_def home_def\<close>)
  then show ?thesis using run i(2) by (auto simp: upd_blk_def)
qed

lemma prepare_none_free:
  assumes ok: "abm_ok bai" and c: "c < nr_channels (np bai)" "k < nr_chips_per_channel (np bai)"
    and none: "\<nexists>i. on_chip bai c k BLK_FREE i"
  shows "\<exists>r. bdbm_abm_get_free_block_prepare c k bai = Inr (r, bai) \<and>
    (case r of None \<Rightarrow> (\<nexists>i. on_chip bai c k BLK_FREE_PREPARE i) | Some i \<Rightarrow> on_chip bai c k BLK_FREE_PREPARE i)"
proof -
  obtain xs where xs: "list_for_each (length (blocks bai) + 1) (is_free bai) (HFree c k) (abm_links bai) =
      Inr (takeWhile (\<lambda>x. \<not> is_free bai x) xs @ take 1 (dropWhile (\<lambda>x. \<not> is_free bai x) xs))"
    "set xs = ABlk ` {i. on_chip bai c k BLK_FREE i \<or> on_chip bai c k BLK_FREE_PREPARE i}" by (rule prepare_visits [OF ok c])
  have nf: "\<forall>x \<in> set xs. \<not> is_free bai x" using none xs(2) by (auto simp: is_free_blk on_chip_def)
  note fe = xs(1) [unfolded search_failed [OF nf]]
  show ?thesis
  proof (cases "xs = []")
    case True
    then show ?thesis using fe xs(2) by (auto simp: bdbm_abm_get_free_block_prepare_def)
  next
    case False
    then have "last xs \<in> set xs" by simp
    then obtain i where i: "last xs = ABlk i" "on_chip bai c k BLK_FREE_PREPARE i" using xs(2) none by auto
    have "\<not> is_free bai (ABlk i)" using nf False i(1) by (metis last_in_set)
    then show ?thesis using fe False i by (simp add: bdbm_abm_get_free_block_prepare_def)
  qed
qed

lemma rollback_ok:
  assumes ok: "abm_ok bai" and i: "i < length (blocks bai)" and st: "status (blocks bai ! i) = BLK_FREE_PREPARE"
  shows "\<exists>bai'. bdbm_abm_get_free_block_rollback i bai = Inr bai' \<and> abm_ok bai' \<and> np bai' = np bai \<and>
           blocks bai' = (blocks bai)[i := (blocks bai ! i)\<lparr>status := BLK_FREE\<rparr>]"
proof -
  let ?b = "(blocks bai ! i)\<lparr>status := BLK_FREE\<rparr>"
  let ?bai' = "bai\<lparr>blocks := (blocks bai)[i := ?b], nr_free_blks_prepared := dec64 (nr_free_blks_prepared bai),
                nr_free_blks := nr_free_blks bai + 1\<rparr>"
  obtain L where L: "linked (np bai) (blocks bai) (abm_links bai) L" and ct: "counted bai" using ok by (auto simp: abm_ok_def)
  have pos: "0 < nr_free_blks_prepared bai" using ct cnt_pos [OF i st] by (simp add: counted_def)
  then have "dec64 (nr_free_blks_prepared bai) = cnt BLK_FREE_PREPARE (blocks bai) - 1"
    using ct counted_bounds [OF ok] by (simp add: counted_def dec64_pos)
  then have "counted ?bai'" using ct i st by (simp add: counted_def cnt_update_eq)
  then have "abm_ok ?bai'"
    by (intro abm_ok_step [OF ok i _ linked_same_home [OF L i], of ?b])
      (use abm_okD(1) [OF ok i] st in \<open>auto simp: block_ok_def home_def\<close>)
  moreover have "check_status (upd_blk i (\<lambda>b. b\<lparr>status := BLK_FREE\<rparr>) bai) r = r" for r :: "bdbm_abm_info res"
    using counted_check [OF ct, of r] by (simp add: check_status_def upd_blk_def)
  then have "bdbm_abm_get_free_block_rollback i bai = Inr ?bai'"
    using i st pos by (simp add: bdbm_abm_get_free_block_rollback_def bug_on_def upd_blk_def)
  ultimately show ?thesis by auto
qed

lemma commit_ok:
  assumes ok: "abm_ok bai" and i: "i < length (blocks bai)" and st: "status (blocks bai ! i) = BLK_FREE_PREPARE"
  shows "\<exists>bai'. bdbm_abm_get_free_block_commit i bai = Inr bai' \<and> abm_ok bai' \<and> np bai' = np bai \<and>
           blocks bai' = (blocks bai)[i := (blocks bai ! i)\<lparr>status := BLK_CLEAN\<rparr>]"
proof -
  let ?b = "(blocks bai ! i)\<lparr>status := BLK_CLEAN\<rparr>" and ?bai1 = "upd_blk i (\<lambda>b. b\<lparr>status := BLK_CLEAN\<rparr>) bai"
  have ct: "counted bai" using ok by (auto simp: abm_ok_def)
  have home: "HClean (channel_no (blocks bai ! i)) (chip_no (blocks bai ! i)) = home ?b" by (simp add: home_def)
  obtain S' L' where S': "move_block i (home ?b) ?bai1 = Inr (?bai1\<lparr>abm_links := S'\<rparr>)"
    "linked (np bai) ((blocks bai)[i := ?b]) S' L'"
    using move_block_ok [OF ok i, of ?b ?bai1] abm_okD(3,4) [OF ok i] by (auto simp: home_mem upd_blk_def)
  let ?bai' = "?bai1\<lparr>abm_links := S', nr_free_blks_prepared := dec64 (nr_free_blks_prepared bai),
                nr_clean_blks := nr_clean_blks bai + 1\<rparr>"
  have pos: "0 < nr_free_blks_prepared bai" using ct cnt_pos [OF i st] by (simp add: counted_def)
  then have "dec64 (nr_free_blks_prepared bai) = cnt BLK_FREE_PREPARE (blocks bai) - 1"
    using ct counted_bounds [OF ok] by (simp add: counted_def dec64_pos)
  then have "counted ?bai'" using ct i st by (simp add: counted_def cnt_update_eq upd_blk_def)
  then have "abm_ok ?bai'"
    by (intro abm_ok_step [OF ok i _ S'(2)]) (use abm_okD(1) [OF ok i] st in \<open>auto simp: block_ok_def upd_blk_def\<close>)
  moreover have "check_status (?bai1\<lparr>abm_links := S'\<rparr>) r = r" for r :: "bdbm_abm_info res"
    using counted_check [OF ct, of r] by (simp add: check_status_def upd_blk_def)
  then have "bdbm_abm_get_free_block_commit i bai = Inr ?bai'"
    using i st pos S'(1) [folded home] by (simp add: bdbm_abm_get_free_block_commit_def bug_on_def upd_blk_def)
  ultimately show ?thesis by (auto simp: upd_blk_def)
qed

text \<open>The state with one block fewer in the counter of its status.\<close>

lemma uncount_ok:
  assumes ok: "abm_ok bai" and i: "i < length (blocks bai)"
  shows "\<exists>bai1. uncount (status (blocks bai ! i)) bai = Inr bai1 \<and> np bai1 = np bai \<and> blocks bai1 = blocks bai \<and>
    abm_links bai1 = abm_links bai \<and> nr_total_blks bai1 = nr_total_blks bai \<and>
    nr_free_blks bai1 = cnt BLK_FREE (blocks bai) - (if status (blocks bai ! i) = BLK_FREE then 1 else 0) \<and>
    nr_free_blks_prepared bai1 = cnt BLK_FREE_PREPARE (blocks bai) - (if status (blocks bai ! i) = BLK_FREE_PREPARE then 1 else 0) \<and>
    nr_clean_blks bai1 = cnt BLK_CLEAN (blocks bai) - (if status (blocks bai ! i) = BLK_CLEAN then 1 else 0) \<and>
    nr_dirty_blks bai1 = cnt BLK_DIRTY (blocks bai) - (if status (blocks bai ! i) = BLK_DIRTY then 1 else 0) \<and>
    nr_bad_blks bai1 = cnt BLK_BAD (blocks bai) - (if status (blocks bai ! i) = BLK_BAD then 1 else 0)"
proof -
  have ct: "counted bai" using ok by (simp add: abm_ok_def)
  have "0 < cnt (status (blocks bai ! i)) (blocks bai)" by (rule cnt_pos [OF i refl])
  moreover from this have "dec64 (cnt (status (blocks bai ! i)) (blocks bai)) = cnt (status (blocks bai ! i)) (blocks bai) - 1"
    using dec64_pos counted_bounds [OF ok] by blast
  ultimately show ?thesis using ct
    by (cases "status (blocks bai ! i)") (simp_all add: uncount_def bug_on_def counted_def)
qed

text \<open>The block an address names.\<close>

definition names_block :: "bdbm_abm_info \<Rightarrow> nat \<Rightarrow> nat \<Rightarrow> nat \<Rightarrow> bool" where
  "names_block bai c k b \<longleftrightarrow> c < nr_channels (np bai) \<and> k < nr_chips_per_channel (np bai) \<and> b < nr_blocks_per_chip (np bai)"

lemma named_block:
  assumes ok: "abm_ok bai" and n: "names_block bai c k b"
  defines "i \<equiv> get_block_idx (np bai) c k b"
  shows "i < length (blocks bai)" "channel_no (blocks bai ! i) = c" "chip_no (blocks bai ! i) = k" "block_no (blocks bai ! i) = b"
proof -
  have g: "abm_geometry (np bai)" and len: "length (blocks bai) = nr_blocks_per_ssd (np bai)" using ok by (auto simp: abm_ok_def)
  have r: "c < nr_channels (np bai)" "k < nr_chips_per_channel (np bai)" "b < nr_blocks_per_chip (np bai)"
    using n by (auto simp: names_block_def)
  have "Suc k * nr_blocks_per_chip (np bai) \<le> nr_chips_per_channel (np bai) * nr_blocks_per_chip (np bai)"
    using r(2) by (intro mult_le_mono1) simp
  then have "k * nr_blocks_per_chip (np bai) + b < nr_blocks_per_channel (np bai)" using r(3) g by (simp add: abm_geometry_def)
  moreover have "Suc c * nr_blocks_per_channel (np bai) \<le> nr_channels (np bai) * nr_blocks_per_channel (np bai)"
    using r(1) by (intro mult_le_mono1) simp
  ultimately show i: "i < length (blocks bai)" using g len by (simp add: i_def get_block_idx_def abm_geometry_def)
  note o = ofs_block_idx [OF g r(2,3), of c]
  show "channel_no (blocks bai ! i) = c" "chip_no (blocks bai ! i) = k" "block_no (blocks bai ! i) = b"
    using abm_okD(1) [OF ok i] o by (auto simp: block_ok_def i_def)
qed

lemma check_counts: "counted (bai\<lparr>blocks := bs\<rparr>) \<Longrightarrow> check_status bai r = r"
  using counted_check [of "bai\<lparr>blocks := bs\<rparr>" r] by (simp add: check_status_def)

lemma erase_ok:
  assumes ok: "abm_ok bai" and n: "names_block bai c k b"
  defines "i \<equiv> get_block_idx (np bai) c k b"
  shows "\<exists>bai'. bdbm_abm_erase_block c k b bad bai = Inr bai' \<and> abm_ok bai' \<and> np bai' = np bai \<and>
    blocks bai' = (blocks bai)[i := (blocks bai ! i)\<lparr>status := if bad then BLK_BAD else BLK_FREE,
       erase_count := (erase_count (blocks bai ! i) + 1) mod 2 ^ 32, nr_invalid_subpages := 0,
       pst := map_option (\<lambda>_. create_pst (np bai)) (pst (blocks bai ! i))\<rparr>]"
proof -
  note nb = named_block [OF ok n, folded i_def]
  have i: "i < length (blocks bai)" "\<not> nr_blocks_per_ssd (np bai) \<le> i" using nb(1) ok by (auto simp: abm_ok_def)
  let ?o = "blocks bai ! i" and ?s = "if bad then BLK_BAD else BLK_FREE"
  let ?b = "?o\<lparr>status := ?s, erase_count := (erase_count ?o + 1) mod 2 ^ 32, nr_invalid_subpages := 0,
       pst := map_option (\<lambda>_. create_pst (np bai)) (pst ?o)\<rparr>"
  have ct: "counted bai" using ok by (simp add: abm_ok_def)
  obtain bai1 where u: "uncount (status ?o) bai = Inr bai1" "np bai1 = np bai" "blocks bai1 = blocks bai"
    "abm_links bai1 = abm_links bai" "nr_total_blks bai1 = nr_total_blks bai"
    "nr_free_blks bai1 = cnt BLK_FREE (blocks bai) - (if status ?o = BLK_FREE then 1 else 0)"
    "nr_free_blks_prepared bai1 = cnt BLK_FREE_PREPARE (blocks bai) - (if status ?o = BLK_FREE_PREPARE then 1 else 0)"
    "nr_clean_blks bai1 = cnt BLK_CLEAN (blocks bai) - (if status ?o = BLK_CLEAN then 1 else 0)"
    "nr_dirty_blks bai1 = cnt BLK_DIRTY (blocks bai) - (if status ?o = BLK_DIRTY then 1 else 0)"
    "nr_bad_blks bai1 = cnt BLK_BAD (blocks bai) - (if status ?o = BLK_BAD then 1 else 0)"
    using uncount_ok [OF ok i(1)] by blast
  have home: "home ?b = (if bad then HBad c k else HFree c k)" using nb by (simp add: home_def)
  obtain S' L' where S': "move_block i (home ?b) bai1 = Inr (bai1\<lparr>abm_links := S'\<rparr>)" "linked (np bai) ((blocks bai)[i := ?b]) S' L'"
    using move_block_ok [OF ok i(1), of ?b bai1] abm_okD(3,4) [OF ok i(1)] u(4) by (auto simp: home_mem)
  define bai2 where "bai2 = (if bad then bai1\<lparr>abm_links := S', nr_bad_blks := nr_bad_blks bai1 + 1\<rparr>
                             else bai1\<lparr>abm_links := S', nr_free_blks := nr_free_blks bai1 + 1\<rparr>)"
  let ?bai' = "bai2\<lparr>blocks := (blocks bai)[i := ?b]\<rparr>"
  have pos: "0 < cnt (status ?o) (blocks bai)" by (rule cnt_pos [OF i(1) refl])
  have cn: "counted ?bai'"
    using ct u i(1) pos by (cases "status ?o") (simp_all add: counted_def bai2_def cnt_update_eq split: if_splits)
  moreover have "block_ok (np bai) i ?b"
    using abm_okD(1) [OF ok i(1)] by (auto simp: block_ok_def pst_ok_def create_pst_def split: option.splits)
  ultimately have "abm_ok ?bai'" by (intro abm_ok_step [OF ok i(1) _ S'(2)]) (simp_all add: bai2_def u)
  moreover have "bdbm_abm_erase_block c k b bad bai = Inr ?bai'"
  proof -
    have ch: "check_status (bai2\<lparr>blocks := bs\<rparr>) r = r" for bs and r :: "bdbm_abm_info res"
      using check_counts [where bai = "bai2\<lparr>blocks := bs\<rparr>" and bs = "(blocks bai)[i := ?b]" and r = r] cn by simp
    show ?thesis
      using i nb u(1-3) S'(1) [unfolded home] ch counted_check [OF ct]
      by (cases bad) (simp_all add: bdbm_abm_erase_block_def i_def [symmetric] bai2_def upd_blk_def)
  qed
  ultimately show ?thesis by (auto simp: bai2_def u)
qed

lemma set_to_dirty_ok:
  assumes ok: "abm_ok bai" and n: "names_block bai c k b"
  defines "i \<equiv> get_block_idx (np bai) c k b"
  shows "\<exists>bai'. bdbm_abm_set_to_dirty_block c k b bai = Inr bai' \<and> abm_ok bai' \<and> np bai' = np bai \<and>
    blocks bai' = (blocks bai)[i := (blocks bai ! i)\<lparr>status := BLK_DIRTY,
       nr_invalid_subpages := nr_subpages_per_block (np bai),
       pst := map_option (\<lambda>_. replicate (nr_subpages_per_block (np bai)) SUBPAGE_INVALID) (pst (blocks bai ! i))\<rparr>]"
proof -
  note nb = named_block [OF ok n, folded i_def]
  have i: "i < length (blocks bai)" "\<not> nr_blocks_per_ssd (np bai) \<le> i" using nb(1) ok by (auto simp: abm_ok_def)
  let ?o = "blocks bai ! i"
  let ?b = "?o\<lparr>status := BLK_DIRTY, nr_invalid_subpages := nr_subpages_per_block (np bai),
       pst := map_option (\<lambda>_. replicate (nr_subpages_per_block (np bai)) SUBPAGE_INVALID) (pst ?o)\<rparr>"
  have ct: "counted bai" and g: "0 < nr_subpages_per_block (np bai)" "nr_subpages_per_block (np bai) < 2 ^ 32" using ok unfolding abm_ok_def abm_geometry_def by blast+
  obtain bai1 where u: "uncount (status ?o) bai = Inr bai1" "np bai1 = np bai" "blocks bai1 = blocks bai"
    "abm_links bai1 = abm_links bai" "nr_total_blks bai1 = nr_total_blks bai"
    "nr_free_blks bai1 = cnt BLK_FREE (blocks bai) - (if status ?o = BLK_FREE then 1 else 0)"
    "nr_free_blks_prepared bai1 = cnt BLK_FREE_PREPARE (blocks bai) - (if status ?o = BLK_FREE_PREPARE then 1 else 0)"
    "nr_clean_blks bai1 = cnt BLK_CLEAN (blocks bai) - (if status ?o = BLK_CLEAN then 1 else 0)"
    "nr_dirty_blks bai1 = cnt BLK_DIRTY (blocks bai) - (if status ?o = BLK_DIRTY then 1 else 0)"
    "nr_bad_blks bai1 = cnt BLK_BAD (blocks bai) - (if status ?o = BLK_BAD then 1 else 0)"
    using uncount_ok [OF ok i(1)] by blast
  have home: "home ?b = HDirty c k" using nb by (simp add: home_def)
  obtain S' L' where S': "move_block i (home ?b) bai1 = Inr (bai1\<lparr>abm_links := S'\<rparr>)" "linked (np bai) ((blocks bai)[i := ?b]) S' L'"
    using move_block_ok [OF ok i(1), of ?b bai1] abm_okD(3,4) [OF ok i(1)] u(4) by (auto simp: home_mem)
  define bai2 where "bai2 = bai1\<lparr>abm_links := S', nr_dirty_blks := nr_dirty_blks bai1 + 1\<rparr>"
  let ?bai' = "bai2\<lparr>blocks := (blocks bai)[i := ?b]\<rparr>"
  have pos: "0 < cnt (status ?o) (blocks bai)" by (rule cnt_pos [OF i(1) refl])
  have cn: "counted ?bai'"
    using ct u i(1) pos by (cases "status ?o") (simp_all add: counted_def bai2_def cnt_update_eq)
  moreover have "block_ok (np bai) i ?b"
    using abm_okD(1) [OF ok i(1)] g by (auto simp: block_ok_def pst_ok_def split: option.splits)
  ultimately have "abm_ok ?bai'" by (intro abm_ok_step [OF ok i(1) _ S'(2)]) (simp_all add: bai2_def u)
  moreover have "check_status (bai2\<lparr>blocks := bs\<rparr>) r = r" for bs and r :: "bdbm_abm_info res"
    using check_counts [where bai = "bai2\<lparr>blocks := bs\<rparr>" and bs = "(blocks bai)[i := ?b]" and r = r] cn by simp
  then have "bdbm_abm_set_to_dirty_block c k b bai = Inr ?bai'"
    using i nb u(1-3) S'(1) [unfolded home] counted_check [OF ct] g(2)
    by (simp add: bdbm_abm_set_to_dirty_block_def i_def [symmetric] bai2_def upd_blk_def)
  ultimately show ?thesis by (auto simp: bai2_def u)
qed

lemma count_mark:
  assumes "j < length tab" "tab ! j = SUBPAGE_NOT_INVALID"
  shows "length (filter (\<lambda>x. x = SUBPAGE_INVALID) (tab[j := SUBPAGE_INVALID])) = length (filter (\<lambda>x. x = SUBPAGE_INVALID) tab) + 1"
  using assms
proof (induction tab arbitrary: j)
  case (Cons x tab)
  then show ?case by (cases j) auto
qed simp

lemma count_not_full:
  assumes "j < length tab" "tab ! j = SUBPAGE_NOT_INVALID"
  shows "length (filter (\<lambda>x. x = SUBPAGE_INVALID) tab) < length tab"
proof (rule length_filter_less)
  show "tab ! j \<in> set tab" using assms(1) by simp
  show "tab ! j \<noteq> SUBPAGE_INVALID" using assms(2) by simp
qed

lemma first_invalid_ok:
  assumes ok: "abm_ok bai" and i: "i < length (blocks bai)" and st: "status (blocks bai ! i) = BLK_CLEAN"
    and b': "channel_no b' = channel_no (blocks bai ! i)" "chip_no b' = chip_no (blocks bai ! i)" "status b' = BLK_CLEAN"
  defines "bai1 \<equiv> bai\<lparr>blocks := (blocks bai)[i := b']\<rparr>"
  shows "\<exists>bai2 L'. first_invalid i bai1 = Inr bai2 \<and> np bai2 = np bai \<and> blocks bai2 = (blocks bai)[i := b'\<lparr>status := BLK_DIRTY\<rparr>] \<and>
    linked (np bai) (blocks bai2) (abm_links bai2) L' \<and> counted bai2"
proof -
  let ?b = "b'\<lparr>status := BLK_DIRTY\<rparr>"
  have ct: "counted bai" using ok by (simp add: abm_ok_def)
  have home: "home ?b = HDirty (channel_no b') (chip_no b')" by (simp add: home_def)
  define bai2 where "bai2 = bai\<lparr>blocks := (blocks bai)[i := ?b]\<rparr>"
  obtain S' L' where S': "move_block i (home ?b) bai2 = Inr (bai2\<lparr>abm_links := S'\<rparr>)" "linked (np bai) ((blocks bai)[i := ?b]) S' L'"
    using move_block_ok [OF ok i, of ?b bai2] abm_okD(3,4) [OF ok i] b' by (auto simp: home_mem bai2_def)
  let ?bai' = "bai2\<lparr>abm_links := S', nr_clean_blks := dec64 (nr_clean_blks bai), nr_dirty_blks := nr_dirty_blks bai + 1\<rparr>"
  have pos: "0 < nr_clean_blks bai" using ct cnt_pos [OF i st] by (simp add: counted_def)
  then have "dec64 (nr_clean_blks bai) = cnt BLK_CLEAN (blocks bai) - 1"
    using ct counted_bounds [OF ok] by (simp add: counted_def dec64_pos)
  then have "counted ?bai'" using ct i st by (simp add: counted_def cnt_update_eq bai2_def)
  moreover have "check_status (bai2\<lparr>abm_links := S'\<rparr>) r = r" for r :: "bdbm_abm_info res"
    using counted_check [OF ct, of r] by (simp add: check_status_def bai2_def)
  then have "first_invalid i bai1 = Inr ?bai'"
    using i st pos b' S'(1) [unfolded home]
    by (simp add: first_invalid_def bug_on_def upd_blk_def bai1_def bai2_def)
  ultimately show ?thesis using S'(2) by (auto simp: bai2_def)
qed

text \<open>The subpage an address names, and the page status table it is in.\<close>

definition names_subpage :: "bdbm_abm_info \<Rightarrow> nat \<Rightarrow> nat \<Rightarrow> bool" where
  "names_subpage bai p s \<longleftrightarrow> p < nr_pages_per_block (np bai) \<and> s < nr_subpages_per_page (np bai)"

lemma subpage_offset:
  assumes "abm_ok bai" "names_subpage bai p s"
  shows "p * nr_subpages_per_page (np bai) + s < nr_subpages_per_block (np bai)"
proof -
  have "Suc p * nr_subpages_per_page (np bai) \<le> nr_pages_per_block (np bai) * nr_subpages_per_page (np bai)"
    using assms(2) by (intro mult_le_mono1) (simp add: names_subpage_def)
  then show ?thesis using assms by (auto simp: names_subpage_def abm_ok_def abm_geometry_def)
qed

lemma invalidate_ok:
  assumes ok: "abm_ok bai" and n: "names_block bai c k b" and p: "names_subpage bai p s"
  defines "i \<equiv> get_block_idx (np bai) c k b" and "off \<equiv> p * nr_subpages_per_page (np bai) + s"
  assumes st: "status (blocks bai ! i) = BLK_CLEAN \<or> status (blocks bai ! i) = BLK_DIRTY"
    and tab: "pst (blocks bai ! i) = Some tab" and new: "tab ! off = SUBPAGE_NOT_INVALID"
  shows "\<exists>bai'. bdbm_abm_invalidate_page c k b p s bai = Inr bai' \<and> abm_ok bai' \<and> np bai' = np bai \<and>
    blocks bai' = (blocks bai)[i := (blocks bai ! i)\<lparr>pst := Some (tab[off := SUBPAGE_INVALID]), status := BLK_DIRTY,
       nr_invalid_subpages := nr_invalid_subpages (blocks bai ! i) + 1\<rparr>]"
proof -
  note nb = named_block [OF ok n, folded i_def]
  have i: "i < length (blocks bai)" "\<not> nr_blocks_per_ssd (np bai) \<le> i" using nb(1) ok by (auto simp: abm_ok_def)
  have off: "off < nr_subpages_per_block (np bai)" using subpage_offset [OF ok p] by (simp add: off_def)
  let ?o = "blocks bai ! i"
  have bo: "block_ok (np bai) i ?o" by (rule abm_okD(1) [OF ok i(1)])
  then have len: "length tab = nr_subpages_per_block (np bai)"
    and inv: "nr_invalid_subpages ?o = length (filter (\<lambda>x. x = SUBPAGE_INVALID) tab)"
    using tab by (simp_all add: block_ok_def pst_ok_def)
  have room: "\<not> nr_subpages_per_block (np bai) < Suc (nr_invalid_subpages ?o)"
    using count_not_full [of off tab] new off len inv by simp
  then have small: "Suc (nr_invalid_subpages ?o) mod 2 ^ 32 = Suc (nr_invalid_subpages ?o)"
    using ok unfolding abm_ok_def abm_geometry_def by (intro mod_less) linarith
  let ?t = "?o\<lparr>pst := Some (tab[off := SUBPAGE_INVALID])\<rparr>"
  let ?b = "?t\<lparr>status := BLK_DIRTY, nr_invalid_subpages := nr_invalid_subpages ?o + 1\<rparr>"
  let ?bai1 = "bai\<lparr>blocks := (blocks bai)[i := ?t]\<rparr>"
  have bok: "block_ok (np bai) i ?b" using bo count_mark [of off tab] new off len inv by (simp add: block_ok_def pst_ok_def)
  have "\<exists>bai2 L'. (if nr_invalid_subpages ?o = 0 then first_invalid i ?bai1 else Inr ?bai1) = Inr bai2 \<and> np bai2 = np bai \<and>
      blocks bai2 = (blocks bai)[i := ?t\<lparr>status := BLK_DIRTY\<rparr>] \<and> linked (np bai) (blocks bai2) (abm_links bai2) L' \<and> counted bai2"
  proof (cases "nr_invalid_subpages ?o = 0")
    case True
    then have "status ?o = BLK_CLEAN" using st bo by (auto simp: block_ok_def)
    then show ?thesis using True first_invalid_ok [OF ok i(1), of ?t] by simp
  next
    case False
    then have d: "status ?o = BLK_DIRTY" using bo by (simp add: block_ok_def)
    then have e: "?t\<lparr>status := BLK_DIRTY\<rparr> = ?t" by simp
    obtain L where L: "linked (np bai) (blocks bai) (abm_links bai) L" and ct: "counted bai" using ok by (auto simp: abm_ok_def)
    have "linked (np bai) ((blocks bai)[i := ?t]) (abm_links bai) L" by (rule linked_same_home [OF L i(1)]) (simp add: home_def d)
    then show ?thesis unfolding e using False ct i(1) by (auto simp: counted_def cnt_update_eq)
  qed
  then obtain bai2 L' where r: "(if nr_invalid_subpages ?o = 0 then first_invalid i ?bai1 else Inr ?bai1) = Inr bai2"
    "np bai2 = np bai" "blocks bai2 = (blocks bai)[i := ?t\<lparr>status := BLK_DIRTY\<rparr>]"
    "linked (np bai) (blocks bai2) (abm_links bai2) L'" "counted bai2" by blast
  let ?bai' = "bai2\<lparr>blocks := (blocks bai)[i := ?b]\<rparr>"
  have "linked (np bai) ((blocks bai2)[i := ?b]) (abm_links bai2) L'"
    by (rule linked_same_home [OF r(4)]) (use r(3) i(1) in \<open>simp_all add: home_def\<close>)
  moreover have "counted ?bai'" using r(3,5) i(1) cnt_update_eq [of i "blocks bai2" _ ?b] by (simp add: counted_def)
  ultimately have "abm_ok ?bai'" using r(2,3) by (intro abm_ok_step [OF ok i(1) bok]) simp_all
  moreover have "bdbm_abm_invalidate_page c k b p s bai = Inr ?bai'"
    using r(1,3) i nb tab new off p room len small
    by (simp add: bdbm_abm_invalidate_page_def bdbm_abm_get_block_def i_def [symmetric] off_def [symmetric] bug_on_def
        upd_blk_def names_subpage_def Let_def)
  ultimately show ?thesis using r(2) by auto
qed

section \<open>Creation\<close>

lemma heads_distinct: "distinct (abm_heads d)"
proof -
  have "distinct (concat (map (\<lambda>k. [HFree c k, HClean c k, HDirty c k, HBad c k]) [0..<n]))" for c n
    by (induction n) auto
  moreover have "distinct (concat (map (\<lambda>c. concat (map (\<lambda>k. [HFree c k, HClean c k, HDirty c k, HBad c k]) [0..<m])) [0..<n]))"
    if "\<And>c. distinct (concat (map (\<lambda>k. [HFree c k, HClean c k, HDirty c k, HBad c k]) [0..<m]))" for m n
    using that by (induction n) auto
  ultimately show ?thesis by (simp add: abm_heads_def)
qed

lemma linked_append:
  assumes lk: "linked d bs S L" and h: "home b \<in> set (abm_heads d)"
  shows "\<exists>S' L'. list_add_tail (ABlk (length bs)) (home b) S = Inr S' \<and> linked d (bs @ [b]) S' L'"
proof -
  let ?x = "ABlk (length bs)" and ?L' = "L(home b := L (home b) @ [ABlk (length bs)])"
  have R: "rings S (set (abm_heads d)) L" and mem: "\<And>h. h \<in> set (abm_heads d) \<Longrightarrow> set (L h) = ABlk ` {j. j < length bs \<and> home (bs ! j) = h}"
    using lk by (auto simp: linked_def)
  have "?x \<notin> set (abm_heads d)" by (auto simp: abm_heads_def)
  then have "?x \<notin> nodes (set (abm_heads d)) L" using mem by (auto simp: nodes_def)
  then obtain S' where S': "list_add_tail ?x (home b) S = Inr S'" "rings S' (set (abm_heads d)) ?L'"
    using list_add_tail_rings [OF R h] by blast
  have "set (?L' g) = ABlk ` {j. j < length (bs @ [b]) \<and> home ((bs @ [b]) ! j) = g}" if g: "g \<in> set (abm_heads d)" for g
  proof -
    have "{j. j < length (bs @ [b]) \<and> home ((bs @ [b]) ! j) = g} =
        {j. j < length bs \<and> home (bs ! j) = g} \<union> (if g = home b then {length bs} else {})"
      by (auto simp: nth_append less_Suc_eq)
    then show ?thesis using mem [OF g] by (auto simp: image_Un)
  qed
  then show ?thesis using S' unfolding linked_def by blast
qed

lemma cnt_all: "(\<And>b. b \<in> set bs \<Longrightarrow> status b = s) \<Longrightarrow> cnt t bs = (if t = s then length bs else 0)"
  by (induction bs) (auto simp: cnt_def)

lemma create_ok:
  assumes g: "abm_geometry d"
  shows "\<exists>bai. bdbm_abm_create d use_pst = Inr bai \<and> abm_ok bai \<and> np bai = d \<and>
           blocks bai = map (new_abm_block d use_pst) [0..<nr_blocks_per_ssd d]"
proof -
  let ?n = "nr_blocks_per_ssd d"
  define bs where "bs = map (new_abm_block d use_pst) [0..<?n]"
  have len: "length bs = ?n" and nth: "\<And>i. i < ?n \<Longrightarrow> bs ! i = new_abm_block d use_pst i" by (simp_all add: bs_def)
  have start: "\<exists>L. linked d (take 0 bs) (init_heads (abm_heads d)) L"
    using init_heads_rings [OF heads_distinct [of d]] by (auto simp: linked_def)
  have "\<exists>l. foldE (\<lambda>i l. list_add_tail (ABlk i) (HFree (channel_no (bs ! i)) (chip_no (bs ! i))) l) [0..<?n]
              (init_heads (abm_heads d)) = Inr l \<and> (\<exists>L. linked d (take ?n bs) l L)"
  proof (rule foldE_upt [where P = "\<lambda>i l. \<exists>L. linked d (take i bs) l L", OF start])
    fix i l
    assume i: "i < ?n" and "\<exists>L. linked d (take i bs) l L"
    then obtain L where L: "linked d (take i bs) l L" by blast
    have "home (bs ! i) \<in> set (abm_heads d)"
      using block_ofs_range [OF g i] by (simp add: nth [OF i] new_abm_block_def home_mem)
    then show "\<exists>l'. list_add_tail (ABlk i) (HFree (channel_no (bs ! i)) (chip_no (bs ! i))) l = Inr l' \<and>
        (\<exists>L. linked d (take (Suc i) bs) l' L)"
      using linked_append [OF L, of "bs ! i"] i len
      by (auto simp: home_def nth new_abm_block_def take_Suc_conv_app_nth)
  qed
  then obtain l L where l: "foldE (\<lambda>i l. list_add_tail (ABlk i) (HFree (channel_no (bs ! i)) (chip_no (bs ! i))) l) [0..<?n]
              (init_heads (abm_heads d)) = Inr l" "linked d bs l L" using len by auto
  have "block_ok d i (bs ! i)" if "i < ?n" for i
    by (auto simp: nth [OF that] new_abm_block_def block_ok_def pst_ok_def create_pst_def)
  moreover have "status b = BLK_FREE" if "b \<in> set bs" for b using that by (auto simp: bs_def new_abm_block_def)
  then have "cnt t bs = (if t = BLK_FREE then ?n else 0)" for t using cnt_all [of bs BLK_FREE t] len by simp
  ultimately show ?thesis
    using l g len by (auto simp: bdbm_abm_create_def Let_def bs_def [symmetric] abm_ok_def counted_def)
qed

section \<open>Sequences of operations\<close>

datatype abm_op =
  Prepare nat nat | Rollback nat | Commit nat | Erase nat nat nat bool | Set_Dirty nat nat nat | Invalidate nat nat nat nat nat

fun abm_step :: "abm_op \<Rightarrow> bdbm_abm_info \<Rightarrow> bdbm_abm_info res" where
  "abm_step (Prepare c k) bai = bindE (bdbm_abm_get_free_block_prepare c k bai) (\<lambda>(_, bai'). Inr bai')"
| "abm_step (Rollback i) bai = bdbm_abm_get_free_block_rollback i bai"
| "abm_step (Commit i) bai = bdbm_abm_get_free_block_commit i bai"
| "abm_step (Erase c k b bad) bai = bdbm_abm_erase_block c k b bad bai"
| "abm_step (Set_Dirty c k b) bai = bdbm_abm_set_to_dirty_block c k b bai"
| "abm_step (Invalidate c k b p s) bai = bdbm_abm_invalidate_page c k b p s bai"

text \<open>
  What the callers keep to: addresses are those of the device, only a prepared block is committed or rolled
  back, and only a page of a block that has been committed is invalidated.
\<close>

fun abm_legal :: "bdbm_abm_info \<Rightarrow> abm_op \<Rightarrow> bool" where
  "abm_legal bai (Prepare c k) \<longleftrightarrow> c < nr_channels (np bai) \<and> k < nr_chips_per_channel (np bai)"
| "abm_legal bai (Rollback i) \<longleftrightarrow> i < length (blocks bai) \<and> status (blocks bai ! i) = BLK_FREE_PREPARE"
| "abm_legal bai (Commit i) \<longleftrightarrow> i < length (blocks bai) \<and> status (blocks bai ! i) = BLK_FREE_PREPARE"
| "abm_legal bai (Erase c k b bad) \<longleftrightarrow> names_block bai c k b"
| "abm_legal bai (Set_Dirty c k b) \<longleftrightarrow> names_block bai c k b"
| "abm_legal bai (Invalidate c k b p s) \<longleftrightarrow> names_block bai c k b \<and> names_subpage bai p s \<and>
     (let st = status (blocks bai ! get_block_idx (np bai) c k b) in st = BLK_CLEAN \<or> st = BLK_DIRTY)"

text \<open>The life of a block: the status an operation moves it to.\<close>

inductive abm_reach :: "bdbm_device_params \<Rightarrow> bool \<Rightarrow> bdbm_abm_info \<Rightarrow> bool" for d use_pst where
  created: "bdbm_abm_create d use_pst = Inr bai \<Longrightarrow> abm_reach d use_pst bai"
| stepped: "abm_reach d use_pst bai \<Longrightarrow> abm_legal bai p \<Longrightarrow> abm_step p bai = Inr bai' \<Longrightarrow> abm_reach d use_pst bai'"

lemma invalidate_again:
  assumes ok: "abm_ok bai" and n: "names_block bai c k b" and p: "names_subpage bai p s"
    and tab: "\<And>tab. pst (blocks bai ! get_block_idx (np bai) c k b) = Some tab \<Longrightarrow>
        tab ! (p * nr_subpages_per_page (np bai) + s) = SUBPAGE_INVALID"
  shows "bdbm_abm_invalidate_page c k b p s bai = Inr bai"
proof -
  note nb = named_block [OF ok n]
  have off: "p * nr_subpages_per_page (np bai) + s < nr_subpages_per_block (np bai)" by (rule subpage_offset [OF ok p])
  have "\<not> nr_blocks_per_ssd (np bai) \<le> get_block_idx (np bai) c k b" using nb(1) ok by (auto simp: abm_ok_def)
  then show ?thesis
    using nb off p tab abm_okD(1) [OF ok nb(1)]
    by (auto simp: bdbm_abm_invalidate_page_def bdbm_abm_get_block_def bug_on_def names_subpage_def Let_def
        block_ok_def pst_ok_def split: option.splits)
qed

lemma abm_step_ok:
  assumes ok: "abm_ok bai" and legal: "abm_legal bai p"
  shows "\<exists>bai'. abm_step p bai = Inr bai' \<and> abm_ok bai' \<and> np bai' = np bai"
proof (cases p)
  case (Prepare c k)
  show ?thesis
  proof (cases "\<exists>i. on_chip bai c k BLK_FREE i")
    case True
    then show ?thesis using prepare_free_ok [OF ok _ _ True] legal Prepare by auto
  next
    case False
    then show ?thesis using prepare_none_free [OF ok _ _ False] legal Prepare ok by auto
  qed
next
  case (Invalidate c k b q s)
  let ?tab = "pst (blocks bai ! get_block_idx (np bai) c k b)" and ?off = "q * nr_subpages_per_page (np bai) + s"
  have lg: "names_block bai c k b" "names_subpage bai q s"
    "status (blocks bai ! get_block_idx (np bai) c k b) = BLK_CLEAN \<or> status (blocks bai ! get_block_idx (np bai) c k b) = BLK_DIRTY"
    using legal Invalidate by (simp_all add: Let_def)
  show ?thesis
  proof (cases "\<exists>tab. ?tab = Some tab \<and> tab ! ?off = SUBPAGE_NOT_INVALID")
    case True
    then obtain tab where "?tab = Some tab" "tab ! ?off = SUBPAGE_NOT_INVALID" by blast
    then show ?thesis using invalidate_ok [OF ok lg] unfolding Invalidate abm_step.simps by blast
  next
    case False
    have "bdbm_abm_invalidate_page c k b q s bai = Inr bai"
    proof (rule invalidate_again [OF ok lg(1,2)])
      fix tab
      assume "?tab = Some tab"
      then show "tab ! ?off = SUBPAGE_INVALID" using False by (cases "tab ! ?off") simp_all
    qed
    then show ?thesis using Invalidate ok by simp
  qed
next
  case (Rollback i)
  then show ?thesis using rollback_ok [OF ok, of i] legal by auto
next
  case (Commit i)
  then show ?thesis using commit_ok [OF ok, of i] legal by auto
next
  case (Erase c k b bad)
  then show ?thesis using erase_ok [OF ok, of c k b bad] legal by auto
next
  case (Set_Dirty c k b)
  then show ?thesis using set_to_dirty_ok [OF ok, of c k b] legal by auto
qed

lemma abm_reach_ok: "abm_reach d use_pst bai \<Longrightarrow> abm_geometry d \<Longrightarrow> abm_ok bai \<and> np bai = d"
proof (induction rule: abm_reach.induct)
  case (created bai)
  then show ?case using create_ok [of d use_pst] by auto
next
  case (stepped bai p bai')
  then show ?case using abm_step_ok [of bai p] by auto
qed

text \<open>Every list holds exactly the blocks that belong to it, each once, and a walk over it ends.\<close>

lemma abm_lists:
  assumes ok: "abm_ok bai" and h: "h \<in> set (abm_heads (np bai))"
  shows "\<exists>xs. list_for_each (length (blocks bai) + 1) (\<lambda>_. False) h (abm_links bai) = Inr xs \<and> distinct xs \<and>
           set xs = ABlk ` {i. i < length (blocks bai) \<and> home (blocks bai ! i) = h}"
proof -
  obtain L where R: "rings (abm_links bai) (set (abm_heads (np bai))) L"
    and mem: "set (L h) = ABlk ` {i. i < length (blocks bai) \<and> home (blocks bai ! i) = h}"
    using ok h by (auto simp: abm_ok_def linked_def)
  have dist: "distinct (L h)" using rings_ring [OF R h] by (simp add: ring_def)
  then have "length (L h) = card (set (L h))" by (simp add: distinct_card)
  also have "\<dots> \<le> card (ABlk ` {..<length (blocks bai)})" unfolding mem by (intro card_mono) auto
  also have "\<dots> \<le> length (blocks bai)" using card_image_le [of "{..<length (blocks bai)}" ABlk] by simp
  finally show ?thesis using list_for_each_rings [OF R h, of "length (blocks bai) + 1" "\<lambda>_. False"] dist mem by auto
qed

section \<open>Properties\<close>

text \<open>
  C20: In every state reached from a created block manager by operations on addresses of the device, commits
  and rollbacks of prepared blocks and invalidations in committed blocks, the next such operation ends
  without an assertion failing. Afterwards the six counters are the numbers of blocks of each status, and the
  free, clean, dirty and bad list of every chip, walked over, holds each block of that chip and status once.
\<close>

theorem abm_counts_and_lists_agree:
  assumes "abm_geometry d" "abm_reach d use_pst bai" "abm_legal bai p"
  shows "\<exists>bai'. abm_step p bai = Inr bai' \<and> counted bai' \<and>
    (\<forall>h \<in> set (abm_heads d). \<exists>xs. list_for_each (length (blocks bai') + 1) (\<lambda>_. False) h (abm_links bai') = Inr xs \<and>
       distinct xs \<and> set xs = ABlk ` {i. i < length (blocks bai') \<and> home (blocks bai' ! i) = h})"
proof -
  obtain bai' where s: "abm_step p bai = Inr bai'" and ok: "abm_ok bai'" and d: "np bai' = d"
    using abm_step_ok [OF _ assms(3)] abm_reach_ok [OF assms(2,1)] by auto
  have "counted bai'" using ok by (simp add: abm_ok_def)
  then show ?thesis using s abm_lists [OF ok, unfolded d] by blast
qed

text \<open>A device of one chip with two blocks of one page, each of two subpages.\<close>

definition small_device :: bdbm_device_params where
  "small_device = \<lparr>nr_channels = 1, nr_chips_per_channel = 1, nr_blocks_per_chip = 2,
     nr_blocks_per_channel = 2, nr_blocks_per_ssd = 2, nr_pages_per_block = 1, nr_subpages_per_page = 2, nr_subpages_per_block = 2\<rparr>"

lemma small_geometry: "abm_geometry small_device"
  by (simp add: abm_geometry_def small_device_def)

lemma small_created:
  "\<exists>bai. bdbm_abm_create small_device True = Inr bai \<and> abm_ok bai \<and> np bai = small_device \<and> length (blocks bai) = 2 \<and>
     on_chip bai 0 0 BLK_FREE 0 \<and> on_chip bai 0 0 BLK_FREE 1"
proof -
  obtain bai where b: "bdbm_abm_create small_device True = Inr bai" "abm_ok bai" "np bai = small_device"
    "blocks bai = map (new_abm_block small_device True) [0..<nr_blocks_per_ssd small_device]"
    using create_ok [OF small_geometry] by blast
  then show ?thesis
    by (simp add: on_chip_def small_device_def new_abm_block_def get_channel_ofs_def get_chip_ofs_def)
qed

theorem abm_counts_and_lists_agree_witness:
  "\<exists>bai bai'. bdbm_abm_create small_device True = Inr bai \<and> abm_step (Prepare 0 0) bai = Inr bai' \<and> counted bai'"
proof -
  obtain bai where b: "bdbm_abm_create small_device True = Inr bai" "np bai = small_device" using small_created by blast
  have "abm_legal bai (Prepare 0 0)" using b(2) by (simp add: small_device_def)
  then show ?thesis using abm_counts_and_lists_agree [OF small_geometry abm_reach.created [OF b(1)]] b(1) by blast
qed

text \<open>
  C22: What asking a chip for a free block gives, in every reachable state: a free block of that chip, which
  is prepared afterwards while every other block is as before; when the chip has no free block, a block that
  somebody else has already prepared and not committed, if there is one, with nothing changed; and nothing
  otherwise. In the second case two callers hold the same block.
\<close>

theorem abm_prepare_result:
  assumes "abm_geometry d" "abm_reach d use_pst bai" "c < nr_channels d" "k < nr_chips_per_channel d"
  shows "\<exists>r bai'. bdbm_abm_get_free_block_prepare c k bai = Inr (r, bai') \<and>
    (if \<exists>i. on_chip bai c k BLK_FREE i then
       \<exists>i. r = Some i \<and> on_chip bai c k BLK_FREE i \<and> blocks bai' = (blocks bai)[i := (blocks bai ! i)\<lparr>status := BLK_FREE_PREPARE\<rparr>]
     else bai' = bai \<and>
       (if \<exists>i. on_chip bai c k BLK_FREE_PREPARE i then \<exists>i. r = Some i \<and> on_chip bai c k BLK_FREE_PREPARE i else r = None))"
proof -
  have ok: "abm_ok bai" "c < nr_channels (np bai)" "k < nr_chips_per_channel (np bai)"
    using abm_reach_ok [OF assms(2,1)] assms(3,4) by auto
  show ?thesis
  proof (cases "\<exists>i. on_chip bai c k BLK_FREE i")
    case True
    then show ?thesis using prepare_free_ok [OF ok True] by (simp only: if_True) blast
  next
    case False
    obtain r where r: "bdbm_abm_get_free_block_prepare c k bai = Inr (r, bai)"
      "case r of None \<Rightarrow> (\<nexists>i. on_chip bai c k BLK_FREE_PREPARE i) | Some i \<Rightarrow> on_chip bai c k BLK_FREE_PREPARE i"
      using prepare_none_free [OF ok False] by blast
    then show ?thesis using False by (cases r) auto
  qed
qed

theorem abm_prepare_result_witness:
  "\<exists>bai i bai'. bdbm_abm_create small_device True = Inr bai \<and>
     bdbm_abm_get_free_block_prepare 0 0 bai = Inr (Some i, bai') \<and> on_chip bai 0 0 BLK_FREE i \<and>
     status (blocks bai' ! i) = BLK_FREE_PREPARE"
proof -
  obtain bai where b: "bdbm_abm_create small_device True = Inr bai" "on_chip bai 0 0 BLK_FREE 0" using small_created by blast
  have "0 < nr_channels small_device" "0 < nr_chips_per_channel small_device" by (simp_all add: small_device_def)
  note r = abm_prepare_result [OF small_geometry abm_reach.created [OF b(1)] this]
  have "\<exists>i. on_chip bai 0 0 BLK_FREE i" using b(2) by blast
  then obtain i bai' where "bdbm_abm_get_free_block_prepare 0 0 bai = Inr (Some i, bai')" "on_chip bai 0 0 BLK_FREE i"
    "blocks bai' = (blocks bai)[i := (blocks bai ! i)\<lparr>status := BLK_FREE_PREPARE\<rparr>]" using r by (simp only: if_True) blast
  then show ?thesis using b(1) by (fastforce simp: on_chip_def)
qed

text \<open>
  C23: Invalidating a subpage of a committed block, in every reachable state of a manager with page status
  tables: the subpage is marked in the table of its block, the block is dirty, and its count of invalid
  subpages is the number of marks in the table, one more than before if the subpage was not yet marked and
  the same otherwise; no other block changes.
\<close>

theorem abm_invalidate_marks_once:
  assumes "abm_geometry d" "abm_reach d use_pst bai" "abm_legal bai (Invalidate c k b p s)"
    and tab: "pst (blocks bai ! get_block_idx d c k b) = Some tab"
  shows "\<exists>bai'. bdbm_abm_invalidate_page c k b p s bai = Inr bai' \<and>
    (let i = get_block_idx d c k b; off = p * nr_subpages_per_page d + s; b' = blocks bai' ! i in
     pst b' = Some (tab[off := SUBPAGE_INVALID]) \<and> status b' = BLK_DIRTY \<and>
     nr_invalid_subpages b' = length (filter (\<lambda>x. x = SUBPAGE_INVALID) (tab[off := SUBPAGE_INVALID])) \<and>
     nr_invalid_subpages b' = nr_invalid_subpages (blocks bai ! i) + (if tab ! off = SUBPAGE_INVALID then 0 else 1) \<and>
     (\<forall>j. j \<noteq> i \<longrightarrow> blocks bai' ! j = blocks bai ! j))"
proof -
  let ?i = "get_block_idx d c k b" and ?off = "p * nr_subpages_per_page d + s"
  have ok: "abm_ok bai" and d: "np bai = d" using abm_reach_ok [OF assms(2,1)] by auto
  have lg: "names_block bai c k b" "names_subpage bai p s"
    "status (blocks bai ! ?i) = BLK_CLEAN \<or> status (blocks bai ! ?i) = BLK_DIRTY"
    using assms(3) d by (simp_all add: Let_def)
  have i: "?i < length (blocks bai)" using named_block(1) [OF ok lg(1)] d by simp
  have len: "length tab = nr_subpages_per_block d" and inv: "nr_invalid_subpages (blocks bai ! ?i) = length (filter (\<lambda>x. x = SUBPAGE_INVALID) tab)"
    and dirty: "status (blocks bai ! ?i) = BLK_DIRTY \<longleftrightarrow> 0 < nr_invalid_subpages (blocks bai ! ?i)"
    using abm_okD(1) [OF ok i] tab d by (simp_all add: block_ok_def pst_ok_def)
  have off: "?off < length tab" using subpage_offset [OF ok lg(2)] d len by simp
  show ?thesis
  proof (cases "tab ! ?off")
    case SUBPAGE_NOT_INVALID
    obtain bai' where "bdbm_abm_invalidate_page c k b p s bai = Inr bai'"
      "blocks bai' = (blocks bai)[?i := (blocks bai ! ?i)\<lparr>pst := Some (tab[?off := SUBPAGE_INVALID]), status := BLK_DIRTY,
         nr_invalid_subpages := nr_invalid_subpages (blocks bai ! ?i) + 1\<rparr>]"
      using invalidate_ok [OF ok lg(1,2), unfolded d, OF lg(3) tab SUBPAGE_NOT_INVALID] by blast
    then show ?thesis using i inv count_mark [OF off SUBPAGE_NOT_INVALID] SUBPAGE_NOT_INVALID by (auto simp: Let_def)
  next
    case SUBPAGE_INVALID
    then have same: "tab[?off := SUBPAGE_INVALID] = tab" by (metis list_update_id)
    have "SUBPAGE_INVALID \<in> set tab" using SUBPAGE_INVALID off by (metis nth_mem)
    then have "0 < nr_invalid_subpages (blocks bai ! ?i)" unfolding inv by (auto simp: filter_empty_conv)
    then show ?thesis
      using invalidate_again [OF ok lg(1,2), unfolded d] SUBPAGE_INVALID tab inv dirty same by (auto simp: Let_def)
  qed
qed

lemma small_committed:
  "\<exists>bai b. abm_reach small_device True bai \<and> np bai = small_device \<and> b < 2 \<and> status (blocks bai ! b) = BLK_CLEAN \<and>
     pst (blocks bai ! b) = Some (replicate 2 SUBPAGE_NOT_INVALID) \<and> nr_invalid_subpages (blocks bai ! b) = 0"
proof -
  obtain bai0 where c: "bdbm_abm_create small_device True = Inr bai0" "abm_ok bai0" "np bai0 = small_device"
    "blocks bai0 = map (new_abm_block small_device True) [0..<nr_blocks_per_ssd small_device]"
    using create_ok [OF small_geometry] by blast
  have f: "\<exists>i. on_chip bai0 0 0 BLK_FREE i" using small_created c(1) by auto
  have lim: "0 < nr_channels (np bai0)" "0 < nr_chips_per_channel (np bai0)" using c(3) by (simp_all add: small_device_def)
  obtain i bai1 where p: "bdbm_abm_get_free_block_prepare 0 0 bai0 = Inr (Some i, bai1)" "on_chip bai0 0 0 BLK_FREE i"
    "abm_ok bai1" "np bai1 = np bai0" "blocks bai1 = (blocks bai0)[i := (blocks bai0 ! i)\<lparr>status := BLK_FREE_PREPARE\<rparr>]"
    using prepare_free_ok [OF c(2) lim f] by blast
  have i: "i < length (blocks bai1)" "i < 2" "status (blocks bai1 ! i) = BLK_FREE_PREPARE"
    using p(2,5) c(4) by (auto simp: on_chip_def small_device_def)
  obtain bai2 where m: "bdbm_abm_get_free_block_commit i bai1 = Inr bai2" "np bai2 = np bai1"
    "blocks bai2 = (blocks bai1)[i := (blocks bai1 ! i)\<lparr>status := BLK_CLEAN\<rparr>]" using commit_ok [OF p(3) i(1,3)] by blast
  have "abm_reach small_device True bai1"
    by (rule abm_reach.stepped [OF abm_reach.created [OF c(1)], of "Prepare 0 0"]) (use lim p(1) in simp_all)
  then have "abm_reach small_device True bai2"
    by (rule abm_reach.stepped [of _ _ _ "Commit i"]) (use i m(1) in simp_all)
  moreover have "blocks bai2 ! i = (new_abm_block small_device True i)\<lparr>status := BLK_CLEAN\<rparr>"
    using m(3) p(5) c(4) i(2) by (simp add: small_device_def)
  ultimately show ?thesis using i(2) m(2) p(4) c(3)
    by (intro exI [of _ bai2] exI [of _ i]) (simp add: new_abm_block_def create_pst_def small_device_def)
qed

theorem abm_invalidate_marks_once_witness:
  "\<exists>bai b bai'. abm_reach small_device True bai \<and> bdbm_abm_invalidate_page 0 0 b 0 1 bai = Inr bai' \<and>
     pst (blocks bai' ! b) = Some [SUBPAGE_NOT_INVALID, SUBPAGE_INVALID] \<and> nr_invalid_subpages (blocks bai' ! b) = 1"
proof -
  obtain bai b where b: "abm_reach small_device True bai" "np bai = small_device" "b < 2" "status (blocks bai ! b) = BLK_CLEAN"
     "pst (blocks bai ! b) = Some (replicate 2 SUBPAGE_NOT_INVALID)" "nr_invalid_subpages (blocks bai ! b) = 0"
    using small_committed by blast
  have idx: "get_block_idx small_device 0 0 b = b" by (simp add: get_block_idx_def)
  have "abm_legal bai (Invalidate 0 0 b 0 1)"
    using b idx by (simp add: names_block_def names_subpage_def) (simp add: small_device_def)
  from abm_invalidate_marks_once [OF small_geometry b(1) this, unfolded idx, OF b(5)] show ?thesis
    using b(1,6) by (fastforce simp: Let_def small_device_def numeral_2_eq_2)
qed

end
