(* ===== verification/Page_Ftl.thy ===== *)
theory Page_Ftl
  imports Bm_Pages Posix_Mem
begin

text \<open>
  The page-mapped translation layer of \<^verbatim>\<open>src/algorithm/Page_ftl\<close>, over the block manager of
  \<^verbatim>\<open>src/blockmanager/base_block_manager.c\<close> and the in-memory device of \<^verbatim>\<open>src/lower/posix_memory/posix.c\<close>. A
  write takes the next page of the active segment and enters it in the table \<open>mapping\<close>; a read looks the
  page up. When the active segment is full and no block is free, the collector copies the valid pages of a
  victim to the reserve segment and erases the victim. The theory shows that as long as the collector does not
  run every read returns what was written last, and that the collector, which leaves \<open>mapping\<close> as it is,
  loses the pages it moves.
\<close>

section \<open>State and requests\<close>

text \<open>
  The global \<open>page_ftl\<close>: its block manager, its device and the fields of its \<open>algo_body\<close>. The fields \<open>isfull\<close>
  and \<open>assign_page\<close> of \<open>pm_body\<close> are used nowhere.
\<close>

record page_ftl =
  pf_bm :: bbm_pri
  pf_li :: posix
  mapping :: "nat list"
  reserve :: addr
  active :: addr

record request =
  r_key :: nat
  r_value :: value_set

record gc_value =
  gv_ppa :: nat
  gv_value :: value_set
  isdone :: bool

definition DATAR :: nat where "DATAR = 5"
definition DATAW :: nat where "DATAW = 6"
definition GCDR :: nat where "GCDR = 7"
definition GCDW :: nat where "GCDW = 8"

text \<open>The conversion of an \<open>int\<close> to \<open>uint32_t\<close>.\<close>

definition to_u32 :: "int \<Rightarrow> nat" where
  "to_u32 i = nat (i mod 2 ^ 32)"

section \<open>The map\<close>

definition page_map_create :: "nat \<Rightarrow> bbm_pri \<Rightarrow> posix \<Rightarrow> page_ftl res" where
  "page_map_create nop p li =
     bindE (base_get_segment True p) (\<lambda>(r, p1).
     bindE (base_get_segment False p1) (\<lambda>(a, p2).
       Inr \<lparr>pf_bm = p2, pf_li = li, mapping = replicate nop UINT_MAX, reserve = r, active = a\<rparr>))"

definition invalidate_ppa :: "nat \<Rightarrow> page_ftl \<Rightarrow> page_ftl res" where
  "invalidate_ppa ppa s = bindE (base_unpopulate_bit ppa (pf_bm s)) (\<lambda>(_, p). Inr (s\<lparr>pf_bm := p\<rparr>))"

definition validate_ppa :: "nat \<Rightarrow> nat \<Rightarrow> page_ftl \<Rightarrow> page_ftl res" where
  "validate_ppa ppa lba s =
     bindE (base_populate_bit ppa (pf_bm s)) (\<lambda>(_, p).
     bindE (base_set_oob (bytes32 lba) 4 ppa p) (\<lambda>p'. Inr (s\<lparr>pf_bm := p'\<rparr>)))"

definition page_map_pick :: "nat \<Rightarrow> page_ftl \<Rightarrow> nat res" where
  "page_map_pick lba s = bindE (index (mapping s) lba) (\<lambda>res. if res = UINT_MAX then Inl Abort else Inr res)"

definition page_map_gc_update :: "nat \<Rightarrow> nat \<Rightarrow> page_ftl \<Rightarrow> (nat \<times> page_ftl) res" where
  "page_map_gc_update lba ppa s =
     bindE (base_get_page_num (reserve s) (pf_bm s)) (\<lambda>(x, p).
       let res = to_u32 x in
       bindE (invalidate_ppa ppa (s\<lparr>pf_bm := p\<rparr>)) (\<lambda>s1.
       bindE (validate_ppa res lba s1) (\<lambda>s2. Inr (res, s2))))"

section \<open>The collector\<close>

text \<open>
  The callback the device runs at the end of a request: a read is marked as done, a write releases its
  buffer. The device is synchronous, so the callback has run when the request returns.
\<close>

definition page_gc_end_req :: "nat \<Rightarrow> gc_value \<Rightarrow> gc_value option" where
  "page_gc_end_req type gv = (if type = GCDR then Some (gv\<lparr>isdone := True\<rparr>) else if type = GCDW then None else Some gv)"

text \<open>
  \<open>buf\<close> is the value set that \<open>inf_get_valueset\<close> returns, \<open>fresh\<close> the page that \<open>malloc\<close> returns. The collector gets a
  value set of its own for every page it reads: there \<open>buf\<close> is a function of the page.
\<close>

definition send_req_read :: "value_set \<Rightarrow> nat \<Rightarrow> page_ftl \<Rightarrow> (gc_value option \<times> page_ftl) res" where
  "send_req_read buf ppa s =
     bindE (posix_pull_data ppa PAGESIZE buf \<lparr>ar_ppa = 0, ar_type = GCDR, ar_type_lower = 0\<rparr> (pf_li s)) (\<lambda>(v, _, li).
       Inr (page_gc_end_req GCDR \<lparr>gv_ppa = ppa, gv_value = v, isdone = False\<rparr>, s\<lparr>pf_li := li\<rparr>))"

definition send_req_write :: "u8 list \<Rightarrow> nat \<Rightarrow> gc_value \<Rightarrow> page_ftl \<Rightarrow> page_ftl res" where
  "send_req_write fresh ppa gv s =
     bindE (posix_push_data fresh ppa PAGESIZE (gv_value gv) \<lparr>ar_ppa = 0, ar_type = GCDW, ar_type_lower = 0\<rparr> (pf_li s)) (\<lambda>li.
       case page_gc_end_req GCDW gv of None \<Rightarrow> Inr (s\<lparr>pf_li := li\<rparr>) | Some _ \<Rightarrow> Inr (s\<lparr>pf_li := li\<rparr>))"

text \<open>One round of \<open>for_each_page_in_seg\<close> over the victim.\<close>

definition gc_read :: "(nat \<Rightarrow> value_set) \<Rightarrow> gsegment \<Rightarrow> nat \<times> nat \<Rightarrow> page_ftl \<times> gc_value list \<Rightarrow> (page_ftl \<times> gc_value list) res" where
  "gc_read buf target = (\<lambda>(pidx, bidx) (s, gvs).
     bindE (index (g_blocks target) bidx) (\<lambda>b.
     bindE (index (base_block (pf_bm s)) b) (\<lambda>bl.
       let page = PPAMAKER bl pidx in
       bindE (base_is_invalid_page page (pf_bm s)) (\<lambda>inv.
         if inv then Inr (s, gvs)
         else bindE (send_req_read (buf page) page s) (\<lambda>(gv, s1).
                Inr (s1, gvs @ (case gv of Some g \<Rightarrow> [g] | None \<Rightarrow> [])))))))"

text \<open>
  One node of the list of pages that were read. The outer loop polls until all reads are done; a read that
  is not done after the request has returned would be polled forever.
\<close>

definition gc_move :: "u8 list \<Rightarrow> gc_value \<Rightarrow> page_ftl \<Rightarrow> page_ftl res" where
  "gc_move fresh gv s =
     (if \<not> isdone gv then Inl Hang
      else
        bindE (base_get_oob (gv_ppa gv) (pf_bm s)) (\<lambda>oob.
        bindE (page_map_gc_update (of_bytes32 oob) (gv_ppa gv) s) (\<lambda>(res, s1).
          send_req_write fresh res gv s1)))"

definition do_gc :: "(nat \<Rightarrow> value_set) \<Rightarrow> u8 list \<Rightarrow> page_ftl \<Rightarrow> page_ftl res" where
  "do_gc buf fresh s =
     bindE (base_get_gc_target (pf_bm s)) (\<lambda>(target, p1).
     bindE (foldE (gc_read buf target) (List.product [0..<PPB] [0..<BPS]) (s\<lparr>pf_bm := p1\<rparr>, [])) (\<lambda>(s2, gvs).
     bindE (foldE (gc_move fresh) gvs s2) (\<lambda>s3.
     bindE (base_trim_segment posix_trim_a_block target (pf_bm s3) (pf_li s3)) (\<lambda>(p4, li4).
     bindE (base_change_reserve (reserve s3) p4) (\<lambda>(r, p5).
       Inr (s3\<lparr>pf_bm := p5, pf_li := li4, active := reserve s3, reserve := r\<rparr>))))))"

section \<open>Assigning pages\<close>

text \<open>
  The loop at \<open>retry\<close>. A round that does not return takes a segment, which aborts when no block is free, so
  there are at most as many rounds as free blocks and one more.
\<close>

fun retry :: "nat \<Rightarrow> page_ftl \<Rightarrow> (nat \<times> page_ftl) res" where
  "retry 0 s = Inl Hang"
| "retry (Suc n) s =
     bindE (base_get_page_num (active s) (pf_bm s)) (\<lambda>(x, p).
       if to_u32 x = UINT_MAX then
         bindE (base_get_segment False p) (\<lambda>(a, p1). retry n (s\<lparr>pf_bm := p1, active := a\<rparr>))
       else Inr (to_u32 x, s\<lparr>pf_bm := p\<rparr>))"

definition page_map_assign :: "(nat \<Rightarrow> value_set) \<Rightarrow> u8 list \<Rightarrow> nat \<Rightarrow> page_ftl \<Rightarrow> (nat \<times> page_ftl) res" where
  "page_map_assign buf fresh lba s =
     bindE (base_check_full (active s) MASTER_PAGE (pf_bm s)) (\<lambda>full.
     bindE (if full then base_is_gc_needed (pf_bm s) else Inr False) (\<lambda>gc.
     bindE (if gc then do_gc buf fresh s else Inr s) (\<lambda>s1.
     bindE (index (mapping s1) lba) (\<lambda>old.
     bindE (if old \<noteq> UINT_MAX then invalidate_ppa old s1 else Inr s1) (\<lambda>s2.
     bindE (retry (q_size (free_block (chan (pf_bm s2) 0)) + 2) s2) (\<lambda>(res, s3).
     bindE (validate_ppa res lba s3) (\<lambda>s4.
       Inr (res, s4\<lparr>mapping := (mapping s4)[lba := res]\<rparr>))))))))"

section \<open>Requests\<close>

definition page_create :: "nat \<Rightarrow> posix \<Rightarrow> bbm_pri \<Rightarrow> page_ftl res" where
  "page_create nop li bm = page_map_create nop bm li"

definition page_read :: "request \<Rightarrow> page_ftl \<Rightarrow> (request \<times> page_ftl) res" where
  "page_read req s =
     bindE (page_map_pick (r_key req) s) (\<lambda>ppa.
     bindE (posix_pull_data ppa PAGESIZE (r_value req) \<lparr>ar_ppa = 0, ar_type = DATAR, ar_type_lower = 0\<rparr> (pf_li s)) (\<lambda>(v, _, li).
       Inr (req\<lparr>r_value := v\<rparr>, s\<lparr>pf_li := li\<rparr>)))"

text \<open>The key is copied over the first bytes of the value.\<close>

definition stamped :: "nat \<Rightarrow> value_set \<Rightarrow> value_set" where
  "stamped key v = v\<lparr>vs_value := bytes32 key @ drop 4 (vs_value v)\<rparr>"

definition page_write :: "(nat \<Rightarrow> value_set) \<Rightarrow> u8 list \<Rightarrow> request \<Rightarrow> page_ftl \<Rightarrow> (request \<times> page_ftl) res" where
  "page_write buf fresh req s =
     (if length (vs_value (r_value req)) < 4 then Inl Bad_Access
      else
        let req1 = req\<lparr>r_value := stamped (r_key req) (r_value req)\<rparr> in
        bindE (page_map_assign buf fresh (r_key req) s) (\<lambda>(ppa, s1).
        bindE (posix_push_data fresh ppa PAGESIZE (r_value req1) \<lparr>ar_ppa = 0, ar_type = DATAW, ar_type_lower = 0\<rparr> (pf_li s1)) (\<lambda>li.
          Inr (req1, s1\<lparr>pf_li := li\<rparr>))))"

definition page_remove :: "request \<Rightarrow> page_ftl \<Rightarrow> page_ftl res" where
  "page_remove req s = bindE (posix_trim_block (r_key req) (pf_li s)) (\<lambda>li. Inr (s\<lparr>pf_li := li\<rparr>))"

section \<open>Invariant\<close>

text \<open>The blocks of a segment, and the address of a page of a block.\<close>

definition seg_blocks :: "bbm_pri \<Rightarrow> addr \<Rightarrow> blk list" where
  "seg_blocks p a = (case segs p a of None \<Rightarrow> [] | Some s \<Rightarrow> s_blocks s)"

definition page_of :: "blk \<Rightarrow> nat \<Rightarrow> nat" where
  "page_of b pg = b div BPS * PPS + pg * 2 ^ 6 + b mod BPS"

text \<open>The active segment has handed out \<open>n\<close> pages and the collector may take its blocks.\<close>

definition seg_live :: "bbm_pri \<Rightarrow> addr \<Rightarrow> nat \<Rightarrow> bool" where
  "seg_live p a n \<longleftrightarrow> taken p a n \<and> n \<le> PPS \<and> (\<forall>j < BPS. seg_blocks p a ! j \<in># used p j)"

text \<open>
  The reserve segment has handed out \<open>n\<close> pages; its blocks are neither free nor up for collection, and the
  key they record leads to it.
\<close>

definition owned :: "bbm_pri \<Rightarrow> addr \<Rightarrow> bool" where
  "owned p r \<longleftrightarrow> (\<forall>j < BPS. seg_map p (b_seg_idx (base_block p ! (seg_blocks p r ! j))) = Some r)"

definition seg_kept :: "nat \<Rightarrow> bbm_pri \<Rightarrow> addr \<Rightarrow> nat \<Rightarrow> bool" where
  "seg_kept nos p r n \<longleftrightarrow> taken p r n \<and> owned p r \<and> (\<forall>j < BPS. limbo nos p j (seg_blocks p r ! j))"

text \<open>A free block has handed out no page, and pages not yet handed out are not written.\<close>

definition unwritten :: "nat \<Rightarrow> bbm_pri \<Rightarrow> posix \<Rightarrow> bool" where
  "unwritten nos p li \<longleftrightarrow> (\<forall>b < nos * BPS.
     (b \<in> set (frees p (b mod BPS)) \<longrightarrow> b_now (base_block p ! b) = 0) \<and>
     (\<forall>pg < PPB. b_now (base_block p ! b) \<le> pg \<longrightarrow> page_at li (page_of b pg) = None))"

definition device_ok :: "nat \<Rightarrow> posix \<Rightarrow> bool" where
  "device_ok nos li \<longleftrightarrow> dev_ok li \<and> p_start li = 0 \<and> p_nop li = nos * PPS \<and> nos * PPS \<le> UINT_MAX"

definition pf_ok :: "nat \<Rightarrow> page_ftl \<Rightarrow> nat \<Rightarrow> bool" where
  "pf_ok nos s n \<longleftrightarrow> bm_ok nos (pf_bm s) \<and> device_ok nos (pf_li s) \<and> seg_live (pf_bm s) (active s) n \<and>
     seg_kept nos (pf_bm s) (reserve s) 0 \<and> unwritten nos (pf_bm s) (pf_li s)"

text \<open>The table leads to the value of each logical page that has one.\<close>

definition stores :: "nat \<Rightarrow> page_ftl \<Rightarrow> (nat \<rightharpoonup> u8 list) \<Rightarrow> bool" where
  "stores nos s M \<longleftrightarrow> (\<forall>lba < length (mapping s).
     case M lba of None \<Rightarrow> mapping s ! lba = UINT_MAX
     | Some v \<Rightarrow> mapping s ! lba < nos * PPS \<and> page_at (pf_li s) (mapping s ! lba) = Some v)"

subsection \<open>Addresses\<close>

lemma page_of_addr [simp]: "pg < PPB \<Longrightarrow> GETBLOCKIDX (page_of b pg) = b" "pg < PPB \<Longrightarrow> GETPAGEIDX (page_of b pg) = pg"
  unfolding page_of_def by (rule block_addr, assumption)+

lemma page_of_idx: "page_of (GETBLOCKIDX ppa) (GETPAGEIDX ppa) = ppa"
  using addr_block [of ppa] by (simp add: page_of_def)

lemma page_of_bound:
  assumes "b < nos * BPS" "pg < PPB"
  shows "page_of b pg < nos * PPS"
proof -
  have "b div BPS < nos" using assms(1) by (simp add: less_mult_imp_div_less)
  then have "Suc (b div BPS) * PPS \<le> nos * PPS" by (intro mult_le_mono1) simp
  moreover have "b mod BPS < 64" "pg \<le> 255" using assms(2) by (simp_all add: BPS_def PPB_def)
  ultimately show ?thesis by (simp add: page_of_def)
qed

lemma block_idx_bound:
  assumes "ppa < nos * PPS"
  shows "GETBLOCKIDX ppa < nos * BPS"
proof -
  have "ppa div 2 ^ 14 < nos" using assms by (simp add: less_mult_imp_div_less)
  then have "Suc (ppa div 2 ^ 14) * BPS \<le> nos * BPS" by (intro mult_le_mono1) simp
  moreover have "ppa mod PUNIT < 64" by (simp add: PUNIT_def)
  ultimately show ?thesis by (simp add: GETBLOCKIDX_def PUNIT_def BPS_def)
qed

lemma nth_page_of: "nth_page bs n = page_of (bs ! (n mod BPS)) (n div BPS)"
  by (simp add: nth_page_def page_of_def)

lemma to_u32_page: "ppa < nos * PPS \<Longrightarrow> nos * PPS \<le> UINT_MAX \<Longrightarrow> to_u32 (int ppa) = ppa \<and> ppa \<noteq> UINT_MAX"
proof -
  assume "ppa < nos * PPS" "nos * PPS \<le> UINT_MAX"
  then have "ppa < 2 ^ 32 - 1" unfolding UINT_MAX_def by linarith
  then show ?thesis by (simp add: to_u32_def UINT_MAX_def)
qed

lemma to_u32_minus [simp]: "to_u32 (- 1) = UINT_MAX"
  by (simp add: to_u32_def UINT_MAX_def)

subsection \<open>The device\<close>

lemma device_on: "device_ok nos li \<Longrightarrow> ppa < nos * PPS \<Longrightarrow> on_device li ppa"
  by (simp add: device_ok_def on_device_def)

lemma push_page:
  assumes ok: "device_ok nos li" and ppa: "ppa < nos * PPS" "page_at li ppa = None"
    and v: "dmatag v \<noteq> - 1" "length (vs_value v) = PAGESIZE" and f: "length fresh = PAGESIZE"
  shows "\<exists>li'. posix_push_data fresh ppa PAGESIZE v req li = Inr li' \<and> device_ok nos li' \<and>
    (\<forall>q < nos * PPS. page_at li' q = (if q = ppa then Some (vs_value v) else page_at li q))"
proof -
  have d: "dev_ok li" using ok by (simp add: device_ok_def)
  note on = device_on [OF ok]
  define li' where "li' = (count_type (ar_type req) li)\<lparr>seg_table :=
      (seg_table li)(convert_ppa li ppa \<mapsto> take PAGESIZE (vs_value v) @ drop PAGESIZE fresh)\<rparr>"
  have "posix_push_data fresh ppa PAGESIZE v req li = Inr li'"
    using push_data_result [OF d on [OF ppa(1)] v(1), of PAGESIZE fresh req] v(2) ppa(2) by (simp add: li'_def)
  moreover have "device_ok nos li'"
    using ok push_data_keeps_ok [OF d f, of PAGESIZE v] v(2) by (simp add: device_ok_def li'_def)
  moreover have "page_at li' q = (if q = ppa then Some (vs_value v) else page_at li q)" if "q < nos * PPS" for q
    using convert_ppa_inj [OF on [OF that] on [OF ppa(1)] d] v(2) f by (simp add: page_at_def li'_def)
  ultimately show ?thesis by blast
qed

lemma pull_page:
  assumes ok: "device_ok nos li" and ppa: "ppa < nos * PPS" and v: "dmatag v \<noteq> - 1" "length (vs_value v) = PAGESIZE"
  shows "\<exists>req' li'. posix_pull_data ppa PAGESIZE v req li =
      Inr (case page_at li ppa of None \<Rightarrow> v | Some page \<Rightarrow> v\<lparr>vs_value := page\<rparr>, req', li') \<and>
    device_ok nos li' \<and> (\<forall>q. page_at li' q = page_at li q)"
proof -
  have d: "dev_ok li" using ok by (simp add: device_ok_def)
  have "take PAGESIZE page @ drop PAGESIZE (vs_value v) = page" if "page_at li ppa = Some page" for page
    using that d v(2) by (auto simp: dev_ok_def page_at_def ran_def)
  then have e: "(case page_at li ppa of None \<Rightarrow> v | Some page \<Rightarrow> v\<lparr>vs_value := take PAGESIZE page @ drop PAGESIZE (vs_value v)\<rparr>) =
      (case page_at li ppa of None \<Rightarrow> v | Some page \<Rightarrow> v\<lparr>vs_value := page\<rparr>)" by (auto split: option.splits)
  obtain req' where "posix_pull_data ppa PAGESIZE v req li =
      Inr (case page_at li ppa of None \<Rightarrow> v | Some page \<Rightarrow> v\<lparr>vs_value := page\<rparr>, req', count_type (ar_type req) li)"
    using pull_data_result [OF d device_on [OF ok ppa] v(1), of PAGESIZE req] v(2) unfolding e by auto
  moreover have "device_ok nos (count_type (ar_type req) li)" using ok by (simp add: device_ok_def dev_ok_def)
  moreover have "page_at (count_type (ar_type req) li) q = page_at li q" for q by (simp add: page_at_def)
  ultimately show ?thesis by blast
qed

subsection \<open>Page bits and out-of-band data\<close>

text \<open>Changes of a block other than its page counter.\<close>

definition quiet :: "nat \<Rightarrow> bbm_pri \<Rightarrow> bbm_pri \<Rightarrow> bool" where
  "quiet nos p p' \<longleftrightarrow> bm_ok nos p' \<and> base_channel p' = base_channel p \<and> segs p' = segs p \<and> seg_map p' = seg_map p \<and>
     (\<forall>b < nos * BPS. b_now (base_block p' ! b) = b_now (base_block p ! b) \<and>
        b_seg_idx (base_block p' ! b) = b_seg_idx (base_block p ! b))"

lemma quiet_trans: "quiet nos p q \<Longrightarrow> quiet nos q r \<Longrightarrow> quiet nos p r"
  by (simp add: quiet_def)

lemma quiet_upd:
  assumes ok: "bm_ok nos p"
    and f: "\<And>x. punit_num (f x) = punit_num x \<and> block_num (f x) = block_num x \<and> b_seg_idx (f x) = b_seg_idx x \<and> b_now (f x) = b_now x"
    and b: "b < nos * BPS"
  shows "quiet nos p (upd_block b f p)"
proof -
  have len: "length (base_block p) = nos * BPS" and now: "b_now (base_block p ! b) \<le> PPB"
    using ok b by (auto simp: bm_ok_def blocks_ok_def)
  have "minor nos p (upd_block b f p)" by (rule minor_upd_block [OF _ _ ok]) (use f now in simp_all)
  then have "bm_ok nos (upd_block b f p)" by (rule minor_ok [OF _ ok])
  moreover have "b_now (base_block (upd_block b f p) ! x) = b_now (base_block p ! x) \<and>
      b_seg_idx (base_block (upd_block b f p) ! x) = b_seg_idx (base_block p ! x)" if "x < nos * BPS" for x
    using that len f by (cases "x = b") (simp_all add: upd_block_def)
  ultimately show ?thesis by (simp add: quiet_def upd_block_def)
qed

lemma quiet_taken:
  assumes q: "quiet nos p p'" and ok: "bm_ok nos p" and t: "taken p a n"
  shows "taken p' a n"
proof -
  obtain s where s: "segs p a = Some s" "s_now s = n mod BPS"
    "\<And>j. j < BPS \<Longrightarrow> b_now (base_block p ! (s_blocks s ! j)) = n div BPS + (if j < n mod BPS then 1 else 0)"
    using t by (auto simp: taken_def)
  then show ?thesis using q seg_facts(3) [OF ok s(1)] unfolding taken_def quiet_def by auto
qed

lemma quiet_keeps:
  assumes q: "quiet nos p p'" and ok: "bm_ok nos p"
  shows "seg_live p a n \<Longrightarrow> seg_live p' a n" "seg_kept nos p r m \<Longrightarrow> seg_kept nos p' r m"
    "unwritten nos p li \<Longrightarrow> unwritten nos p' li"
proof -
  have b: "seg_blocks p' = seg_blocks p" and c: "base_channel p' = base_channel p" using q by (auto simp: quiet_def seg_blocks_def fun_eq_iff)
  show "seg_live p a n \<Longrightarrow> seg_live p' a n" using quiet_taken [OF q ok] by (simp add: seg_live_def b c)
  show "seg_kept nos p r m \<Longrightarrow> seg_kept nos p' r m" using quiet_taken [OF q ok] q by (simp add: seg_kept_def b c limbo_def owned_def quiet_def)
  show "unwritten nos p li \<Longrightarrow> unwritten nos p' li" using q by (simp add: unwritten_def quiet_def)
qed

lemma invalidate_ppa_ok:
  assumes ok: "bm_ok nos (pf_bm s)" and ppa: "ppa < nos * PPS"
  shows "\<exists>p'. invalidate_ppa ppa s = Inr (s\<lparr>pf_bm := p'\<rparr>) \<and> quiet nos (pf_bm s) p'"
proof -
  have i: "GETBLOCKIDX ppa < nos * BPS" by (rule block_idx_bound [OF ppa])
  then have "GETBLOCKIDX ppa < length (base_block (pf_bm s))" using ok by (simp add: bm_ok_def blocks_ok_def)
  then show ?thesis using quiet_upd [OF ok _ i] by (auto simp: invalidate_ppa_def base_unpopulate_bit_def clear_bit_of_def Let_def)
qed

lemma validate_ppa_ok:
  assumes ok: "bm_ok nos (pf_bm s)" and ppa: "ppa < nos * PPS"
  shows "\<exists>p'. validate_ppa ppa lba s = Inr (s\<lparr>pf_bm := p'\<rparr>) \<and> quiet nos (pf_bm s) p'"
proof -
  have i: "GETBLOCKIDX ppa < nos * BPS" by (rule block_idx_bound [OF ppa])
  let ?p1 = "upd_block (GETBLOCKIDX ppa) (set_bit_of (GETPAGEIDX ppa)) (pf_bm s)"
  have q1: "quiet nos (pf_bm s) ?p1" by (rule quiet_upd [OF ok _ i]) (simp add: set_bit_of_def)
  then have ok1: "bm_ok nos ?p1" by (simp add: quiet_def)
  have len: "GETBLOCKIDX ppa < length (base_block (pf_bm s))" "GETBLOCKIDX ppa < length (base_block ?p1)"
    using ok ok1 i by (simp_all add: bm_ok_def blocks_ok_def)
  let ?p2 = "upd_block (GETBLOCKIDX ppa) (\<lambda>x. x\<lparr>oob_list := (oob_list x)
                 (GETPAGEIDX ppa := take 4 (bytes32 lba) @ drop 4 (oob_list x (GETPAGEIDX ppa)))\<rparr>) ?p1"
  have q2: "quiet nos ?p1 ?p2" by (rule quiet_upd [OF ok1 _ i]) simp
  have "validate_ppa ppa lba s = Inr (s\<lparr>pf_bm := ?p2\<rparr>)"
    using len by (simp add: validate_ppa_def base_populate_bit_def base_set_oob_def OOB_SIZE_def bytes32_def Let_def)
  then show ?thesis using quiet_trans [OF q1 q2] by blast
qed

subsection \<open>Taking a page\<close>

lemma get_page_frame:
  assumes "base_get_page_num a p = Inr (x, p')" "segs p a = Some s" "x \<noteq> - 1"
  shows "base_block p' = base_block (upd_block (s_blocks s ! s_now s) (\<lambda>b. b\<lparr>b_now := inc16 (b_now (base_block p ! (s_blocks s ! s_now s)))\<rparr>) p)"
    and "seg_map p' = seg_map p"
  using assms by (auto simp: base_get_page_num_def bindE_eq_Inr index_eq_Inr upd_seg_def upd_block_def Let_def split: if_splits)

lemma take_page:
  assumes ok: "bm_ok nos p" and t: "taken p a n" and n: "n < PPS" and u: "unwritten nos p li"
    and h: "\<And>j. j < BPS \<Longrightarrow> seg_blocks p a ! j \<notin> set (frees p j)"
  shows "\<exists>ppa p'. base_get_page_num a p = Inr (int ppa, p') \<and> ppa < nos * PPS \<and> page_at li ppa = None \<and>
    bm_ok nos p' \<and> taken p' a (Suc n) \<and> base_channel p' = base_channel p \<and> seg_blocks p' = seg_blocks p \<and>
    unwritten nos p' li \<and> GETPAGEIDX ppa < b_now (base_block p' ! GETBLOCKIDX ppa) \<and> seg_map p' = seg_map p \<and>
    GETBLOCKIDX ppa = seg_blocks p a ! (n mod BPS) \<and>
    (\<forall>b < nos * BPS. b_seg_idx (base_block p' ! b) = b_seg_idx (base_block p ! b)) \<and>
    (\<forall>r m. taken p r m \<longrightarrow> (\<forall>j < BPS. seg_blocks p r ! j \<noteq> seg_blocks p a ! j) \<longrightarrow> taken p' r m)"
proof -
  obtain s where s: "segs p a = Some s" "s_now s = n mod BPS"
    and now: "\<And>j. j < BPS \<Longrightarrow> b_now (base_block p ! (s_blocks s ! j)) = n div BPS + (if j < n mod BPS then 1 else 0)"
    using t by (auto simp: taken_def)
  define b where "b = s_blocks s ! (n mod BPS)"
  have j: "n mod BPS < BPS" by simp
  have pg: "n div BPS < PPB" using n by (simp add: BPS_def PPB_def)
  have b: "b < nos * BPS" "b mod BPS = n mod BPS" using seg_facts(3) [OF ok s(1) j] by (simp_all add: b_def)
  have bn: "b_now (base_block p ! b) = n div BPS" using now [OF j] by (simp add: b_def)
  obtain p' s' where p': "base_get_page_num a p = Inr (int (nth_page (s_blocks s) n), p')" "bm_ok nos p'" "taken p' a (Suc n)"
    "segs p' = (segs p)(a \<mapsto> s')" "s_blocks s' = s_blocks s" "base_channel p' = base_channel p"
    using base_get_page_num_ok [OF ok s(1) t n] by blast
  have ppa: "nth_page (s_blocks s) n = page_of b (n div BPS)" by (simp add: nth_page_of b_def)
  have len: "length (base_block p) = nos * BPS" using ok by (simp add: bm_ok_def blocks_ok_def)
  have fr: "base_block p' ! x = (if x = b then (base_block p ! b)\<lparr>b_now := Suc (n div BPS)\<rparr> else base_block p ! x)"
    if "x < nos * BPS" for x
    using get_page_frame(1) [OF p'(1) s(1)] that len s(2) bn pg by (simp add: b_def [symmetric] upd_block_def PPB_def)
  have sb: "seg_blocks p' = seg_blocks p" using p'(4,5) s(1) by (auto simp: seg_blocks_def fun_eq_iff)
  have "b \<notin> set (frees p (b mod BPS))" using h [OF j] s(1) b(2) by (simp add: seg_blocks_def b_def)
  then have u': "unwritten nos p' li" using u fr bn p'(6) by (auto simp: unwritten_def)
  have none: "page_at li (page_of b (n div BPS)) = None" using u b(1) bn pg by (simp add: unwritten_def)
  have "taken p' r m" if r: "taken p r m" "\<forall>j < BPS. seg_blocks p r ! j \<noteq> seg_blocks p a ! j" for r m
  proof -
    obtain z where z: "segs p r = Some z" "s_now z = m mod BPS"
      and zn: "\<And>j. j < BPS \<Longrightarrow> b_now (base_block p ! (s_blocks z ! j)) = m div BPS + (if j < m mod BPS then 1 else 0)"
      using r(1) by (auto simp: taken_def)
    have "r \<noteq> a" using r(2) j by blast
    then have zs: "segs p' r = Some z" using z(1) p'(4) by simp
    have "s_blocks z ! i \<noteq> b" if "i < BPS" for i
      using r(2) that z(1) s(1) b(2) seg_facts(3) [OF ok z(1) that] by (auto simp: seg_blocks_def b_def)
    then show ?thesis using zs z(2) zn fr seg_facts(3) [OF ok z(1)] by (auto simp: taken_def)
  qed
  then show ?thesis
    using p'(1-3,6) sb u' none page_of_bound [OF b(1) pg] fr pg b(1) get_page_frame(2) [OF p'(1) s(1)] unfolding ppa
    by (intro exI [of _ "page_of b (n div BPS)"] exI [of _ p']) (simp add: seg_blocks_def s(1) b_def)
qed

lemma live_held: "pool_ok nos p \<Longrightarrow> seg_live p a n \<Longrightarrow> j < BPS \<Longrightarrow> seg_blocks p a ! j \<notin> set (frees p j)"
proof
  assume a: "pool_ok nos p" "seg_live p a n" "j < BPS" "seg_blocks p a ! j \<in> set (frees p j)"
  let ?b = "seg_blocks p a ! j"
  have "0 < count (used p j) ?b" "0 < count (mset (frees p j)) ?b"
    using a by (auto simp: seg_live_def count_greater_zero_iff)
  moreover have "count (mset (frees p j) + used p j) ?b \<le> 1" using a(1,3) unfolding pool_ok_def once_def by blast
  ultimately show False unfolding count_union by linarith
qed

lemma live_apart_kept:
  "seg_live p a n \<Longrightarrow> seg_kept nos p r m \<Longrightarrow> j < BPS \<Longrightarrow> seg_blocks p r ! j \<noteq> seg_blocks p a ! j"
  by (auto simp: seg_live_def seg_kept_def limbo_def)

subsection \<open>Taking a segment\<close>

lemma get_segment_map:
  assumes "base_get_segment res p = Inr (a, p')"
  shows "seg_map p' = (seg_map p)(seg_map_idx p \<mapsto> a)"
proof -
  obtain q bs where q: "foldE (get_segment_step res) [0..<BPS] (p, []) = Inr (q, bs)"
    and p': "seg_map p' = (seg_map q)(seg_map_idx q \<mapsto> a)"
    using assms by (auto simp: base_get_segment_def bindE_eq_Inr Let_def)
  have "seg_map (fst (q, bs)) = seg_map p \<and> seg_map_idx (fst (q, bs)) = seg_map_idx p"
  proof (rule foldE_keeps [OF q])
    fix x s s'
    assume "seg_map (fst s) = seg_map p \<and> seg_map_idx (fst s) = seg_map_idx p" "get_segment_step res x s = Inr s'"
    then show "seg_map (fst s') = seg_map p \<and> seg_map_idx (fst s') = seg_map_idx p"
      by (cases s) (auto simp: get_segment_step_def bindE_eq_Inr upd_block_def set_channel_def split: option.splits if_splits)
  qed simp
  then show ?thesis using p' by simp
qed

lemma first_alone:
  assumes pool: "pool_ok nos p" and j: "j < BPS" and ne: "frees p j \<noteq> []"
  shows "hd (frees p j) \<notin> set (tl (frees p j))" "hd (frees p j) \<notin># used p j"
proof -
  obtain x xs where f: "frees p j = x # xs" using ne by (cases "frees p j") auto
  have "count (mset (frees p j) + used p j) x \<le> 1" using pool j unfolding pool_ok_def once_def by blast
  then have "count (mset xs) x = 0" "count (used p j) x = 0" unfolding f by simp_all
  then show "hd (frees p j) \<notin> set (tl (frees p j))" "hd (frees p j) \<notin># used p j"
    unfolding f by (simp_all add: count_eq_zero_iff)
qed

lemma next_segment:
  assumes ok: "bm_ok nos p" and ne: "frees p 0 \<noteq> []" and u: "unwritten nos p li"
  shows "\<exists>p'. base_get_segment res p = Inr (seg_fresh p, p') \<and> bm_ok nos p' \<and> unwritten nos p' li \<and>
    taken p' (seg_fresh p) 0 \<and> owned p' (seg_fresh p) \<and> length (frees p 0) = Suc (length (frees p' 0)) \<and>
    (\<forall>j < BPS. if res then limbo nos p' j (seg_blocks p' (seg_fresh p) ! j) \<and> used p' j = used p j
       else used p' j = add_mset (seg_blocks p' (seg_fresh p) ! j) (used p j)) \<and>
    (\<forall>r m. seg_kept nos p r m \<longrightarrow> seg_kept nos p' r m)"
proof -
  obtain p' s where g: "base_get_segment res p = Inr (seg_fresh p, p')" "bm_ok nos p'" "segs p' = (segs p)(seg_fresh p \<mapsto> s)"
    "s_blocks s = firsts p" "s_now s = 0"
    and ch: "\<And>j. j < BPS \<Longrightarrow> frees p' j = tl (frees p j) \<and> used p' j = (if res then used p j else add_mset (firsts p ! j) (used p j))"
    and bb: "\<And>b. b < nos * BPS \<Longrightarrow> base_block p' ! b = (if b \<in> set (firsts p)
              then (base_block p ! b)\<lparr>b_seg_idx := seg_map_idx p\<rparr> else base_block p ! b)"
    using base_get_segment_ok [OF ok ne, of res] by auto
  have pool: "pool_ok nos p" and so: "segs_ok nos p" using ok by (auto simp: bm_ok_def)
  have ne': "frees p j \<noteq> []" if "j < BPS" for j using balanced_nonempty [OF ok ne that] .
  have now: "b_now (base_block p' ! b) = b_now (base_block p ! b)" if "b < nos * BPS" for b using bb [OF that] by simp
  have nes: "\<forall>j < BPS. frees p j \<noteq> []" using ne' by blast
  have old: "key < seg_map_idx p" if "seg_map p key = Some c" for key c using so that unfolding segs_ok_def by simp
  have sm: "seg_map p' = (seg_map p)(seg_map_idx p \<mapsto> seg_fresh p)" by (rule get_segment_map [OF g(1)])
  note first = firsts_props(3) [OF pool nes] and alone = first_alone [OF pool _ ne']
  have u': "unwritten nos p' li"
  proof -
    have "b \<in> set (frees p (b mod BPS))" if "b \<in> set (frees p' (b mod BPS))" for b
      using that ch [of "b mod BPS"] list.set_sel(2) [of "frees p (b mod BPS)"] by (cases "frees p (b mod BPS)") auto
    then show ?thesis using u now by (simp add: unwritten_def)
  qed
  have fresh: "segs p (seg_fresh p) = None" using so by (simp add: segs_ok_def)
  have sb: "seg_blocks p' (seg_fresh p) = firsts p" "\<And>r. r \<noteq> seg_fresh p \<Longrightarrow> seg_blocks p' r = seg_blocks p r"
    using g(3,4) by (simp_all add: seg_blocks_def)
  have t: "taken p' (seg_fresh p) 0"
  proof -
    have "b_now (base_block p' ! (firsts p ! j)) = 0" if j: "j < BPS" for j
    proof -
      have "firsts p ! j \<in> set (frees p (firsts p ! j mod BPS))" "firsts p ! j < nos * BPS"
        using first [OF j] hd_in_set [OF ne' [OF j]] by metis+
      then show ?thesis using now u unfolding unwritten_def by simp
    qed
    then show ?thesis using g(3-5) by (simp add: taken_def)
  qed
  have kept: "seg_kept nos p' r m" if k: "seg_kept nos p r m" for r m
  proof -
    obtain z where z: "segs p r = Some z" using k by (auto simp: seg_kept_def taken_def)
    then have r: "r \<noteq> seg_fresh p" using fresh by auto
    have "taken p' r m" using k z r g(3) now seg_facts(3) [OF ok z] unfolding seg_kept_def taken_def by auto
    moreover have "limbo nos p' j (seg_blocks p r ! j)" if j: "j < BPS" for j
    proof -
      have l: "limbo nos p j (seg_blocks p r ! j)" using k j by (simp add: seg_kept_def)
      then have "seg_blocks p r ! j \<noteq> hd (frees p j)" using hd_in_set [OF ne' [OF j]] by (auto simp: limbo_def)
      then show ?thesis using l ch [OF j] first [OF j] by (auto simp: limbo_def dest: list.set_sel(2) [OF ne' [OF j]])
    qed
    moreover have "owned p' r"
    proof -
      have "seg_map p' (b_seg_idx (base_block p' ! (seg_blocks p r ! j))) = Some r" if j: "j < BPS" for j
      proof -
        let ?b = "seg_blocks p r ! j"
        have l: "limbo nos p j ?b" and o: "seg_map p (b_seg_idx (base_block p ! ?b)) = Some r"
          using k j by (auto simp: seg_kept_def owned_def)
        have "?b \<notin> set (firsts p)" using l hd_in_set [OF ne' [OF j]] firsts_props(4) [OF pool nes, of ?b] by (auto simp: limbo_def)
        moreover have "?b < nos * BPS" using l by (simp add: limbo_def)
        ultimately have "base_block p' ! ?b = base_block p ! ?b" using bb [of ?b] by simp
        moreover have "b_seg_idx (base_block p ! ?b) \<noteq> seg_map_idx p" using old [OF o] by simp
        ultimately show ?thesis using o sm by simp
      qed
      then show ?thesis using sb(2) [OF r] by (simp add: owned_def)
    qed
    ultimately show ?thesis using sb(2) [OF r] by (simp add: seg_kept_def)
  qed
  have "b_seg_idx (base_block p' ! (firsts p ! j)) = seg_map_idx p" if j: "j < BPS" for j
    using bb [of "firsts p ! j"] first [OF j] nth_mem [of j "firsts p"] firsts_props(1) [OF pool nes] j by simp
  then have own: "owned p' (seg_fresh p)" using sm sb(1) by (simp add: owned_def)
  have "if res then limbo nos p' j (seg_blocks p' (seg_fresh p) ! j) \<and> used p' j = used p j
      else used p' j = add_mset (seg_blocks p' (seg_fresh p) ! j) (used p j)" if j: "j < BPS" for j
    using ch [OF j] first [OF j] alone [OF j j] sb(1) by (auto simp: limbo_def)
  moreover have "length (frees p 0) = Suc (length (frees p' 0))" using ch [OF BPS_pos] ne by simp
  ultimately show ?thesis using g(1,2) u' t kept own by (intro exI [of _ p'] conjI allI impI)
qed

section \<open>Writing and reading\<close>

text \<open>The number of pages that can be written before the collector must run.\<close>

definition room :: "page_ftl \<Rightarrow> nat \<Rightarrow> nat" where
  "room s n = length (frees (pf_bm s) 0) * PPS + (PPS - n)"

lemma check_full:
  assumes ok: "bm_ok nos p" and t: "taken p a n" and n: "n \<le> PPS"
  shows "base_check_full a MASTER_PAGE p = Inr (n = PPS)"
proof -
  have last: "BPS - 1 < BPS" by simp
  obtain s where s: "segs p a = Some s" "b_now (base_block p ! (s_blocks s ! (BPS - 1))) = n div BPS"
    using t by (auto simp: taken_def BPS_def)
  have "s_blocks s ! (BPS - 1) < length (base_block p)" "length (s_blocks s) = BPS"
    using seg_facts [OF ok s(1)] last ok by (auto simp: bm_ok_def blocks_ok_def)
  then have "base_check_full a MASTER_PAGE p = Inr (n div BPS = PPB)"
    using s last by (simp add: base_check_full_def)
  moreover have "n div BPS = PPB \<longleftrightarrow> n = PPS" using n by (auto simp: BPS_def PPB_def)
  ultimately show ?thesis by simp
qed

lemma retry_ok:
  assumes ok: "pf_ok nos s n" and room: "0 < room s n"
  shows "\<exists>ppa s' n'. retry (q_size (free_block (chan (pf_bm s) 0)) + 2) s = Inr (ppa, s') \<and> pf_ok nos s' n' \<and>
    room s' n' + 1 = room s n \<and> ppa < nos * PPS \<and> page_at (pf_li s) ppa = None \<and> pf_li s' = pf_li s \<and>
    mapping s' = mapping s \<and> GETPAGEIDX ppa < b_now (base_block (pf_bm s') ! GETBLOCKIDX ppa) \<and>
    (n < PPS \<longrightarrow> base_channel (pf_bm s') = base_channel (pf_bm s) \<and> GETBLOCKIDX ppa = seg_blocks (pf_bm s) (active s) ! (n mod BPS))"
proof -
  have one: "\<exists>ppa p'. base_get_page_num a p = Inr (int ppa, p') \<and> ppa < nos * PPS \<and> page_at (pf_li s) ppa = None \<and>
      bm_ok nos p' \<and> seg_live p' a (Suc m) \<and> seg_kept nos p' r 0 \<and> unwritten nos p' (pf_li s) \<and> base_channel p' = base_channel p \<and>
      GETPAGEIDX ppa < b_now (base_block p' ! GETBLOCKIDX ppa) \<and> GETBLOCKIDX ppa = seg_blocks p a ! (m mod BPS)"
    if p: "bm_ok nos p" "seg_live p a m" "seg_kept nos p r 0" "unwritten nos p (pf_li s)" "m < PPS" for p a r m
  proof -
    have pool: "pool_ok nos p" and t: "taken p a m" using p by (auto simp: bm_ok_def seg_live_def)
    obtain ppa p' where q: "base_get_page_num a p = Inr (int ppa, p')" "ppa < nos * PPS" "page_at (pf_li s) ppa = None"
      "bm_ok nos p'" "taken p' a (Suc m)" "base_channel p' = base_channel p" "seg_blocks p' = seg_blocks p" "unwritten nos p' (pf_li s)"
      "GETPAGEIDX ppa < b_now (base_block p' ! GETBLOCKIDX ppa)" "seg_map p' = seg_map p" "GETBLOCKIDX ppa = seg_blocks p a ! (m mod BPS)"
      "\<forall>b < nos * BPS. b_seg_idx (base_block p' ! b) = b_seg_idx (base_block p ! b)"
      "\<forall>r m. taken p r m \<longrightarrow> (\<forall>j < BPS. seg_blocks p r ! j \<noteq> seg_blocks p a ! j) \<longrightarrow> taken p' r m"
      using take_page [OF p(1) t p(5,4) live_held [OF pool p(2)]] by blast
    have "seg_live p' a (Suc m)" using q(5-7) p(2,5) by (simp add: seg_live_def)
    moreover have "taken p' r 0" using q(13) p(3) live_apart_kept [OF p(2,3)] unfolding seg_kept_def by blast
    then have "seg_kept nos p' r 0" using p(3) q(6,7,10,12) by (simp add: seg_kept_def owned_def limbo_def)
    ultimately show ?thesis using q by blast
  qed
  have b: "bm_ok nos (pf_bm s)" "seg_live (pf_bm s) (active s) n" "seg_kept nos (pf_bm s) (reserve s) 0"
    "unwritten nos (pf_bm s) (pf_li s)" "nos * PPS \<le> UINT_MAX" "device_ok nos (pf_li s)"
    using ok by (auto simp: pf_ok_def device_ok_def)
  show ?thesis
  proof (cases "n < PPS")
    case True
    obtain ppa p' where p': "base_get_page_num (active s) (pf_bm s) = Inr (int ppa, p')" "ppa < nos * PPS"
      "page_at (pf_li s) ppa = None" "bm_ok nos p'" "seg_live p' (active s) (Suc n)" "seg_kept nos p' (reserve s) 0"
      "unwritten nos p' (pf_li s)" "base_channel p' = base_channel (pf_bm s)" "GETPAGEIDX ppa < b_now (base_block p' ! GETBLOCKIDX ppa)"
      "GETBLOCKIDX ppa = seg_blocks (pf_bm s) (active s) ! (n mod BPS)"
      using one [OF b(1-4) True] by blast
    have "retry (q_size (free_block (chan (pf_bm s) 0)) + 2) s = Inr (ppa, s\<lparr>pf_bm := p'\<rparr>)"
      using p'(1) to_u32_page [OF p'(2) b(5)] by simp
    moreover have "pf_ok nos (s\<lparr>pf_bm := p'\<rparr>) (Suc n)" using p' b(6) by (simp add: pf_ok_def)
    moreover have "room (s\<lparr>pf_bm := p'\<rparr>) (Suc n) + 1 = room s n" using True p'(8) by (simp add: room_def)
    ultimately show ?thesis using p'(2,3,8-10)
      by (intro exI [of _ ppa] exI [of _ "s\<lparr>pf_bm := p'\<rparr>"] exI [of _ "Suc n"]) (simp del: retry.simps)
  next
    case False
    then have n: "n = PPS" using b(2) by (simp add: seg_live_def)
    then have ne: "frees (pf_bm s) 0 \<noteq> []" and t: "taken (pf_bm s) (active s) PPS" using room b(2) by (auto simp: room_def seg_live_def)
    obtain p1 where p1: "base_get_segment False (pf_bm s) = Inr (seg_fresh (pf_bm s), p1)" "bm_ok nos p1" "unwritten nos p1 (pf_li s)"
      "taken p1 (seg_fresh (pf_bm s)) 0" "length (frees (pf_bm s) 0) = Suc (length (frees p1 0))"
      "\<forall>j < BPS. used p1 j = add_mset (seg_blocks p1 (seg_fresh (pf_bm s)) ! j) (used (pf_bm s) j)" "seg_kept nos p1 (reserve s) 0"
      using next_segment [OF b(1) ne b(4), of False] b(3) by auto
    let ?a = "seg_fresh (pf_bm s)"
    have live: "seg_live p1 ?a 0" using p1(4,6) by (simp add: seg_live_def)
    obtain ppa p' where p': "base_get_page_num ?a p1 = Inr (int ppa, p')" "ppa < nos * PPS"
      "page_at (pf_li s) ppa = None" "bm_ok nos p'" "seg_live p' ?a (Suc 0)" "seg_kept nos p' (reserve s) 0"
      "unwritten nos p' (pf_li s)" "base_channel p' = base_channel p1" "GETPAGEIDX ppa < b_now (base_block p' ! GETBLOCKIDX ppa)"
      using one [OF p1(2) live p1(7,3)] by auto
    let ?s = "s\<lparr>pf_bm := p', active := ?a\<rparr>"
    have "retry (q_size (free_block (chan (pf_bm s) 0)) + 2) s = Inr (ppa, ?s)"
      using base_get_page_num_full [OF b(1) t] p1(1) p'(1) to_u32_page [OF p'(2) b(5)] by (simp add: numeral_2_eq_2)
    moreover have "pf_ok nos ?s (Suc 0)" using p' b(6) by (simp add: pf_ok_def)
    moreover have "room ?s (Suc 0) + 1 = room s n" using n p'(8) p1(5) by (simp add: room_def)
    ultimately show ?thesis using p'(2,3,9) False
      by (intro exI [of _ ppa] exI [of _ ?s] exI [of _ "Suc 0"]) (simp del: retry.simps)
  qed
qed

lemma quiet_pf_ok: "quiet nos (pf_bm s) p' \<Longrightarrow> pf_ok nos s n \<Longrightarrow> pf_ok nos (s\<lparr>pf_bm := p'\<rparr>) n \<and> room (s\<lparr>pf_bm := p'\<rparr>) n = room s n"
  using quiet_keeps [of nos "pf_bm s" p'] by (auto simp: pf_ok_def room_def quiet_def)

lemma assign_ok:
  assumes ok: "pf_ok nos s n" and room: "0 < room s n" and M: "stores nos s M" and lba: "lba < length (mapping s)"
  shows "\<exists>ppa s' n'. page_map_assign buf fresh lba s = Inr (ppa, s') \<and> pf_ok nos s' n' \<and> room s' n' + 1 = room s n \<and>
    ppa < nos * PPS \<and> page_at (pf_li s) ppa = None \<and> pf_li s' = pf_li s \<and> mapping s' = (mapping s)[lba := ppa] \<and>
    GETPAGEIDX ppa < b_now (base_block (pf_bm s') ! GETBLOCKIDX ppa) \<and>
    (n < PPS \<longrightarrow> base_channel (pf_bm s') = base_channel (pf_bm s) \<and> GETBLOCKIDX ppa = seg_blocks (pf_bm s) (active s) ! (n mod BPS))"
proof -
  have bm: "bm_ok nos (pf_bm s)" and live: "seg_live (pf_bm s) (active s) n" using ok by (auto simp: pf_ok_def)
  have full: "base_check_full (active s) MASTER_PAGE (pf_bm s) = Inr (n = PPS)"
    using check_full [OF bm] live by (simp add: seg_live_def)
  have gc: "base_is_gc_needed (pf_bm s) = Inr False" if "n = PPS"
    using gc_needed_iff [OF bm] room that by (simp add: room_def)
  have "\<exists>p1. (if mapping s ! lba \<noteq> UINT_MAX then invalidate_ppa (mapping s ! lba) s else Inr s) = Inr (s\<lparr>pf_bm := p1\<rparr>) \<and>
      quiet nos (pf_bm s) p1"
  proof (cases "mapping s ! lba = UINT_MAX")
    case True
    have "quiet nos (pf_bm s) (pf_bm s)" using bm by (simp add: quiet_def)
    then show ?thesis using True by (intro exI [of _ "pf_bm s"]) simp
  next
    case False
    then have "mapping s ! lba < nos * PPS" using M lba by (auto simp: stores_def split: option.splits)
    then show ?thesis using False invalidate_ppa_ok [OF bm] by simp
  qed
  then obtain p1 where p1: "(if mapping s ! lba \<noteq> UINT_MAX then invalidate_ppa (mapping s ! lba) s else Inr s) = Inr (s\<lparr>pf_bm := p1\<rparr>)"
    "quiet nos (pf_bm s) p1" by blast
  note q1 = quiet_pf_ok [OF p1(2) ok]
  obtain ppa s2 n' where s2: "retry (q_size (free_block (chan p1 0)) + 2) (s\<lparr>pf_bm := p1\<rparr>) = Inr (ppa, s2)" "pf_ok nos s2 n'"
    "room s2 n' + 1 = room s n" "ppa < nos * PPS" "page_at (pf_li s) ppa = None" "pf_li s2 = pf_li s" "mapping s2 = mapping s"
    "GETPAGEIDX ppa < b_now (base_block (pf_bm s2) ! GETBLOCKIDX ppa)"
    "n < PPS \<longrightarrow> base_channel (pf_bm s2) = base_channel p1 \<and> GETBLOCKIDX ppa = seg_blocks p1 (active s) ! (n mod BPS)"
    using retry_ok [of nos "s\<lparr>pf_bm := p1\<rparr>" n] q1 room by auto
  have bm2: "bm_ok nos (pf_bm s2)" using s2(2) by (simp add: pf_ok_def)
  obtain p3 where p3: "validate_ppa ppa lba s2 = Inr (s2\<lparr>pf_bm := p3\<rparr>)" "quiet nos (pf_bm s2) p3"
    using validate_ppa_ok [OF bm2 s2(4)] by blast
  note q3 = quiet_pf_ok [OF p3(2) s2(2)]
  let ?s' = "s2\<lparr>pf_bm := p3, mapping := (mapping s)[lba := ppa]\<rparr>"
  have "page_map_assign buf fresh lba s = Inr (ppa, ?s')"
    using full gc p1(1) s2(1,7) p3(1) lba by (cases "n = PPS") (simp_all add: page_map_assign_def del: retry.simps)
  moreover have "pf_ok nos ?s' n'" "room ?s' n' + 1 = room s n" using q3 s2(3) by (simp_all add: pf_ok_def room_def)
  moreover have "GETPAGEIDX ppa < b_now (base_block p3 ! GETBLOCKIDX ppa)"
    using p3(2) s2(8) block_idx_bound [OF s2(4)] by (simp add: quiet_def)
  moreover have "base_channel p3 = base_channel (pf_bm s2)" "base_channel p1 = base_channel (pf_bm s)" "seg_blocks p1 = seg_blocks (pf_bm s)"
    using p1(2) p3(2) by (auto simp: quiet_def seg_blocks_def fun_eq_iff)
  ultimately show ?thesis using s2(4-6,9) by (intro exI [of _ ppa] exI [of _ ?s'] exI [of _ n']) simp
qed

lemma write_keeps_unwritten:
  assumes u: "unwritten nos p li" and ppa: "GETPAGEIDX ppa < b_now (base_block p ! GETBLOCKIDX ppa)"
    and li': "\<forall>q < nos * PPS. q \<noteq> ppa \<longrightarrow> page_at li' q = page_at li q"
  shows "unwritten nos p li'"
proof -
  have "page_at li' (page_of b pg) = None" if b: "b < nos * BPS" "pg < PPB" "b_now (base_block p ! b) \<le> pg" for b pg
  proof -
    have "page_of b pg \<noteq> ppa" using ppa b by auto
    then show ?thesis using u b li' page_of_bound [OF b(1,2)] by (simp add: unwritten_def)
  qed
  then show ?thesis using u by (simp add: unwritten_def)
qed

text \<open>A request the interface makes: a buffer of one page.\<close>

definition good_value :: "value_set \<Rightarrow> bool" where
  "good_value v \<longleftrightarrow> dmatag v \<noteq> - 1 \<and> length (vs_value v) = PAGESIZE"

lemma stamped_good: "good_value v \<Longrightarrow> good_value (stamped k v)"
  by (simp add: good_value_def stamped_def bytes32_def PAGESIZE_def)

lemma write_ok:
  assumes ok: "pf_ok nos s n" and room: "0 < room s n" and M: "stores nos s M" and lba: "r_key req < length (mapping s)"
    and v: "good_value (r_value req)" and f: "length fresh = PAGESIZE"
  shows "\<exists>req' s' n'. page_write buf fresh req s = Inr (req', s') \<and> pf_ok nos s' n' \<and> room s' n' + 1 = room s n \<and>
    length (mapping s') = length (mapping s) \<and> stores nos s' (M(r_key req \<mapsto> vs_value (stamped (r_key req) (r_value req)))) \<and>
    (n < PPS \<longrightarrow> base_channel (pf_bm s') = base_channel (pf_bm s) \<and>
       GETBLOCKIDX (mapping s' ! r_key req) = seg_blocks (pf_bm s) (active s) ! (n mod BPS))"
proof -
  let ?v = "stamped (r_key req) (r_value req)"
  obtain ppa s1 n' where a: "page_map_assign buf fresh (r_key req) s = Inr (ppa, s1)" "pf_ok nos s1 n'" "room s1 n' + 1 = room s n"
    "ppa < nos * PPS" "page_at (pf_li s) ppa = None" "pf_li s1 = pf_li s" "mapping s1 = (mapping s)[r_key req := ppa]"
    "GETPAGEIDX ppa < b_now (base_block (pf_bm s1) ! GETBLOCKIDX ppa)"
    "n < PPS \<longrightarrow> base_channel (pf_bm s1) = base_channel (pf_bm s) \<and> GETBLOCKIDX ppa = seg_blocks (pf_bm s) (active s) ! (n mod BPS)"
    using assign_ok [OF ok room M lba] by blast
  have dev: "device_ok nos (pf_li s)" using ok by (simp add: pf_ok_def)
  have gv: "dmatag ?v \<noteq> - 1" "length (vs_value ?v) = PAGESIZE" using stamped_good [OF v] by (auto simp: good_value_def)
  obtain li' where li': "posix_push_data fresh ppa PAGESIZE ?v \<lparr>ar_ppa = 0, ar_type = DATAW, ar_type_lower = 0\<rparr> (pf_li s) = Inr li'"
    "device_ok nos li'" and at: "\<And>q. q < nos * PPS \<Longrightarrow> page_at li' q = (if q = ppa then Some (vs_value ?v) else page_at (pf_li s) q)"
    using push_page [OF dev a(4,5) gv f] by blast
  let ?s' = "s1\<lparr>pf_li := li'\<rparr>"
  have "page_write buf fresh req s = Inr (req\<lparr>r_value := ?v\<rparr>, ?s')"
    using a(1,6) li'(1) v by (simp add: page_write_def good_value_def PAGESIZE_def)
  moreover have "unwritten nos (pf_bm s1) li'"
    by (rule write_keeps_unwritten [OF _ a(8)]) (use a(2,6) at in \<open>auto simp: pf_ok_def\<close>)
  then have "pf_ok nos ?s' n'" "room ?s' n' + 1 = room s n" using a(2,3) li'(2) by (auto simp: pf_ok_def room_def)
  moreover have "stores nos ?s' (M(r_key req \<mapsto> vs_value ?v))"
    unfolding stores_def
  proof (intro allI impI)
    fix l
    assume l: "l < length (mapping ?s')"
    show "case (M(r_key req \<mapsto> vs_value ?v)) l of None \<Rightarrow> mapping ?s' ! l = UINT_MAX
      | Some v \<Rightarrow> mapping ?s' ! l < nos * PPS \<and> page_at (pf_li ?s') (mapping ?s' ! l) = Some v"
    proof (cases "l = r_key req")
      case True
      then show ?thesis using a(4,7) at lba by simp
    next
      case False
      have "page_at li' q = Some v" if "q < nos * PPS" "page_at (pf_li s) q = Some v" for q v
        using that at a(5) by (cases "q = ppa") auto
      then show ?thesis using False M l a(7) by (auto simp: stores_def split: option.splits)
    qed
  qed
  ultimately show ?thesis using a(7,9) lba by (intro exI [of _ "req\<lparr>r_value := ?v\<rparr>"] exI [of _ ?s'] exI [of _ n']) simp
qed

section \<open>From start-up\<close>

text \<open>
  The layers as \<^verbatim>\<open>main\<close> puts them together, on a device of \<open>giga\<close> gigabytes without bad blocks:
  \<open>bb_checker_start\<close> leaves \<open>checker.start_block\<close> at the zero of the cleared table.
\<close>

definition boot :: "nat \<Rightarrow> page_ftl res" where
  "boot giga = bindE (base_create RNOS (NOS giga) None) (\<lambda>(c, p). page_create (NOP giga) (posix_create giga 0) p)"

definition page_writes :: "(nat \<Rightarrow> value_set) \<Rightarrow> u8 list \<Rightarrow> request list \<Rightarrow> page_ftl \<Rightarrow> page_ftl res" where
  "page_writes buf fresh = foldE (\<lambda>req s. bindE (page_write buf fresh req s) (\<lambda>(_, s'). Inr s'))"

text \<open>The value each logical page was given last.\<close>

definition contents :: "request list \<Rightarrow> nat \<rightharpoonup> u8 list" where
  "contents reqs = fold (\<lambda>req M. M(r_key req \<mapsto> vs_value (stamped (r_key req) (r_value req)))) reqs Map.empty"

lemma boot_ok:
  assumes "4 \<le> giga" "giga \<le> 512"
  shows "\<exists>s. boot giga = Inr s \<and> pf_ok (NOS giga) s 0 \<and> room s 0 = (NOS giga - 1) * PPS \<and>
    mapping s = replicate (NOP giga) UINT_MAX \<and> (\<forall>j < BPS. used (pf_bm s) j = {#seg_blocks (pf_bm s) (active s) ! j#})"
proof -
  let ?nos = "NOS giga" and ?li = "posix_create giga 0"
  have nos: "?nos = giga * 8" by (simp add: NOS_def TOTALSIZE_def PAGESIZE_def)
  obtain c where c: "bb_checker_start RNOS None = Inr c" "length (ent (fst c)) = RNOS" "assign (fst c) = 0"
    "\<forall>i < RNOS. origin_segnum (ent (fst c) ! i) = i * PPS"
    using bb_checker_start_ok by auto
  have le: "?nos \<le> length (ent (fst c))" using assms(2) c(2) nos by (simp add: RNOS_def PAGESIZE_def)
  then have "\<forall>i < ?nos. origin_segnum (ent (fst c) ! i) = i * PPS" using c(2,4) by simp
  from base_create_pri_ok [OF c(3) le this] obtain c' p where p: "base_create_pri ?nos (fst c) = Inr (c', p)" "bm_ok ?nos p"
    "\<forall>j < BPS. frees p j = map (\<lambda>k. k * BPS + j) [0..<?nos] \<and> used p j = {#}"
    "\<forall>b < ?nos * BPS. base_block p ! b = new_block (b div BPS * PPS) (b mod BPS)" by blast
  have fr: "length (frees p 0) = ?nos" using p(3) BPS_pos by simp
  have u: "unwritten ?nos p ?li" using p(4) by (simp add: unwritten_def new_block_def page_at_def posix_create_def)
  have ne: "frees p 0 \<noteq> []" using fr nos assms(1) by auto
  obtain p1 where p1: "base_get_segment True p = Inr (seg_fresh p, p1)" "bm_ok ?nos p1" "unwritten ?nos p1 ?li"
    "taken p1 (seg_fresh p) 0" "owned p1 (seg_fresh p)" "length (frees p 0) = Suc (length (frees p1 0))"
    "\<forall>j < BPS. limbo ?nos p1 j (seg_blocks p1 (seg_fresh p) ! j) \<and> used p1 j = used p j" using next_segment [OF p(2) ne u, of True] by auto
  have kept: "seg_kept ?nos p1 (seg_fresh p) 0" using p1(4,5,7) by (simp add: seg_kept_def)
  have ne1: "frees p1 0 \<noteq> []" using fr p1(6) nos assms(1) by auto
  obtain p2 where p2: "base_get_segment False p1 = Inr (seg_fresh p1, p2)" "bm_ok ?nos p2" "unwritten ?nos p2 ?li"
    "taken p2 (seg_fresh p1) 0" "length (frees p1 0) = Suc (length (frees p2 0))"
    "\<forall>j < BPS. used p2 j = add_mset (seg_blocks p2 (seg_fresh p1) ! j) (used p1 j)" "seg_kept ?nos p2 (seg_fresh p) 0"
    using next_segment [OF p1(2) ne1 p1(3), of False] kept by auto
  let ?s = "\<lparr>pf_bm = p2, pf_li = ?li, mapping = replicate (NOP giga) UINT_MAX, reserve = seg_fresh p, active = seg_fresh p1\<rparr>"
  have "device_ok ?nos ?li"
    using posix_create_ok [of giga 0] assms NOP_NOS [of giga] nos by (simp add: device_ok_def posix_create_def UINT_MAX_def)
  then have "pf_ok ?nos ?s 0" using p2(2-4,6,7) by (simp add: pf_ok_def seg_live_def)
  moreover have "room ?s 0 = (?nos - 1) * PPS" using fr p1(6) p2(5) by (simp add: room_def)
  moreover have "boot giga = Inr ?s"
    using c(1) p(1) p1(1) p2(1) by (cases c) (simp add: boot_def base_create_def page_create_def page_map_create_def)
  ultimately show ?thesis using p(3) p1(7) p2(6) by (intro exI [of _ ?s]) simp
qed

lemma writes_ok:
  assumes "pf_ok nos s n" "stores nos s M" "length reqs \<le> room s n" "length fresh = PAGESIZE"
    "\<forall>req \<in> set reqs. r_key req < length (mapping s) \<and> good_value (r_value req)"
  shows "\<exists>s' n'. page_writes buf fresh reqs s = Inr s' \<and> pf_ok nos s' n' \<and> length (mapping s') = length (mapping s) \<and>
    stores nos s' (fold (\<lambda>req M. M(r_key req \<mapsto> vs_value (stamped (r_key req) (r_value req)))) reqs M)"
  using assms
proof (induction reqs arbitrary: s n M)
  case (Cons req reqs)
  obtain req' s1 n1 where w: "page_write buf fresh req s = Inr (req', s1)" "pf_ok nos s1 n1" "room s1 n1 + 1 = room s n"
    "length (mapping s1) = length (mapping s)" "stores nos s1 (M(r_key req \<mapsto> vs_value (stamped (r_key req) (r_value req))))"
    using write_ok [OF Cons.prems(1) _ Cons.prems(2), of req fresh buf] Cons.prems(3-5) by auto
  from Cons.IH [OF w(2,5)] Cons.prems(3-5) w show ?case by (simp add: page_writes_def)
qed (auto simp: page_writes_def)

lemma read_ok:
  assumes ok: "pf_ok nos s n" and M: "stores nos s M" and req: "r_key req < length (mapping s)" "good_value (r_value req)"
  shows "case M (r_key req) of None \<Rightarrow> page_read req s = Inl Abort
     | Some v \<Rightarrow> \<exists>s'. page_read req s = Inr (req\<lparr>r_value := (r_value req)\<lparr>vs_value := v\<rparr>\<rparr>, s')"
proof (cases "M (r_key req)")
  case None
  then show ?thesis using M req(1) by (auto simp: stores_def page_read_def page_map_pick_def)
next
  case (Some v)
  then have m: "mapping s ! r_key req < nos * PPS" "page_at (pf_li s) (mapping s ! r_key req) = Some v"
    using M req(1) by (auto simp: stores_def)
  have dev: "device_ok nos (pf_li s)" using ok by (simp add: pf_ok_def)
  then have "nos * PPS \<le> UINT_MAX" by (simp add: device_ok_def)
  then have "page_map_pick (r_key req) s = Inr (mapping s ! r_key req)" using m(1) req(1) by (simp add: page_map_pick_def)
  then show ?thesis
    using pull_page [OF dev m(1), of "r_value req" "\<lparr>ar_ppa = 0, ar_type = DATAR, ar_type_lower = 0\<rparr>"] req(2) m(2) Some
    by (auto simp: page_read_def good_value_def)
qed

section \<open>Properties\<close>

text \<open>
  C2: From start-up, as many writes as fit in all segments but the reserved one succeed without the collector,
  whatever pages they go to and however often, and after them every read of a logical page returns the value
  written to it last, which begins with the four bytes of its address; a read of a page never written aborts.
\<close>

theorem page_ftl_reads_last_write:
  assumes "4 \<le> giga" "giga \<le> 512" and "length reqs \<le> (NOS giga - 1) * PPS" "length fresh = PAGESIZE"
    and "\<forall>req \<in> set reqs. r_key req < NOP giga \<and> good_value (r_value req)"
  shows "\<exists>s0 s. boot giga = Inr s0 \<and> page_writes buf fresh reqs s0 = Inr s \<and>
    (\<forall>req. r_key req < NOP giga \<and> good_value (r_value req) \<longrightarrow>
       (case contents reqs (r_key req) of None \<Rightarrow> page_read req s = Inl Abort
        | Some v \<Rightarrow> \<exists>s'. page_read req s = Inr (req\<lparr>r_value := (r_value req)\<lparr>vs_value := v\<rparr>\<rparr>, s')))"
proof -
  obtain s0 where s0: "boot giga = Inr s0" "pf_ok (NOS giga) s0 0" "room s0 0 = (NOS giga - 1) * PPS"
    "mapping s0 = replicate (NOP giga) UINT_MAX" using boot_ok [OF assms(1,2)] by blast
  have "stores (NOS giga) s0 Map.empty" using s0(4) by (simp add: stores_def)
  then obtain s n where s: "page_writes buf fresh reqs s0 = Inr s" "pf_ok (NOS giga) s n" "length (mapping s) = NOP giga"
    "stores (NOS giga) s (contents reqs)"
    using writes_ok [OF s0(2), of Map.empty reqs fresh buf] s0(3,4) assms(3-5) by (auto simp: contents_def)
  show ?thesis using s0(1) s(1) read_ok [OF s(2,4), unfolded s(3)] by (intro exI [of _ s0] exI [of _ s]) simp
qed

theorem page_ftl_reads_last_write_witness:
  "\<exists>s0 s s'. boot 4 = Inr s0 \<and>
     page_writes (\<lambda>_. \<lparr>vs_value = [], dmatag = 0\<rparr>) (replicate PAGESIZE 0)
       [\<lparr>r_key = 5, r_value = \<lparr>vs_value = replicate PAGESIZE 7, dmatag = 0\<rparr>\<rparr>,
        \<lparr>r_key = 5, r_value = \<lparr>vs_value = replicate PAGESIZE 8, dmatag = 0\<rparr>\<rparr>] s0 = Inr s \<and>
     page_read \<lparr>r_key = 5, r_value = \<lparr>vs_value = replicate PAGESIZE 0, dmatag = 0\<rparr>\<rparr> s =
       Inr (\<lparr>r_key = 5, r_value = \<lparr>vs_value = bytes32 5 @ drop 4 (replicate PAGESIZE 8), dmatag = 0\<rparr>\<rparr>, s')"
proof -
  let ?w = "\<lambda>x. \<lparr>r_key = 5, r_value = \<lparr>vs_value = replicate PAGESIZE x, dmatag = 0\<rparr>\<rparr>"
  have g: "r_key (?w x) < NOP 4 \<and> good_value (r_value (?w x))" for x
    by (simp add: good_value_def NOP_def TOTALSIZE_def PAGESIZE_def)
  have len: "length [?w 7, ?w 8] \<le> (NOS 4 - 1) * PPS" by (simp add: NOS_def TOTALSIZE_def PAGESIZE_def)
  have c: "contents [?w 7, ?w 8] (r_key (?w 0)) = Some (bytes32 5 @ drop 4 (replicate PAGESIZE 8))"
    by (simp add: contents_def stamped_def)
  from page_ftl_reads_last_write [of 4 "[?w 7, ?w 8]" "replicate PAGESIZE 0" "\<lambda>_. \<lparr>vs_value = [], dmatag = 0\<rparr>"]
  obtain s0 s where s: "boot 4 = Inr s0" "page_writes (\<lambda>_. \<lparr>vs_value = [], dmatag = 0\<rparr>) (replicate PAGESIZE 0) [?w 7, ?w 8] s0 = Inr s"
    "\<And>req. r_key req < NOP 4 \<Longrightarrow> good_value (r_value req) \<Longrightarrow>
       (case contents [?w 7, ?w 8] (r_key req) of None \<Rightarrow> page_read req s = Inl Abort
        | Some v \<Rightarrow> \<exists>s'. page_read req s = Inr (req\<lparr>r_value := (r_value req)\<lparr>vs_value := v\<rparr>\<rparr>, s'))"
    using g len by auto
  show ?thesis using s(1,2) s(3) [of "?w 0", unfolded c] g [of 0] by auto
qed

end
