(* ===== verification/Page_Gc.thy ===== *)
theory Page_Gc
  imports Page_Ftl
begin

text \<open>
  The collector of \<^verbatim>\<open>src/algorithm/Page_ftl/gc.c\<close>, step by step: choosing a victim, reading its valid pages,
  writing them to the reserve segment, erasing the victim and changing the reserve. Each step succeeds in every
  state the translation layer reaches; the result is that the pages of the victim are erased while the table
  still leads to them.
\<close>

section \<open>The victim\<close>

lemma gc_victim:
  assumes ok: "bm_ok nos p" and live: "seg_live p a n" and kept: "seg_kept nos p r m" and u: "unwritten nos p li"
  shows "\<exists>gs p1. base_get_gc_target p = Inr (gs, p1) \<and> length (g_blocks gs) = BPS \<and>
    (\<forall>j < BPS. g_blocks gs ! j \<in># used p j \<and> limbo nos p1 j (g_blocks gs ! j) \<and> seg_blocks p1 r ! j \<noteq> g_blocks gs ! j) \<and>
    bm_ok nos p1 \<and> seg_kept nos p1 r m \<and> unwritten nos p1 li"
proof -
  have ne: "\<forall>j < BPS. used p j \<noteq> {#}" using live by (auto simp: seg_live_def)
  have pool: "pool_ok nos p" using ok by (simp add: bm_ok_def)
  obtain gs p1 where g: "base_get_gc_target p = Inr (gs, p1)" "gc_loop nos p BPS (p1, g_blocks gs)"
    using base_get_gc_target_ok [OF pool ne] by blast
  note l = gc_target_limbo [OF ok g(2)]
  have G: "base_block p1 = base_block p" "seg_map p1 = seg_map p" "segs p1 = segs p"
    "\<And>j. j < BPS \<Longrightarrow> g_blocks gs ! j \<in># used p j \<and> used p1 j = used p j - {#g_blocks gs ! j#}"
    using g(2) by (auto simp: gc_loop_def)
  have sb: "seg_blocks p1 = seg_blocks p" using G(3) by (simp add: seg_blocks_def fun_eq_iff)
  have "taken p1 r m" "owned p1 r" using kept G sb by (simp_all add: seg_kept_def taken_def owned_def)
  moreover have "limbo nos p1 j (seg_blocks p r ! j)" if j: "j < BPS" for j
    using kept j G(4) [OF j] l(4) unfolding seg_kept_def limbo_def by (auto dest: in_diffD)
  ultimately have k: "seg_kept nos p1 r m" using sb by (simp add: seg_kept_def)
  have "unwritten nos p1 li" using u G(1) l(4) by (simp add: unwritten_def)
  moreover have "seg_blocks p1 r ! j \<noteq> g_blocks gs ! j" if "j < BPS" for j
    using kept G(4) [OF that] that sb by (auto simp: seg_kept_def limbo_def)
  ultimately show ?thesis using g(1) l(1-3) G(4) k by blast
qed

section \<open>Reading\<close>

text \<open>A page that was read: done, of the device, in a buffer of one page.\<close>

definition was_read :: "nat \<Rightarrow> gc_value \<Rightarrow> bool" where
  "was_read nos gv \<longleftrightarrow> isdone gv \<and> gv_ppa gv < nos * PPS \<and> good_value (gv_value gv)"

lemma PPAMAKER_page:
  assumes "bm_ok nos p" "b < nos * BPS"
  shows "PPAMAKER (base_block p ! b) pg = page_of b pg" "GETBLOCKPPA (base_block p ! b) = page_of b 0"
  using assms by (simp_all add: bm_ok_def blocks_ok_def PPAMAKER_def GETBLOCKPPA_def page_of_def)

lemma send_read_ok:
  assumes dev: "device_ok nos (pf_li s)" and ppa: "ppa < nos * PPS" and buf: "good_value buf"
  shows "\<exists>gv li. send_req_read buf ppa s = Inr (Some gv, s\<lparr>pf_li := li\<rparr>) \<and> was_read nos gv \<and> device_ok nos li \<and>
    (\<forall>q. page_at li q = page_at (pf_li s) q)"
proof -
  let ?req = "\<lparr>ar_ppa = 0, ar_type = GCDR, ar_type_lower = 0\<rparr>"
  let ?v = "case page_at (pf_li s) ppa of None \<Rightarrow> buf | Some page \<Rightarrow> buf\<lparr>vs_value := page\<rparr>"
  obtain req' li where li: "posix_pull_data ppa PAGESIZE buf ?req (pf_li s) = Inr (?v, req', li)" "device_ok nos li"
    "\<forall>q. page_at li q = page_at (pf_li s) q"
    using pull_page [OF dev ppa, of buf ?req] buf unfolding good_value_def by blast
  have "length page = PAGESIZE" if "page_at (pf_li s) ppa = Some page" for page
    using that dev by (auto simp: device_ok_def dev_ok_def page_at_def ran_def)
  then have "good_value ?v" using buf by (auto simp: good_value_def split: option.splits)
  then show ?thesis using li ppa by (auto simp: send_req_read_def page_gc_end_req_def was_read_def)
qed

lemma gc_read_ok:
  assumes bm: "bm_ok nos (pf_bm s)" and dev: "device_ok nos (pf_li s)" and buf: "\<And>q. good_value (buf q)"
    and gs: "length (g_blocks gs) = BPS" "\<And>j. j < BPS \<Longrightarrow> g_blocks gs ! j < nos * BPS"
  shows "\<exists>li gvs. foldE (gc_read buf gs) (List.product [0..<PPB] [0..<BPS]) (s, []) = Inr (s\<lparr>pf_li := li\<rparr>, gvs) \<and>
    device_ok nos li \<and> (\<forall>q. page_at li q = page_at (pf_li s) q) \<and> length gvs \<le> PPS \<and> (\<forall>gv \<in> set gvs. was_read nos gv)"
proof -
  let ?P = "\<lambda>done t. \<exists>li gvs. t = (s\<lparr>pf_li := li\<rparr>, gvs) \<and> device_ok nos li \<and> (\<forall>q. page_at li q = page_at (pf_li s) q) \<and>
    length gvs \<le> length done \<and> (\<forall>gv \<in> set gvs. was_read nos gv)"
  have "\<exists>t. foldE (gc_read buf gs) (List.product [0..<PPB] [0..<BPS]) (s, []) = Inr t \<and> ?P (List.product [0..<PPB] [0..<BPS]) t"
  proof (rule foldE_invariant [where P = ?P])
    show "?P [] (s, [])" using dev by (intro exI [of _ "pf_li s"]) simp
  next
    fix done' x todo t
    assume x: "List.product [0..<PPB] [0..<BPS] = done' @ x # todo" and "?P done' t"
    then obtain li gvs where t: "t = (s\<lparr>pf_li := li\<rparr>, gvs)" "device_ok nos li" "\<forall>q. page_at li q = page_at (pf_li s) q"
      "length gvs \<le> length done'" "\<forall>gv \<in> set gvs. was_read nos gv" by blast
    have "x \<in> set (List.product [0..<PPB] [0..<BPS])" unfolding x by simp
    then obtain pidx bidx where pb: "x = (pidx, bidx)" "pidx < PPB" "bidx < BPS" by auto
    define b where "b = g_blocks gs ! bidx"
    have b: "b < nos * BPS" using gs(2) [OF pb(3)] by (simp add: b_def)
    have len: "length (base_block (pf_bm s)) = nos * BPS" using bm by (simp add: bm_ok_def blocks_ok_def)
    have pg: "page_of b pidx < nos * PPS" by (rule page_of_bound [OF b pb(2)])
    let ?s = "s\<lparr>pf_li := li\<rparr>"
    have idx: "index (g_blocks gs) bidx = Inr b" "index (base_block (pf_bm s)) b = Inr (base_block (pf_bm s) ! b)"
      using gs(1) pb(3) b len by (simp_all add: b_def)
    obtain inv where inv: "base_is_invalid_page (page_of b pidx) (pf_bm s) = Inr inv"
      using b len pb(2) by (simp add: base_is_invalid_page_def base_is_valid_page_def)
    obtain gv li' where r: "send_req_read (buf (page_of b pidx)) (page_of b pidx) ?s = Inr (Some gv, ?s\<lparr>pf_li := li'\<rparr>)" "was_read nos gv"
      "device_ok nos li'" "\<forall>q. page_at li' q = page_at li q" using send_read_ok [of nos ?s, OF _ pg buf [of "page_of b pidx"]] t(2) by auto
    have run: "gc_read buf gs x t = (if inv then Inr t else Inr (s\<lparr>pf_li := li'\<rparr>, gvs @ [gv]))"
      using idx inv r(1) PPAMAKER_page(1) [OF bm b] unfolding pb(1) t(1) by (simp add: gc_read_def Let_def)
    show "\<exists>t'. gc_read buf gs x t = Inr t' \<and> ?P (done' @ [x]) t'"
    proof (cases inv)
      case True
      then show ?thesis using run t by fastforce
    next
      case False
      then show ?thesis using run t r by auto
    qed
  qed
  moreover have "length (List.product [0..<PPB] [0..<BPS]) = PPS" by (simp add: PPB_def BPS_def)
  ultimately show ?thesis by auto
qed

section \<open>Moving\<close>

text \<open>The state while pages are moved: the reserve has handed out \<open>m\<close> pages.\<close>

definition moving :: "nat \<Rightarrow> page_ftl \<Rightarrow> nat \<Rightarrow> bool" where
  "moving nos s m \<longleftrightarrow> bm_ok nos (pf_bm s) \<and> device_ok nos (pf_li s) \<and> seg_kept nos (pf_bm s) (reserve s) m \<and>
     unwritten nos (pf_bm s) (pf_li s)"

text \<open>What moving a page leaves alone.\<close>

definition same_table :: "page_ftl \<Rightarrow> page_ftl \<Rightarrow> bool" where
  "same_table s s' \<longleftrightarrow> mapping s' = mapping s \<and> reserve s' = reserve s \<and> active s' = active s \<and>
     base_channel (pf_bm s') = base_channel (pf_bm s) \<and> seg_blocks (pf_bm s') = seg_blocks (pf_bm s)"

lemma quiet_moving: "quiet nos (pf_bm s) p' \<Longrightarrow> moving nos s m \<Longrightarrow>
    moving nos (s\<lparr>pf_bm := p'\<rparr>) m \<and> same_table s (s\<lparr>pf_bm := p'\<rparr>)"
  using quiet_keeps [of nos "pf_bm s" p'] by (auto simp: moving_def same_table_def quiet_def seg_blocks_def fun_eq_iff)

lemma same_table_trans: "same_table a b \<Longrightarrow> same_table b c \<Longrightarrow> same_table a c"
  by (simp add: same_table_def)

lemma gc_take_ok:
  assumes mv: "moving nos s m" and m: "m < PPS"
  shows "\<exists>ppa p'. base_get_page_num (reserve s) (pf_bm s) = Inr (int ppa, p') \<and> ppa < nos * PPS \<and> page_at (pf_li s) ppa = None \<and>
    moving nos (s\<lparr>pf_bm := p'\<rparr>) (Suc m) \<and> same_table s (s\<lparr>pf_bm := p'\<rparr>) \<and> GETPAGEIDX ppa < b_now (base_block p' ! GETBLOCKIDX ppa)"
proof -
  let ?p = "pf_bm s" and ?r = "reserve s"
  have M: "bm_ok nos ?p" "taken ?p ?r m" "owned ?p ?r" "unwritten nos ?p (pf_li s)" "device_ok nos (pf_li s)"
    and l: "\<And>j. j < BPS \<Longrightarrow> limbo nos ?p j (seg_blocks ?p ?r ! j)" using mv by (auto simp: moving_def seg_kept_def)
  have h: "\<And>j. j < BPS \<Longrightarrow> seg_blocks ?p ?r ! j \<notin> set (frees ?p j)" using l by (auto simp: limbo_def)
  obtain ppa p' where q: "base_get_page_num ?r ?p = Inr (int ppa, p')" "ppa < nos * PPS" "page_at (pf_li s) ppa = None"
      "bm_ok nos p'" "taken p' ?r (Suc m)" "base_channel p' = base_channel ?p" "seg_blocks p' = seg_blocks ?p" "unwritten nos p' (pf_li s)"
      "GETPAGEIDX ppa < b_now (base_block p' ! GETBLOCKIDX ppa)" "seg_map p' = seg_map ?p" "GETBLOCKIDX ppa = seg_blocks ?p ?r ! (m mod BPS)"
      "\<forall>b < nos * BPS. b_seg_idx (base_block p' ! b) = b_seg_idx (base_block ?p ! b)"
    using take_page [OF M(1,2) m M(4) h] by blast
  have "seg_kept nos p' ?r (Suc m)" using q(5-7,10,12) M(3) l by (simp add: seg_kept_def owned_def limbo_def)
  then show ?thesis using q M(5) by (intro exI [of _ ppa] exI [of _ p']) (simp add: moving_def same_table_def)
qed

lemma gc_move_ok:
  assumes mv: "moving nos s m" and m: "m < PPS" and gv: "was_read nos gv" and f: "length fresh = PAGESIZE"
  shows "\<exists>s'. gc_move fresh gv s = Inr s' \<and> moving nos s' (Suc m) \<and> same_table s s'"
proof -
  have old: "isdone gv" "gv_ppa gv < nos * PPS" "dmatag (gv_value gv) \<noteq> - 1" "length (vs_value (gv_value gv)) = PAGESIZE"
    using gv by (auto simp: was_read_def good_value_def)
  have bm: "bm_ok nos (pf_bm s)" and max: "nos * PPS \<le> UINT_MAX" using mv by (auto simp: moving_def device_ok_def)
  then have "GETBLOCKIDX (gv_ppa gv) < length (base_block (pf_bm s))"
    using block_idx_bound [OF old(2)] by (simp add: bm_ok_def blocks_ok_def)
  then obtain oob where oob: "base_get_oob (gv_ppa gv) (pf_bm s) = Inr oob" by (simp add: base_get_oob_def)
  obtain ppa p1 where a: "base_get_page_num (reserve s) (pf_bm s) = Inr (int ppa, p1)" "ppa < nos * PPS" "page_at (pf_li s) ppa = None"
    "moving nos (s\<lparr>pf_bm := p1\<rparr>) (Suc m)" "same_table s (s\<lparr>pf_bm := p1\<rparr>)" "GETPAGEIDX ppa < b_now (base_block p1 ! GETBLOCKIDX ppa)"
    using gc_take_ok [OF mv m] by blast
  have bm1: "bm_ok nos (pf_bm (s\<lparr>pf_bm := p1\<rparr>))" using a(4) by (simp add: moving_def)
  obtain p2 where p2: "invalidate_ppa (gv_ppa gv) (s\<lparr>pf_bm := p1\<rparr>) = Inr (s\<lparr>pf_bm := p2\<rparr>)" "quiet nos p1 p2"
    using invalidate_ppa_ok [OF bm1 old(2)] by auto
  have bm2: "bm_ok nos (pf_bm (s\<lparr>pf_bm := p2\<rparr>))" using p2(2) by (simp add: quiet_def)
  obtain p3 where p3: "validate_ppa ppa (of_bytes32 oob) (s\<lparr>pf_bm := p2\<rparr>) = Inr (s\<lparr>pf_bm := p3\<rparr>)" "quiet nos p2 p3"
    using validate_ppa_ok [OF bm2 a(2)] by auto
  have q: "quiet nos p1 p3" by (rule quiet_trans [OF p2(2) p3(2)])
  have mv3: "moving nos (s\<lparr>pf_bm := p3\<rparr>) (Suc m)" "same_table s (s\<lparr>pf_bm := p3\<rparr>)"
    using quiet_moving [of nos "s\<lparr>pf_bm := p1\<rparr>" p3 "Suc m"] q a(4,5) by (auto simp: same_table_def)
  have upd: "page_map_gc_update (of_bytes32 oob) (gv_ppa gv) s = Inr (ppa, s\<lparr>pf_bm := p3\<rparr>)"
    using a(1) p2(1) p3(1) to_u32_page [OF a(2) max] by (simp add: page_map_gc_update_def Let_def)
  have dev: "device_ok nos (pf_li s)" using mv by (simp add: moving_def)
  obtain li' where li': "posix_push_data fresh ppa PAGESIZE (gv_value gv) \<lparr>ar_ppa = 0, ar_type = GCDW, ar_type_lower = 0\<rparr> (pf_li s) = Inr li'"
    "device_ok nos li'" "\<forall>q < nos * PPS. page_at li' q = (if q = ppa then Some (vs_value (gv_value gv)) else page_at (pf_li s) q)"
    using push_page [OF dev a(2,3) old(3,4) f] by blast
  have "GETPAGEIDX ppa < b_now (base_block p3 ! GETBLOCKIDX ppa)"
    using q a(6) block_idx_bound [OF a(2)] by (simp add: quiet_def)
  then have "unwritten nos p3 li'"
    by (rule write_keeps_unwritten [rotated]) (use mv3(1) li'(3) in \<open>auto simp: moving_def\<close>)
  then have "moving nos (s\<lparr>pf_bm := p3, pf_li := li'\<rparr>) (Suc m)" using mv3(1) li'(2) by (simp add: moving_def)
  moreover have "gc_move fresh gv s = Inr (s\<lparr>pf_bm := p3, pf_li := li'\<rparr>)"
    using old(1) oob upd li'(1) by (simp add: gc_move_def send_req_write_def page_gc_end_req_def GCDW_def GCDR_def)
  ultimately show ?thesis using mv3(2) by (auto simp: same_table_def)
qed

lemma gc_moves_ok:
  assumes "moving nos s m" "m + length gvs \<le> PPS" "\<forall>gv \<in> set gvs. was_read nos gv" "length fresh = PAGESIZE"
  shows "\<exists>s'. foldE (gc_move fresh) gvs s = Inr s' \<and> moving nos s' (m + length gvs) \<and> same_table s s'"
  using assms
proof (induction gvs arbitrary: s m)
  case Nil
  then show ?case by (simp add: same_table_def)
next
  case (Cons gv gvs)
  obtain s1 where s1: "gc_move fresh gv s = Inr s1" "moving nos s1 (Suc m)" "same_table s s1"
    using gc_move_ok [OF Cons.prems(1) _ _ Cons.prems(4), of gv] Cons.prems(2,3) by auto
  obtain s2 where "foldE (gc_move fresh) gvs s1 = Inr s2" "moving nos s2 (Suc m + length gvs)" "same_table s1 s2"
    using Cons.IH [OF s1(2)] Cons.prems(2-4) by auto
  then show ?case using s1 same_table_trans [OF s1(3)] by auto
qed

section \<open>Erasing\<close>

lemma page_of_step: "page_of b 0 + i * PUNIT = page_of b i"
  by (simp add: page_of_def PUNIT_def)

lemma block_pages_of: "q \<in> block_pages (page_of b 0) \<longleftrightarrow> GETBLOCKIDX q = b"
proof
  assume "q \<in> block_pages (page_of b 0)"
  then show "GETBLOCKIDX q = b" by (auto simp: block_pages_def page_of_step)
next
  assume "GETBLOCKIDX q = b"
  then have "q = page_of b (GETPAGEIDX q)" using page_of_idx [of q] by simp
  then show "q \<in> block_pages (page_of b 0)"
    unfolding block_pages_def page_of_step using GETPAGEIDX_bound [of q] by blast
qed

lemma trim_block_ok:
  assumes dev: "device_ok nos li" and b: "b < nos * BPS"
  shows "\<exists>li'. posix_trim_a_block (page_of b 0) li = Inr li' \<and> device_ok nos li' \<and>
    (\<forall>q < nos * PPS. page_at li' q = (if GETBLOCKIDX q = b then None else page_at li q))"
proof -
  have d: "dev_ok li" using dev by (simp add: device_ok_def)
  have on: "on_device li (page_of b i)" if "i < PPB" for i by (rule device_on [OF dev page_of_bound [OF b that]])
  have ends: "on_device li (page_of b 0)" "on_device li (page_of b 0 + (PPB - 1) * PUNIT)"
    unfolding page_of_step by (rule on, simp add: PPB_def)+
  define li' where "li' = (count_type TRIM li)\<lparr>seg_table := seg_table li |` (- convert_ppa li ` block_pages (page_of b 0))\<rparr>"
  have run: "posix_trim_a_block (page_of b 0) li = Inr li'" using trim_a_block_result [OF d ends] by (simp add: li'_def)
  have "ran (seg_table li') \<subseteq> ran (seg_table li)" by (auto simp: li'_def ran_def restrict_map_def)
  then have "device_ok nos li'" using dev by (auto simp: device_ok_def dev_ok_def li'_def)
  moreover have "page_at li' q = (if GETBLOCKIDX q = b then None else page_at li q)" if q: "q < nos * PPS" for q
  proof -
    have "convert_ppa li q \<in> convert_ppa li ` block_pages (page_of b 0) \<longleftrightarrow> q \<in> block_pages (page_of b 0)"
    proof
      assume "convert_ppa li q \<in> convert_ppa li ` block_pages (page_of b 0)"
      then obtain i where i: "i < PPB" "convert_ppa li q = convert_ppa li (page_of b i)" by (auto simp: block_pages_def page_of_step)
      then have "q = page_of b i" using convert_ppa_inj [OF device_on [OF dev q] on d] by blast
      then show "q \<in> block_pages (page_of b 0)" using i(1) by (auto simp: block_pages_def page_of_step)
    qed blast
    then show ?thesis by (simp add: page_at_def li'_def restrict_map_def block_pages_of)
  qed
  ultimately show ?thesis using run by blast
qed

text \<open>The device after a trim that succeeds.\<close>

definition trimmed :: "nat \<Rightarrow> posix \<Rightarrow> posix" where
  "trimmed ppa li = (case posix_trim_a_block ppa li of Inl _ \<Rightarrow> li | Inr li' \<Rightarrow> li')"

lemma trims_ok:
  assumes "device_ok nos li" "\<forall>b \<in> set bs. b < nos * BPS"
  shows "device_ok nos (fold (\<lambda>b. trimmed (page_of b 0)) bs li) \<and>
    (\<forall>q < nos * PPS. page_at (fold (\<lambda>b. trimmed (page_of b 0)) bs li) q = (if GETBLOCKIDX q \<in> set bs then None else page_at li q))"
  using assms
proof (induction bs arbitrary: li)
  case (Cons b bs)
  obtain li1 where l: "trimmed (page_of b 0) li = li1" "device_ok nos li1"
    "\<forall>q < nos * PPS. page_at li1 q = (if GETBLOCKIDX q = b then None else page_at li q)"
    using trim_block_ok [OF Cons.prems(1), of b] Cons.prems(2) by (auto simp: trimmed_def)
  then show ?case using Cons.IH [OF l(2)] Cons.prems(2) by auto
qed simp

text \<open>A trim keeps the identity of blocks, and releases segments only.\<close>

lemma trim_step_frame:
  assumes "trim_step trim gs i (p, l) = Inr (p', l')"
  shows "length (base_block p') = length (base_block p)"
    and "\<And>b. GETBLOCKPPA (base_block p' ! b) = GETBLOCKPPA (base_block p ! b) \<and> b_seg_idx (base_block p' ! b) = b_seg_idx (base_block p ! b)"
    and "\<And>key a. seg_map p' key = Some a \<Longrightarrow> seg_map p key = Some a"
    and "\<And>a s'. segs p' a = Some s' \<Longrightarrow> \<exists>s. segs p a = Some s \<and> s_blocks s' = s_blocks s \<and> s_now s' = s_now s"
    and "\<exists>b ppa. trim ppa l = Inr l' \<and> index (g_blocks gs) i = Inr b \<and> b < length (base_block p) \<and> ppa = GETBLOCKPPA (base_block p ! b)"
proof -
  obtain b l1 p1 where s: "index (g_blocks gs) i = Inr b" "b < length (base_block p)" "trim (GETBLOCKPPA (base_block p ! b)) l = Inr l'"
    "free_enqueue i b (upd_block b erased p) = Inr p1" "release_block (b_seg_idx (base_block p ! b)) p1 = Inr p'"
    using assms by (auto simp: trim_step_def bindE_eq_Inr index_eq_Inr)
  have p1: "base_block p1 = base_block (upd_block b erased p)" "seg_map p1 = seg_map p" "segs p1 = segs p"
    using s(4) by (auto simp: free_enqueue_def bindE_eq_Inr set_channel_def upd_block_def)
  have bb: "base_block p' = base_block p1" using s(5) by (auto simp: release_block_def bindE_eq_Inr Let_def upd_seg_def split: if_splits)
  show "length (base_block p') = length (base_block p)" by (simp add: bb p1 upd_block_def)
  show "GETBLOCKPPA (base_block p' ! x) = GETBLOCKPPA (base_block p ! x) \<and> b_seg_idx (base_block p' ! x) = b_seg_idx (base_block p ! x)" for x
    using s(2) by (cases "x = b") (simp_all add: bb p1 upd_block_def erased_def GETBLOCKPPA_def)
  show "seg_map p' key = Some a \<Longrightarrow> seg_map p key = Some a" for key a
    using s(5) p1(2) by (auto simp: release_block_def bindE_eq_Inr Let_def upd_seg_def split: if_splits)
  show "segs p' a = Some s' \<Longrightarrow> \<exists>s. segs p a = Some s \<and> s_blocks s' = s_blocks s \<and> s_now s' = s_now s" for a s'
    using s(5) p1(3) by (auto simp: release_block_def bindE_eq_Inr Let_def upd_seg_def deref_eq_Inr split: if_splits)
  show "\<exists>b ppa. trim ppa l = Inr l' \<and> index (g_blocks gs) i = Inr b \<and> b < length (base_block p) \<and> ppa = GETBLOCKPPA (base_block p ! b)"
    using s(1-3) by blast
qed

lemma trim_segment_posix:
  assumes bm: "bm_ok nos p" and dev: "device_ok nos l" and gs: "\<And>j. j < BPS \<Longrightarrow> g_blocks gs ! j < nos * BPS"
  shows "base_trim_segment posix_trim_a_block gs p l = base_trim_segment (\<lambda>ppa l. Inr (trimmed ppa l)) gs p l"
  unfolding base_trim_segment_def
proof (rule foldE_same [where Q = "\<lambda>(p, l). device_ok nos l \<and> length (base_block p) = nos * BPS \<and>
    (\<forall>b < nos * BPS. GETBLOCKPPA (base_block p ! b) = page_of b 0)"])
  show "case (p, l) of (p, l) \<Rightarrow> device_ok nos l \<and> length (base_block p) = nos * BPS \<and>
      (\<forall>b < nos * BPS. GETBLOCKPPA (base_block p ! b) = page_of b 0)"
    using bm dev PPAMAKER_page(2) [OF bm] by (simp add: bm_ok_def blocks_ok_def)
next
  fix i and t :: "bbm_pri \<times> posix"
  assume i: "i \<in> set [0..<BPS]" and "case t of (p, l) \<Rightarrow> device_ok nos l \<and> length (base_block p) = nos * BPS \<and>
      (\<forall>b < nos * BPS. GETBLOCKPPA (base_block p ! b) = page_of b 0)"
  then obtain q m where t: "t = (q, m)" "device_ok nos m" "length (base_block q) = nos * BPS"
    "\<And>b. b < nos * BPS \<Longrightarrow> GETBLOCKPPA (base_block q ! b) = page_of b 0" by (cases t) auto
  have tr: "posix_trim_a_block (page_of b 0) m = Inr (trimmed (page_of b 0) m)" if "b < nos * BPS" for b
    using trim_block_ok [OF t(2) that] by (auto simp: trimmed_def)
  show "trim_step posix_trim_a_block gs i t = trim_step (\<lambda>ppa l. Inr (trimmed ppa l)) gs i t"
    using i gs [of i] tr t(3,4) unfolding t(1) by (cases "i < length (g_blocks gs)") (simp_all add: trim_step_def index_def)
  fix t'
  assume s: "trim_step posix_trim_a_block gs i t = Inr t'"
  obtain q' m' where t': "t' = (q', m')" by (cases t')
  note fr = trim_step_frame [OF s [unfolded t(1) t']]
  obtain b where "index (g_blocks gs) i = Inr b" "posix_trim_a_block (GETBLOCKPPA (base_block q ! b)) m = Inr m'" using fr(5) by blast
  then have "device_ok nos m'" using i gs [of i] t(4) trim_block_ok [OF t(2), of b] by (auto simp: index_eq_Inr)
  then show "case t' of (p, l) \<Rightarrow> device_ok nos l \<and> length (base_block p) = nos * BPS \<and>
      (\<forall>b < nos * BPS. GETBLOCKPPA (base_block p ! b) = page_of b 0)"
    using fr(1,2) t(3,4) unfolding t' by simp
qed

lemma trim_segment_frame:
  assumes "base_trim_segment trim gs p l = Inr (p', l')"
  shows "\<forall>b. b_seg_idx (base_block p' ! b) = b_seg_idx (base_block p ! b)"
    and "\<forall>key a. seg_map p' key = Some a \<longrightarrow> seg_map p key = Some a"
    and "\<forall>a s'. segs p' a = Some s' \<longrightarrow> (\<exists>s. segs p a = Some s \<and> s_blocks s' = s_blocks s \<and> s_now s' = s_now s)"
proof -
  let ?Q = "\<lambda>(q, m :: 'a). (\<forall>b. b_seg_idx (base_block q ! b) = b_seg_idx (base_block p ! b)) \<and>
    (\<forall>key a. seg_map q key = Some a \<longrightarrow> seg_map p key = Some a) \<and>
    (\<forall>a s'. segs q a = Some s' \<longrightarrow> (\<exists>s. segs p a = Some s \<and> s_blocks s' = s_blocks s \<and> s_now s' = s_now s))"
  have "?Q (p', l')"
  proof (rule foldE_keeps [OF assms [unfolded base_trim_segment_def], where Q = ?Q])
    fix i t t'
    assume "?Q t" "trim_step trim gs i t = Inr t'"
    then show "?Q t'" using trim_step_frame(2-4) [of trim gs i "fst t" "snd t" "fst t'" "snd t'"]
      by (cases t; cases t') (simp, metis)
  qed auto
  then show "\<forall>b. b_seg_idx (base_block p' ! b) = b_seg_idx (base_block p ! b)"
    "\<forall>key a. seg_map p' key = Some a \<longrightarrow> seg_map p key = Some a"
    "\<forall>a s'. segs p' a = Some s' \<longrightarrow> (\<exists>s. segs p a = Some s \<and> s_blocks s' = s_blocks s \<and> s_now s' = s_now s)" by auto
qed

section \<open>Changing the reserve\<close>

lemma insert_heaps_ok:
  assumes pool: "pool_ok nos p" and len: "length bs = BPS" and l: "\<And>j. j < BPS \<Longrightarrow> limbo nos p j (bs ! j)"
  shows "\<exists>p'. foldE (\<lambda>bidx p2. bindE (index bs bidx) (\<lambda>tblock. insert_heap bidx tblock p2)) [0..<BPS] p = Inr p'"
proof -
  let ?P = "\<lambda>i q. length (base_channel q) = BPS \<and> (\<forall>j < BPS. i \<le> j \<longrightarrow> chan q j = chan p j)"
  have "\<exists>q. foldE (\<lambda>bidx p2. bindE (index bs bidx) (\<lambda>tblock. insert_heap bidx tblock p2)) [0..<BPS] p = Inr q \<and> ?P BPS q"
  proof (rule foldE_upt [where P = ?P])
    show "?P 0 p" using pool by (simp add: pool_ok_def)
    fix i q
    assume i: "i < BPS" and q: "?P i q"
    have wf: "mh_ok (max_heap (chan p i))" "mh_max (max_heap (chan p i)) = nos" using pool i by (auto simp: pool_ok_def chan_wf_def)
    have "size (used p i) < nos" using pool_room_limbo [OF pool i l [OF i]] by simp
    then have "mh_size (max_heap (chan p i)) < int (mh_max (max_heap (chan p i)))" using size_mh_items [OF wf(1)] wf(2) by simp
    then obtain h where "mh_insert_append (max_heap (chan p i)) (bs ! i) = Inr h" using mh_insert_append_ok [OF wf(1)] by blast
    then have "insert_heap i (bs ! i) q = Inr (set_channel i ((chan p i)\<lparr>max_heap := h\<rparr>) q)" using q i by (simp add: insert_heap_def)
    then show "\<exists>q'. bindE (index bs i) (\<lambda>tblock. insert_heap i tblock q) = Inr q' \<and> ?P (Suc i) q'"
      using i len q by (simp add: set_channel_def)
  qed
  then show ?thesis by blast
qed

lemma kept_after_trim:
  assumes kept: "seg_kept nos p r m" and bm: "bm_ok nos p" "bm_ok nos p'" and run: "base_trim_segment trim gs p l = Inr (p', l')"
    and gs: "length (g_blocks gs) = BPS" "\<And>j. j < BPS \<Longrightarrow> g_blocks gs ! j mod BPS = j"
    and apart: "\<And>j. j < BPS \<Longrightarrow> seg_blocks p r ! j \<noteq> g_blocks gs ! j"
    and fr: "\<And>j. j < BPS \<Longrightarrow> frees p' j = frees p j @ [g_blocks gs ! j] \<and> used p' j = used p j"
    and bb: "\<And>b. b < nos * BPS \<Longrightarrow> base_block p' ! b = (if b \<in> set (g_blocks gs) then erased (base_block p ! b) else base_block p ! b)"
  shows "seg_kept nos p' r m"
proof -
  note frame = trim_segment_frame [OF run]
  obtain z where z: "segs p r = Some z" "s_now z = m mod BPS"
    and zn: "\<And>j. j < BPS \<Longrightarrow> b_now (base_block p ! (s_blocks z ! j)) = m div BPS + (if j < m mod BPS then 1 else 0)"
    using kept by (auto simp: seg_kept_def taken_def)
  have sb: "seg_blocks p r = s_blocks z" using z(1) by (simp add: seg_blocks_def)
  have l: "limbo nos p j (s_blocks z ! j)" and own: "seg_map p (b_seg_idx (base_block p ! (s_blocks z ! j))) = Some r" if "j < BPS" for j
    using kept that sb by (auto simp: seg_kept_def owned_def)
  have out: "s_blocks z ! j \<notin> set (g_blocks gs)" if j: "j < BPS" for j
  proof
    assume "s_blocks z ! j \<in> set (g_blocks gs)"
    then obtain k where k: "k < BPS" "g_blocks gs ! k = s_blocks z ! j" using gs(1) by (auto simp: in_set_conv_nth)
    then have "k = j" using gs(2) [OF k(1)] l [OF j] by (simp add: limbo_def)
    then show False using apart [OF j] k(2) sb by simp
  qed
  have same: "base_block p' ! (s_blocks z ! j) = base_block p ! (s_blocks z ! j)" if j: "j < BPS" for j
    using bb [of "s_blocks z ! j"] l [OF j] out [OF j] by (simp add: limbo_def)
  have l': "limbo nos p' j (s_blocks z ! j)" if j: "j < BPS" for j using l [OF j] fr [OF j] apart [OF j] sb by (auto simp: limbo_def)
  have map': "seg_map p' (b_seg_idx (base_block p ! (s_blocks z ! j))) = Some r \<and> segs p' r \<noteq> None" if j: "j < BPS" for j
  proof -
    let ?key = "b_seg_idx (base_block p ! (s_blocks z ! j))"
    have "s_blocks z ! j \<in> held_blocks nos p' ?key" using l' [OF j] same [OF j] by (auto simp: held_blocks_def limbo_def)
    then have ne: "held_blocks nos p' ?key \<noteq> {}" by blast
    have so: "segs_ok nos p'" using bm(2) by (simp add: bm_ok_def)
    then obtain a where a: "seg_map p' ?key = Some a" using ne unfolding segs_ok_def by (metis option.exhaust)
    then have "a = r" using frame(2) own [OF j] by fastforce
    moreover have "\<exists>w. segs p' a = Some w" using so a unfolding segs_ok_def by blast
    ultimately show ?thesis using a by auto
  qed
  obtain z' where z': "segs p' r = Some z'" using map' [OF BPS_pos] by blast
  then have zz: "s_blocks z' = s_blocks z" "s_now z' = s_now z" using frame(3) z(1) by fastforce+
  have "taken p' r m" using z' zz z(2) zn same by (simp add: taken_def)
  moreover have "owned p' r" "seg_blocks p' r = s_blocks z" using z' zz map' same by (simp_all add: owned_def seg_blocks_def)
  ultimately show ?thesis using l' by (simp add: seg_kept_def)
qed

text \<open>After the erasure the reserve is still there, and a free segment for the next reserve.\<close>

lemma erased_ok:
  assumes mv: "moving nos s m" and gs: "length (g_blocks gs) = BPS" "\<And>j. j < BPS \<Longrightarrow> limbo nos (pf_bm s) j (g_blocks gs ! j)"
    and apart: "\<And>j. j < BPS \<Longrightarrow> seg_blocks (pf_bm s) (reserve s) ! j \<noteq> g_blocks gs ! j"
  shows "\<exists>p' li'. base_trim_segment posix_trim_a_block gs (pf_bm s) (pf_li s) = Inr (p', li') \<and> moving nos (s\<lparr>pf_bm := p', pf_li := li'\<rparr>) m \<and>
    frees p' 0 \<noteq> [] \<and> (\<forall>q < nos * PPS. page_at li' q = (if GETBLOCKIDX q \<in> set (g_blocks gs) then None else page_at (pf_li s) q))"
proof -
  let ?p = "pf_bm s" and ?r = "reserve s" and ?li = "fold (\<lambda>b. trimmed (page_of b 0)) (g_blocks gs) (pf_li s)"
  have bm: "bm_ok nos ?p" and dev: "device_ok nos (pf_li s)" and kept: "seg_kept nos ?p ?r m" and u: "unwritten nos ?p (pf_li s)"
    using mv by (auto simp: moving_def)
  have gb: "g_blocks gs ! j < nos * BPS" "g_blocks gs ! j mod BPS = j" if "j < BPS" for j using gs(2) [OF that] by (auto simp: limbo_def)
  have "\<forall>b \<in> set (g_blocks gs). b < nos * BPS" using gs(1) gb(1) by (auto simp: in_set_conv_nth)
  note tr = trims_ok [OF dev this]
  have fold: "fold (\<lambda>j. trimmed (GETBLOCKPPA (base_block ?p ! (g_blocks gs ! j)))) [0..<BPS] (pf_li s) = ?li"
  proof -
    have "fold (\<lambda>j. trimmed (GETBLOCKPPA (base_block ?p ! (g_blocks gs ! j)))) [0..<BPS] (pf_li s) =
        fold (\<lambda>j. trimmed (page_of (g_blocks gs ! j) 0)) [0..<BPS] (pf_li s)"
      by (rule fold_cong) (use PPAMAKER_page(2) [OF bm] gb(1) in auto)
    also have "\<dots> = fold (\<lambda>b. trimmed (page_of b 0)) (map ((!) (g_blocks gs)) [0..<BPS]) (pf_li s)" by (simp add: fold_map comp_def)
    finally show ?thesis using map_nth [of "g_blocks gs"] gs(1) by simp
  qed
  obtain p' where p': "base_trim_segment posix_trim_a_block gs ?p (pf_li s) = Inr (p', ?li)" "bm_ok nos p'"
    and fr: "\<And>j. j < BPS \<Longrightarrow> frees p' j = frees ?p j @ [g_blocks gs ! j] \<and> used p' j = used ?p j"
    and bb: "\<And>b. b < nos * BPS \<Longrightarrow> base_block p' ! b = (if b \<in> set (g_blocks gs) then erased (base_block ?p ! b) else base_block ?p ! b)"
    using base_trim_segment_ok [OF bm gs(1), of trimmed "pf_li s"] gs(2) fold trim_segment_posix [OF bm dev gb(1)] by auto
  have ne: "frees p' 0 \<noteq> []" using fr [OF BPS_pos] by simp
  have none: "page_at ?li (page_of b pg) = None" if b: "b < nos * BPS" "pg < PPB" "b_now (base_block p' ! b) \<le> pg" for b pg
    using tr page_of_bound [OF b(1,2)] b u bb [OF b(1)] by (auto simp: unwritten_def)
  have "b_now (base_block p' ! b) = 0" if b: "b < nos * BPS" "b \<in> set (frees p' (b mod BPS))" for b
  proof (cases "b \<in> set (g_blocks gs)")
    case False
    have "g_blocks gs ! (b mod BPS) \<in> set (g_blocks gs)" using gs(1) by simp
    then have "b \<in> set (frees ?p (b mod BPS))" using False b(2) fr [of "b mod BPS"] by auto
    then show ?thesis using False bb [OF b(1)] u b(1) by (simp add: unwritten_def)
  qed (simp add: bb [OF b(1)] erased_def)
  then have "unwritten nos p' ?li" using none by (auto simp: unwritten_def)
  moreover have "seg_kept nos p' ?r m" by (rule kept_after_trim [OF kept bm p'(2) p'(1) gs(1) gb(2) apart fr bb])
  ultimately show ?thesis using p' ne tr by (auto simp: moving_def)
qed

lemma change_reserve_ok:
  assumes mv: "moving nos s m" and ne: "frees (pf_bm s) 0 \<noteq> []"
  shows "\<exists>r p'. base_change_reserve (reserve s) (pf_bm s) = Inr (r, p')"
proof -
  let ?p = "pf_bm s" and ?r = "reserve s"
  have bm: "bm_ok nos ?p" and kept: "seg_kept nos ?p ?r m" and u: "unwritten nos ?p (pf_li s)" using mv by (auto simp: moving_def)
  obtain p1 where p1: "base_get_segment True ?p = Inr (seg_fresh ?p, p1)" "bm_ok nos p1" "seg_kept nos p1 ?r m"
    using next_segment [OF bm ne u, of True] kept by auto
  obtain z where z: "segs p1 ?r = Some z" using p1(3) by (auto simp: seg_kept_def taken_def)
  have "length (s_blocks z) = BPS" by (rule seg_facts(1) [OF p1(2) z])
  moreover have "limbo nos p1 j (s_blocks z ! j)" if "j < BPS" for j using p1(3) z that by (simp add: seg_kept_def seg_blocks_def)
  moreover have "pool_ok nos p1" using p1(2) by (simp add: bm_ok_def)
  ultimately obtain p2 where "foldE (\<lambda>bidx p2. bindE (index (s_blocks z) bidx) (\<lambda>tblock. insert_heap bidx tblock p2)) [0..<BPS] p1 = Inr p2"
    using insert_heaps_ok by blast
  then show ?thesis using p1(1) z by (simp add: base_change_reserve_def)
qed

section \<open>The collector loses the pages it moves\<close>

lemma do_gc_ok:
  assumes ok: "pf_ok nos s n" and buf: "\<And>q. good_value (buf q)" and f: "length fresh = PAGESIZE"
  shows "\<exists>bs s'. do_gc buf fresh s = Inr s' \<and> length bs = BPS \<and> (\<forall>j < BPS. bs ! j \<in># used (pf_bm s) j) \<and>
    mapping s' = mapping s \<and> device_ok nos (pf_li s') \<and> (\<forall>q < nos * PPS. GETBLOCKIDX q \<in> set bs \<longrightarrow> page_at (pf_li s') q = None)"
proof -
  have O: "bm_ok nos (pf_bm s)" "seg_live (pf_bm s) (active s) n" "seg_kept nos (pf_bm s) (reserve s) 0"
    "unwritten nos (pf_bm s) (pf_li s)" "device_ok nos (pf_li s)" using ok by (auto simp: pf_ok_def)
  obtain gs p1 where g: "base_get_gc_target (pf_bm s) = Inr (gs, p1)" "length (g_blocks gs) = BPS"
    "\<And>j. j < BPS \<Longrightarrow> g_blocks gs ! j \<in># used (pf_bm s) j \<and> limbo nos p1 j (g_blocks gs ! j) \<and> seg_blocks p1 (reserve s) ! j \<noteq> g_blocks gs ! j"
    "bm_ok nos p1" "seg_kept nos p1 (reserve s) 0" "unwritten nos p1 (pf_li s)" using gc_victim [OF O(1-4)] by blast
  have gb: "\<And>j. j < BPS \<Longrightarrow> g_blocks gs ! j < nos * BPS" using g(3) by (auto simp: limbo_def)
  obtain li gvs where r: "foldE (gc_read buf gs) (List.product [0..<PPB] [0..<BPS]) (s\<lparr>pf_bm := p1\<rparr>, []) = Inr (s\<lparr>pf_bm := p1, pf_li := li\<rparr>, gvs)"
    "device_ok nos li" "\<forall>q. page_at li q = page_at (pf_li s) q" "length gvs \<le> PPS" "\<forall>gv \<in> set gvs. was_read nos gv"
    using gc_read_ok [of nos "s\<lparr>pf_bm := p1\<rparr>" buf gs] g(2,4) gb O(5) buf by auto
  let ?s2 = "s\<lparr>pf_bm := p1, pf_li := li\<rparr>"
  have "moving nos ?s2 0" using g(4-6) r(2,3) by (simp add: moving_def unwritten_def)
  then obtain s3 where s3: "foldE (gc_move fresh) gvs ?s2 = Inr s3" "moving nos s3 (length gvs)" "same_table ?s2 s3"
    using gc_moves_ok [of nos ?s2 0 gvs fresh] r(4,5) f by auto
  have st: "base_channel (pf_bm s3) = base_channel p1" "seg_blocks (pf_bm s3) = seg_blocks p1" "reserve s3 = reserve s" "mapping s3 = mapping s"
    using s3(3) by (simp_all add: same_table_def)
  have l3: "\<And>j. j < BPS \<Longrightarrow> limbo nos (pf_bm s3) j (g_blocks gs ! j)" using g(3) st(1) by (simp add: limbo_def)
  have ap: "\<And>j. j < BPS \<Longrightarrow> seg_blocks (pf_bm s3) (reserve s3) ! j \<noteq> g_blocks gs ! j" using g(3) st(2,3) by simp
  obtain p4 li4 where t: "base_trim_segment posix_trim_a_block gs (pf_bm s3) (pf_li s3) = Inr (p4, li4)"
    "moving nos (s3\<lparr>pf_bm := p4, pf_li := li4\<rparr>) (length gvs)" "frees p4 0 \<noteq> []"
    "\<forall>q < nos * PPS. page_at li4 q = (if GETBLOCKIDX q \<in> set (g_blocks gs) then None else page_at (pf_li s3) q)"
    using erased_ok [OF s3(2) g(2) l3 ap] by blast
  obtain r5 p5 where c: "base_change_reserve (reserve s3) p4 = Inr (r5, p5)" using change_reserve_ok [OF t(2)] t(3) by auto
  let ?s' = "s3\<lparr>pf_bm := p5, pf_li := li4, active := reserve s3, reserve := r5\<rparr>"
  have "do_gc buf fresh s = Inr ?s'" using g(1) r(1) s3(1) t(1) c by (simp add: do_gc_def)
  moreover have "device_ok nos li4" using t(2) by (simp add: moving_def)
  ultimately show ?thesis using g(2,3) st(4) t(4) by (intro exI [of _ "g_blocks gs"] exI [of _ ?s']) simp
qed

text \<open>
  C3: From start-up and any writes that fit, the collector, when it is called, runs to its end, but it does not
  enter the new places of the pages it moves in the table. It erases a block of every channel that holds written
  segments, and afterwards reading a logical page whose place was in an erased block returns with the buffer of
  the caller untouched: the value is lost.
\<close>

theorem page_ftl_gc_loses_pages:
  assumes "4 \<le> giga" "giga \<le> 512" and "length reqs \<le> (NOS giga - 1) * PPS" "length fresh = PAGESIZE" "\<forall>q. good_value (buf q)"
    and "\<forall>req \<in> set reqs. r_key req < NOP giga \<and> good_value (r_value req)"
  shows "\<exists>s0 s bs s'. boot giga = Inr s0 \<and> page_writes buf fresh reqs s0 = Inr s \<and> do_gc buf fresh s = Inr s' \<and>
    length bs = BPS \<and> (\<forall>j < BPS. bs ! j \<in># used (pf_bm s) j) \<and> mapping s' = mapping s \<and>
    (\<forall>req. r_key req < NOP giga \<and> contents reqs (r_key req) \<noteq> None \<and> good_value (r_value req) \<and>
       GETBLOCKIDX (mapping s ! r_key req) \<in> set bs \<longrightarrow> (\<exists>s''. page_read req s' = Inr (req, s'')))"
proof -
  obtain s0 where s0: "boot giga = Inr s0" "pf_ok (NOS giga) s0 0" "room s0 0 = (NOS giga - 1) * PPS"
    "mapping s0 = replicate (NOP giga) UINT_MAX" using boot_ok [OF assms(1,2)] by blast
  have "stores (NOS giga) s0 Map.empty" using s0(4) by (simp add: stores_def)
  then obtain s n where s: "page_writes buf fresh reqs s0 = Inr s" "pf_ok (NOS giga) s n" "length (mapping s) = NOP giga"
    "stores (NOS giga) s (contents reqs)"
    using writes_ok [OF s0(2), of Map.empty reqs fresh buf] s0(3,4) assms(3,4,6) by (auto simp: contents_def)
  obtain bs s' where g: "do_gc buf fresh s = Inr s'" "length bs = BPS" "\<forall>j < BPS. bs ! j \<in># used (pf_bm s) j" "mapping s' = mapping s"
    "device_ok (NOS giga) (pf_li s')" "\<forall>q < NOS giga * PPS. GETBLOCKIDX q \<in> set bs \<longrightarrow> page_at (pf_li s') q = None"
    using do_gc_ok [OF s(2) _ assms(4), of buf] assms(5) by blast
  have "\<exists>s''. page_read req s' = Inr (req, s'')"
    if req: "r_key req < NOP giga" "contents reqs (r_key req) \<noteq> None" "good_value (r_value req)" "GETBLOCKIDX (mapping s ! r_key req) \<in> set bs" for req
  proof -
    let ?m = "mapping s ! r_key req"
    have m: "?m < NOS giga * PPS" using s(3,4) req(1,2) by (auto simp: stores_def)
    then have none: "page_at (pf_li s') ?m = None" using g(6) req(4) by blast
    have "?m \<noteq> UINT_MAX" using m g(5) by (auto simp: device_ok_def)
    then have "page_map_pick (r_key req) s' = Inr ?m" using g(4) s(3) req(1) by (simp add: page_map_pick_def)
    then show ?thesis
      using pull_page [OF g(5) m, of "r_value req" "\<lparr>ar_ppa = 0, ar_type = DATAR, ar_type_lower = 0\<rparr>"] none req(3)
      by (auto simp: page_read_def good_value_def)
  qed
  then show ?thesis using s0(1) s(1) g(1-4) by (intro exI [of _ s0] exI [of _ s] exI [of _ bs] exI [of _ s']) blast
qed

theorem page_ftl_gc_loses_pages_witness:
  "\<exists>s0 s s' s''. boot 4 = Inr s0 \<and>
     page_writes (\<lambda>_. \<lparr>vs_value = replicate PAGESIZE 0, dmatag = 0\<rparr>) (replicate PAGESIZE 0)
       [\<lparr>r_key = 5, r_value = \<lparr>vs_value = replicate PAGESIZE 7, dmatag = 0\<rparr>\<rparr>] s0 = Inr s \<and>
     do_gc (\<lambda>_. \<lparr>vs_value = replicate PAGESIZE 0, dmatag = 0\<rparr>) (replicate PAGESIZE 0) s = Inr s' \<and>
     page_read \<lparr>r_key = 5, r_value = \<lparr>vs_value = replicate PAGESIZE 1, dmatag = 0\<rparr>\<rparr> s' =
       Inr (\<lparr>r_key = 5, r_value = \<lparr>vs_value = replicate PAGESIZE 1, dmatag = 0\<rparr>\<rparr>, s'')"
proof -
  let ?w = "\<lambda>x. \<lparr>r_key = 5, r_value = \<lparr>vs_value = replicate PAGESIZE x, dmatag = 0\<rparr>\<rparr>"
  let ?buf = "\<lambda>_ :: nat. \<lparr>vs_value = replicate PAGESIZE 0, dmatag = 0\<rparr>" and ?fresh = "replicate PAGESIZE 0 :: u8 list"
  have g: "r_key (?w x) < NOP 4 \<and> good_value (r_value (?w x))" "\<forall>q. good_value (?buf q)" for x
    by (simp_all add: good_value_def NOP_def TOTALSIZE_def PAGESIZE_def)
  have len: "length [?w 7] \<le> (NOS 4 - 1) * PPS" by (simp add: NOS_def TOTALSIZE_def PAGESIZE_def)
  have c: "contents [?w 7] (r_key (?w 1)) \<noteq> None" by (simp add: contents_def)
  from page_ftl_gc_loses_pages [of 4 "[?w 7]" ?fresh ?buf] g len
  obtain s0 s bs s' where s: "boot 4 = Inr s0" "page_writes ?buf ?fresh [?w 7] s0 = Inr s" "do_gc ?buf ?fresh s = Inr s'"
    "length bs = BPS" "\<forall>j < BPS. bs ! j \<in># used (pf_bm s) j"
    and lost: "\<And>req. r_key req < NOP 4 \<Longrightarrow> contents [?w 7] (r_key req) \<noteq> None \<Longrightarrow> good_value (r_value req) \<Longrightarrow>
       GETBLOCKIDX (mapping s ! r_key req) \<in> set bs \<Longrightarrow> \<exists>s''. page_read req s' = Inr (req, s'')" by auto
  obtain t where t: "boot 4 = Inr t" "pf_ok (NOS 4) t 0" "room t 0 = (NOS 4 - 1) * PPS" "mapping t = replicate (NOP 4) UINT_MAX"
    "\<forall>j < BPS. used (pf_bm t) j = {#seg_blocks (pf_bm t) (active t) ! j#}" using boot_ok [of 4] by auto
  have "stores (NOS 4) t Map.empty" using t(4) by (simp add: stores_def)
  then obtain req' t' where w: "page_write ?buf ?fresh (?w 7) t = Inr (req', t')" "base_channel (pf_bm t') = base_channel (pf_bm t)"
    "GETBLOCKIDX (mapping t' ! 5) = seg_blocks (pf_bm t) (active t) ! 0"
    using write_ok [OF t(2), of Map.empty "?w 7" ?fresh ?buf] t(3,4) g by (auto simp: NOS_def TOTALSIZE_def PAGESIZE_def)
  have e: "t' = s" using s(1,2) t(1) w(1) by (simp add: page_writes_def)
  have "bs ! 0 = GETBLOCKIDX (mapping s ! 5)" using s(5) t(5) w(2,3) e BPS_pos by auto
  then have "GETBLOCKIDX (mapping s ! r_key (?w 1)) \<in> set bs" using s(4) BPS_pos nth_mem [of 0 bs] by simp
  then show ?thesis using s(1-3) lost [of "?w 1", OF _ c] g by auto
qed

end
