(* ===== verification/Pt_Bm.thy ===== *)
theory Pt_Bm
  imports Bm_Pages
begin

text \<open>
  The partitioned block manager of \<^verbatim>\<open>src/blockmanager/partition/pt_block_manager.c\<close>, used by the translation
  layers that keep their mapping on flash: the segments of the device are divided among partitions, the first for
  the mapping and the second for the data. It has the blocks and segments of \<open>Base_Bm\<close> and free queues
  and heaps of its own for every partition. The theory shows that blocks never move between partitions, and which
  segment the collector takes from the mapping partition.
\<close>

section \<open>Data\<close>

definition PARTNUM :: nat where "PARTNUM = 2"
definition MAP_S :: nat where "MAP_S = 0"
definition DATA_S :: nat where "DATA_S = 1"

record p_info =
  pnum :: nat
  now_assign :: "int list"
  max_assign :: "int list"
  p_from :: "nat list"
  p_to :: "int list"
  p_channel :: "channel list list"

text \<open>\<open>bbm_pri\<close> and its \<open>private_data\<close>; \<open>base_channel\<close> is not used here.\<close>

record pt_bm =
  pri :: bbm_pri
  pinfo :: p_info

text \<open>The callback of the heaps; the heap stores the \<open>int\<close> in a \<open>uint64_t\<close>.\<close>

definition pt_get_cnt :: "bbm_pri \<Rightarrow> blk \<Rightarrow> nat" where
  "pt_get_cnt p i = nat (age (base_block p ! i) mod 2 ^ 64)"

definition part_channel :: "p_info \<Rightarrow> nat \<Rightarrow> nat \<Rightarrow> channel res" where
  "part_channel pi pn i = bindE (index (p_channel pi) pn) (\<lambda>cs. index cs i)"

definition set_part_channel :: "nat \<Rightarrow> nat \<Rightarrow> channel \<Rightarrow> pt_bm \<Rightarrow> pt_bm" where
  "set_part_channel pn i c b =
     b\<lparr>pinfo := (pinfo b)\<lparr>p_channel := (p_channel (pinfo b))[pn := (p_channel (pinfo b) ! pn)[i := c]]\<rparr>\<rparr>"

section \<open>Creation\<close>

definition pt_channel :: "nat \<Rightarrow> nat \<Rightarrow> nat \<Rightarrow> channel res" where
  "pt_channel start fin j =
     bindE (foldE (\<lambda>k q. bindE (q_enqueue (k * BPS + j mod BPS) q) (\<lambda>r. Inr (snd r))) [start..<fin] (q_init (fin - start)))
       (\<lambda>q. Inr \<lparr>free_block = q, max_heap = mh_init (fin - start)\<rparr>)"

text \<open>
  One partition of \<open>n\<close> segments from segment \<open>start\<close> on. The message that is printed reads the first
  and the last block of the partition.
\<close>

definition pt_part :: "block list \<Rightarrow> nat \<Rightarrow> p_info \<times> nat \<Rightarrow> (p_info \<times> nat) res" where
  "pt_part bs n = (\<lambda>(pi, start).
     let fin = start + n in
     bindE (index bs (start * 64)) (\<lambda>_.
     bindE (if fin = 0 then Inl Bad_Access else index bs ((fin - 1) * 64)) (\<lambda>_.
     bindE (foldE (\<lambda>j cs. bindE (pt_channel start fin j) (\<lambda>c. Inr (cs @ [c]))) [0..<PUNIT] []) (\<lambda>cs.
       Inr (pi\<lparr>now_assign := now_assign pi @ [0], max_assign := max_assign pi @ [int n], p_from := p_from pi @ [start],
               p_to := p_to pi @ [int fin - 1], p_channel := p_channel pi @ [cs]\<rparr>, fin)))))"

definition pbm_create ::
  "nat \<Rightarrow> nat \<Rightarrow> (nat \<Rightarrow> (nat \<times> bool) list) option \<Rightarrow> nat list \<Rightarrow> (bb_checker \<times> pt_bm) res" where
  "pbm_create rnos nos device epn =
     bindE (bb_checker_start rnos device) (\<lambda>(c, _).
     bindE (create_blocks nos c) (\<lambda>(c', bs).
     bindE (foldE (pt_part bs) epn
       (\<lparr>pnum = length epn, now_assign = [], max_assign = [], p_from = [], p_to = [], p_channel = []\<rparr>, 0)) (\<lambda>(pi, _).
       Inr (c'\<lparr>map_first := False\<rparr>,
            \<lparr>pri = \<lparr>base_block = bs, base_channel = [], seg_map = Map.empty, seg_map_idx = 0, segs = Map.empty, seg_fresh = 0\<rparr>,
             pinfo = pi\<rparr>))))"

definition pbm_destroy :: "pt_bm \<Rightarrow> nat res" where
  "pbm_destroy b =
     bindE (foldE (\<lambda>i _. foldE (\<lambda>j _.
         bindE (part_channel (pinfo b) i j) (\<lambda>c. bindE (q_free (free_block c)) (\<lambda>_. Inr ()))) [0..<BPS] ())
       [0..<pnum (pinfo b)] ()) (\<lambda>_. Inr 1)"

section \<open>Segments\<close>

definition pt_segment_step :: "nat \<Rightarrow> bool \<Rightarrow> nat \<Rightarrow> pt_bm \<times> blk list \<Rightarrow> (pt_bm \<times> blk list) res" where
  "pt_segment_step pn isreserve i = (\<lambda>(b, bs).
     bindE (part_channel (pinfo b) pn i) (\<lambda>c.
     bindE (q_dequeue (free_block c)) (\<lambda>(bo, q).
       case bo of
         None \<Rightarrow> Inl Abort
       | Some x \<Rightarrow>
           bindE (if \<not> isreserve \<and> pn = DATA_S then mh_insert_append (max_heap c) x else Inr (max_heap c)) (\<lambda>h.
           bindE (index (base_block (pri b)) x) (\<lambda>_.
             let b1 = set_part_channel pn i \<lparr>free_block = q, max_heap = h\<rparr> b in
             Inr (if pn = DATA_S then b1\<lparr>pri := upd_block x (\<lambda>y. y\<lparr>b_seg_idx := seg_map_idx (pri b)\<rparr>) (pri b1)\<rparr> else b1,
                  bs @ [x]))))))"

text \<open>
  Only segments of data are entered in the map; \<open>seg_idx\<close> and \<open>invalid_blocks\<close> of the others, which the code
  does not write and does not read, are 0 here. The counter is incremented after the comparison.
\<close>

definition pbm_pt_get_segment :: "nat \<Rightarrow> bool \<Rightarrow> pt_bm \<Rightarrow> (addr \<times> pt_bm) res" where
  "pbm_pt_get_segment pn isreserve b0 =
     bindE (foldE (pt_segment_step pn isreserve) [0..<BPS] (b0, [])) (\<lambda>(b, bs).
       let p = pri b; a = seg_fresh p;
           s = \<lparr>s_seg_idx = if pn = DATA_S then seg_map_idx p else 0, s_blocks = bs, s_now = 0, s_max = BPS, used_page_num = 0,
                invalid_blocks = 0\<rparr>;
           p1 = p\<lparr>segs := (segs p)(a \<mapsto> s), seg_fresh := a + 1\<rparr>;
           p2 = (if pn = DATA_S then p1\<lparr>seg_map := (seg_map p)(seg_map_idx p \<mapsto> a), seg_map_idx := seg_map_idx p + 1\<rparr> else p1)
       in bindE (index (now_assign (pinfo b)) pn) (\<lambda>now.
          bindE (index (max_assign (pinfo b)) pn) (\<lambda>mx.
            if now > mx then Inl Abort
            else Inr (a, b\<lparr>pri := p2, pinfo := (pinfo b)\<lparr>now_assign := (now_assign (pinfo b))[pn := now + 1]\<rparr>\<rparr>))))"

definition pt_insert_heap :: "nat \<Rightarrow> nat \<Rightarrow> blk \<Rightarrow> pt_bm \<Rightarrow> pt_bm res" where
  "pt_insert_heap pn i x b =
     bindE (part_channel (pinfo b) pn i) (\<lambda>c.
     bindE (mh_insert_append (max_heap c) x) (\<lambda>h. Inr (set_part_channel pn i (c\<lparr>max_heap := h\<rparr>) b)))"

definition pbm_change_pt_reserve :: "nat \<Rightarrow> addr \<Rightarrow> pt_bm \<Rightarrow> (addr \<times> pt_bm) res" where
  "pbm_change_pt_reserve pn reserve b =
     bindE (pbm_pt_get_segment pn True b) (\<lambda>(res, b1).
       if pn = DATA_S then
         bindE (deref (segs (pri b1) reserve)) (\<lambda>s.
         bindE (foldE (\<lambda>bidx b2. bindE (index (s_blocks s) bidx) (\<lambda>tblock. pt_insert_heap pn bidx tblock b2)) [0..<BPS] b1) (\<lambda>b3.
           Inr (res, b3)))
       else Inr (res, b1))"

section \<open>Garbage collection\<close>

definition pt_target_step :: "nat \<Rightarrow> nat \<Rightarrow> pt_bm \<times> blk list \<times> nat \<Rightarrow> (pt_bm \<times> blk list \<times> nat) res" where
  "pt_target_step pn i = (\<lambda>(b, bs, inv_num).
     bindE (part_channel (pinfo b) pn i) (\<lambda>c.
     bindE (mh_construct (pt_get_cnt (pri b)) (max_heap c)) (\<lambda>h1.
     bindE (mh_get_max (pt_get_cnt (pri b)) h1) (\<lambda>(bo, h2).
       case bo of
         None \<Rightarrow> Inl Abort
       | Some x \<Rightarrow>
           bindE (index (base_block (pri b)) x) (\<lambda>bl.
             Inr (set_part_channel pn i (c\<lparr>max_heap := h2\<rparr>) b, bs @ [x], inv_num + invalid_number bl))))))"

text \<open>The sum of the invalid pages of segment \<open>i\<close>, and the search for the segment with most of them.\<close>

definition seg_invalid :: "block list \<Rightarrow> nat \<Rightarrow> nat res" where
  "seg_invalid bs i = foldE (\<lambda>j n. bindE (index bs (i * BPS + j)) (\<lambda>bl. Inr (n + invalid_number bl))) [0..<BPS] 0"

definition map_target_step :: "block list \<Rightarrow> nat \<Rightarrow> nat \<times> nat \<Rightarrow> (nat \<times> nat) res" where
  "map_target_step bs i = (\<lambda>(target_seg, max_invalid).
     bindE (seg_invalid bs i) (\<lambda>now_invalid.
       if now_invalid > PPS then Inl Abort
       else if now_invalid > max_invalid then Inr (i, now_invalid)
       else Inr (target_seg, max_invalid)))"

definition pbm_pt_get_gc_target :: "nat \<Rightarrow> pt_bm \<Rightarrow> (gsegment \<times> pt_bm) res" where
  "pbm_pt_get_gc_target pn b =
     bindE (if pn = DATA_S then foldE (pt_target_step pn) [0..<BPS] (b, [], 0)
            else
              bindE (index (p_from (pinfo b)) pn) (\<lambda>from.
              bindE (index (p_to (pinfo b)) pn) (\<lambda>to.
              bindE (foldE (map_target_step (base_block (pri b))) [from..<nat (to + 1)] (0, 0)) (\<lambda>(target_seg, max_invalid).
              bindE (foldE (\<lambda>j bs. bindE (index (base_block (pri b)) (target_seg * BPS + j)) (\<lambda>_. Inr (bs @ [target_seg * BPS + j])))
                       [0..<BPS] []) (\<lambda>bs.
                Inr (b, bs, max_invalid)))))) (\<lambda>(b1, bs, inv_num).
       if pn = MAP_S \<and> inv_num = 0 then Inl Abort
       else Inr (\<lparr>g_blocks = bs, g_now = 0, g_max = BPS, invalidate_number = inv_num\<rparr>, b1))"

definition pt_enqueue :: "nat \<Rightarrow> nat \<Rightarrow> blk \<Rightarrow> pt_bm \<Rightarrow> pt_bm res" where
  "pt_enqueue pn i x b =
     bindE (part_channel (pinfo b) pn i) (\<lambda>c.
     bindE (q_enqueue x (free_block c)) (\<lambda>r. Inr (set_part_channel pn i (c\<lparr>free_block := snd r\<rparr>) b)))"

text \<open>A block of data also leaves its segment, which is freed with its last block.\<close>

definition pt_release :: "nat \<Rightarrow> nat \<Rightarrow> pt_bm \<Rightarrow> pt_bm res" where
  "pt_release pn key b =
     (if pn = DATA_S then bindE (release_block key (pri b)) (\<lambda>p. Inr (b\<lparr>pri := p\<rparr>)) else Inr b)"

definition pt_trim_step ::
  "(nat \<Rightarrow> 'l \<Rightarrow> 'l res) \<Rightarrow> nat \<Rightarrow> gsegment \<Rightarrow> nat \<Rightarrow> pt_bm \<times> 'l \<Rightarrow> (pt_bm \<times> 'l) res" where
  "pt_trim_step trim pn gs i = (\<lambda>(b, l).
     bindE (index (g_blocks gs) i) (\<lambda>x.
     bindE (index (base_block (pri b)) x) (\<lambda>bl.
     bindE (trim (GETBLOCKPPA bl) l) (\<lambda>l'.
     bindE (pt_enqueue pn i x (b\<lparr>pri := upd_block x erased (pri b)\<rparr>)) (\<lambda>b1.
     bindE (pt_release pn (b_seg_idx bl) b1) (\<lambda>b2. Inr (b2, l')))))))"

definition pbm_pt_trim_segment :: "(nat \<Rightarrow> 'l \<Rightarrow> 'l res) \<Rightarrow> nat \<Rightarrow> gsegment \<Rightarrow> pt_bm \<Rightarrow> 'l \<Rightarrow> (pt_bm \<times> 'l) res" where
  "pbm_pt_trim_segment trim pn gs b0 l0 =
     bindE (foldE (pt_trim_step trim pn gs) [0..<BPS] (b0, l0)) (\<lambda>(b, l).
     bindE (index (now_assign (pinfo b)) pn) (\<lambda>now.
       if now - 1 < 0 then Inl Abort
       else Inr (b\<lparr>pinfo := (pinfo b)\<lparr>now_assign := (now_assign (pinfo b))[pn := now - 1]\<rparr>\<rparr>, l)))"

section \<open>The rest of the interface\<close>

definition pbm_pt_remain_page :: "nat \<Rightarrow> addr \<Rightarrow> pt_bm \<Rightarrow> int res" where
  "pbm_pt_remain_page pn active b =
     bindE (part_channel (pinfo b) pn 0) (\<lambda>c.
     bindE (deref (segs (pri b) active)) (\<lambda>s.
       Inr (int (q_size (free_block c) * PPS) + (int PPS - int (used_page_num s)))))"

definition pbm_pt_isgc_needed :: "nat \<Rightarrow> pt_bm \<Rightarrow> bool res" where
  "pbm_pt_isgc_needed pn b = bindE (part_channel (pinfo b) pn 0) (\<lambda>c. Inr (q_size (free_block c) = 0))"

definition reserve_step :: "nat \<Rightarrow> segment \<Rightarrow> nat \<Rightarrow> pt_bm \<Rightarrow> pt_bm res" where
  "reserve_step pn s i b =
     bindE (index (s_blocks s) i) (\<lambda>x.
     bindE (index (base_block (pri b)) x) (\<lambda>bl.
       if invalid_number bl \<noteq> 0 then Inl Abort
       else
         bindE (pt_enqueue pn i x (b\<lparr>pri := upd_block x (\<lambda>y. y\<lparr>invalid_number := 0, b_now := 0\<rparr>) (pri b)\<rparr>)) (\<lambda>b1.
           pt_release pn (b_seg_idx bl) b1)))"

text \<open>\<open>free(reserve)\<close> at the end is a second release of the segment if it was one of data.\<close>

definition pbm_reserve_to_free :: "nat \<Rightarrow> addr \<Rightarrow> pt_bm \<Rightarrow> pt_bm res" where
  "pbm_reserve_to_free pn reserve b0 =
     bindE (deref (segs (pri b0) reserve)) (\<lambda>s.
     bindE (foldE (reserve_step pn s) [0..<BPS] b0) (\<lambda>b.
     bindE (deref (segs (pri b) reserve)) (\<lambda>_.
     bindE (index (now_assign (pinfo b)) pn) (\<lambda>now.
       Inr (b\<lparr>pri := (pri b)\<lparr>segs := (segs (pri b))(reserve := None)\<rparr>,
              pinfo := (pinfo b)\<lparr>now_assign := (now_assign (pinfo b))[pn := now - 1]\<rparr>\<rparr>)))))"

section \<open>What a heap holds\<close>

text \<open>
  No assumption on the shape of the heap is needed for this: whatever a heap gives back has been put into it.
\<close>

definition body_in :: "('a \<Rightarrow> bool) \<Rightarrow> 'a hn list \<Rightarrow> bool" where
  "body_in P b \<longleftrightarrow> (\<forall>n \<in> set b. \<forall>x. hn_data n = Some x \<longrightarrow> P x)"

lemma body_in_map: "body_in P b \<longleftrightarrow> (\<forall>x. Some x \<in> set (map hn_data b) \<longrightarrow> P x)"
  by (auto simp: body_in_def image_iff) metis

lemma body_in_swap:
  assumes "i < length b" "j < length b"
  shows "body_in P (swap_nodes b i j) = body_in P b"
  using mset_swap_nodes [OF assms] unfolding body_in_map by (metis set_mset_mset)

lemma maxchild_data: "maxchild g b i = Inr (r, b') \<Longrightarrow> map hn_data b' = map hn_data b"
  by (auto simp: maxchild_def bindE_eq_Inr Let_def split: if_splits)

lemma downdate_in:
  "internal_downdate_loop g b hp c = Inr (c', b', hp') \<Longrightarrow> body_in P b \<Longrightarrow> body_in P b'"
proof (induction g b hp c rule: internal_downdate_loop.induct)
  case (1 g b hp c)
  show ?case
  proof (cases "maxchild g b c")
    case (Inr r)
    obtain ch b1 where r: "r = (ch, b1)" by force
    have m: "maxchild g b c = Inr (ch, b1)" using Inr r by simp
    have b1: "body_in P b1" using 1(3) maxchild_data [OF m] by (simp add: body_in_map)
    show ?thesis
    proof (cases ch)
      case None
      then show ?thesis using 1(2) m b1 by (subst (asm) internal_downdate_loop.simps) simp
    next
      case (Some child)
      then have m': "maxchild g b c = Inr (Some child, b1)" using m by simp
      then have l: "child < length b1" "c < length b1" using maxchild_child [OF m'] by auto
      show ?thesis
      proof (cases "hn_cnt (b1 ! child) > hn_cnt (b1 ! c)")
        case True
        obtain hp1 where hp1: "swap_hptr hp (hn_data (b1 ! c)) (hn_data (b1 ! child)) = Inr hp1"
          using 1(2) m' True by (subst (asm) internal_downdate_loop.simps) (auto split: sum.splits)
        have "internal_downdate_loop g (swap_nodes b1 child c) hp1 child = Inr (c', b', hp')"
          using 1(2) m' True hp1 by (subst (asm) internal_downdate_loop.simps) simp
        then show ?thesis using 1(1) [OF m' refl refl True hp1] b1 body_in_swap [OF l, of P] by blast
      next
        case False
        then show ?thesis using 1(2) m' b1 by (subst (asm) internal_downdate_loop.simps) simp
      qed
    qed
  qed (use 1(2) in \<open>subst (asm) internal_downdate_loop.simps, simp\<close>)
qed

abbreviation heap_in :: "('a \<Rightarrow> bool) \<Rightarrow> 'a mh \<Rightarrow> bool" where
  "heap_in P h \<equiv> body_in P (mh_body h)"

lemma heap_in_init: "heap_in P (mh_init n)"
  by (simp add: body_in_def mh_init_def)

lemma heap_in_append: "mh_insert_append h x = Inr h' \<Longrightarrow> heap_in P h \<Longrightarrow> P x \<Longrightarrow> heap_in P h'"
  by (auto simp: mh_insert_append_def body_in_def bindE_eq_Inr split: if_splits dest!: set_update_subset_insert [THEN subsetD])

lemma heap_in_downdate: "mh_internal_downdate g h n = Inr (c, h') \<Longrightarrow> heap_in P h \<Longrightarrow> heap_in P h'"
  by (auto simp: mh_internal_downdate_def bindE_eq_Inr dest: downdate_in)

lemma heap_in_construct:
  assumes "mh_construct g h = Inr h'" "heap_in P h"
  shows "heap_in P h'"
  using assms unfolding mh_construct_def
  by (rule foldE_keeps) (auto elim!: foldE_keeps simp: bindE_eq_Inr dest: heap_in_downdate)

lemma heap_in_max:
  assumes "mh_get_max g h = Inr (bo, h')" "heap_in P h"
  shows "heap_in P h'" "bo = Some x \<Longrightarrow> P x"
proof -
  obtain one lst r where o: "body_at h 1 = Inr one" "body_at h (mh_size h) = Inr lst" "bo = hn_data (mh_body h ! one)"
    "mh_internal_downdate g (h\<lparr>mh_body := (mh_body h)[one := mh_body h ! lst, lst := ((mh_body h)[one := mh_body h ! lst] ! lst)\<lparr>hn_data := None\<rparr>]\<rparr>) one = Inr r"
    "h' = (snd r)\<lparr>mh_size := mh_size h - 1\<rparr>"
    using assms(1) by (auto simp: mh_get_max_def bindE_eq_Inr Let_def)
  have l: "one < length (mh_body h)" "lst < length (mh_body h)" using o(1,2) by (auto simp: body_at_def split: if_splits)
  have "heap_in P (h\<lparr>mh_body := (mh_body h)[one := mh_body h ! lst, lst := ((mh_body h)[one := mh_body h ! lst] ! lst)\<lparr>hn_data := None\<rparr>]\<rparr>)"
    using assms(2) l by (auto simp: body_in_def dest!: set_update_subset_insert [THEN subsetD])
  then show "heap_in P h'" using heap_in_downdate [of g _ one "fst r" "snd r"] o(4,5) by simp
  show "P x" if "bo = Some x" using assms(2) l(1) that o(3) by (auto simp: body_in_def)
qed

section \<open>Invariant\<close>

text \<open>Block \<open>x\<close> belongs to channel \<open>j\<close> of partition \<open>k\<close>.\<close>

definition home :: "p_info \<Rightarrow> nat \<Rightarrow> nat \<Rightarrow> blk \<Rightarrow> bool" where
  "home pi k j x \<longleftrightarrow> k < length (p_from pi) \<and> p_from pi ! k \<le> x div BPS \<and> int (x div BPS) \<le> p_to pi ! k \<and> x mod BPS = j"

definition chan_in :: "(blk \<Rightarrow> bool) \<Rightarrow> channel \<Rightarrow> bool" where
  "chan_in P c \<longleftrightarrow> q_ok (free_block c) \<and> (\<forall>x \<in> set (q_list (free_block c)). P x) \<and> heap_in P (max_heap c)"

definition pt_ok :: "pt_bm \<Rightarrow> bool" where
  "pt_ok b \<longleftrightarrow> length (p_to (pinfo b)) = length (p_from (pinfo b)) \<and> length (p_channel (pinfo b)) = length (p_from (pinfo b)) \<and>
     (\<forall>k < length (p_from (pinfo b)). \<forall>j < length (p_channel (pinfo b) ! k). chan_in (home (pinfo b) k j) (p_channel (pinfo b) ! k ! j))"

text \<open>Nothing but the channels and the counters of the partitions changes after creation.\<close>

definition same_parts :: "pt_bm \<Rightarrow> pt_bm \<Rightarrow> bool" where
  "same_parts b b' \<longleftrightarrow> p_from (pinfo b') = p_from (pinfo b) \<and> p_to (pinfo b') = p_to (pinfo b)"

lemma same_parts_refl [simp]: "same_parts b b"
  by (simp add: same_parts_def)

lemma same_parts_home: "same_parts b b' \<Longrightarrow> home (pinfo b') = home (pinfo b)"
  by (intro ext) (simp add: same_parts_def home_def)

lemma same_parts_trans: "same_parts b b1 \<Longrightarrow> same_parts b1 b2 \<Longrightarrow> same_parts b b2"
  by (simp add: same_parts_def)

lemma part_channel_in:
  assumes "pt_ok b" "part_channel (pinfo b) k i = Inr c"
  shows "chan_in (home (pinfo b) k i) c" "k < length (p_from (pinfo b))"
  using assms by (auto simp: pt_ok_def part_channel_def bindE_eq_Inr index_eq_Inr)

lemma set_channel_ok:
  assumes "pt_ok b" "part_channel (pinfo b) k i = Inr c" "chan_in (home (pinfo b) k i) c'"
  shows "pt_ok (set_part_channel k i c' b)" "same_parts b (set_part_channel k i c' b)"
proof -
  let ?b = "set_part_channel k i c' b"
  show s: "same_parts b ?b" by (simp add: same_parts_def set_part_channel_def)
  have h: "home (pinfo ?b) = home (pinfo b)" by (rule same_parts_home [OF s])
  have "chan_in (home (pinfo b) k' j) (p_channel (pinfo ?b) ! k' ! j)"
    if "k' < length (p_from (pinfo b))" "j < length (p_channel (pinfo ?b) ! k')" for k' j
    using that assms part_channel_in(2) [OF assms(1,2)]
    by (cases "k' = k"; cases "j = i") (auto simp: pt_ok_def set_part_channel_def)
  then show "pt_ok ?b" using assms(1) unfolding pt_ok_def h by (simp add: set_part_channel_def)
qed

lemma pri_ok [simp]: "pt_ok (b\<lparr>pri := p\<rparr>) = pt_ok b" "same_parts b (b1\<lparr>pri := p\<rparr>) = same_parts b b1"
  by (simp_all add: pt_ok_def same_parts_def)

lemma counters_ok [simp]:
  "pt_ok (b\<lparr>pinfo := (pinfo b1)\<lparr>now_assign := xs\<rparr>\<rparr>) = pt_ok b1"
  "same_parts b (b2\<lparr>pinfo := (pinfo b1)\<lparr>now_assign := xs\<rparr>\<rparr>) = same_parts b b1"
proof -
  have "home ((pinfo b1)\<lparr>now_assign := xs\<rparr>) = home (pinfo b1)" by (intro ext) (simp add: home_def)
  then show "pt_ok (b\<lparr>pinfo := (pinfo b1)\<lparr>now_assign := xs\<rparr>\<rparr>) = pt_ok b1" by (simp add: pt_ok_def)
qed (simp add: same_parts_def)

lemma q_enqueue_in:
  assumes "q_enqueue x q = Inr (r, q')" "q_ok q"
  shows "q_ok q'" "set (q_list q') \<subseteq> insert x (set (q_list q))"
proof -
  consider "length (q_list q) < q_msize q" | "length (q_list q) = q_msize q" using q_ok_bound [OF assms(2)] by linarith
  then have "q_ok q' \<and> set (q_list q') \<subseteq> insert x (set (q_list q))"
  proof cases
    case 1
    then show ?thesis using q_enqueue_room [OF assms(2) 1, of x] assms(1) by auto
  next
    case 2
    then show ?thesis using q_enqueue_full [OF assms(2) 2, of x] assms by auto
  qed
  then show "q_ok q'" "set (q_list q') \<subseteq> insert x (set (q_list q))" by auto
qed

lemma q_dequeue_in:
  assumes "q_dequeue q = Inr (Some x, q')" "q_ok q"
  shows "q_ok q'" "q_list q = x # q_list q'"
proof -
  obtain y ys where "q_list q = y # ys" using assms q_dequeue_empty [OF assms(2)] by (cases "q_list q") auto
  then have "q_ok q' \<and> q_list q = x # q_list q'" using q_dequeue_cons [OF assms(2)] assms(1) by fastforce
  then show "q_ok q'" "q_list q = x # q_list q'" by auto
qed

text \<open>The blocks \<open>bs\<close> are one of every channel of partition \<open>k\<close>, from channel 0 on.\<close>

definition block_group :: "pt_bm \<Rightarrow> nat \<Rightarrow> blk list \<Rightarrow> bool" where
  "block_group b k bs \<longleftrightarrow> (\<forall>j < length bs. home (pinfo b) k j (bs ! j))"

lemma group_snoc: "block_group b k (bs @ [x]) \<longleftrightarrow> block_group b k bs \<and> home (pinfo b) k (length bs) x"
  by (auto simp: block_group_def nth_append less_Suc_eq)

lemma group_same: "same_parts b b' \<Longrightarrow> block_group b' k bs = block_group b k bs"
  by (simp add: block_group_def same_parts_home)

section \<open>Every operation keeps the partitions apart\<close>

definition kept_ok :: "pt_bm \<Rightarrow> pt_bm \<Rightarrow> bool" where
  "kept_ok b b' \<longleftrightarrow> pt_ok b' \<and> same_parts b b'"

lemma kept_ok_trans: "kept_ok b b1 \<Longrightarrow> kept_ok b1 b2 \<Longrightarrow> kept_ok b b2"
  using same_parts_trans by (auto simp: kept_ok_def)

lemma segment_step_ok:
  assumes ok: "pt_ok b" and st: "pt_segment_step pn r i (b, bs) = Inr (b', bs')"
  shows "kept_ok b b'" "\<exists>x. bs' = bs @ [x] \<and> home (pinfo b) pn i x"
    "segs (pri b') = segs (pri b) \<and> seg_fresh (pri b') = seg_fresh (pri b)"
proof -
  obtain c where ch: "part_channel (pinfo b) pn i = Inr c" using st by (cases "part_channel (pinfo b) pn i") (auto simp: pt_segment_step_def)
  obtain bo q where d: "q_dequeue (free_block c) = Inr (bo, q)" using st ch by (cases "q_dequeue (free_block c)") (auto simp: pt_segment_step_def)
  obtain x where x: "bo = Some x" using st ch d by (cases bo) (auto simp: pt_segment_step_def)
  let ?h = "if \<not> r \<and> pn = DATA_S then mh_insert_append (max_heap c) x else Inr (max_heap c)"
  obtain h where h: "?h = Inr h" using st ch d x by (cases ?h) (auto simp: pt_segment_step_def)
  have b: "bs' = bs @ [x]" "kept_ok b b' = kept_ok b (set_part_channel pn i \<lparr>free_block = q, max_heap = h\<rparr> b)"
    using st ch d x h by (auto simp: pt_segment_step_def kept_ok_def bindE_eq_Inr Let_def split: if_splits)
  show "segs (pri b') = segs (pri b) \<and> seg_fresh (pri b') = seg_fresh (pri b)"
    using st ch d x h by (auto simp: pt_segment_step_def bindE_eq_Inr Let_def set_part_channel_def upd_block_def split: if_splits)
  note c = ch d [unfolded x] h b
  note ci = part_channel_in [OF ok c(1)]
  have xh: "home (pinfo b) pn i x" "chan_in (home (pinfo b) pn i) \<lparr>free_block = q, max_heap = h\<rparr>"
    using ci(1) q_dequeue_in [OF c(2)] c(3) heap_in_append [of "max_heap c" x h] by (auto simp: chan_in_def split: if_splits)
  show "kept_ok b b'" using c(5) set_channel_ok [OF ok c(1) xh(2)] by (simp add: kept_ok_def)
  show "\<exists>x. bs' = bs @ [x] \<and> home (pinfo b) pn i x" using c(4) xh(1) by simp
qed

lemma get_segment_keeps:
  assumes ok: "pt_ok b" and g: "pbm_pt_get_segment pn r b = Inr (a, b')"
  shows "kept_ok b b'" "\<exists>s. segs (pri b') a = Some s \<and> length (s_blocks s) = BPS \<and> block_group b pn (s_blocks s)"
    "a' \<noteq> seg_fresh (pri b) \<Longrightarrow> segs (pri b') a' = segs (pri b) a'"
proof -
  let ?P = "\<lambda>i (b1, bs). kept_ok b b1 \<and> length bs = i \<and> block_group b pn bs \<and> segs (pri b1) = segs (pri b) \<and> seg_fresh (pri b1) = seg_fresh (pri b)"
  obtain b1 bs where f: "foldE (pt_segment_step pn r) [0..<BPS] (b, []) = Inr (b1, bs)" using g by (auto simp: pbm_pt_get_segment_def bindE_eq_Inr)
  have "?P BPS (b1, bs)"
  proof (rule foldE_upt_keeps [OF f, where P = ?P])
    show "?P 0 (b, [])" using ok by (simp add: kept_ok_def block_group_def)
    fix i and t t' :: "pt_bm \<times> blk list"
    assume P: "?P i t" and s: "pt_segment_step pn r i t = Inr t'"
    obtain b2 bs2 b3 bs3 where t: "t = (b2, bs2)" "t' = (b3, bs3)" by force
    have b2: "pt_ok b2" "same_parts b b2" using P t by (auto simp: kept_ok_def)
    note ss = segment_step_ok [OF b2(1) s [unfolded t]]
    show "?P (Suc i) t'" using P t ss kept_ok_trans [of b b2 b3] same_parts_home [OF b2(2)] by (auto simp: group_snoc)
  qed
  then have k: "kept_ok b b1" "length bs = BPS" "block_group b pn bs" "segs (pri b1) = segs (pri b)" "seg_fresh (pri b1) = seg_fresh (pri b)" by auto
  show "kept_ok b b'" using g f k(1) by (auto simp: pbm_pt_get_segment_def bindE_eq_Inr Let_def kept_ok_def split: if_splits)
  show "\<exists>s. segs (pri b') a = Some s \<and> length (s_blocks s) = BPS \<and> block_group b pn (s_blocks s)"
    using g f k(2,3) by (auto simp: pbm_pt_get_segment_def bindE_eq_Inr Let_def split: if_splits)
  show "segs (pri b') a' = segs (pri b) a'" if "a' \<noteq> seg_fresh (pri b)"
    using g f k(4,5) that by (auto simp: pbm_pt_get_segment_def bindE_eq_Inr Let_def split: if_splits)
qed

lemma insert_heap_keeps:
  assumes ok: "pt_ok b" and i: "pt_insert_heap pn i x b = Inr b'" and x: "home (pinfo b) pn i x"
  shows "kept_ok b b'"
proof -
  obtain c h where c: "part_channel (pinfo b) pn i = Inr c" "mh_insert_append (max_heap c) x = Inr h"
    "b' = set_part_channel pn i (c\<lparr>max_heap := h\<rparr>) b" using i by (auto simp: pt_insert_heap_def bindE_eq_Inr)
  have "chan_in (home (pinfo b) pn i) (c\<lparr>max_heap := h\<rparr>)"
    using part_channel_in(1) [OF ok c(1)] heap_in_append [OF c(2)] x by (simp add: chan_in_def)
  then show ?thesis using set_channel_ok [OF ok c(1)] c(3) by (simp add: kept_ok_def)
qed

lemma enqueue_keeps:
  assumes ok: "pt_ok b" and i: "pt_enqueue pn i x b = Inr b'" and x: "home (pinfo b) pn i x"
  shows "kept_ok b b'"
proof -
  obtain c r q where c: "part_channel (pinfo b) pn i = Inr c" "q_enqueue x (free_block c) = Inr (r, q)"
    "b' = set_part_channel pn i (c\<lparr>free_block := q\<rparr>) b" using i by (auto simp: pt_enqueue_def bindE_eq_Inr)
  note ci = part_channel_in(1) [OF ok c(1)]
  then have "chan_in (home (pinfo b) pn i) (c\<lparr>free_block := q\<rparr>)"
    using q_enqueue_in [OF c(2)] x by (auto simp: chan_in_def)
  then show ?thesis using set_channel_ok [OF ok c(1)] c(3) by (simp add: kept_ok_def)
qed

lemma release_keeps: "pt_ok b \<Longrightarrow> pt_release pn key b = Inr b' \<Longrightarrow> kept_ok b b'"
  by (auto simp: pt_release_def kept_ok_def bindE_eq_Inr split: if_splits)

text \<open>A loop over the blocks of a group.\<close>

lemma group_loop:
  assumes ok: "pt_ok b" and f: "foldE f [0..<BPS] b = Inr b'" and g: "block_group b pn bs" "length bs = BPS"
    and st: "\<And>i b1 b2. i < BPS \<Longrightarrow> pt_ok b1 \<Longrightarrow> home (pinfo b1) pn i (bs ! i) \<Longrightarrow> f i b1 = Inr b2 \<Longrightarrow> kept_ok b1 b2"
  shows "kept_ok b b'"
proof (rule foldE_keeps [OF f, where Q = "kept_ok b"])
  show "kept_ok b b" using ok by (simp add: kept_ok_def)
  fix i b1 b2
  assume i: "i \<in> set [0..<BPS]" and k: "kept_ok b b1" and s: "f i b1 = Inr b2"
  have "home (pinfo b1) pn i (bs ! i)" using k i g same_parts_home [of b b1] by (simp add: kept_ok_def block_group_def)
  then show "kept_ok b b2" using st [OF _ _ _ s] k i kept_ok_trans [of b b1 b2] by (simp add: kept_ok_def)
qed

lemma change_reserve_keeps:
  assumes ok: "pt_ok b" and ch: "pbm_change_pt_reserve pn reserve b = Inr (a, b')" and s: "segs (pri b) reserve = Some s"
    and g: "block_group b pn (s_blocks s)" "length (s_blocks s) = BPS" and fr: "reserve < seg_fresh (pri b)"
  shows "kept_ok b b'" "\<exists>t. segs (pri b') a = Some t \<and> length (s_blocks t) = BPS \<and> block_group b pn (s_blocks t)"
proof -
  obtain b1 where b1: "pbm_pt_get_segment pn True b = Inr (a, b1)" using ch by (auto simp: pbm_change_pt_reserve_def bindE_eq_Inr split: if_splits)
  note gs = get_segment_keeps [OF ok b1]
  have s1: "segs (pri b1) reserve = Some s" using gs(3) [of reserve] fr s by simp
  have k1: "pt_ok b1" "same_parts b b1" using gs(1) by (auto simp: kept_ok_def)
  have "kept_ok b1 b' \<and> segs (pri b') = segs (pri b1)"
  proof (cases "pn = DATA_S")
    case True
    let ?f = "\<lambda>bidx b2. bindE (index (s_blocks s) bidx) (\<lambda>tblock. pt_insert_heap pn bidx tblock b2)"
    have f: "foldE ?f [0..<BPS] b1 = Inr b'" using ch b1 s1 True by (auto simp: pbm_change_pt_reserve_def bindE_eq_Inr)
    have "kept_ok b1 b'"
      by (rule group_loop [OF k1(1) f, of pn "s_blocks s"]) (use g k1(2) in \<open>auto simp: group_same bindE_eq_Inr index_eq_Inr dest: insert_heap_keeps\<close>)
    moreover have "segs (pri b') = segs (pri b1)"
      by (rule foldE_keeps [OF f]) (auto simp: bindE_eq_Inr pt_insert_heap_def set_part_channel_def)
    ultimately show ?thesis ..
  next
    case False
    then show ?thesis using ch b1 k1(1) by (auto simp: pbm_change_pt_reserve_def kept_ok_def)
  qed
  then show "kept_ok b b'" "\<exists>t. segs (pri b') a = Some t \<and> length (s_blocks t) = BPS \<and> block_group b pn (s_blocks t)"
    using gs(1,2) kept_ok_trans by auto
qed

lemma pair_loop:
  assumes ok: "pt_ok b" and f: "foldE f [0..<BPS] (b, l) = Inr (b', l')" and g: "block_group b pn bs" "length bs = BPS"
    and st: "\<And>i b1 l1 b2 l2. i < BPS \<Longrightarrow> pt_ok b1 \<Longrightarrow> home (pinfo b1) pn i (bs ! i) \<Longrightarrow> f i (b1, l1) = Inr (b2, l2) \<Longrightarrow> kept_ok b1 b2"
  shows "kept_ok b b'"
proof -
  have "kept_ok b (fst (b', l'))"
  proof (rule foldE_keeps [OF f, where Q = "\<lambda>t. kept_ok b (fst t)"])
    show "kept_ok b (fst (b, l))" using ok by (simp add: kept_ok_def)
    fix i and t t' :: "pt_bm \<times> 'a"
    assume i: "i \<in> set [0..<BPS]" and k: "kept_ok b (fst t)" and s: "f i t = Inr t'"
    obtain b1 l1 b2 l2 where t: "t = (b1, l1)" "t' = (b2, l2)" by force
    have "home (pinfo b1) pn i (bs ! i)" using k t i g same_parts_home [of b b1] by (simp add: kept_ok_def block_group_def)
    then have "kept_ok b1 b2" using st [OF _ _ _ s [unfolded t]] k t i by (simp add: kept_ok_def)
    then show "kept_ok b (fst t')" using k t kept_ok_trans [of b b1 b2] by simp
  qed
  then show ?thesis by simp
qed

lemma upd_pri_keeps: "kept_ok (b\<lparr>pri := p\<rparr>) b' \<longleftrightarrow> kept_ok b b'"
  by (simp add: kept_ok_def same_parts_def)

lemma trim_keeps:
  assumes ok: "pt_ok b" and t: "pbm_pt_trim_segment trim pn gs b l = Inr (b', l')" and g: "block_group b pn (g_blocks gs)" "length (g_blocks gs) = BPS"
  shows "kept_ok b b'"
proof -
  obtain b1 l1 where f: "foldE (pt_trim_step trim pn gs) [0..<BPS] (b, l) = Inr (b1, l1)" and b': "kept_ok b b' = kept_ok b b1"
    using t by (auto simp: pbm_pt_trim_segment_def bindE_eq_Inr kept_ok_def split: if_splits)
  have "kept_ok b b1"
  proof (rule pair_loop [OF ok f g])
    fix i b2 l2 b3 l3
    assume i: "i < BPS" and b2: "pt_ok b2" and h: "home (pinfo b2) pn i (g_blocks gs ! i)" and s: "pt_trim_step trim pn gs i (b2, l2) = Inr (b3, l3)"
    obtain sk b4 where e: "pt_enqueue pn i (g_blocks gs ! i) (b2\<lparr>pri := upd_block (g_blocks gs ! i) erased (pri b2)\<rparr>) = Inr b4" "pt_release pn sk b4 = Inr b3"
      using s by (auto simp: pt_trim_step_def bindE_eq_Inr index_eq_Inr)
    have "kept_ok b2 b4" using enqueue_keeps [OF _ e(1)] b2 h by (simp add: upd_pri_keeps)
    moreover then have "kept_ok b4 b3" using release_keeps [OF _ e(2)] by (simp add: kept_ok_def)
    ultimately show "kept_ok b2 b3" by (rule kept_ok_trans)
  qed
  then show ?thesis using b' by simp
qed

lemma reserve_to_free_keeps:
  assumes ok: "pt_ok b" and t: "pbm_reserve_to_free pn reserve b = Inr b'" and s: "segs (pri b) reserve = Some s"
    and g: "block_group b pn (s_blocks s)" "length (s_blocks s) = BPS"
  shows "kept_ok b b'"
proof -
  obtain b1 where f: "foldE (reserve_step pn s) [0..<BPS] b = Inr b1" and b': "kept_ok b b' = kept_ok b b1"
    using t s by (auto simp: pbm_reserve_to_free_def bindE_eq_Inr kept_ok_def)
  have "kept_ok b b1"
  proof (rule group_loop [OF ok f g])
    fix i b2 b3
    assume i: "i < BPS" and b2: "pt_ok b2" and h: "home (pinfo b2) pn i (s_blocks s ! i)" and st: "reserve_step pn s i b2 = Inr b3"
    obtain p sk b4 where e: "pt_enqueue pn i (s_blocks s ! i) (b2\<lparr>pri := p\<rparr>) = Inr b4" "pt_release pn sk b4 = Inr b3"
      using st by (auto simp: reserve_step_def bindE_eq_Inr index_eq_Inr split: if_splits)
    have "kept_ok b2 b4" using enqueue_keeps [OF _ e(1)] b2 h by (simp add: upd_pri_keeps)
    moreover then have "kept_ok b4 b3" using release_keeps [OF _ e(2)] by (simp add: kept_ok_def)
    ultimately show "kept_ok b2 b3" by (rule kept_ok_trans)
  qed
  then show ?thesis using b' by simp
qed

section \<open>The segment the collector takes\<close>

definition sinv :: "block list \<Rightarrow> nat \<Rightarrow> nat" where
  "sinv bs i = sum_list (map (\<lambda>j. invalid_number (bs ! (i * BPS + j))) [0..<BPS])"

lemma seg_invalid_ok:
  assumes "Suc i * BPS \<le> length bs"
  shows "seg_invalid bs i = Inr (sinv bs i)"
proof -
  let ?P = "\<lambda>m n. n = sum_list (map (\<lambda>j. invalid_number (bs ! (i * BPS + j))) [0..<m])"
  have "\<exists>t. seg_invalid bs i = Inr t \<and> ?P BPS t"
    unfolding seg_invalid_def by (rule foldE_upt [where P = ?P]) (use assms in \<open>auto simp: index_in\<close>)
  then show ?thesis by (simp add: sinv_def)
qed

text \<open>The first of the segments with the largest number of invalid pages.\<close>

definition first_max :: "(nat \<Rightarrow> nat) \<Rightarrow> nat set \<Rightarrow> nat \<times> nat \<Rightarrow> bool" where
  "first_max f I r \<longleftrightarrow> (\<forall>i \<in> I. f i \<le> snd r) \<and>
     (if snd r = 0 then fst r = 0 else fst r \<in> I \<and> f (fst r) = snd r \<and> (\<forall>i \<in> I. i < fst r \<longrightarrow> f i < snd r))"

lemma first_max_step:
  assumes "first_max f {from..<i} r" "from \<le> i"
  shows "first_max f {from..<Suc i} (if f i > snd r then (i, f i) else r)"
proof (cases "f i > snd r")
  case True
  then have "\<forall>j. from \<le> j \<and> j < i \<longrightarrow> f j < f i" using assms(1) unfolding first_max_def by (meson atLeastLessThan_iff le_less_trans)
  moreover then have "\<forall>j. from \<le> j \<and> j < i \<longrightarrow> f j \<le> f i" by (meson less_imp_le)
  ultimately show ?thesis using True assms(2) by (auto simp: first_max_def less_Suc_eq)
next
  case False
  then show ?thesis using assms by (auto simp: first_max_def less_Suc_eq)
qed

lemma map_target_ok:
  assumes "\<forall>i \<in> {from..<to}. Suc i * BPS \<le> length bs \<and> sinv bs i \<le> PPS" "from \<le> to"
  shows "\<exists>r. foldE (map_target_step bs) [from..<to] (0, 0) = Inr r \<and> first_max (sinv bs) {from..<to} r"
  using assms(2,1)
proof (induction to rule: dec_induct)
  case base
  then show ?case by (simp add: first_max_def)
next
  case (step n)
  have "\<forall>i \<in> {from..<n}. Suc i * BPS \<le> length bs \<and> sinv bs i \<le> PPS" using step.prems by simp
  then obtain r where r: "foldE (map_target_step bs) [from..<n] (0, 0) = Inr r" "first_max (sinv bs) {from..<n} r" using step.IH by blast
  have n: "Suc n * BPS \<le> length bs" "sinv bs n \<le> PPS" using step.prems step.hyps by auto
  have "map_target_step bs n r = Inr (if sinv bs n > snd r then (n, sinv bs n) else r)"
    using seg_invalid_ok [OF n(1)] n(2) by (auto simp: map_target_step_def split_beta)
  then show ?case using r first_max_step [OF r(2)] step.hyps by (simp add: foldE_append upt_Suc_append)
qed

lemma data_target_keeps:
  assumes ok: "pt_ok b" and t: "pbm_pt_get_gc_target pn b = Inr (gs, b')" and True: "pn = DATA_S"
  shows "kept_ok b b' \<and> length (g_blocks gs) = BPS \<and> block_group b pn (g_blocks gs) \<and> pri b' = pri b"
proof -
  obtain bs n where f: "foldE (pt_target_step pn) [0..<BPS] (b, [], 0) = Inr (b', bs, n)" and bs: "g_blocks gs = bs"
    using t True by (auto simp: pbm_pt_get_gc_target_def bindE_eq_Inr split: if_splits)
  let ?P = "\<lambda>i (b1, bs, n). kept_ok b b1 \<and> length bs = i \<and> block_group b pn bs \<and> pri b1 = pri b"
  have "?P BPS (b', bs, n)"
  proof (rule foldE_upt_keeps [OF f, where P = ?P])
    show "?P 0 (b, [], 0)" using ok by (simp add: kept_ok_def block_group_def)
    fix i and u u' :: "pt_bm \<times> blk list \<times> nat"
    assume P: "?P i u" and s: "pt_target_step pn i u = Inr u'"
    obtain b1 bs1 n1 b2 bs2 n2 where u: "u = (b1, bs1, n1)" "u' = (b2, bs2, n2)" by (metis surj_pair)
    have b1: "pt_ok b1" "same_parts b b1" using P u by (auto simp: kept_ok_def)
    obtain c h1 h2 x where c: "part_channel (pinfo b1) pn i = Inr c" "mh_construct (pt_get_cnt (pri b1)) (max_heap c) = Inr h1"
      "mh_get_max (pt_get_cnt (pri b1)) h1 = Inr (Some x, h2)" "b2 = set_part_channel pn i (c\<lparr>max_heap := h2\<rparr>) b1" "bs2 = bs1 @ [x]"
      using s u by (fastforce simp: pt_target_step_def bindE_eq_Inr split: option.splits)
    note ci = part_channel_in(1) [OF b1(1) c(1)]
    have h1: "heap_in (home (pinfo b1) pn i) h1" using heap_in_construct [OF c(2)] ci by (simp add: chan_in_def)
    note hm = heap_in_max [OF c(3) h1]
    have "kept_ok b1 b2" using set_channel_ok [OF b1(1) c(1), of "c\<lparr>max_heap := h2\<rparr>"] ci hm(1) c(4) by (simp add: kept_ok_def chan_in_def)
    moreover have "home (pinfo b) pn i x" using hm(2) same_parts_home [OF b1(2)] by simp
    ultimately show "?P (Suc i) u'" using P u c(4,5) kept_ok_trans [of b b1 b2] by (auto simp: group_snoc set_part_channel_def)
  qed
  then show ?thesis using bs by simp
qed

lemma map_target_keeps:
  assumes ok: "pt_ok b" and t: "pbm_pt_get_gc_target pn b = Inr (gs, b')" and z: "pn = MAP_S"
  shows "kept_ok b b' \<and> length (g_blocks gs) = BPS \<and> block_group b pn (g_blocks gs) \<and> pri b' = pri b"
proof -
  have False: "pn \<noteq> DATA_S" using z by (simp add: MAP_S_def DATA_S_def)
  obtain lo hi ts n bs where f: "index (p_from (pinfo b)) pn = Inr lo" "index (p_to (pinfo b)) pn = Inr hi"
    "foldE (map_target_step (base_block (pri b))) [lo..<nat (hi + 1)] (0, 0) = Inr (ts, n)"
    "foldE (\<lambda>j bs. bindE (index (base_block (pri b)) (ts * BPS + j)) (\<lambda>_. Inr (bs @ [ts * BPS + j]))) [0..<BPS] [] = Inr bs"
    "n \<noteq> 0" "g_blocks gs = bs" "b' = b"
    using t False z by (auto simp: pbm_pt_get_gc_target_def bindE_eq_Inr split: if_splits)
  have "n = 0 \<or> ts \<in> {lo..<nat (hi + 1)}"
  proof -
    have "snd (ts, n) = 0 \<or> fst (ts, n) \<in> {lo..<nat (hi + 1)}"
      by (rule foldE_keeps [OF f(3), where Q = "\<lambda>r. snd r = 0 \<or> fst r \<in> {lo..<nat (hi + 1)}"])
        (auto simp: map_target_step_def bindE_eq_Inr split: if_splits prod.splits)
    then show ?thesis by simp
  qed
  then have ts: "lo \<le> ts" "int ts \<le> hi" using f(5) by auto
  have "bs = map (\<lambda>j. ts * BPS + j) [0..<BPS]"
    by (rule foldE_upt_keeps [OF f(4), where P = "\<lambda>i bs. bs = map (\<lambda>j. ts * BPS + j) [0..<i]"]) (auto simp: bindE_eq_Inr)
  then have "block_group b pn bs" "length bs = BPS" using ts f(1,2) by (auto simp: block_group_def home_def index_eq_Inr)
  then show ?thesis using f(6,7) ok by (simp add: kept_ok_def)
qed

lemma target_keeps:
  assumes "pt_ok b" "pbm_pt_get_gc_target pn b = Inr (gs, b')" "pn < PARTNUM"
  shows "kept_ok b b' \<and> length (g_blocks gs) = BPS \<and> block_group b pn (g_blocks gs) \<and> pri b' = pri b"
proof -
  have "pn = MAP_S \<or> pn = DATA_S" using assms(3) by (auto simp: MAP_S_def DATA_S_def PARTNUM_def)
  then show ?thesis using data_target_keeps [OF assms(1,2)] map_target_keeps [OF assms(1,2)] by blast
qed

section \<open>Creation\<close>

text \<open>The state in which creation leaves a channel of the segments \<open>lo\<close> to \<open>hi - 1\<close>.\<close>

definition new_chan :: "nat \<Rightarrow> nat \<Rightarrow> nat \<Rightarrow> channel \<Rightarrow> bool" where
  "new_chan lo hi j c \<longleftrightarrow> q_ok (free_block c) \<and> q_list (free_block c) = map (\<lambda>k. k * BPS + j) [lo..<hi] \<and> max_heap c = mh_init (hi - lo)"

lemma pt_channel_ok:
  assumes "j < BPS" "lo \<le> hi"
  shows "\<exists>c. pt_channel lo hi j = Inr c \<and> new_chan lo hi j c"
proof -
  have "\<exists>q. foldE (\<lambda>k q. bindE (q_enqueue (k * BPS + j mod BPS) q) (\<lambda>r. Inr (snd r))) [lo..<m] (q_init (hi - lo)) = Inr q \<and>
      q_ok q \<and> q_msize q = hi - lo \<and> q_list q = map (\<lambda>k. k * BPS + j) [lo..<m]" if "lo \<le> m" "m \<le> hi" for m
    using that
  proof (induction m rule: dec_induct)
    case base
    then show ?case by (simp add: q_init_ok)
  next
    case (step n)
    then obtain q where q: "foldE (\<lambda>k q. bindE (q_enqueue (k * BPS + j mod BPS) q) (\<lambda>r. Inr (snd r))) [lo..<n] (q_init (hi - lo)) = Inr q"
      "q_ok q" "q_msize q = hi - lo" "q_list q = map (\<lambda>k. k * BPS + j) [lo..<n]" by auto
    have "length (q_list q) < q_msize q" using q(3,4) step by simp
    then show ?case using q q_enqueue_room [OF q(2), of "n * BPS + j"] assms(1) step.hyps by (auto simp: foldE_append)
  qed
  from this [of hi] assms show ?thesis by (auto simp: pt_channel_def new_chan_def)
qed

definition parts_of :: "p_info \<Rightarrow> nat list \<Rightarrow> bool" where
  "parts_of pi epn \<longleftrightarrow> p_from pi = map (\<lambda>k. sum_list (take k epn)) [0..<length epn] \<and>
     p_to pi = map (\<lambda>k. int (sum_list (take (Suc k) epn)) - 1) [0..<length epn] \<and> length (p_channel pi) = length epn \<and>
     now_assign pi = replicate (length epn) 0 \<and> max_assign pi = map int epn \<and>
     (\<forall>k < length epn. length (p_channel pi ! k) = BPS \<and>
        (\<forall>j < BPS. new_chan (sum_list (take k epn)) (sum_list (take (Suc k) epn)) j (p_channel pi ! k ! j)))"

lemma pt_part_ok:
  assumes p: "parts_of pi epn" and st: "pt_part bs n (pi, sum_list epn) = Inr (pi', fin')"
  shows "parts_of pi' (epn @ [n]) \<and> fin' = sum_list (epn @ [n])"
proof -
  let ?lo = "sum_list epn" let ?hi = "sum_list epn + n"
  let ?P = "\<lambda>i cs. length cs = i \<and> (\<forall>j < i. new_chan ?lo ?hi j (cs ! j))"
  have "\<exists>cs. foldE (\<lambda>j cs. bindE (pt_channel ?lo ?hi j) (\<lambda>c. Inr (cs @ [c]))) [0..<PUNIT] [] = Inr cs \<and> ?P PUNIT cs"
  proof (rule foldE_upt [where P = ?P])
    fix i and cs :: "channel list"
    assume i: "i < PUNIT" and P: "?P i cs"
    obtain c where "pt_channel ?lo ?hi i = Inr c" "new_chan ?lo ?hi i c" using pt_channel_ok [of i ?lo ?hi] i by (auto simp: PUNIT_def BPS_def)
    then show "\<exists>t'. bindE (pt_channel ?lo ?hi i) (\<lambda>c. Inr (cs @ [c])) = Inr t' \<and> ?P (Suc i) t'" using P by (auto simp: nth_append less_Suc_eq)
  qed simp
  then obtain cs where cs: "foldE (\<lambda>j cs. bindE (pt_channel ?lo ?hi j) (\<lambda>c. Inr (cs @ [c]))) [0..<PUNIT] [] = Inr cs" "?P BPS cs"
    by (auto simp: PUNIT_def BPS_def)
  then have r: "pi' = pi\<lparr>now_assign := now_assign pi @ [0], max_assign := max_assign pi @ [int n], p_from := p_from pi @ [?lo],
      p_to := p_to pi @ [int ?hi - 1], p_channel := p_channel pi @ [cs]\<rparr>" "fin' = ?hi"
    using st by (auto simp: pt_part_def bindE_eq_Inr Let_def split: if_splits)
  then show ?thesis using p cs(2) by (auto simp: parts_of_def nth_append less_Suc_eq replicate_append_same)
qed

lemma parts_ok:
  "foldE (pt_part bs) epn (pi, sum_list past) = Inr (pi', n) \<Longrightarrow> parts_of pi past \<Longrightarrow> parts_of pi' (past @ epn)"
proof (induction epn arbitrary: pi past)
  case (Cons x epn)
  then obtain pi1 m where s: "pt_part bs x (pi, sum_list past) = Inr (pi1, m)" "foldE (pt_part bs) epn (pi1, m) = Inr (pi', n)"
    by (auto simp: bindE_eq_Inr)
  have "parts_of pi1 (past @ [x])" "m = sum_list (past @ [x])" using pt_part_ok [OF Cons.prems(2) s(1)] by auto
  then show ?case using Cons.IH [of pi1 "past @ [x]"] s(2) by simp
qed simp

lemma create_parts:
  assumes "pbm_create rnos nos device epn = Inr (c, b)"
  shows "parts_of (pinfo b) epn" "segs (pri b) = Map.empty" "seg_fresh (pri b) = 0"
proof -
  obtain bs n where "foldE (pt_part bs) epn
      (\<lparr>pnum = length epn, now_assign = [], max_assign = [], p_from = [], p_to = [], p_channel = []\<rparr>, 0) = Inr (pinfo b, n)"
    "segs (pri b) = Map.empty" "seg_fresh (pri b) = 0"
    using assms by (auto simp: pbm_create_def bindE_eq_Inr)
  then show "parts_of (pinfo b) epn" "segs (pri b) = Map.empty" "seg_fresh (pri b) = 0"
    using parts_ok [of bs epn _ "[]"] by (auto simp: parts_of_def)
qed

lemma parts_pt_ok:
  assumes "parts_of (pinfo b) epn"
  shows "pt_ok b"
proof -
  have "chan_in (home (pinfo b) k j) (p_channel (pinfo b) ! k ! j)" if k: "k < length epn" and j: "j < BPS" for k j
  proof -
    have "new_chan (sum_list (take k epn)) (sum_list (take (Suc k) epn)) j (p_channel (pinfo b) ! k ! j)" using assms k j by (simp add: parts_of_def)
    then show ?thesis using assms k j by (auto simp: new_chan_def chan_in_def home_def parts_of_def heap_in_init)
  qed
  then show ?thesis using assms by (simp add: pt_ok_def parts_of_def)
qed

section \<open>Reachable states\<close>

text \<open>Segments live below the next address.\<close>

definition segs_below :: "bbm_pri \<Rightarrow> bool" where
  "segs_below p \<longleftrightarrow> (\<forall>a \<ge> seg_fresh p. segs p a = None)"

lemma below_cong: "segs p' = segs p \<Longrightarrow> seg_fresh p' = seg_fresh p \<Longrightarrow> segs_below p' = segs_below p"
  by (simp add: segs_below_def)

lemma below_live: "segs_below p \<Longrightarrow> segs p a = Some s \<Longrightarrow> a < seg_fresh p"
  by (rule ccontr) (simp add: segs_below_def)

lemma release_below: "release_block key p = Inr p' \<Longrightarrow> segs_below p \<Longrightarrow> segs_below p'"
  by (auto simp: release_block_def segs_below_def upd_seg_def bindE_eq_Inr deref_eq_Inr Let_def split: if_splits)

lemma enqueue_pri: "pt_enqueue pn i x b = Inr b' \<Longrightarrow> pri b' = pri b"
  by (auto simp: pt_enqueue_def set_part_channel_def bindE_eq_Inr)

lemma pt_release_below: "pt_release pn key b = Inr b' \<Longrightarrow> segs_below (pri b) \<Longrightarrow> segs_below (pri b')"
  by (auto simp: pt_release_def bindE_eq_Inr release_below split: if_splits)

lemma upd_block_below: "segs_below (upd_block x f p) = segs_below p"
  by (simp add: segs_below_def upd_block_def)

lemma get_segment_below:
  assumes "pt_ok b" "pbm_pt_get_segment pn r b = Inr (a, b')" "segs_below (pri b)"
  shows "segs_below (pri b')"
proof -
  obtain b1 bs where f: "foldE (pt_segment_step pn r) [0..<BPS] (b, []) = Inr (b1, bs)"
    using assms(2) by (auto simp: pbm_pt_get_segment_def bindE_eq_Inr)
  let ?Q = "\<lambda>t :: pt_bm \<times> blk list. pt_ok (fst t) \<and> segs_below (pri (fst t))"
  have "?Q (b1, bs)"
  proof (rule foldE_keeps [OF f, where Q = ?Q])
    fix i and t t' :: "pt_bm \<times> blk list"
    assume Q: "?Q t" and s: "pt_segment_step pn r i t = Inr t'"
    have "pt_segment_step pn r i (fst t, snd t) = Inr (fst t', snd t')" using s by simp
    then show "?Q t'" using segment_step_ok [of "fst t" pn r i "snd t" "fst t'" "snd t'"] Q below_cong [of "pri (fst t')" "pri (fst t)"]
      by (simp add: kept_ok_def)
  qed (use assms in simp)
  then show ?thesis using assms(2) f
    by (auto simp: pbm_pt_get_segment_def bindE_eq_Inr Let_def segs_below_def split: if_splits)
qed

lemma change_reserve_below:
  assumes "pt_ok b" "pbm_change_pt_reserve pn reserve b = Inr (a, b')" "segs_below (pri b)"
  shows "segs_below (pri b')"
proof -
  obtain b1 where b1: "pbm_pt_get_segment pn True b = Inr (a, b1)"
    using assms(2) by (auto simp: pbm_change_pt_reserve_def bindE_eq_Inr split: if_splits)
  have "pri b' = pri b1"
  proof (cases "pn = DATA_S")
    case True
    then obtain s :: segment where "foldE (\<lambda>bidx b2. bindE (index (s_blocks s) bidx) (\<lambda>tblock. pt_insert_heap pn bidx tblock b2)) [0..<BPS] b1 = Inr b'"
      using assms(2) b1 by (auto simp: pbm_change_pt_reserve_def bindE_eq_Inr)
    then show ?thesis by (rule foldE_keeps) (auto simp: bindE_eq_Inr pt_insert_heap_def set_part_channel_def)
  next
    case False
    then show ?thesis using assms(2) b1 by (auto simp: pbm_change_pt_reserve_def)
  qed
  then show ?thesis using get_segment_below [OF assms(1) b1 assms(3)] by simp
qed

lemma trim_below:
  assumes "pbm_pt_trim_segment trim pn gs b l = Inr (b', l')" "segs_below (pri b)"
  shows "segs_below (pri b')"
proof -
  obtain b1 l1 where f: "foldE (pt_trim_step trim pn gs) [0..<BPS] (b, l) = Inr (b1, l1)" and b': "pri b' = pri b1"
    using assms(1) by (auto simp: pbm_pt_trim_segment_def bindE_eq_Inr split: if_splits)
  have "segs_below (pri (fst (b1, l1)))"
    by (rule foldE_keeps [OF f, where Q = "\<lambda>t. segs_below (pri (fst t))"])
      (use assms(2) in \<open>auto simp: pt_trim_step_def bindE_eq_Inr upd_block_below dest!: enqueue_pri dest: pt_release_below split: prod.splits\<close>)
  then show ?thesis using b' by simp
qed

lemma reserve_to_free_below:
  assumes "pbm_reserve_to_free pn reserve b = Inr b'" "segs_below (pri b)"
  shows "segs_below (pri b')"
proof -
  obtain s b1 where f: "foldE (reserve_step pn s) [0..<BPS] b = Inr b1" and b': "pri b' = (pri b1)\<lparr>segs := (segs (pri b1))(reserve := None)\<rparr>"
    using assms(1) by (auto simp: pbm_reserve_to_free_def bindE_eq_Inr)
  have "segs_below (pri b1)"
    by (rule foldE_keeps [OF f, where Q = "\<lambda>b. segs_below (pri b)"])
      (use assms(2) in \<open>auto simp: reserve_step_def bindE_eq_Inr upd_block_below dest!: enqueue_pri dest: pt_release_below split: if_splits\<close>)
  then show ?thesis using b' by (simp add: segs_below_def)
qed

text \<open>
  The states a client can reach, with the groups of blocks it has been given, as segments or as targets, and the
  partition it got them from. The client passes segments and targets back to the partition they came from; in between
  it takes pages and marks them. \<open>drv\<close> is the erase operation of some lower driver.
\<close>

inductive pt_reach ::
  "nat \<Rightarrow> nat \<Rightarrow> (nat \<Rightarrow> (nat \<times> bool) list) option \<Rightarrow> nat list \<Rightarrow> pt_bm \<Rightarrow> (nat \<times> blk list) set \<Rightarrow> bool"
  for rnos nos device epn where
  create: "pbm_create rnos nos device epn = Inr (c, b) \<Longrightarrow> pt_reach rnos nos device epn b {}"
| segment: "pt_reach rnos nos device epn b own \<Longrightarrow> pbm_pt_get_segment pn r b = Inr (a, b') \<Longrightarrow> segs (pri b') a = Some s \<Longrightarrow>
    pt_reach rnos nos device epn b' (insert (pn, s_blocks s) own)"
| change: "pt_reach rnos nos device epn b own \<Longrightarrow> segs (pri b) reserve = Some s \<Longrightarrow> (pn, s_blocks s) \<in> own \<Longrightarrow>
    pbm_change_pt_reserve pn reserve b = Inr (a, b') \<Longrightarrow> segs (pri b') a = Some t \<Longrightarrow>
    pt_reach rnos nos device epn b' (insert (pn, s_blocks t) own)"
| target: "pt_reach rnos nos device epn b own \<Longrightarrow> pbm_pt_get_gc_target pn b = Inr (gs, b') \<Longrightarrow>
    pt_reach rnos nos device epn b' (insert (pn, g_blocks gs) own)"
| trim: "pt_reach rnos nos device epn b own \<Longrightarrow> (pn, g_blocks gs) \<in> own \<Longrightarrow>
    pbm_pt_trim_segment (drv :: nat \<Rightarrow> nat list \<Rightarrow> nat list res) pn gs b l = Inr (b', l') \<Longrightarrow> pt_reach rnos nos device epn b' own"
| to_free: "pt_reach rnos nos device epn b own \<Longrightarrow> segs (pri b) reserve = Some s \<Longrightarrow> (pn, s_blocks s) \<in> own \<Longrightarrow>
    pbm_reserve_to_free pn reserve b = Inr b' \<Longrightarrow> pt_reach rnos nos device epn b' own"
| page: "pt_reach rnos nos device epn b own \<Longrightarrow> base_get_page_num a (pri b) = Inr (n, p) \<Longrightarrow> pt_reach rnos nos device epn (b\<lparr>pri := p\<rparr>) own"
| populate: "pt_reach rnos nos device epn b own \<Longrightarrow> base_populate_bit ppa (pri b) = Inr (n, p) \<Longrightarrow> pt_reach rnos nos device epn (b\<lparr>pri := p\<rparr>) own"
| unpopulate: "pt_reach rnos nos device epn b own \<Longrightarrow> base_unpopulate_bit ppa (pri b) = Inr (n, p) \<Longrightarrow> pt_reach rnos nos device epn (b\<lparr>pri := p\<rparr>) own"

lemma page_ops_below:
  "base_get_page_num a p = Inr (n, p') \<Longrightarrow> segs_below p \<Longrightarrow> segs_below p'"
  "base_populate_bit ppa p = Inr (m, p') \<Longrightarrow> segs_below p \<Longrightarrow> segs_below p'"
  "base_unpopulate_bit ppa p = Inr (m, p') \<Longrightarrow> segs_below p \<Longrightarrow> segs_below p'"
  by (auto simp: base_get_page_num_def base_populate_bit_def base_unpopulate_bit_def bindE_eq_Inr deref_eq_Inr Let_def segs_below_def upd_seg_def upd_block_def
      split: if_splits)

definition pt_inv :: "nat list \<Rightarrow> pt_bm \<Rightarrow> (nat \<times> blk list) set \<Rightarrow> bool" where
  "pt_inv epn b own \<longleftrightarrow> pt_ok b \<and> p_from (pinfo b) = map (\<lambda>k. sum_list (take k epn)) [0..<length epn] \<and>
     p_to (pinfo b) = map (\<lambda>k. int (sum_list (take (Suc k) epn)) - 1) [0..<length epn] \<and> segs_below (pri b) \<and>
     (\<forall>k bs. (k, bs) \<in> own \<longrightarrow> length bs = BPS \<and> block_group b k bs)"

lemma pt_inv_kept: "pt_inv epn b own \<Longrightarrow> kept_ok b b' \<Longrightarrow> segs_below (pri b') \<Longrightarrow> pt_inv epn b' own"
  by (auto simp: pt_inv_def kept_ok_def group_same) (simp_all add: same_parts_def)

lemma pt_inv_insert:
  assumes "pt_inv epn b own" "kept_ok b b'" "segs_below (pri b')" "length bs = BPS" "block_group b k bs"
  shows "pt_inv epn b' (insert (k, bs) own)"
  using pt_inv_kept [OF assms(1-3)] assms(2,4,5) by (auto simp: pt_inv_def kept_ok_def group_same)

lemma pt_inv_pri: "pt_inv epn b own \<Longrightarrow> segs_below p \<Longrightarrow> pt_inv epn (b\<lparr>pri := p\<rparr>) own"
  by (rule pt_inv_kept [of epn b]) (simp_all add: kept_ok_def, simp add: pt_inv_def)

lemma pt_reach_inv:
  assumes "pt_reach rnos nos device epn b own" "length epn = PARTNUM"
  shows "pt_inv epn b own"
  using assms
proof (induction rule: pt_reach.induct)
  case (create c b)
  note p = create_parts [OF create.hyps]
  then show ?case using parts_pt_ok [OF p(1)] by (simp add: pt_inv_def parts_of_def segs_below_def)
next
  case (segment b own pn r a b' s)
  then have i: "pt_inv epn b own" by simp
  then have o: "pt_ok b" "segs_below (pri b)" by (auto simp: pt_inv_def)
  note g = get_segment_keeps [OF o(1) segment.hyps(2)]
  show ?case using pt_inv_insert [OF i g(1) get_segment_below [OF o(1) segment.hyps(2) o(2)]] g(2) segment.hyps(3) by auto
next
  case (change b own reserve s pn a b' t)
  then have i: "pt_inv epn b own" by simp
  then have o: "pt_ok b" "segs_below (pri b)" "block_group b pn (s_blocks s)" "length (s_blocks s) = BPS" using change.hyps(3) by (auto simp: pt_inv_def)
  have "reserve < seg_fresh (pri b)" by (rule below_live [OF o(2) change.hyps(2)])
  note g = change_reserve_keeps [OF o(1) change.hyps(4,2) o(3,4) this]
  show ?case using pt_inv_insert [OF i g(1) change_reserve_below [OF o(1) change.hyps(4) o(2)]] g(2) change.hyps(5) by auto
next
  case (target b own pn gs b')
  then have i: "pt_inv epn b own" by simp
  then have o: "pt_ok b" "segs_below (pri b)" "length (p_from (pinfo b)) = PARTNUM" using target.prems by (auto simp: pt_inv_def)
  have "pn < PARTNUM" using target.hyps(2) o(3)
    by (auto simp: pbm_pt_get_gc_target_def PARTNUM_def DATA_S_def bindE_eq_Inr index_eq_Inr split: if_splits)
  then have g: "kept_ok b b'" "length (g_blocks gs) = BPS" "block_group b pn (g_blocks gs)" "pri b' = pri b" using target_keeps [OF o(1) target.hyps(2)] by auto
  show ?case using pt_inv_insert [OF i g(1) _ g(2,3)] o(2) g(4) by simp
next
  case (trim b own pn gs drv l b' l')
  then have i: "pt_inv epn b own" by simp
  then have o: "pt_ok b" "segs_below (pri b)" "block_group b pn (g_blocks gs)" "length (g_blocks gs) = BPS" using trim.hyps(2) by (auto simp: pt_inv_def)
  show ?case by (rule pt_inv_kept [OF i trim_keeps [OF o(1) trim.hyps(3) o(3,4)] trim_below [OF trim.hyps(3) o(2)]])
next
  case (to_free b own reserve s pn b')
  then have i: "pt_inv epn b own" by simp
  then have o: "pt_ok b" "segs_below (pri b)" "block_group b pn (s_blocks s)" "length (s_blocks s) = BPS" using to_free.hyps(3) by (auto simp: pt_inv_def)
  show ?case by (rule pt_inv_kept [OF i reserve_to_free_keeps [OF o(1) to_free.hyps(4,2) o(3,4)] reserve_to_free_below [OF to_free.hyps(4) o(2)]])
next
  case (page b own a n p)
  then show ?case using pt_inv_pri [of epn b own p] page_ops_below(1) [OF page.hyps(2)] by (simp add: pt_inv_def)
next
  case (populate b own ppa n p)
  then show ?case using pt_inv_pri [of epn b own p] page_ops_below(2) [OF populate.hyps(2)] by (simp add: pt_inv_def)
next
  case (unpopulate b own ppa n p)
  then show ?case using pt_inv_pri [of epn b own p] page_ops_below(3) [OF unpopulate.hyps(2)] by (simp add: pt_inv_def)
qed

section \<open>Segments are handed out\<close>

text \<open>Every channel of the partition has a free block, and its heap has room.\<close>

definition chan_ready :: "block list \<Rightarrow> channel \<Rightarrow> bool" where
  "chan_ready bs c \<longleftrightarrow> q_ok (free_block c) \<and> q_list (free_block c) \<noteq> [] \<and> (\<forall>x \<in> set (q_list (free_block c)). x < length bs) \<and>
     0 \<le> mh_size (max_heap c) \<and> mh_size (max_heap c) \<le> int (mh_max (max_heap c)) \<and> nat (mh_size (max_heap c)) + 1 < length (mh_body (max_heap c))"

lemma new_chan_ready:
  assumes "new_chan lo hi j c" "lo < hi" "hi * BPS \<le> length bs" "j < BPS"
  shows "chan_ready bs c"
proof -
  have "k * BPS + j < length bs" if "k < hi" for k
  proof -
    have "k * BPS + j < Suc k * BPS" using assms(4) by simp
    also have "\<dots> \<le> hi * BPS" using that by (intro mult_le_mono1) simp
    finally show ?thesis using assms(3) by simp
  qed
  then show ?thesis using assms(1,2) by (auto simp: new_chan_def chan_ready_def mh_init_def)
qed

lemma segment_step_ready:
  assumes c: "part_channel (pinfo b) pn i = Inr c" and r: "chan_ready (base_block (pri b)) c"
  shows "\<exists>c' p. pt_segment_step pn isr i (b, bs) =
    Inr (set_part_channel pn i c' (b\<lparr>pri := p\<rparr>), bs @ [hd (q_list (free_block c))]) \<and> length (base_block p) = length (base_block (pri b))"
proof -
  obtain x xs where l: "q_list (free_block c) = x # xs" using r by (cases "q_list (free_block c)") (auto simp: chan_ready_def)
  obtain q where q: "q_dequeue (free_block c) = Inr (Some x, q)" using q_dequeue_cons [OF _ l] r by (auto simp: chan_ready_def)
  have x: "x < length (base_block (pri b))" using r l by (simp add: chan_ready_def)
  have "\<exists>h. (if \<not> isr \<and> pn = DATA_S then mh_insert_append (max_heap c) x else Inr (max_heap c)) = Inr h"
    using r by (auto simp: chan_ready_def mh_insert_append_def body_at_def nat_add_distrib)
  then obtain h where h: "(if \<not> isr \<and> pn = DATA_S then mh_insert_append (max_heap c) x else Inr (max_heap c)) = Inr h" by blast
  let ?c = "\<lparr>free_block = q, max_heap = h\<rparr>" let ?u = "upd_block x (\<lambda>y. y\<lparr>b_seg_idx := seg_map_idx (pri b)\<rparr>) (pri b)"
  have "pt_segment_step pn isr i (b, bs) = Inr (set_part_channel pn i ?c (b\<lparr>pri := if pn = DATA_S then ?u else pri b\<rparr>), bs @ [x])"
    using c q h x by (simp add: pt_segment_step_def Let_def set_part_channel_def index_in)
  then show ?thesis using l by (intro exI [of _ ?c] exI [of _ "if pn = DATA_S then ?u else pri b"]) (simp add: upd_block_def)
qed

lemma get_segment_ready:
  assumes n: "pn < length (p_channel (pinfo b))" "length (p_channel (pinfo b) ! pn) = BPS" "pn < length (now_assign (pinfo b))" "pn < length (max_assign (pinfo b))"
    and le: "now_assign (pinfo b) ! pn \<le> max_assign (pinfo b) ! pn"
    and r: "\<forall>j < BPS. chan_ready (base_block (pri b)) (p_channel (pinfo b) ! pn ! j)"
  shows "\<exists>a b' s. pbm_pt_get_segment pn isr b = Inr (a, b') \<and> segs (pri b') a = Some s \<and>
    s_blocks s = map (\<lambda>j. hd (q_list (free_block (p_channel (pinfo b) ! pn ! j)))) [0..<BPS] \<and> length (base_block (pri b')) = length (base_block (pri b)) \<and>
    (\<forall>k. k \<noteq> pn \<longrightarrow> p_channel (pinfo b') ! k = p_channel (pinfo b) ! k \<and> now_assign (pinfo b') ! k = now_assign (pinfo b) ! k) \<and>
    length (p_channel (pinfo b')) = length (p_channel (pinfo b)) \<and> length (now_assign (pinfo b')) = length (now_assign (pinfo b)) \<and>
    max_assign (pinfo b') = max_assign (pinfo b)"
proof -
  let ?ch = "\<lambda>b j. p_channel (pinfo b) ! pn ! j"
  let ?P = "\<lambda>i (b1, bs). bs = map (\<lambda>j. hd (q_list (free_block (?ch b j)))) [0..<i] \<and> length (base_block (pri b1)) = length (base_block (pri b)) \<and>
    (\<forall>k. k \<noteq> pn \<longrightarrow> p_channel (pinfo b1) ! k = p_channel (pinfo b) ! k) \<and> length (p_channel (pinfo b1)) = length (p_channel (pinfo b)) \<and>
    length (p_channel (pinfo b1) ! pn) = BPS \<and> (\<forall>j \<ge> i. ?ch b1 j = ?ch b j) \<and> now_assign (pinfo b1) = now_assign (pinfo b) \<and> max_assign (pinfo b1) = max_assign (pinfo b)"
  have "\<exists>t. foldE (pt_segment_step pn isr) [0..<BPS] (b, []) = Inr t \<and> ?P BPS t"
  proof (rule foldE_upt [where P = ?P])
    show "?P 0 (b, [])" using n by simp
    fix i and t :: "pt_bm \<times> blk list"
    assume i: "i < BPS" and P: "?P i t"
    obtain b1 bs where t: "t = (b1, bs)" by force
    have c: "part_channel (pinfo b1) pn i = Inr (?ch b i)" using P t n i by (simp add: part_channel_def index_in)
    have "chan_ready (base_block (pri b1)) (?ch b i)" using r i P t by (simp add: chan_ready_def)
    then obtain c' p where "pt_segment_step pn isr i (b1, bs) = Inr (set_part_channel pn i c' (b1\<lparr>pri := p\<rparr>), bs @ [hd (q_list (free_block (?ch b i)))])"
      "length (base_block p) = length (base_block (pri b1))" using segment_step_ready [OF c] by blast
    then show "\<exists>t'. pt_segment_step pn isr i t = Inr t' \<and> ?P (Suc i) t'" using P t n(1) by (auto simp: set_part_channel_def)
  qed
  then obtain b1 bs where f: "foldE (pt_segment_step pn isr) [0..<BPS] (b, []) = Inr (b1, bs)" "?P BPS (b1, bs)" by auto
  then show ?thesis using n le by (auto simp: pbm_pt_get_segment_def Let_def index_in)
qed

lemma parts_succeed:
  assumes "\<forall>n \<in> set epn. 0 < n" "(start + sum_list epn) * BPS \<le> length bs"
  shows "\<exists>r. foldE (pt_part bs) epn (pi, start) = Inr r"
  using assms
proof (induction epn arbitrary: pi start)
  case (Cons n epn)
  have "(start + n) * BPS \<le> length bs" using Cons.prems(2) by (simp add: add_mult_distrib)
  then have "start * 64 < length bs" "(start + n - 1) * 64 < length bs" "start + n \<noteq> 0" using Cons.prems(1) by (auto simp: BPS_def)
  moreover have "\<exists>cs. foldE (\<lambda>j cs. bindE (pt_channel start (start + n) j) (\<lambda>c. Inr (cs @ [c]))) [0..<PUNIT] [] = Inr cs \<and> True"
  proof (rule foldE_upt)
    fix i and cs :: "channel list"
    assume "i < PUNIT"
    then show "\<exists>t'. bindE (pt_channel start (start + n) i) (\<lambda>c. Inr (cs @ [c])) = Inr t' \<and> True"
      using pt_channel_ok [of i start "start + n"] by (auto simp: PUNIT_def BPS_def)
  qed simp
  ultimately obtain pi1 where "pt_part bs n (pi, start) = Inr (pi1, start + n)" by (auto simp: pt_part_def Let_def index_in)
  then show ?case using Cons.IH [of "start + n" pi1] Cons.prems by (auto simp: add.assoc)
qed simp

lemma pbm_create_ok:
  assumes g: "0 < giga" "giga \<le> 512" and e: "\<forall>n \<in> set epn. 0 < n" "sum_list epn \<le> NOS giga"
  shows "\<exists>c b. pbm_create RNOS (NOS giga) None epn = Inr (c, b) \<and> length (base_block (pri b)) = NOS giga * BPS"
proof -
  obtain c total where c: "bb_checker_start RNOS None = Inr (c, int total)" "length (ent c) = RNOS"
    "assign c = 0" "\<forall>i < RNOS. bb_flag (ent c ! i) = static_flag i \<and> origin_segnum (ent c ! i) = i * PPS"
    using bb_checker_start_ok by blast
  have le: "NOS giga \<le> length (ent c)" using g(2) c(2) by (simp add: RNOS_def PAGESIZE_def NOS_def TOTALSIZE_def)
  then obtain c' bs where bs: "create_blocks (NOS giga) c = Inr (c', bs)" "length bs = NOS giga * BPS"
    using create_blocks_ok [OF c(3) le] c(2,4) by auto
  have "(0 + sum_list epn) * BPS \<le> length bs" using bs(2) e(2) by simp
  then obtain r where "foldE (pt_part bs) epn
      (\<lparr>pnum = length epn, now_assign = [], max_assign = [], p_from = [], p_to = [], p_channel = []\<rparr>, 0) = Inr r"
    using parts_succeed [OF e(1)] by blast
  then show ?thesis using c(1) bs by (cases r) (simp add: pbm_create_def)
qed

section \<open>Properties\<close>

text \<open>
  C5: the partitions stay apart. Whatever operations a client performs from creation on, giving segments and targets
  back to the partition they came from, every segment and every garbage-collection target it gets from partition \<open>k\<close>
  consists of one block of each channel, all within the segments of that partition; segments and targets of
  different partitions have no block in common, and the free queues of a partition hold only its own blocks.
\<close>

theorem partitions_stay_apart:
  assumes "pt_reach rnos nos device epn b own" "length epn = PARTNUM"
  shows "(\<forall>k bs. (k, bs) \<in> own \<longrightarrow> k < PARTNUM \<and> length bs = BPS \<and> (\<forall>j < BPS. bs ! j mod BPS = j \<and>
        sum_list (take k epn) \<le> bs ! j div BPS \<and> bs ! j div BPS < sum_list (take (Suc k) epn))) \<and>
    (\<forall>k bs k' bs'. (k, bs) \<in> own \<and> (k', bs') \<in> own \<and> k \<noteq> k' \<longrightarrow> set bs \<inter> set bs' = {}) \<and>
    (\<forall>k < PARTNUM. \<forall>j < length (p_channel (pinfo b) ! k). \<forall>x \<in> set (q_list (free_block (p_channel (pinfo b) ! k ! j))).
        x mod BPS = j \<and> sum_list (take k epn) \<le> x div BPS \<and> x div BPS < sum_list (take (Suc k) epn))"
proof -
  have i: "pt_inv epn b own" by (rule pt_reach_inv [OF assms])
  have h: "home (pinfo b) k j x \<longleftrightarrow> k < PARTNUM \<and> sum_list (take k epn) \<le> x div BPS \<and> x div BPS < sum_list (take (Suc k) epn) \<and> x mod BPS = j" for k j x
    using i assms(2) by (auto simp: pt_inv_def home_def)
  have own: "k < PARTNUM \<and> length bs = BPS \<and> (\<forall>j < BPS. home (pinfo b) k j (bs ! j))" if "(k, bs) \<in> own" for k bs
  proof -
    have "length bs = BPS" "\<forall>j < BPS. home (pinfo b) k j (bs ! j)" using i that by (auto simp: pt_inv_def block_group_def)
    moreover then have "home (pinfo b) k 0 (bs ! 0)" by simp
    ultimately show ?thesis using h by blast
  qed
  have "set bs \<inter> set bs' = {}" if a: "(k, bs) \<in> own" "(k', bs') \<in> own" "k \<noteq> k'" for k bs k' bs'
  proof -
    have "False" if "x \<in> set bs" "x \<in> set bs'" for x
    proof -
      have "\<exists>j. home (pinfo b) k j x" "\<exists>j. home (pinfo b) k' j x" using own a that by (metis in_set_conv_nth)+
      then have "sum_list (take k epn) < sum_list (take (Suc k') epn)" "sum_list (take k' epn) < sum_list (take (Suc k) epn)" using h by auto
      moreover have "sum_list (take (Suc m) epn) \<le> sum_list (take n epn)" if "m < n" for m n
        using that by (metis Suc_leI le_add1 le_Suc_ex sum_list_append take_add)
      ultimately show False using a(3) by (metis leD nat_neq_iff)
    qed
    then show ?thesis by blast
  qed
  moreover have "home (pinfo b) k j x" if "k < PARTNUM" "j < length (p_channel (pinfo b) ! k)" "x \<in> set (q_list (free_block (p_channel (pinfo b) ! k ! j)))" for k j x
    using i that assms(2) by (simp add: pt_inv_def pt_ok_def chan_in_def)
  ultimately show ?thesis using own h by blast
qed

theorem partitions_stay_apart_witness:
  "\<exists>b ms ds. pt_reach RNOS (NOS 1) None [2, 6] b {(DATA_S, ds), (MAP_S, ms)} \<and> length ms = BPS \<and> length ds = BPS \<and> set ds \<inter> set ms = {}"
proof -
  let ?epn = "[2, 6] :: nat list"
  have nos: "NOS 1 = 8" by (simp add: NOS_def TOTALSIZE_def PAGESIZE_def)
  obtain c b where b: "pbm_create RNOS (NOS 1) None ?epn = Inr (c, b)" "length (base_block (pri b)) = 8 * BPS"
    using pbm_create_ok [of 1 ?epn] nos by auto
  note p = create_parts(1) [OF b(1), unfolded parts_of_def]
  have rd: "\<forall>j < BPS. chan_ready bs (p_channel (pinfo b) ! k ! j)" if "k < 2" "length bs = 8 * BPS" for k bs
  proof (intro allI impI)
    fix j assume j: "j < BPS"
    have "new_chan (sum_list (take k ?epn)) (sum_list (take (Suc k) ?epn)) j (p_channel (pinfo b) ! k ! j)" using p that(1) j by simp
    then show "chan_ready bs (p_channel (pinfo b) ! k ! j)"
      by (rule new_chan_ready) (use that j in \<open>auto simp: less_2_cases_iff\<close>)
  qed
  obtain a1 b1 m where s1: "pbm_pt_get_segment MAP_S False b = Inr (a1, b1)" "segs (pri b1) a1 = Some m" "length (base_block (pri b1)) = 8 * BPS"
    "p_channel (pinfo b1) ! 1 = p_channel (pinfo b) ! 1" "now_assign (pinfo b1) ! 1 = 0" "length (p_channel (pinfo b1)) = 2"
    "length (now_assign (pinfo b1)) = 2" "max_assign (pinfo b1) = [2, 6]"
    using get_segment_ready [of MAP_S b False] rd [of 0 "base_block (pri b)"] b(2) p by (auto simp: MAP_S_def)
  obtain a2 b2 d where s2: "pbm_pt_get_segment DATA_S False b1 = Inr (a2, b2)" "segs (pri b2) a2 = Some d"
    using get_segment_ready [of DATA_S b1 False] rd [of 1 "base_block (pri b1)"] s1(3-8) p by (auto simp: DATA_S_def)
  have "pt_reach RNOS (NOS 1) None ?epn b1 {(MAP_S, s_blocks m)}"
    using pt_reach.segment [OF pt_reach.create [OF b(1)] s1(1,2)] by simp
  then have r: "pt_reach RNOS (NOS 1) None ?epn b2 {(DATA_S, s_blocks d), (MAP_S, s_blocks m)}"
    using pt_reach.segment [OF _ s2] by simp
  have "length ?epn = PARTNUM" by (simp add: PARTNUM_def)
  note t = partitions_stay_apart [OF r this]
  have "length (s_blocks m) = BPS" using t [THEN conjunct1, rule_format, of MAP_S "s_blocks m"] by simp
  moreover have "length (s_blocks d) = BPS" using t [THEN conjunct1, rule_format, of DATA_S "s_blocks d"] by simp
  moreover have "DATA_S \<noteq> MAP_S" by (simp add: DATA_S_def MAP_S_def)
  then have "set (s_blocks d) \<inter> set (s_blocks m) = {}"
    using t [THEN conjunct2, THEN conjunct1, rule_format, of DATA_S "s_blocks d" MAP_S "s_blocks m"] by simp
  ultimately show ?thesis using r by blast
qed

text \<open>
  C6: the collector takes the best segment of the mapping partition. If no segment of the partition has an invalid
  page, it aborts. Otherwise the target consists of the blocks of the first of the segments with the largest number of
  invalid pages, it reports that number, and the state does not change.
\<close>

theorem map_gc_takes_most_invalid:
  assumes "length (p_from (pinfo b)) = PARTNUM" "length (p_to (pinfo b)) = PARTNUM" "p_from (pinfo b) ! MAP_S = lo" "p_to (pinfo b) ! MAP_S = int hi - 1"
    "lo < hi" "hi * BPS \<le> length (base_block (pri b))" "\<forall>i \<in> {lo..<hi}. sinv (base_block (pri b)) i \<le> PPS"
  shows "if \<forall>i \<in> {lo..<hi}. sinv (base_block (pri b)) i = 0 then pbm_pt_get_gc_target MAP_S b = Inl Abort
    else \<exists>t \<in> {lo..<hi}. pbm_pt_get_gc_target MAP_S b =
        Inr (\<lparr>g_blocks = map (\<lambda>j. t * BPS + j) [0..<BPS], g_now = 0, g_max = BPS, invalidate_number = sinv (base_block (pri b)) t\<rparr>, b) \<and>
      (\<forall>i \<in> {lo..<hi}. sinv (base_block (pri b)) i \<le> sinv (base_block (pri b)) t \<and>
        (i < t \<longrightarrow> sinv (base_block (pri b)) i < sinv (base_block (pri b)) t))"
proof -
  let ?bs = "base_block (pri b)"
  have fit: "Suc i * BPS \<le> length ?bs" if "i < hi" for i
  proof -
    have "Suc i * BPS \<le> hi * BPS" using that by (intro mult_le_mono1) simp
    then show ?thesis using assms(6) by simp
  qed
  then obtain t m where r: "foldE (map_target_step ?bs) [lo..<hi] (0, 0) = Inr (t, m)" "first_max (sinv ?bs) {lo..<hi} (t, m)"
    using map_target_ok [of lo hi ?bs] assms(5,7) by auto
  have t: "t < hi" using r(2) assms(5) by (cases "m = 0") (auto simp: first_max_def)
  let ?P = "\<lambda>i bs. bs = map (\<lambda>j. t * BPS + j) [0..<i]"
  have "\<exists>bs. foldE (\<lambda>j bs. bindE (index ?bs (t * BPS + j)) (\<lambda>_. Inr (bs @ [t * BPS + j]))) [0..<BPS] [] = Inr bs \<and> ?P BPS bs"
    by (rule foldE_upt [where P = ?P]) (use fit [OF t] in \<open>auto simp: index_in\<close>)
  then have "pbm_pt_get_gc_target MAP_S b = (if m = 0 then Inl Abort
      else Inr (\<lparr>g_blocks = map (\<lambda>j. t * BPS + j) [0..<BPS], g_now = 0, g_max = BPS, invalidate_number = m\<rparr>, b))"
    using assms(1-4) r(1) by (simp add: pbm_pt_get_gc_target_def MAP_S_def DATA_S_def PARTNUM_def index_in)
  then show ?thesis using r(2) by (cases "m = 0") (auto simp: first_max_def)
qed

theorem map_gc_takes_most_invalid_witness:
  "\<exists>b gs. base_block (pri b) = replicate BPS (new_block 0 0) @ replicate BPS ((new_block 16384 0)\<lparr>invalid_number := 3\<rparr>) \<and>
     p_from (pinfo b) = [0, 2] \<and> p_to (pinfo b) = [1, 7] \<and> pbm_pt_get_gc_target MAP_S b = Inr (gs, b) \<and> invalidate_number gs = 192"
proof -
  let ?bs = "replicate BPS (new_block 0 0) @ replicate BPS ((new_block 16384 0)\<lparr>invalid_number := 3\<rparr>)"
  let ?b = "\<lparr>pri = \<lparr>base_block = ?bs, base_channel = [], seg_map = Map.empty, seg_map_idx = 0, segs = Map.empty, seg_fresh = 0\<rparr>,
    pinfo = \<lparr>pnum = 2, now_assign = [0, 0], max_assign = [2, 6], p_from = [0, 2], p_to = [1, 7], p_channel = []\<rparr>\<rparr>"
  have m: "map (\<lambda>j. invalid_number (?bs ! (0 * BPS + j))) [0..<BPS] = map (\<lambda>_. 0) [0..<BPS]"
    "map (\<lambda>j. invalid_number (?bs ! (1 * BPS + j))) [0..<BPS] = map (\<lambda>_. 3) [0..<BPS]"
    by (intro map_cong; simp add: nth_append new_block_def)+
  have v: "sinv ?bs 0 = 0" "sinv ?bs 1 = 192" unfolding sinv_def m by (simp_all add: sum_list_triv BPS_def)
  have two: "{0..<2} = {0, 1 :: nat}" by auto
  have le: "\<forall>i \<in> {0..<2}. sinv (base_block (pri ?b)) i \<le> PPS" unfolding two using v by (simp add: PPS_value)
  have nz: "\<not> (\<forall>i \<in> {0..<2}. sinv (base_block (pri ?b)) i = 0)" unfolding two using v by simp
  have h: "length (p_from (pinfo ?b)) = PARTNUM" "length (p_to (pinfo ?b)) = PARTNUM" "p_from (pinfo ?b) ! MAP_S = 0" "p_to (pinfo ?b) ! MAP_S = int 2 - 1"
    "(0 :: nat) < 2" "2 * BPS \<le> length (base_block (pri ?b))" by (simp_all add: PARTNUM_def MAP_S_def)
  obtain t where t: "t \<in> {0..<2}" "pbm_pt_get_gc_target MAP_S ?b =
        Inr (\<lparr>g_blocks = map (\<lambda>j. t * BPS + j) [0..<BPS], g_now = 0, g_max = BPS, invalidate_number = sinv (base_block (pri ?b)) t\<rparr>, ?b)"
      "\<forall>i \<in> {0..<2}. sinv (base_block (pri ?b)) i \<le> sinv (base_block (pri ?b)) t"
    using map_gc_takes_most_invalid [OF h le] unfolding if_not_P [OF nz] by blast
  have "sinv ?bs t = 192" using t(1,3) v unfolding two by auto
  then show ?thesis using t(2) by (intro exI [of _ ?b]) simp
qed

end
