(* ===== verification/Skiplist.thy ===== *)
theory Skiplist
  imports Str_Key Heap_Lists
begin

text \<open>
  The skip list of \<^verbatim>\<open>src/algorithm/Lsmtree/skiplist.c\<close> (built with \<open>KVSSD\<close> and \<open>Lsmtree\<close>), the table of an LSM tree
  that is kept in memory. A node has one forward pointer per level; the lists of all levels run through the
  header, whose key is the largest. The nodes of all skip lists live in one store. The theory shows that the table
  behaves as a map from keys to entries, whatever levels the random numbers give to the nodes, and that walking
  over it gives the entries in the order of their keys.
\<close>

section \<open>Data\<close>

definition MAX_L :: nat where "MAX_L = 30"
definition PROB :: nat where "PROB = 4"
definition PIECE :: nat where "PIECE = 512"
definition MAXKEYSIZE :: nat where "MAXKEYSIZE = 255"

definition key_max :: str_key where
  "key_max = Str_Key (replicate MAXKEYSIZE 255)"

definition KEYLEN :: "str_key \<Rightarrow> nat" where
  "KEYLEN a = key_len a + 4"

text \<open>
  A \<open>value_set\<close>, by its length and the buffer it holds. \<open>sn_list\<close> is the array \<open>list\<close> of \<open>level + 1\<close> pointers, of
  which the first is not used; an entry that has not been written is \<open>None\<close>.
\<close>

record sval =
  sv_len :: nat
  sv_buf :: nat

record snode =
  sn_ppa :: nat
  sn_key :: str_key
  sn_level :: nat
  sn_value :: "sval option"
  sn_isvalid :: bool
  sn_list :: "addr option list"
  sn_back :: addr

record skiplist =
  sk_level :: nat
  sk_size :: nat
  all_length :: nat
  data_size :: nat
  header :: addr

text \<open>The store, the next address and the number of random numbers drawn so far.\<close>

record sk_heap =
  sn_mem :: "addr \<rightharpoonup> snode"
  sn_fresh :: addr
  rand_pos :: nat

definition sn :: "sk_heap \<Rightarrow> addr \<Rightarrow> snode res" where
  "sn m a = deref (sn_mem m a)"

definition upd_sn :: "addr \<Rightarrow> (snode \<Rightarrow> snode) \<Rightarrow> sk_heap \<Rightarrow> sk_heap res" where
  "upd_sn a f m = bindE (sn m a) (\<lambda>n. Inr (m\<lparr>sn_mem := (sn_mem m)(a \<mapsto> f n)\<rparr>))"

text \<open>\<open>a->list[i]\<close>, read and written.\<close>

definition get_next :: "sk_heap \<Rightarrow> nat \<Rightarrow> addr \<Rightarrow> addr res" where
  "get_next m i a = bindE (sn m a) (\<lambda>n. bindE (index (sn_list n) i) deref)"

definition set_next :: "nat \<Rightarrow> addr \<Rightarrow> addr \<Rightarrow> sk_heap \<Rightarrow> sk_heap res" where
  "set_next i a b m =
     bindE (sn m a) (\<lambda>n. if i < length (sn_list n) then upd_sn a (\<lambda>n. n\<lparr>sn_list := (sn_list n)[i := Some b]\<rparr>) m else Inl Bad_Access)"

text \<open>
  \<open>ds\<close> is what \<open>malloc\<close> left in \<open>data_size\<close>, which is not initialised. Of the header, \<open>ppa\<close>, \<open>level\<close>, \<open>isvalid\<close> and
  the last pointer are not written either; they are read only if an operation is called with the largest key itself,
  which the properties below exclude.
\<close>

definition skiplist_init :: "nat \<Rightarrow> sk_heap \<Rightarrow> skiplist \<times> sk_heap" where
  "skiplist_init ds m =
     (let h = sn_fresh m in
      (\<lparr>sk_level = 1, sk_size = 0, all_length = 0, data_size = ds, header = h\<rparr>,
       m\<lparr>sn_mem := (sn_mem m)(h \<mapsto> \<lparr>sn_ppa = 0, sn_key = key_max, sn_level = 0, sn_value = None, sn_isvalid = False,
                                   sn_list = replicate MAX_L (Some h) @ [None], sn_back = h\<rparr>),
         sn_fresh := h + 1\<rparr>))"

section \<open>Searching\<close>

text \<open>
  \<open>while(c(KEYCMP(x->list[i]->key,key))) x=x->list[i];\<close> and the loop over the levels, which records the last node
  of every level in \<open>update\<close>. Fuel is one more than the number of nodes.
\<close>

fun walk_level :: "(int \<Rightarrow> bool) \<Rightarrow> nat \<Rightarrow> sk_heap \<Rightarrow> nat \<Rightarrow> str_key \<Rightarrow> addr \<Rightarrow> addr res" where
  "walk_level c 0 m i k x = Inl Hang"
| "walk_level c (Suc n) m i k x =
     bindE (get_next m i x) (\<lambda>y.
     bindE (sn m y) (\<lambda>ny. if c (KEYCMP (sn_key ny) k) then walk_level c n m i k y else Inr x))"

fun descend :: "(int \<Rightarrow> bool) \<Rightarrow> nat \<Rightarrow> sk_heap \<Rightarrow> str_key \<Rightarrow> nat \<Rightarrow> addr \<Rightarrow> (nat \<rightharpoonup> addr) \<Rightarrow> (addr \<times> (nat \<rightharpoonup> addr)) res" where
  "descend c n m k 0 x upd = Inr (x, upd)"
| "descend c n m k (Suc i) x upd =
     bindE (walk_level c n m (Suc i) k x) (\<lambda>y. descend c n m k i y (upd(Suc i \<mapsto> y)))"

definition search :: "(int \<Rightarrow> bool) \<Rightarrow> str_key \<Rightarrow> skiplist \<Rightarrow> sk_heap \<Rightarrow> (addr \<times> (nat \<rightharpoonup> addr)) res" where
  "search c k l m = descend c (sk_size l + 1) m k (sk_level l) (header l) Map.empty"

definition skiplist_find :: "skiplist option \<Rightarrow> str_key \<Rightarrow> sk_heap \<Rightarrow> addr option res" where
  "skiplist_find lo k m =
     (case lo of
        None \<Rightarrow> Inr None
      | Some l \<Rightarrow>
          if sk_size l = 0 then Inr None
          else
            bindE (search (\<lambda>r. r < 0) k l m) (\<lambda>(x, _).
            bindE (get_next m 1 x) (\<lambda>y.
            bindE (sn m y) (\<lambda>ny. Inr (if KEYTEST (sn_key ny) k then Some y else None)))))"

definition skiplist_find_lowerbound :: "skiplist option \<Rightarrow> str_key \<Rightarrow> sk_heap \<Rightarrow> addr option res" where
  "skiplist_find_lowerbound lo k m =
     (case lo of
        None \<Rightarrow> Inr None
      | Some l \<Rightarrow>
          if sk_size l = 0 then Inr None
          else bindE (search (\<lambda>r. r < 0) k l m) (\<lambda>(x, _). bindE (get_next m 1 x) (\<lambda>y. Inr (Some y))))"

definition skiplist_range_search :: "skiplist \<Rightarrow> str_key \<Rightarrow> sk_heap \<Rightarrow> addr option res" where
  "skiplist_range_search l k m =
     (if sk_size l = 0 then Inr None
      else
        bindE (search (\<lambda>r. r \<le> 0) k l m) (\<lambda>(bf, _).
        bindE (get_next m 1 bf) (\<lambda>x.
        bindE (sn m bf) (\<lambda>nbf.
        bindE (sn m x) (\<lambda>nx.
          if KEYCMP (sn_key nbf) k \<le> 0 \<and> KEYCMP k (sn_key nx) < 0 then Inr (Some bf)
          else
            bindE (get_next m 1 (header l)) (\<lambda>f.
            bindE (sn m f) (\<lambda>nf. Inr (if KEYCMP k (sn_key nf) \<le> 0 then Some f else None))))))))"

definition skiplist_strict_range_search :: "skiplist \<Rightarrow> str_key \<Rightarrow> sk_heap \<Rightarrow> addr option res" where
  "skiplist_strict_range_search l k m =
     (if sk_size l = 0 then Inr None
      else
        bindE (search (\<lambda>r. r \<le> 0) k l m) (\<lambda>(bf, _).
        bindE (get_next m 1 bf) (\<lambda>x.
        bindE (sn m bf) (\<lambda>nbf.
        bindE (sn m x) (\<lambda>nx.
          if KEYCMP (sn_key nbf) k \<le> 0 \<and> KEYCMP k (sn_key nx) < 0 then Inr (Some bf)
          else if KEYCMP (sn_key nbf) key_max = 0 then Inr (Some x)
          else Inr None)))))"

section \<open>Insertion\<close>

text \<open>\<open>rnd\<close> gives the results of \<open>rand()\<close> in order; the second component is the number of them that has been drawn.\<close>

function level_loop :: "(nat \<Rightarrow> nat) \<Rightarrow> nat \<Rightarrow> nat \<Rightarrow> nat \<times> nat" where
  "level_loop rnd pos level =
     (if rnd pos mod PROB = 1 then
        if level + 1 + 1 \<ge> MAX_L then (level + 1, pos + 2) else level_loop rnd (pos + 1) (level + 1)
      else (level, pos + 1))"
  by pat_completeness auto
termination
  by (relation "measure (\<lambda>(rnd, pos, level). MAX_L - level)") (auto simp: MAX_L_def)

declare level_loop.simps [simp del]

definition getLevel :: "(nat \<Rightarrow> nat) \<Rightarrow> nat \<Rightarrow> nat \<times> nat" where
  "getLevel rnd pos = level_loop rnd pos 1"

text \<open>\<open>update[i]=list->header\<close> for the levels above the level of the list.\<close>

definition raise_level :: "nat \<Rightarrow> (nat \<rightharpoonup> addr) \<Rightarrow> skiplist \<Rightarrow> (nat \<rightharpoonup> addr) \<times> skiplist" where
  "raise_level level upd l =
     (if level > sk_level l
      then ((\<lambda>i. if sk_level l < i \<and> i \<le> level then Some (header l) else upd i), l\<lparr>sk_level := level\<rparr>)
      else (upd, l))"

definition link_level :: "(nat \<rightharpoonup> addr) \<Rightarrow> addr \<Rightarrow> nat \<Rightarrow> sk_heap \<Rightarrow> sk_heap res" where
  "link_level upd x i m =
     bindE (deref (upd i)) (\<lambda>u.
     bindE (get_next m i u) (\<lambda>y.
     bindE (set_next i x y m) (\<lambda>m1. set_next i u x m1)))"

text \<open>
  The node that all insertions create, with its fields \<open>ppa\<close>, \<open>value\<close> and \<open>isvalid\<close>.
\<close>

definition insert_new ::
  "(nat \<Rightarrow> nat) \<Rightarrow> str_key \<Rightarrow> nat \<Rightarrow> sval option \<Rightarrow> bool \<Rightarrow> (nat \<rightharpoonup> addr) \<Rightarrow> skiplist \<Rightarrow> sk_heap \<Rightarrow> (addr \<times> skiplist \<times> sk_heap) res" where
  "insert_new rnd k ppa v valid upd l m =
     (let (level, pos) = getLevel rnd (rand_pos m); (upd1, l1) = raise_level level upd l; x = sn_fresh m;
          m1 = m\<lparr>sn_mem := (sn_mem m)(x \<mapsto> \<lparr>sn_ppa = ppa, sn_key = k, sn_level = level, sn_value = v, sn_isvalid = valid,
                                           sn_list = replicate (level + 1) None, sn_back = x\<rparr>),
                 sn_fresh := x + 1, rand_pos := pos\<rparr>
      in bindE (foldE (link_level upd1 x) [1..<Suc level] m1) (\<lambda>m2.
         bindE (get_next m2 1 x) (\<lambda>y.
         bindE (sn m2 y) (\<lambda>ny.
         bindE (upd_sn x (\<lambda>n. n\<lparr>sn_back := sn_back ny\<rparr>) m2) (\<lambda>m3.
         bindE (upd_sn y (\<lambda>n. n\<lparr>sn_back := x\<rparr>) m3) (\<lambda>m4.
           Inr (x, l1\<lparr>sk_size := sk_size l1 + 1\<rparr>, m4)))))))"

text \<open>The node behind the last one with a smaller key, which is the header if there is none.\<close>

definition find_place :: "str_key \<Rightarrow> skiplist \<Rightarrow> sk_heap \<Rightarrow> (addr \<times> snode \<times> (nat \<rightharpoonup> addr)) res" where
  "find_place k l m =
     bindE (search (\<lambda>r. r < 0) k l m) (\<lambda>(x0, upd).
     bindE (get_next m 1 x0) (\<lambda>x.
     bindE (sn m x) (\<lambda>nx. Inr (x, nx, upd))))"

definition add_length :: "nat \<Rightarrow> skiplist \<Rightarrow> skiplist" where
  "add_length n l = l\<lparr>all_length := (all_length l + n) mod 2 ^ 32\<rparr>"

definition skiplist_insert_wP :: "(nat \<Rightarrow> nat) \<Rightarrow> str_key \<Rightarrow> nat \<Rightarrow> bool \<Rightarrow> skiplist \<Rightarrow> sk_heap \<Rightarrow> (addr \<times> skiplist \<times> sk_heap) res" where
  "skiplist_insert_wP rnd k ppa deletef l m =
     bindE (find_place k l m) (\<lambda>(x, nx, upd).
       if KEYTEST k (sn_key nx) then Inl Abort
       else insert_new rnd k ppa None deletef upd (add_length (KEYLEN k) l) m)"

text \<open>The last component is the address that is passed to \<open>invalidate_PPA\<close>.\<close>

definition skiplist_insert_existIgnore ::
  "(nat \<Rightarrow> nat) \<Rightarrow> str_key \<Rightarrow> nat \<Rightarrow> bool \<Rightarrow> skiplist \<Rightarrow> sk_heap \<Rightarrow> (addr \<times> skiplist \<times> sk_heap \<times> nat option) res" where
  "skiplist_insert_existIgnore rnd k ppa deletef l m =
     bindE (find_place k l m) (\<lambda>(x, nx, upd).
       if KEYTEST k (sn_key nx) then
         if ppa = sn_ppa nx then Inl Abort
         else bindE (upd_sn x (\<lambda>n. n\<lparr>sn_ppa := ppa, sn_isvalid := deletef\<rparr>) m) (\<lambda>m1. Inr (x, l, m1, Some (sn_ppa nx)))
       else
         bindE (insert_new rnd k ppa None deletef upd (add_length (KEYLEN k) l) m) (\<lambda>(x, l1, m1). Inr (x, l1, m1, None)))"

text \<open>\<open>isvalid\<close> of a new node is not written; \<open>junk\<close> is what \<open>malloc\<close> left there.\<close>

definition skiplist_insert_iter ::
  "(nat \<Rightarrow> nat) \<Rightarrow> bool \<Rightarrow> str_key \<Rightarrow> nat \<Rightarrow> skiplist \<Rightarrow> sk_heap \<Rightarrow> (addr \<times> skiplist \<times> sk_heap) res" where
  "skiplist_insert_iter rnd junk k ppa l m =
     bindE (find_place k l m) (\<lambda>(x, nx, upd).
       if KEYTEST k (sn_key nx) then bindE (upd_sn x (\<lambda>n. n\<lparr>sn_ppa := ppa\<rparr>) m) (\<lambda>m1. Inr (x, l, m1))
       else insert_new rnd k ppa None junk upd (add_length (key_len k) l) m)"

text \<open>\<open>UINT_MAX\<close> is the address of an entry that is not on flash; lengths are counted in pieces of 512 bytes.\<close>

definition pieces :: "sval \<Rightarrow> sval" where
  "pieces v = v\<lparr>sv_len := sv_len v div PIECE + (if sv_len v mod PIECE \<noteq> 0 then 1 else 0)\<rparr>"

definition skiplist_insert ::
  "(nat \<Rightarrow> nat) \<Rightarrow> str_key \<Rightarrow> sval option \<Rightarrow> bool \<Rightarrow> skiplist \<Rightarrow> sk_heap \<Rightarrow> (addr \<times> skiplist \<times> sk_heap) res" where
  "skiplist_insert rnd k v0 deletef l m =
     (let v = map_option pieces v0 in
      bindE (find_place k l m) (\<lambda>(x, nx, upd).
        if KEYTEST k (sn_key nx) then
          bindE (deref (sn_value nx)) (\<lambda>old.
          bindE (deref v) (\<lambda>new.
          bindE (upd_sn x (\<lambda>n. n\<lparr>sn_value := v, sn_isvalid := deletef\<rparr>) m) (\<lambda>m1.
            Inr (x, l\<lparr>data_size := nat ((int (data_size l) - int (sv_len old * PIECE) + int (sv_len new * PIECE)) mod 2 ^ 32)\<rparr>, m1))))
        else
          bindE (insert_new rnd k UINT_MAX v deletef upd (add_length (KEYLEN k) l) m) (\<lambda>(x, l1, m1).
          bindE (deref v) (\<lambda>new.
            Inr (x, l1\<lparr>data_size := (data_size l1 + sv_len new * PIECE) mod 2 ^ 32\<rparr>, m1)))))"

section \<open>Deletion and traversal\<close>

definition unlink_level :: "(nat \<rightharpoonup> addr) \<Rightarrow> addr \<Rightarrow> nat \<Rightarrow> skiplist \<times> sk_heap \<Rightarrow> (skiplist \<times> sk_heap) res" where
  "unlink_level upd x i = (\<lambda>(l, m).
     bindE (deref (upd i)) (\<lambda>u.
     bindE (get_next m i x) (\<lambda>y.
     bindE (set_next i u y m) (\<lambda>m1.
       Inr (if u = y then l\<lparr>sk_level := sk_level l - 1\<rparr> else l, m1)))))"

definition skiplist_delete :: "str_key \<Rightarrow> skiplist \<Rightarrow> sk_heap \<Rightarrow> (int \<times> skiplist \<times> sk_heap) res" where
  "skiplist_delete k l m =
     (if sk_size l = 0 then Inr (- 1, l, m)
      else
        bindE (find_place k l m) (\<lambda>(x, nx, upd).
          if KEYCMP (sn_key nx) k \<noteq> 0 then Inr (- 2, l, m)
          else
            bindE (foldE (unlink_level upd x) (rev [1..<Suc (sn_level nx)]) (l, m)) (\<lambda>(l1, m1).
              Inr (0, l1\<lparr>sk_size := sk_size l1 - 1\<rparr>, m1\<lparr>sn_mem := (sn_mem m1)(x := None)\<rparr>))))"

text \<open>The removal of the first node: the loop over the levels with its \<open>break\<close>, and the empty levels.\<close>

fun pop_levels :: "addr \<Rightarrow> addr \<Rightarrow> nat list \<Rightarrow> sk_heap \<Rightarrow> sk_heap res" where
  "pop_levels h x [] m = Inr m"
| "pop_levels h x (i # is) m =
     bindE (get_next m i h) (\<lambda>y.
       if y \<noteq> x then Inr m
       else bindE (get_next m i x) (\<lambda>z. bindE (set_next i h z m) (pop_levels h x is)))"

fun lower_level :: "addr \<Rightarrow> sk_heap \<Rightarrow> nat \<Rightarrow> nat res" where
  "lower_level h m 0 = Inr 0"
| "lower_level h m (Suc n) =
     (if n = 0 then Inr 1 else bindE (get_next m (Suc n) h) (\<lambda>y. if y = h then lower_level h m n else Inr (Suc n)))"

text \<open>The first node is compared with its own key, so that it is always removed; it is not freed.\<close>

definition skiplist_pop :: "skiplist \<Rightarrow> sk_heap \<Rightarrow> (addr option \<times> skiplist \<times> sk_heap) res" where
  "skiplist_pop l m =
     (if sk_size l = 0 then Inr (None, l, m)
      else
        bindE (get_next m 1 (header l)) (\<lambda>x.
        bindE (sn m x) (\<lambda>n.
        bindE (pop_levels (header l) x [1..<Suc (sk_level l)] m) (\<lambda>m1.
        bindE (lower_level (header l) m1 (sk_level l)) (\<lambda>lev.
          Inr (Some x, l\<lparr>sk_level := lev, all_length := nat ((int (all_length l) - int (KEYLEN (sn_key n))) mod 2 ^ 32),
                         sk_size := sk_size l - 1\<rparr>, m1))))))"

definition skiplist_at :: "skiplist \<Rightarrow> nat \<Rightarrow> sk_heap \<Rightarrow> addr res" where
  "skiplist_at l idx m = foldE (\<lambda>_ a. get_next m 1 a) [0..<idx] (header l)"

text \<open>The read-only iterator.\<close>

record sk_iter =
  it_list :: skiplist
  it_now :: addr

definition skiplist_get_iterator :: "skiplist \<Rightarrow> sk_iter" where
  "skiplist_get_iterator l = \<lparr>it_list = l, it_now = header l\<rparr>"

definition skiplist_get_next :: "sk_heap \<Rightarrow> sk_iter \<Rightarrow> (addr option \<times> sk_iter) res" where
  "skiplist_get_next m it =
     bindE (get_next m 1 (it_now it)) (\<lambda>y.
       Inr (if y = header (it_list it) then (None, it) else (Some y, it\<lparr>it_now := y\<rparr>)))"

text \<open>\<open>for_each_sk\<close>: the nodes in order, with the number of nodes plus one as fuel.\<close>

fun for_each_sk :: "nat \<Rightarrow> sk_heap \<Rightarrow> addr \<Rightarrow> addr \<Rightarrow> addr list res" where
  "for_each_sk 0 m h a = Inl Hang"
| "for_each_sk (Suc n) m h a =
     (if a = h then Inr [] else bindE (get_next m 1 a) (\<lambda>b. bindE (for_each_sk n m h b) (\<lambda>as. Inr (a # as))))"

text \<open>Freeing all nodes; \<open>next\<close> is read before \<open>now\<close> is freed.\<close>

fun clear_loop :: "nat \<Rightarrow> addr \<Rightarrow> addr \<Rightarrow> addr \<Rightarrow> sk_heap \<Rightarrow> sk_heap res" where
  "clear_loop 0 h now nxt m = Inl Hang"
| "clear_loop (Suc n) h now nxt m =
     (if now = h then Inr m
      else
        bindE (sn m now) (\<lambda>_.
          let m1 = m\<lparr>sn_mem := (sn_mem m)(now := None)\<rparr> in
          bindE (get_next m1 1 nxt) (\<lambda>nxt'. clear_loop n h nxt nxt' m1)))"

definition skiplist_clear :: "skiplist \<Rightarrow> sk_heap \<Rightarrow> (skiplist \<times> sk_heap) res" where
  "skiplist_clear l m =
     bindE (get_next m 1 (header l)) (\<lambda>now.
     bindE (get_next m 1 now) (\<lambda>nxt.
     bindE (clear_loop (sk_size l + 1) (header l) now nxt m) (\<lambda>m1.
     bindE (upd_sn (header l) (\<lambda>n. n\<lparr>sn_list := replicate MAX_L (Some (header l)) @ drop MAX_L (sn_list n), sn_key := key_max\<rparr>) m1) (\<lambda>m2.
       Inr (l\<lparr>sk_size := 0, sk_level := 0\<rparr>, m2)))))"

definition skiplist_free :: "skiplist option \<Rightarrow> sk_heap \<Rightarrow> sk_heap res" where
  "skiplist_free lo m =
     (case lo of
        None \<Rightarrow> Inr m
      | Some l \<Rightarrow> bindE (skiplist_clear l m) (\<lambda>(l1, m1). Inr (m1\<lparr>sn_mem := (sn_mem m1)(header l := None)\<rparr>)))"

text \<open>Freed without resetting the pointers of the header first; of the keys, which the store does not hold, only those of entries with a value are freed.\<close>

definition skiplist_container_free :: "skiplist option \<Rightarrow> sk_heap \<Rightarrow> sk_heap res" where
  "skiplist_container_free lo m =
     (case lo of
        None \<Rightarrow> Inr m
      | Some l \<Rightarrow>
          bindE (get_next m 1 (header l)) (\<lambda>now.
          bindE (get_next m 1 now) (\<lambda>nxt.
          bindE (clear_loop (sk_size l + 1) (header l) now nxt m) (\<lambda>m1.
            Inr (m1\<lparr>sn_mem := (sn_mem m1)(header l := None)\<rparr>)))))"

text \<open>\<open>skiplist_merge\<close> walks over \<open>src\<close> while it inserts into \<open>des\<close>.\<close>

fun sk_merge_loop :: "(nat \<Rightarrow> nat) \<Rightarrow> nat \<Rightarrow> addr \<Rightarrow> addr \<Rightarrow> skiplist \<Rightarrow> sk_heap \<Rightarrow> (skiplist \<times> sk_heap) res" where
  "sk_merge_loop rnd 0 h now des m = Inl Hang"
| "sk_merge_loop rnd (Suc n) h now des m =
     (if now = h then Inr (des, m)
      else
        bindE (sn m now) (\<lambda>nn.
        bindE (skiplist_insert_wP rnd (sn_key nn) (sn_ppa nn) (sn_isvalid nn) des m) (\<lambda>(_, des1, m1).
        bindE (get_next m1 1 now) (\<lambda>nxt. sk_merge_loop rnd n h nxt des1 m1))))"

definition skiplist_merge :: "(nat \<Rightarrow> nat) \<Rightarrow> skiplist \<Rightarrow> skiplist \<Rightarrow> sk_heap \<Rightarrow> (skiplist \<times> sk_heap) res" where
  "skiplist_merge rnd src des m =
     bindE (get_next m 1 (header src)) (\<lambda>now. sk_merge_loop rnd (sk_size src + 1) (header src) now des m)"

section \<open>The lists of the levels\<close>

abbreviation nd :: "sk_heap \<Rightarrow> addr \<Rightarrow> snode" where
  "nd m a \<equiv> the (sn_mem m a)"

abbreviation lv :: "sk_heap \<Rightarrow> addr \<Rightarrow> nat" where
  "lv m a \<equiv> sn_level (nd m a)"

abbreviation ky :: "sk_heap \<Rightarrow> addr \<Rightarrow> str_key" where
  "ky m a \<equiv> sn_key (nd m a)"

definition nx :: "sk_heap \<Rightarrow> nat \<Rightarrow> addr \<Rightarrow> addr option" where
  "nx m i a = (if i < length (sn_list (nd m a)) then sn_list (nd m a) ! i else None)"

text \<open>The first address of \<open>as\<close> whose node has level \<open>i\<close>, or the header.\<close>

definition first_at :: "sk_heap \<Rightarrow> nat \<Rightarrow> addr \<Rightarrow> addr list \<Rightarrow> addr" where
  "first_at m i h as = (case filter (\<lambda>b. i \<le> lv m b) as of [] \<Rightarrow> h | b # _ \<Rightarrow> b)"

text \<open>On level \<open>i\<close> the nodes that reach it form one list from the header back to the header.\<close>

fun path :: "sk_heap \<Rightarrow> nat \<Rightarrow> addr list \<Rightarrow> bool" where
  "path m i (a # b # as) \<longleftrightarrow> nx m i a = Some b \<and> path m i (b # as)"
| "path m i _ \<longleftrightarrow> True"

definition linked :: "sk_heap \<Rightarrow> addr \<Rightarrow> addr list \<Rightarrow> nat \<Rightarrow> bool" where
  "linked m h as i \<longleftrightarrow> path m i (h # filter (\<lambda>b. i \<le> lv m b) as @ [h])"

definition node_ok :: "sk_heap \<Rightarrow> skiplist \<Rightarrow> addr \<Rightarrow> bool" where
  "node_ok m l a \<longleftrightarrow> sn_mem m a \<noteq> None \<and> 1 \<le> lv m a \<and> lv m a < MAX_L \<and> length (sn_list (nd m a)) = Suc (lv m a) \<and>
     lv m a \<le> sk_level l \<and> ky m a < key_max"

definition sk_rep :: "sk_heap \<Rightarrow> skiplist \<Rightarrow> addr list \<Rightarrow> bool" where
  "sk_rep m l as \<longleftrightarrow> distinct (header l # as) \<and> (\<forall>a \<in> set as. node_ok m l a) \<and> (\<forall>a. sn_mem m a \<noteq> None \<longrightarrow> a < sn_fresh m) \<and>
     sn_mem m (header l) \<noteq> None \<and> ky m (header l) = key_max \<and> length (sn_list (nd m (header l))) = Suc MAX_L \<and>
     sk_level l < MAX_L \<and> sorted_wrt (<) (map (ky m) as) \<and> sk_size l = length as \<and> (\<forall>i. 1 \<le> i \<and> i < MAX_L \<longrightarrow> linked m (header l) as i) \<and>
     (if as = [] then sk_level l \<le> 1 else \<exists>a \<in> set as. lv m a = sk_level l)"

lemma sk_rep_counters [simp]: "sk_rep m (l\<lparr>all_length := n\<rparr>) as = sk_rep m l as" "sk_rep m (l\<lparr>data_size := n\<rparr>) as = sk_rep m l as"
  unfolding sk_rep_def node_ok_def by simp_all

lemma sn_alloc: "sn_mem m a \<noteq> None \<Longrightarrow> sn m a = Inr (nd m a)"
  by (auto simp: sn_def)

lemma get_next_nx: "sn_mem m a \<noteq> None \<Longrightarrow> nx m i a = Some b \<Longrightarrow> get_next m i a = Inr b"
  by (auto simp: get_next_def sn_def nx_def index_in split: if_splits)

lemma first_at_mem: "first_at m i h as \<in> insert h (set as)"
  by (auto simp: first_at_def filter_eq_Cons_iff split: list.splits)

lemma path_append: "path m i (xs @ a # ys) \<longleftrightarrow> path m i (xs @ [a]) \<and> path m i (a # ys)"
  by (induction m i xs rule: path.induct) auto

lemma path_cong: "path m i as \<Longrightarrow> (\<And>a. a \<in> set (butlast as) \<Longrightarrow> nx m' i a = nx m i a) \<Longrightarrow> path m' i as"
  by (induction m i as rule: path.induct) auto

lemma linkedD:
  assumes "linked m h as i" and "h # as = xs @ a # ys" and "distinct (h # as)" and "a = h \<or> i \<le> lv m a"
  shows "nx m i a = Some (first_at m i h ys)"
proof (cases xs)
  case Nil
  then show ?thesis using assms by (auto simp: linked_def first_at_def split: list.splits)
next
  case (Cons b zs)
  then have "as = zs @ a # ys" and "a \<noteq> h" using assms by auto
  then have "path m i ((h # filter (\<lambda>b. i \<le> lv m b) zs) @ a # filter (\<lambda>b. i \<le> lv m b) ys @ [h])" using assms by (simp add: linked_def)
  then have "path m i (a # filter (\<lambda>b. i \<le> lv m b) ys @ [h])" using path_append by blast
  then show ?thesis by (auto simp: first_at_def split: list.splits)
qed

subsection \<open>Searching\<close>

lemma walk_level_ok:
  assumes rep: "sk_rep m l as" and i: "1 \<le> i" "i < MAX_L" and k: "\<not> c (KEYCMP key_max k)"
    and post: "\<forall>b \<in> set post. \<not> c (KEYCMP (ky m b) k)"
  shows "header l # as = xs @ a # ys @ post \<Longrightarrow> \<forall>b \<in> set ys. c (KEYCMP (ky m b) k) \<Longrightarrow> a = header l \<or> i \<le> lv m a \<Longrightarrow> length ys < n \<Longrightarrow>
    walk_level c n m i k a = Inr (last (a # filter (\<lambda>b. i \<le> lv m b) ys))"
proof (induction n arbitrary: xs a ys)
  case (Suc n)
  let ?h = "header l" let ?P = "\<lambda>b. i \<le> lv m b"
  have mem: "sn_mem m b \<noteq> None" if "b \<in> set (?h # as)" for b using rep that by (auto simp: sk_rep_def node_ok_def)
  have "nx m i a = Some (first_at m i ?h (ys @ post))" by (rule linkedD [OF _ Suc.prems(1) _ Suc.prems(3)]) (use rep i in \<open>auto simp: sk_rep_def\<close>)
  then have nxt: "get_next m i a = Inr (first_at m i ?h (ys @ post))" using mem [of a] Suc.prems(1) by (intro get_next_nx) auto
  show ?case
  proof (cases "filter ?P ys")
    case Nil
    then have f: "first_at m i ?h (ys @ post) = first_at m i ?h post" by (simp add: first_at_def)
    have fm: "first_at m i ?h post \<in> insert ?h (set post)" by (rule first_at_mem)
    have "set post \<subseteq> set (?h # as)" unfolding Suc.prems(1) by auto
    then have "sn_mem m (first_at m i ?h post) \<noteq> None" using fm mem by auto
    moreover have "\<not> c (KEYCMP (ky m (first_at m i ?h post)) k)" using fm post k rep by (auto simp: sk_rep_def)
    ultimately show ?thesis using nxt f Nil by (auto simp: sn_def)
  next
    case (Cons b bs)
    then obtain ys1 ys2 where y: "ys = ys1 @ b # ys2" "\<forall>x \<in> set ys1. \<not> ?P x" "?P b" "bs = filter ?P ys2"
      by (auto simp: filter_eq_Cons_iff)
    have f: "first_at m i ?h (ys @ post) = b" using y by (simp add: first_at_def)
    have split: "?h # as = (xs @ a # ys1) @ b # ys2 @ post" using Suc.prems(1) y(1) by simp
    have "b \<in> set (?h # as)" unfolding split by simp
    then have "sn_mem m b \<noteq> None" by (rule mem)
    then have "walk_level c (Suc n) m i k a = walk_level c n m i k b" using nxt f Suc.prems(2) y(1) by (auto simp: sn_def)
    moreover have "walk_level c n m i k b = Inr (last (b # filter ?P ys2))" by (rule Suc.IH [OF split]) (use Suc.prems y in auto)
    ultimately show ?thesis using Cons y(4) by simp
  qed
qed simp

text \<open>The last node before the end of \<open>pre\<close> that reaches level \<open>i\<close>, or the header.\<close>

definition before :: "sk_heap \<Rightarrow> addr \<Rightarrow> addr list \<Rightarrow> nat \<Rightarrow> addr" where
  "before m h pre i = last (h # filter (\<lambda>b. i \<le> lv m b) pre)"

lemma before_split: "\<exists>xs ys. h # pre = xs @ before m h pre i # ys \<and> (before m h pre i = h \<or> i \<le> lv m (before m h pre i))"
proof (cases "filter (\<lambda>b. i \<le> lv m b) pre" rule: rev_cases)
  case Nil
  then show ?thesis unfolding before_def by (intro exI [of _ "[]"] exI [of _ pre]) simp
next
  case (snoc bs b)
  have "b \<in> set (filter (\<lambda>b. i \<le> lv m b) pre)" unfolding snoc by simp
  then have b: "b \<in> set pre" "i \<le> lv m b" by auto
  have "before m h pre i = b" using snoc by (simp add: before_def)
  then show ?thesis using b by (metis list.set_intros(2) split_list)
qed

lemma before_walk:
  assumes "h # pre = xs @ a # ys" and "a = h \<and> xs = [] \<or> i \<le> lv m a"
  shows "last (a # filter (\<lambda>b. i \<le> lv m b) ys) = before m h pre i"
  using assms by (cases xs) (auto simp: before_def)

lemma descend_ok:
  assumes rep: "sk_rep m l (pre @ post)" and k: "\<not> c (KEYCMP key_max k)"
    and pre: "\<forall>b \<in> set pre. c (KEYCMP (ky m b) k)" and post: "\<forall>b \<in> set post. \<not> c (KEYCMP (ky m b) k)" and n: "length pre < n"
  shows "i < MAX_L \<Longrightarrow> descend c n m k i (before m (header l) pre (Suc i)) upd =
    Inr (before m (header l) pre 1, \<lambda>j. if 1 \<le> j \<and> j \<le> i then Some (before m (header l) pre j) else upd j)"
proof (induction i arbitrary: upd)
  case (Suc i)
  let ?h = "header l"
  obtain xs ys where s: "?h # pre = xs @ before m ?h pre (Suc (Suc i)) # ys"
    and b: "before m ?h pre (Suc (Suc i)) = ?h \<or> Suc (Suc i) \<le> lv m (before m ?h pre (Suc (Suc i)))" using before_split by blast
  have d: "distinct (?h # pre)" using rep by (auto simp: sk_rep_def)
  then have xs: "before m ?h pre (Suc (Suc i)) = ?h \<Longrightarrow> xs = []" using s by (cases xs) auto
  have "ys = [] \<or> set ys \<subseteq> set pre" and "length ys \<le> length pre" using arg_cong [OF s, of "\<lambda>zs. set (tl zs)"] arg_cong [OF s, of length] by (cases xs; auto)+
  then have "walk_level c n m (Suc i) k (before m ?h pre (Suc (Suc i))) = Inr (last (before m ?h pre (Suc (Suc i)) # filter (\<lambda>b. Suc i \<le> lv m b) ys))"
    by (intro walk_level_ok [where c = c and k = k and xs = xs, OF rep _ _ k post]) (use s b Suc.prems pre n in auto)
  also have "last (before m ?h pre (Suc (Suc i)) # filter (\<lambda>b. Suc i \<le> lv m b) ys) = before m ?h pre (Suc i)"
    by (rule before_walk [OF s]) (use b xs in auto)
  finally have "descend c n m k (Suc i) (before m ?h pre (Suc (Suc i))) upd = descend c n m k i (before m ?h pre (Suc i)) (upd(Suc i \<mapsto> before m ?h pre (Suc i)))"
    by simp
  also have "\<dots> = Inr (before m ?h pre 1, \<lambda>j. if 1 \<le> j \<and> j \<le> i then Some (before m ?h pre j) else (upd(Suc i \<mapsto> before m ?h pre (Suc i))) j)"
    by (rule Suc.IH) (use Suc.prems in simp)
  finally show ?case by (auto simp: fun_eq_iff le_Suc_eq)
qed (auto simp: fun_eq_iff)

lemma search_ok:
  assumes rep: "sk_rep m l (pre @ post)" and k: "\<not> c (KEYCMP key_max k)"
    and pre: "\<forall>b \<in> set pre. c (KEYCMP (ky m b) k)" and post: "\<forall>b \<in> set post. \<not> c (KEYCMP (ky m b) k)"
  shows "search c k l m = Inr (last (header l # pre), \<lambda>j. if 1 \<le> j \<and> j \<le> sk_level l then Some (before m (header l) pre j) else None)"
proof -
  have n: "\<forall>b \<in> set pre. 1 \<le> lv m b \<and> lv m b \<le> sk_level l" using rep by (simp add: sk_rep_def node_ok_def)
  then have "filter (\<lambda>b. Suc (sk_level l) \<le> lv m b) pre = []" by (fastforce simp: filter_empty_conv)
  then have t: "before m (header l) pre (Suc (sk_level l)) = header l" by (simp add: before_def)
  have "filter (\<lambda>b. 1 \<le> lv m b) pre = pre" using n by (simp add: filter_id_conv)
  then have o: "before m (header l) pre 1 = last (header l # pre)" by (simp add: before_def)
  show ?thesis unfolding search_def
    using descend_ok [OF rep k pre post, of "sk_size l + 1" "sk_level l" Map.empty] rep unfolding t o by (simp add: sk_rep_def)
qed

text \<open>The place of a key: the entries with smaller keys, and the others.\<close>

abbreviation below :: "sk_heap \<Rightarrow> str_key \<Rightarrow> addr list \<Rightarrow> addr list" where
  "below m k \<equiv> takeWhile (\<lambda>a. ky m a < k)"

abbreviation rest :: "sk_heap \<Rightarrow> str_key \<Rightarrow> addr list \<Rightarrow> addr list" where
  "rest m k \<equiv> dropWhile (\<lambda>a. ky m a < k)"

lemma rest_ge:
  assumes "sorted_wrt (<) (map f as)" and "b \<in> set (dropWhile (\<lambda>a. f a < (k :: 'a :: linorder)) as)"
  shows "k \<le> f b"
  using assms by (induction as) (auto split: if_splits)

lemma first_at_1: "sk_rep m l as \<Longrightarrow> set ys \<subseteq> set as \<Longrightarrow> first_at m 1 h ys = (case ys of [] \<Rightarrow> h | b # _ \<Rightarrow> b)"
  by (cases ys) (auto simp: first_at_def sk_rep_def node_ok_def)

lemma next_of_last:
  assumes rep: "sk_rep m l (pre @ post)"
  shows "get_next m 1 (last (header l # pre)) = Inr (case post of [] \<Rightarrow> header l | b # _ \<Rightarrow> b)"
proof -
  define a where a: "a = last (header l # pre)"
  define xs where "xs = butlast (header l # pre)"
  have xs: "header l # pre = xs @ [a]" unfolding a xs_def by (rule append_butlast_last_id [symmetric]) simp
  have s: "header l # pre @ post = xs @ a # post" using arg_cong [OF xs, of "\<lambda>zs. zs @ post"] by simp
  have n: "\<forall>b \<in> set pre. 1 \<le> lv m b \<and> sn_mem m b \<noteq> None" using rep by (simp add: sk_rep_def node_ok_def)
  have d: "distinct (header l # pre @ post)" and h: "sn_mem m (header l) \<noteq> None" using rep by (simp_all add: sk_rep_def)
  have li: "linked m (header l) (pre @ post) 1" using rep by (simp add: sk_rep_def MAX_L_def)
  have am: "a = header l \<or> a \<in> set pre" using arg_cong [OF xs, of set] by auto
  have "nx m 1 a = Some (first_at m 1 (header l) post)" by (rule linkedD [OF li s d]) (use n am in blast)
  then have "get_next m 1 a = Inr (first_at m 1 (header l) post)" by (intro get_next_nx) (use n h am in blast)
  then show ?thesis unfolding a [symmetric] using first_at_1 [OF rep, of post "header l"] by simp
qed

definition spot :: "addr \<Rightarrow> addr list \<Rightarrow> addr" where
  "spot h post = (case post of [] \<Rightarrow> h | b # _ \<Rightarrow> b)"

lemma spot_mem: "sk_rep m l (pre @ post) \<Longrightarrow> sn_mem m (spot (header l) post) \<noteq> None"
  by (auto simp: spot_def sk_rep_def node_ok_def split: list.splits)

lemma search_below:
  assumes rep: "sk_rep m l as" and k: "k \<le> key_max"
  shows "search (\<lambda>r. r < 0) k l m =
    Inr (last (header l # below m k as), \<lambda>j. if 1 \<le> j \<and> j \<le> sk_level l then Some (before m (header l) (below m k as) j) else None)"
proof -
  have rep': "sk_rep m l (below m k as @ rest m k as)" using rep by simp
  have post: "\<forall>b \<in> set (rest m k as). \<not> KEYCMP (ky m b) k < 0" using rep rest_ge [of "ky m" as _ k] by (auto simp: sk_rep_def not_less)
  have pre: "\<forall>b \<in> set (below m k as). KEYCMP (ky m b) k < 0" by (auto dest: set_takeWhileD)
  show ?thesis by (rule search_ok [where c = "\<lambda>r. r < 0", OF rep' _ pre post]) (use k in simp)
qed

lemma find_place_ok:
  assumes rep: "sk_rep m l as" and k: "k \<le> key_max"
  shows "find_place k l m = Inr (spot (header l) (rest m k as), nd m (spot (header l) (rest m k as)),
     \<lambda>j. if 1 \<le> j \<and> j \<le> sk_level l then Some (before m (header l) (below m k as) j) else None)"
proof -
  have rep': "sk_rep m l (below m k as @ rest m k as)" using rep by simp
  show ?thesis using search_below [OF assms] next_of_last [OF rep'] spot_mem [OF rep'] by (auto simp: find_place_def sn_def spot_def)
qed

text \<open>The entry of a key.\<close>

definition entry_of :: "sk_heap \<Rightarrow> addr list \<Rightarrow> str_key \<Rightarrow> addr option" where
  "entry_of m as k = find (\<lambda>a. ky m a = k) as"

lemma entry_of_rest:
  assumes "sk_rep m l as"
  shows "entry_of m as k = (case rest m k as of [] \<Rightarrow> None | b # _ \<Rightarrow> if ky m b = k then Some b else None)"
proof -
  have "sorted_wrt (<) (map (ky m) as)" using assms by (simp add: sk_rep_def)
  then show ?thesis unfolding entry_of_def
  proof (induction as)
    case (Cons a as)
    have "find (\<lambda>b. ky m b = k) as = None" if "k < ky m a" using that Cons.prems by (fastforce simp: find_None_iff)
    then show ?case using Cons by (cases "ky m a" k rule: linorder_cases) auto
  qed simp
qed

lemma skiplist_find_entry:
  assumes rep: "sk_rep m l as" and k: "k < key_max"
  shows "skiplist_find (Some l) k m = Inr (entry_of m as k)"
proof (cases "as = []")
  case True
  then show ?thesis using rep by (simp add: skiplist_find_def entry_of_def sk_rep_def)
next
  case False
  have "skiplist_find (Some l) k m = bindE (find_place k l m) (\<lambda>(y, ny, _). Inr (if KEYTEST (sn_key ny) k then Some y else None))"
    using rep False by (simp add: skiplist_find_def find_place_def bindE_assoc sk_rep_def split_def cong: if_cong)
  moreover have "ky m (header l) = key_max" using rep by (simp add: sk_rep_def)
  ultimately show ?thesis using find_place_ok [OF rep, of k] entry_of_rest [OF rep, of k] k
    by (cases "rest m k as") (simp_all add: KEYTEST_eq spot_def less_imp_le)
qed

text \<open>The other searches: the first entry that is not below \<open>k\<close>, and the last one that is not above it.\<close>

lemma skiplist_find_lowerbound_ok:
  assumes rep: "sk_rep m l as" and k: "k \<le> key_max" and ne: "as \<noteq> []"
  shows "skiplist_find_lowerbound (Some l) k m = Inr (Some (spot (header l) (filter (\<lambda>a. k \<le> ky m a) as)))"
proof -
  have "sorted_wrt (<) (map (ky m) as)" and sz: "sk_size l \<noteq> 0" using rep ne by (simp_all add: sk_rep_def)
  then have f: "filter (\<lambda>a. k \<le> ky m a) as = rest m k as"
  proof (induction as)
    case (Cons a as)
    have "filter (\<lambda>b. k \<le> ky m b) as = as" if "k \<le> ky m a" using that Cons.prems by (auto simp: filter_id_conv)
    then show ?case using Cons by (auto simp: not_le)
  qed simp
  have rep': "sk_rep m l (below m k as @ rest m k as)" using rep by simp
  show ?thesis unfolding f using search_below [OF rep k] next_of_last [OF rep'] sz by (simp add: skiplist_find_lowerbound_def spot_def)
qed

lemma sorted_filter_le:
  fixes k :: "'a :: linorder"
  assumes "sorted_wrt (<) (map f as)"
  shows "filter (\<lambda>a. f a \<le> k) as = takeWhile (\<lambda>a. f a \<le> k) as" "\<forall>b \<in> set (dropWhile (\<lambda>a. f a \<le> k) as). k < f b"
  using assms
proof (induction as)
  case (Cons a as)
  { case 1
    have "filter (\<lambda>b. f b \<le> k) as = []" if "k < f a" using that 1 by (fastforce simp: filter_empty_conv)
    then show ?case using Cons.IH(1) 1 by (auto simp: not_le)
  next
    case 2
    then show ?case using Cons.IH(2) by (auto simp: not_le) }
qed simp_all

lemma skiplist_range_search_ok:
  assumes rep: "sk_rep m l as" and k: "k < key_max" and ne: "as \<noteq> []"
  defines "pre \<equiv> filter (\<lambda>a. ky m a \<le> k) as"
  shows "skiplist_range_search l k m = Inr (Some (if pre = [] then hd as else last pre)) \<and>
    skiplist_strict_range_search l k m = Inr (Some (if pre = [] then hd as else last pre))"
proof -
  have so: "sorted_wrt (<) (map (ky m) as)" and sz: "sk_size l \<noteq> 0" and h: "sn_mem m (header l) \<noteq> None" "ky m (header l) = key_max"
    and al: "\<forall>a \<in> set as. sn_mem m a \<noteq> None \<and> ky m a < key_max" using rep ne by (simp_all add: sk_rep_def node_ok_def)
  define post where "post = dropWhile (\<lambda>a. ky m a \<le> k) as"
  have as: "as = pre @ post" unfolding pre_def post_def sorted_filter_le(1) [OF so] by simp
  have rep': "sk_rep m l (pre @ post)" using rep as by simp
  have pp: "\<forall>b \<in> set pre. ky m b \<le> k" "\<forall>b \<in> set post. k < ky m b" unfolding pre_def post_def using sorted_filter_le(2) [OF so] by auto
  obtain upd where se: "search (\<lambda>r. r \<le> 0) k l m = Inr (last (header l # pre), upd)"
    using search_ok [where c = "\<lambda>r. r \<le> 0" and k = k, OF rep'] k pp by (simp add: less_eq_str_key_def [symmetric] not_le)
  have x: "k < ky m (spot (header l) post)" "sn m (spot (header l) post) = Inr (nd m (spot (header l) post))"
    using pp(2) k h spot_mem [OF rep'] by (auto simp: spot_def sn_def split: list.splits)
  note nl = next_of_last [OF rep', folded spot_def]
  show ?thesis
  proof (cases "pre = []")
    case True
    then have p: "post = as" "spot (header l) as = hd as" using as ne by (auto simp: spot_def split: list.splits)
    have "sn m (header l) = Inr (nd m (header l))" using h(1) by (auto simp: sn_def)
    then show ?thesis
      using True se nl x h(2) k sz p by (auto simp: skiplist_range_search_def skiplist_strict_range_search_def less_eq_str_key_def [symmetric] not_le)
  next
    case False
    then have "last pre \<in> set pre" by simp
    then have "ky m (last pre) \<le> k" "sn m (last pre) = Inr (nd m (last pre))" using pp(1) al as by (auto intro: sn_alloc)
    then show ?thesis
      using False se nl x sz by (simp add: skiplist_range_search_def skiplist_strict_range_search_def less_eq_str_key_def [symmetric])
  qed
qed

subsection \<open>What an update of pointers keeps\<close>

definition core :: "snode \<Rightarrow> nat \<times> str_key \<times> nat \<times> sval option \<times> bool \<times> nat" where
  "core n = (sn_ppa n, sn_key n, sn_level n, sn_value n, sn_isvalid n, length (sn_list n))"

definition frame :: "sk_heap \<Rightarrow> sk_heap \<Rightarrow> bool" where
  "frame m m' \<longleftrightarrow> sn_fresh m' = sn_fresh m \<and> (\<forall>a. map_option core (sn_mem m' a) = map_option core (sn_mem m a))"

lemma frame_refl [simp]: "frame m m"
  by (simp add: frame_def)

lemma frame_trans: "frame m m1 \<Longrightarrow> frame m1 m2 \<Longrightarrow> frame m m2"
  by (simp add: frame_def)

lemma frame_dom: "frame m m' \<Longrightarrow> sn_mem m' a = None \<longleftrightarrow> sn_mem m a = None"
  unfolding frame_def by (metis map_option_is_None)

lemma frame_core:
  assumes "frame m m'" and "sn_mem m a \<noteq> None"
  shows "core (nd m' a) = core (nd m a)"
proof -
  have "map_option core (sn_mem m' a) = map_option core (sn_mem m a)" using assms(1) by (simp add: frame_def)
  then show ?thesis using assms(2) by (cases "sn_mem m' a") auto
qed

lemma core_eqD: "core n' = core n \<Longrightarrow> sn_key n' = sn_key n \<and> sn_level n' = sn_level n \<and> length (sn_list n') = length (sn_list n)"
  by (simp add: core_def)

lemma set_next_ok:
  assumes "sn_mem m a \<noteq> None" and "i < length (sn_list (nd m a))"
  shows "\<exists>m'. set_next i a b m = Inr m' \<and> frame m m' \<and> (\<forall>j c. nx m' j c = (if j = i \<and> c = a then Some b else nx m j c))"
  using assms by (auto simp: set_next_def upd_sn_def sn_def frame_def core_def nx_def)

lemma upd_back_ok:
  assumes "sn_mem m a \<noteq> None"
  shows "\<exists>m'. upd_sn a (\<lambda>n. n\<lparr>sn_back := b\<rparr>) m = Inr m' \<and> frame m m' \<and> nx m' = nx m"
  using assms by (auto simp: upd_sn_def sn_def frame_def core_def nx_def fun_eq_iff)

lemma nx_length: "nx m i a = Some b \<Longrightarrow> i < length (sn_list (nd m a))"
  by (simp add: nx_def split: if_splits)

lemma link_level_ok:
  assumes x: "sn_mem m x \<noteq> None" "i < length (sn_list (nd m x))" and u: "upd i = Some u" "u \<noteq> x" "sn_mem m u \<noteq> None" "nx m i u = Some y"
  shows "\<exists>m'. link_level upd x i m = Inr m' \<and> frame m m' \<and>
    (\<forall>j a. nx m' j a = (if j = i then if a = x then Some y else if a = u then Some x else nx m j a else nx m j a))"
proof -
  obtain m1 where 1: "set_next i x y m = Inr m1" "frame m m1" "\<forall>j c. nx m1 j c = (if j = i \<and> c = x then Some y else nx m j c)"
    using set_next_ok [OF x] by blast
  have "nx m1 i u = Some y" using 1(3) u by simp
  then obtain m2 where 2: "set_next i u x m1 = Inr m2" "frame m1 m2" "\<forall>j c. nx m2 j c = (if j = i \<and> c = u then Some x else nx m1 j c)"
    using set_next_ok [of m1 u i x] nx_length frame_dom [OF 1(2), of u] u(3) by blast
  have "link_level upd x i m = Inr m2" using 1(1) 2(1) u get_next_nx [OF u(3,4)] by (simp add: link_level_def)
  moreover have "\<forall>j a. nx m2 j a = (if j = i then if a = x then Some y else if a = u then Some x else nx m j a else nx m j a)"
    using 1(3) 2(3) u(2) by simp
  ultimately show ?thesis using frame_trans [OF 1(2) 2(2)] by blast
qed

lemma link_levels_ok:
  assumes x: "sn_mem m x \<noteq> None" "n < length (sn_list (nd m x))"
    and u: "\<And>i. 1 \<le> i \<Longrightarrow> i \<le> n \<Longrightarrow> upd i = Some (u i) \<and> u i \<noteq> x \<and> sn_mem m (u i) \<noteq> None \<and> nx m i (u i) \<noteq> None"
  shows "\<exists>m'. foldE (link_level upd x) [1..<Suc n] m = Inr m' \<and> frame m m' \<and>
    (\<forall>j a. nx m' j a = (if 1 \<le> j \<and> j \<le> n then if a = x then nx m j (u j) else if a = u j then Some x else nx m j a else nx m j a))"
  using assms
proof (induction n)
  case (Suc n)
  obtain m1 where 1: "foldE (link_level upd x) [1..<Suc n] m = Inr m1" "frame m m1"
    "\<forall>j a. nx m1 j a = (if 1 \<le> j \<and> j \<le> n then if a = x then nx m j (u j) else if a = u j then Some x else nx m j a else nx m j a)"
    using Suc by (auto simp: le_Suc_eq)
  obtain y where y: "nx m (Suc n) (u (Suc n)) = Some y" using Suc.prems(3) [of "Suc n"] by auto
  have l: "length (sn_list (nd m1 x)) = length (sn_list (nd m x))" using core_eqD [OF frame_core [OF 1(2) Suc.prems(1)]] by simp
  have ux: "upd (Suc n) = Some (u (Suc n))" "u (Suc n) \<noteq> x" "sn_mem m (u (Suc n)) \<noteq> None" using Suc.prems(3) [of "Suc n"] by auto
  have d: "sn_mem m1 x \<noteq> None" "sn_mem m1 (u (Suc n)) \<noteq> None" using frame_dom [OF 1(2)] Suc.prems(1) ux(3) by simp_all
  have ny: "nx m1 (Suc n) (u (Suc n)) = Some y" using 1(3) y by simp
  obtain m2 where 2: "link_level upd x (Suc n) m1 = Inr m2" "frame m1 m2"
    "\<forall>j a. nx m2 j a = (if j = Suc n then if a = x then Some y else if a = u (Suc n) then Some x else nx m1 j a else nx m1 j a)"
    using link_level_ok [of m1 x "Suc n" upd, OF d(1) _ ux(1,2) d(2) ny] Suc.prems(2) l by auto
  have "foldE (link_level upd x) [1..<Suc (Suc n)] m = Inr m2" using 1(1) 2(1) by (simp add: foldE_append del: upt_Suc add: upt_Suc_append)
  moreover have "nx m2 j a = (if 1 \<le> j \<and> j \<le> Suc n then if a = x then nx m j (u j) else if a = u j then Some x else nx m j a else nx m j a)" for j a
  proof (cases "j = Suc n")
    case True
    then show ?thesis using 2(3) [rule_format, of "Suc n" a] 1(3) [rule_format, of "Suc n" a] y by simp
  next
    case False
    then show ?thesis using 2(3) [rule_format, of j a] 1(3) [rule_format, of j a] by (simp add: le_Suc_eq)
  qed
  ultimately show ?case using frame_trans [OF 1(2) 2(2)] by blast
qed simp

subsection \<open>Insertion\<close>

lemma level_loop_range: "level + 1 < MAX_L \<Longrightarrow> level \<le> fst (level_loop rnd pos level) \<and> fst (level_loop rnd pos level) < MAX_L"
proof (induction rnd pos level rule: level_loop.induct)
  case (1 rnd pos level)
  show ?case
  proof (cases "rnd pos mod PROB = 1 \<and> \<not> level + 1 + 1 \<ge> MAX_L")
    case True
    then show ?thesis using 1 level_loop.simps [of rnd pos level] by auto
  next
    case False
    then show ?thesis using "1.prems" level_loop.simps [of rnd pos level] by (auto split: if_splits)
  qed
qed

lemma getLevel_range: "1 \<le> fst (getLevel rnd pos)" "fst (getLevel rnd pos) < MAX_L"
  using level_loop_range [of 1 rnd pos] by (auto simp: getLevel_def MAX_L_def)

lemma path_insert:
  assumes p: "path m i (h # L1 @ L2 @ [h])" and d: "distinct (h # L1 @ L2)" and x: "x \<notin> set (h # L1 @ L2)" and u: "u = last (h # L1)"
    and n: "\<And>a. nx m' i a = (if a = x then nx m i u else if a = u then Some x else nx m i a)"
  shows "path m' i (h # L1 @ x # L2 @ [h])"
proof -
  define B where "B = butlast (h # L1)"
  have B: "h # L1 = B @ [u]" unfolding u B_def by (rule append_butlast_last_id [symmetric]) simp
  have e: "h # L1 @ zs = B @ u # zs" for zs using arg_cong [OF B, of "\<lambda>ys. ys @ zs"] by simp
  have d': "distinct (B @ u # L2)" and x': "x \<notin> set (B @ u # L2)" using d x unfolding e by simp_all
  have 1: "path m i (B @ [u])" and 2: "path m i (u # L2 @ [h])" using p unfolding e using path_append [of m i B u] by blast+
  have "path m' i (B @ [u])" by (rule path_cong [OF 1]) (use d' x' n in auto)
  moreover have "path m' i (x # L2 @ [h])"
  proof (cases L2)
    case Nil
    then show ?thesis using 2 n [of x] by simp
  next
    case (Cons b bs)
    have "path m i (L2 @ [h])" using 2 Cons by simp
    then have "path m' i (L2 @ [h])" by (rule path_cong) (use d' x' n in auto)
    then show ?thesis using 2 Cons n [of x] by simp
  qed
  ultimately show ?thesis unfolding e using path_append [of m' i B u "x # L2 @ [h]"] n [of u] x' by auto
qed

text \<open>The store \<open>m'\<close> is \<open>m\<close> with a new node \<open>x\<close> behind \<open>pre\<close>.\<close>

definition with_node :: "sk_heap \<Rightarrow> addr \<Rightarrow> addr list \<Rightarrow> nat \<Rightarrow> str_key \<Rightarrow> sk_heap \<Rightarrow> bool" where
  "with_node m h pre lev k m' \<longleftrightarrow> sn_fresh m' = sn_fresh m + 1 \<and>
     (\<forall>a. sn_mem m' a \<noteq> None \<longleftrightarrow> a = sn_fresh m \<or> sn_mem m a \<noteq> None) \<and>
     (\<forall>a. sn_mem m a \<noteq> None \<longrightarrow> core (nd m' a) = core (nd m a)) \<and>
     ky m' (sn_fresh m) = k \<and> lv m' (sn_fresh m) = lev \<and> length (sn_list (nd m' (sn_fresh m))) = Suc lev \<and>
     (\<forall>i a. 1 \<le> i \<and> i \<le> lev \<longrightarrow> nx m' i a =
        (if a = sn_fresh m then nx m i (before m h pre i) else if a = before m h pre i then Some (sn_fresh m) else nx m i a)) \<and>
     (\<forall>i a. lev < i \<and> a \<noteq> sn_fresh m \<longrightarrow> nx m' i a = nx m i a)"

lemma with_node_old:
  assumes "with_node m h pre lev k m'" and "sn_mem m a \<noteq> None"
  shows "ky m' a = ky m a" "lv m' a = lv m a" "length (sn_list (nd m' a)) = length (sn_list (nd m a))" "sn_mem m' a \<noteq> None"
proof -
  have "core (nd m' a) = core (nd m a)" using assms by (simp add: with_node_def)
  then show "ky m' a = ky m a" "lv m' a = lv m a" "length (sn_list (nd m' a)) = length (sn_list (nd m a))" by (simp_all add: core_def)
  show "sn_mem m' a \<noteq> None" using assms by (simp add: with_node_def)
qed

lemma linked_insert:
  assumes rep: "sk_rep m l (pre @ post)" and w: "with_node m (header l) pre lev k m'" and i: "1 \<le> i" "i < MAX_L"
  shows "linked m' (header l) (pre @ sn_fresh m # post) i"
proof -
  let ?h = "header l" let ?x = "sn_fresh m" let ?F = "filter (\<lambda>b. i \<le> lv m b)"
  have al: "\<forall>a \<in> set (?h # pre @ post). sn_mem m a \<noteq> None" using rep by (simp add: sk_rep_def node_ok_def ball_Un)
  have lt: "\<forall>a. sn_mem m a \<noteq> None \<longrightarrow> a < ?x" using rep unfolding sk_rep_def by blast
  then have ne: "?x \<notin> set (?h # pre @ post)" using al by blast
  have lvs: "\<forall>a \<in> set (?h # pre @ post). lv m' a = lv m a" using with_node_old(2) [OF w] al by blast
  then have F: "filter (\<lambda>b. i \<le> lv m' b) pre = ?F pre" "filter (\<lambda>b. i \<le> lv m' b) post = ?F post" by (auto intro: filter_cong)
  have p: "path m i (?h # ?F pre @ ?F post @ [?h])" using rep i by (simp add: sk_rep_def linked_def)
  have d: "distinct (?h # ?F pre @ ?F post)" using rep by (auto simp: sk_rep_def)
  show ?thesis
  proof (cases "i \<le> lev")
    case True
    have "path m' i (?h # ?F pre @ ?x # ?F post @ [?h])"
      by (rule path_insert [OF p d, where u = "before m ?h pre i"]) (use ne w i True in \<open>auto simp: before_def with_node_def\<close>)
    then show ?thesis using True w F by (simp add: linked_def with_node_def)
  next
    case False
    then have k: "nx m' i a = nx m i a" if "a \<noteq> ?x" for a using w that by (simp add: with_node_def)
    have "path m' i (?h # ?F pre @ ?F post @ [?h])"
      by (rule path_cong [OF p], rule k) (use ne in \<open>auto dest: in_set_butlastD\<close>)
    then show ?thesis using False w F by (simp add: linked_def with_node_def)
  qed
qed

lemma sk_rep_insert:
  assumes rep: "sk_rep m l (pre @ post)" and w: "with_node m (header l) pre lev k m'"
    and lev: "1 \<le> lev" "lev < MAX_L" and k: "\<forall>a \<in> set pre. ky m a < k" "\<forall>a \<in> set post. k < ky m a" "k < key_max"
    and l': "header l' = header l" "sk_level l' = max lev (sk_level l)" "sk_size l' = sk_size l + 1"
  shows "sk_rep m' l' (pre @ sn_fresh m # post)"
proof -
  let ?h = "header l" let ?x = "sn_fresh m"
  have al: "\<forall>a \<in> set (?h # pre @ post). sn_mem m a \<noteq> None" using rep by (simp add: sk_rep_def node_ok_def ball_Un)
  have lt: "\<forall>a. sn_mem m a \<noteq> None \<longrightarrow> a < ?x" using rep unfolding sk_rep_def by blast
  then have ne: "?x \<notin> set (?h # pre @ post)" using al by blast
  have c: "ky m' a = ky m a \<and> lv m' a = lv m a \<and> length (sn_list (nd m' a)) = length (sn_list (nd m a)) \<and> sn_mem m' a \<noteq> None"
    if "a \<in> set (?h # pre @ post)" for a using with_node_old [OF w, of a] al that by blast
  have x: "ky m' ?x = k" "lv m' ?x = lev" "length (sn_list (nd m' ?x)) = Suc lev" "sn_mem m' ?x \<noteq> None" using w by (simp_all add: with_node_def)
  have 1: "node_ok m' l' a" if "a \<in> set (pre @ ?x # post)" for a
  proof (cases "a = ?x")
    case True
    then show ?thesis using x lev k(3) l'(2) by (simp add: node_ok_def)
  next
    case False
    then have a: "a \<in> set (pre @ post)" using that by auto
    then have "node_ok m l a" using rep by (simp add: sk_rep_def)
    then show ?thesis using c [of a] a l'(2) by (auto simp: node_ok_def)
  qed
  have 2: "\<forall>a. sn_mem m' a \<noteq> None \<longrightarrow> a < sn_fresh m'" using w lt by (auto simp: with_node_def less_Suc_eq)
  have so: "sorted_wrt (<) (map (ky m) (pre @ post))" using rep unfolding sk_rep_def by blast
  have e: "map (ky m') pre = map (ky m) pre" "map (ky m') post = map (ky m) post" using c by auto
  have 3: "sorted_wrt (<) (map (ky m') (pre @ ?x # post))" unfolding map_append list.map e x(1)
    using so k by (auto simp: sorted_wrt_append)
  have 4: "\<exists>a \<in> set (pre @ ?x # post). lv m' a = sk_level l'"
  proof (cases "lev < sk_level l")
    case True
    then obtain a where "a \<in> set (pre @ post)" "lv m a = sk_level l" using rep lev by (auto simp: sk_rep_def split: if_splits)
    then show ?thesis using c [of a] True l'(2) by auto
  next
    case False
    then show ?thesis using x(2) l'(2) by auto
  qed
  have r: "distinct (?h # pre @ post)" "ky m ?h = key_max" "length (sn_list (nd m ?h)) = Suc MAX_L" "sk_level l < MAX_L" "sk_size l = length (pre @ post)"
    using rep by (simp_all add: sk_rep_def)
  have d: "distinct (?h # pre @ ?x # post)" using r(1) ne by auto
  show ?thesis unfolding sk_rep_def l'(1)
    using 1 2 3 4 d r(2-5) c [of ?h] lev linked_insert [OF rep w] l'(2,3) by simp
qed

lemma before_ok:
  assumes rep: "sk_rep m l (pre @ post)" and i: "1 \<le> i" "i < MAX_L"
  shows "sn_mem m (before m (header l) pre i) \<noteq> None" "nx m i (before m (header l) pre i) \<noteq> None"
    and "sn_mem m (the (nx m i (before m (header l) pre i))) \<noteq> None"
    and "sk_level l < i \<Longrightarrow> before m (header l) pre i = header l"
proof -
  let ?b = "before m (header l) pre i"
  obtain xs ys where s: "header l # pre = xs @ ?b # ys" and b: "?b = header l \<or> i \<le> lv m ?b" using before_split by blast
  have n: "\<forall>a \<in> set (header l # pre). sn_mem m a \<noteq> None" using rep by (simp add: sk_rep_def node_ok_def ball_Un)
  have "?b \<in> set (header l # pre)" unfolding s by simp
  then show "sn_mem m ?b \<noteq> None" using n by blast
  have s': "header l # pre @ post = xs @ ?b # ys @ post" using arg_cong [OF s, of "\<lambda>zs. zs @ post"] by simp
  have "linked m (header l) (pre @ post) i" "distinct (header l # pre @ post)" using rep i by (simp_all add: sk_rep_def)
  then have f: "nx m i ?b = Some (first_at m i (header l) (ys @ post))" using linkedD [OF _ s' _ b] by simp
  then show "nx m i ?b \<noteq> None" by simp
  have "\<forall>a \<in> set (header l # pre @ post). sn_mem m a \<noteq> None" using rep by (simp add: sk_rep_def node_ok_def ball_Un)
  moreover have "set (ys @ post) \<subseteq> set (header l # pre @ post)" unfolding s' by auto
  ultimately show "sn_mem m (the (nx m i ?b)) \<noteq> None" using first_at_mem [of m i "header l" "ys @ post"] f by auto
  show "?b = header l" if "sk_level l < i"
  proof -
    have "\<forall>a \<in> set pre. lv m a \<le> sk_level l" using rep by (simp add: sk_rep_def node_ok_def)
    then have "filter (\<lambda>b. i \<le> lv m b) pre = []" using that by (fastforce simp: filter_empty_conv)
    then show ?thesis by (simp add: before_def)
  qed
qed

lemma with_node_alloc:
  assumes new: "sn_mem m (sn_fresh m) = None" and f: "frame m1 m'"
    and m1: "m1 = m\<lparr>sn_mem := (sn_mem m)(sn_fresh m \<mapsto> n), sn_fresh := sn_fresh m + 1, rand_pos := pos\<rparr>"
    and n: "sn_key n = k" "sn_level n = lev" "length (sn_list n) = Suc lev"
    and b: "\<And>i. 1 \<le> i \<Longrightarrow> i \<le> lev \<Longrightarrow> before m h pre i \<noteq> sn_fresh m"
    and nx': "\<forall>j a. nx m' j a = (if 1 \<le> j \<and> j \<le> lev then if a = sn_fresh m then nx m1 j (before m h pre j)
                else if a = before m h pre j then Some (sn_fresh m) else nx m1 j a else nx m1 j a)"
  shows "with_node m h pre lev k m'" "core (nd m' (sn_fresh m)) = core n"
proof -
  have nx1: "nx m1 i a = nx m i a" if "a \<noteq> sn_fresh m" for i a using that by (simp add: m1 nx_def)
  show c: "core (nd m' (sn_fresh m)) = core n" using frame_core [OF f, of "sn_fresh m"] by (simp add: m1)
  have old: "core (nd m' a) = core (nd m a)" if "sn_mem m a \<noteq> None" for a using frame_core [OF f, of a] that new by (auto simp: m1 split: if_splits)
  have dm: "sn_mem m' a \<noteq> None \<longleftrightarrow> a = sn_fresh m \<or> sn_mem m a \<noteq> None" for a using frame_dom [OF f, of a] by (auto simp: m1)
  have fr: "sn_fresh m' = sn_fresh m + 1" using f by (simp add: frame_def m1)
  have "nx m' i a = (if a = sn_fresh m then nx m i (before m h pre i) else if a = before m h pre i then Some (sn_fresh m) else nx m i a)"
    if "1 \<le> i \<and> i \<le> lev" for i a using nx' [rule_format, of i a] nx1 b [of i] that by simp
  moreover have "nx m' i a = nx m i a" if "lev < i \<and> a \<noteq> sn_fresh m" for i a using nx' [rule_format, of i a] nx1 that by simp
  ultimately show "with_node m h pre lev k m'" unfolding with_node_def using core_eqD [OF c] n old dm fr by simp
qed

lemma insert_new_ok:
  assumes rep: "sk_rep m l (pre @ post)" and k: "\<forall>a \<in> set pre. ky m a < k" "\<forall>a \<in> set post. k < ky m a" "k < key_max"
    and upd: "upd = (\<lambda>j. if 1 \<le> j \<and> j \<le> sk_level l then Some (before m (header l) pre j) else None)"
  shows "\<exists>l' m'. insert_new rnd k ppa v valid upd l m = Inr (sn_fresh m, l', m') \<and> sk_rep m' l' (pre @ sn_fresh m # post) \<and>
    header l' = header l \<and> (\<forall>a \<in> set (pre @ post). core (nd m' a) = core (nd m a)) \<and>
    (\<exists>lev. core (nd m' (sn_fresh m)) = (ppa, k, lev, v, valid, Suc lev))"
proof -
  let ?h = "header l" let ?x = "sn_fresh m"
  obtain lev pos where g: "getLevel rnd (rand_pos m) = (lev, pos)" by fastforce
  then have lev: "1 \<le> lev" "lev < MAX_L" using getLevel_range [of rnd "rand_pos m"] by auto
  obtain upd1 l1 where rl: "raise_level lev upd l = (upd1, l1)" by fastforce
  have l1: "header l1 = ?h" "sk_level l1 = max lev (sk_level l)" "sk_size l1 = sk_size l" using rl by (auto simp: raise_level_def split: if_splits)
  define n where "n = \<lparr>sn_ppa = ppa, sn_key = k, sn_level = lev, sn_value = v, sn_isvalid = valid, sn_list = replicate (lev + 1) None, sn_back = ?x\<rparr>"
  define m1 where "m1 = m\<lparr>sn_mem := (sn_mem m)(?x \<mapsto> n), sn_fresh := ?x + 1, rand_pos := pos\<rparr>"
  have al: "\<forall>a \<in> set (?h # pre @ post). sn_mem m a \<noteq> None" using rep by (simp add: sk_rep_def node_ok_def ball_Un)
  have lt: "\<forall>a. sn_mem m a \<noteq> None \<longrightarrow> a < ?x" using rep unfolding sk_rep_def by blast
  have nx1: "nx m1 i a = nx m i a" if "a \<noteq> ?x" for i a using that by (simp add: m1_def nx_def)
  have u: "upd1 i = Some (before m ?h pre i) \<and> before m ?h pre i \<noteq> ?x \<and> sn_mem m1 (before m ?h pre i) \<noteq> None \<and> nx m1 i (before m ?h pre i) \<noteq> None"
    if i: "1 \<le> i" "i \<le> lev" for i
  proof -
    have b: "sn_mem m (before m ?h pre i) \<noteq> None" "nx m i (before m ?h pre i) \<noteq> None" using before_ok [OF rep, of i] i lev by simp_all
    then have "before m ?h pre i \<noteq> ?x" using lt [rule_format, OF b(1)] by simp
    moreover have "upd1 i = Some (before m ?h pre i)" using rl i upd before_ok(4) [OF rep, of i] lev by (auto simp: raise_level_def split: if_splits)
    ultimately show ?thesis using b nx1 by (simp add: m1_def)
  qed
  have "sn_mem m1 ?x \<noteq> None" "lev < length (sn_list (nd m1 ?x))" by (simp_all add: m1_def n_def)
  then obtain m2 where 2: "foldE (link_level upd1 ?x) [1..<Suc lev] m1 = Inr m2" "frame m1 m2"
    "\<forall>j a. nx m2 j a = (if 1 \<le> j \<and> j \<le> lev then if a = ?x then nx m1 j (before m ?h pre j) else if a = before m ?h pre j then Some ?x else nx m1 j a else nx m1 j a)"
    using link_levels_ok [of m1 ?x lev upd1 "before m ?h pre"] u by blast
  have "nx m2 1 ?x = nx m1 1 (before m ?h pre 1)" using 2(3) lev by simp
  then obtain y where y: "nx m2 1 ?x = Some y" "nx m 1 (before m ?h pre 1) = Some y" using u [of 1] lev nx1 by auto
  have "sn_mem m y \<noteq> None" using before_ok(3) [OF rep, of 1] y(2) by (simp add: MAX_L_def)
  then have d2: "sn_mem m2 ?x \<noteq> None" "sn_mem m2 y \<noteq> None" using frame_dom [OF 2(2)] by (simp_all add: m1_def)
  obtain m3 where 3: "upd_sn ?x (\<lambda>n. n\<lparr>sn_back := sn_back (nd m2 y)\<rparr>) m2 = Inr m3" "frame m2 m3" "nx m3 = nx m2" using upd_back_ok [OF d2(1)] by blast
  obtain m4 where 4: "upd_sn y (\<lambda>n. n\<lparr>sn_back := ?x\<rparr>) m3 = Inr m4" "frame m3 m4" "nx m4 = nx m3"
    using upd_back_ok [of m3 y] frame_dom [OF 3(2), of y] d2(2) by blast
  have sny: "sn m2 y = Inr (nd m2 y)" using d2(2) by (auto simp: sn_def)
  let ?l' = "l1\<lparr>sk_size := sk_size l1 + 1\<rparr>"
  have run: "insert_new rnd k ppa v valid upd l m = Inr (?x, ?l', m4)"
    using g rl 2(1) 3(1) 4(1) get_next_nx [OF d2(1) y(1)] sny by (simp add: insert_new_def m1_def n_def del: upt_Suc)
  have fresh: "sn_mem m ?x = None" using lt by blast
  have nf: "sn_key n = k" "sn_level n = lev" "length (sn_list n) = Suc lev" by (simp_all add: n_def)
  have b: "before m ?h pre i \<noteq> ?x" if "1 \<le> i" "i \<le> lev" for i using u [OF that] by blast
  note wn = with_node_alloc [OF fresh frame_trans [OF 2(2) frame_trans [OF 3(2) 4(2)]] m1_def nf b 2(3) [folded 3(3), folded 4(3)]]
  have w: "with_node m ?h pre lev k m4" and c: "core (nd m4 ?x) = core n" by (rule wn; assumption)+
  have "sk_rep m4 ?l' (pre @ ?x # post)" by (rule sk_rep_insert [OF rep w lev k]) (use l1 in simp_all)
  moreover have "\<forall>a \<in> set (pre @ post). core (nd m4 a) = core (nd m a)" using w al by (simp add: with_node_def)
  ultimately show ?thesis using run c l1(1) by (simp add: n_def core_def)
qed

subsection \<open>Removal\<close>

lemma path_remove:
  assumes p: "path m i (h # L1 @ x # L2 @ [h])" and d: "distinct (h # L1 @ x # L2)" and u: "u = last (h # L1)"
    and n: "\<And>a. a \<noteq> x \<Longrightarrow> nx m' i a = (if a = u then nx m i x else nx m i a)"
  shows "path m' i (h # L1 @ L2 @ [h])"
proof -
  define B where "B = butlast (h # L1)"
  have B: "h # L1 = B @ [u]" unfolding u B_def by (rule append_butlast_last_id [symmetric]) simp
  have e: "h # L1 @ zs = B @ u # zs" for zs using arg_cong [OF B, of "\<lambda>ys. ys @ zs"] by simp
  have d': "distinct (B @ u # x # L2)" using d unfolding e by simp
  have 1: "path m i (B @ [u])" and 2: "path m i (u # x # L2 @ [h])" using p unfolding e using path_append [of m i B u] by blast+
  have k: "nx m' i a = nx m i a" if "a \<noteq> x" "a \<noteq> u" for a using n [OF that(1)] that(2) by simp
  have "path m' i (B @ [u])" by (rule path_cong [OF 1], rule k) (use d' in auto)
  moreover have "path m' i (u # L2 @ [h])"
  proof (cases L2)
    case Nil
    then show ?thesis using 2 n [of u] d' by simp
  next
    case (Cons b bs)
    have "path m i (L2 @ [h])" using 2 Cons by simp
    then have "path m' i (L2 @ [h])" by (rule path_cong, intro k) (use d' in auto)
    then show ?thesis using 2 Cons n [of u] d' by simp
  qed
  ultimately show ?thesis unfolding e using path_append [of m' i B u] by blast
qed

text \<open>The store \<open>m'\<close> is \<open>m\<close> with the node \<open>x\<close> behind \<open>pre\<close> unlinked.\<close>

definition without_node :: "sk_heap \<Rightarrow> addr \<Rightarrow> addr list \<Rightarrow> addr \<Rightarrow> sk_heap \<Rightarrow> bool" where
  "without_node m h pre x m' \<longleftrightarrow> sn_fresh m' = sn_fresh m \<and> (\<forall>a. sn_mem m' a \<noteq> None \<longrightarrow> sn_mem m a \<noteq> None) \<and>
     (\<forall>a. a \<noteq> x \<and> sn_mem m a \<noteq> None \<longrightarrow> sn_mem m' a \<noteq> None \<and> core (nd m' a) = core (nd m a)) \<and>
     (\<forall>i a. a \<noteq> x \<and> 1 \<le> i \<longrightarrow> nx m' i a = (if i \<le> lv m x \<and> a = before m h pre i then nx m i x else nx m i a))"

lemma without_node_core: "without_node m h pre x m' \<Longrightarrow> a \<noteq> x \<Longrightarrow> sn_mem m a \<noteq> None \<Longrightarrow> core (nd m' a) = core (nd m a)"
  by (simp add: without_node_def del: not_None_eq)

lemma without_node_unlink:
  assumes f: "frame m m1" and nx1: "\<forall>j a. nx m1 j a = (if 1 \<le> j \<and> j \<le> lv m x \<and> a = before m h pre j then nx m j x else nx m j a)"
    and m': "\<And>a. a \<noteq> x \<Longrightarrow> sn_mem m' a = sn_mem m1 a" "sn_mem m' x \<noteq> None \<Longrightarrow> sn_mem m1 x \<noteq> None" "sn_fresh m' = sn_fresh m1"
  shows "without_node m h pre x m'"
proof -
  have "sn_mem m a \<noteq> None" if "sn_mem m' a \<noteq> None" for a using that m'(1) [of a] m'(2) frame_dom [OF f, of a] by (cases "a = x") (simp_all del: not_None_eq)
  moreover have "sn_mem m' a \<noteq> None \<and> core (nd m' a) = core (nd m a)" if "a \<noteq> x \<and> sn_mem m a \<noteq> None" for a
    using that m'(1) [of a] frame_dom [OF f, of a] frame_core [OF f, of a] by simp
  moreover have "nx m' i a = (if i \<le> lv m x \<and> a = before m h pre i then nx m i x else nx m i a)" if "a \<noteq> x \<and> 1 \<le> i" for i a
  proof -
    have "nx m' i a = nx m1 i a" using that m'(1) [of a] by (simp add: nx_def)
    then show ?thesis using nx1 [rule_format, of i a] that by simp
  qed
  ultimately show ?thesis using m'(3) f by (simp add: without_node_def frame_def)
qed

text \<open>The highest level of the nodes.\<close>

definition top_level :: "sk_heap \<Rightarrow> addr list \<Rightarrow> nat" where
  "top_level m as = Max (insert 0 (lv m ` set as))"

lemma top_level_less: "top_level m as < i \<longleftrightarrow> 0 < i \<and> (\<forall>a \<in> set as. lv m a < i)"
  by (simp add: top_level_def)

lemma top_level_ge: "a \<in> set as \<Longrightarrow> lv m a \<le> top_level m as"
  by (simp add: top_level_def)

lemma top_level_mem: "as \<noteq> [] \<Longrightarrow> \<exists>a \<in> set as. lv m a = top_level m as"
proof -
  assume "as \<noteq> []"
  then have "Max (lv m ` set as) \<in> lv m ` set as" by (intro Max_in) auto
  moreover have "top_level m as = Max (lv m ` set as)" using \<open>as \<noteq> []\<close> by (simp add: top_level_def)
  ultimately show ?thesis by auto
qed

lemma linked_remove:
  assumes rep: "sk_rep m l (pre @ x # post)" and w: "without_node m (header l) pre x m'" and i: "1 \<le> i" "i < MAX_L"
  shows "linked m' (header l) (pre @ post) i"
proof -
  let ?h = "header l" let ?F = "filter (\<lambda>b. i \<le> lv m b)"
  have al: "\<forall>a \<in> set (?h # pre @ post). sn_mem m a \<noteq> None" using rep by (simp add: sk_rep_def node_ok_def ball_Un)
  have dd: "distinct (?h # pre @ x # post)" using rep by (simp add: sk_rep_def)
  then have ne: "x \<notin> set (?h # pre @ post)" by auto
  have lvs: "lv m' a = lv m a" if "a \<in> set (?h # pre @ post)" for a
  proof -
    have "a \<noteq> x" "sn_mem m a \<noteq> None" using al ne that by blast+
    then have "core (nd m' a) = core (nd m a)" using w by (simp add: without_node_def)
    then show ?thesis by (simp add: core_def)
  qed
  then have F: "filter (\<lambda>b. i \<le> lv m' b) (pre @ post) = ?F (pre @ post)" by (intro filter_cong) auto
  have p: "path m i (?h # ?F (pre @ x # post) @ [?h])" using rep i by (simp add: sk_rep_def linked_def)
  have n: "nx m' i a = (if i \<le> lv m x \<and> a = before m ?h pre i then nx m i x else nx m i a)" if "a \<noteq> x" for a
    using w that i by (simp add: without_node_def)
  show ?thesis
  proof (cases "i \<le> lv m x")
    case True
    have "path m' i (?h # ?F pre @ ?F post @ [?h])"
      by (rule path_remove [where x = x and u = "before m ?h pre i"]) (use p dd n True in \<open>auto simp: before_def\<close>)
    then show ?thesis unfolding linked_def F by simp
  next
    case False
    then have k: "nx m' i a = nx m i a" if "a \<noteq> x" for a using n [OF that] by simp
    have p': "path m i (?h # ?F pre @ ?F post @ [?h])" using p False by simp
    have "path m' i (?h # ?F pre @ ?F post @ [?h])"
      by (rule path_cong [OF p'], rule k) (use ne in \<open>auto dest: in_set_butlastD\<close>)
    then show ?thesis unfolding linked_def F by simp
  qed
qed

lemma sk_rep_remove:
  assumes rep: "sk_rep m l (pre @ x # post)" and w: "without_node m (header l) pre x m'"
    and l': "header l' = header l" "sk_size l' = sk_size l - 1"
    and lev: "sk_level l' = top_level m (pre @ post) \<or> sk_level l' = max 1 (top_level m (pre @ post))"
  shows "sk_rep m' l' (pre @ post)"
proof -
  let ?h = "header l"
  have al: "\<forall>a \<in> set (?h # pre @ post). sn_mem m a \<noteq> None" using rep by (simp add: sk_rep_def node_ok_def ball_Un)
  have r: "distinct (?h # pre @ x # post)" "ky m ?h = key_max" "length (sn_list (nd m ?h)) = Suc MAX_L" "sk_level l < MAX_L"
    "sk_size l = length (pre @ x # post)" "sorted_wrt (<) (map (ky m) (pre @ x # post))" using rep by (simp_all add: sk_rep_def)
  have c: "ky m' a = ky m a \<and> lv m' a = lv m a \<and> length (sn_list (nd m' a)) = length (sn_list (nd m a)) \<and> sn_mem m' a \<noteq> None"
    if "a \<in> set (?h # pre @ post)" for a
  proof -
    have "a \<noteq> x" "sn_mem m a \<noteq> None" using al r(1) that by auto
    then have "sn_mem m' a \<noteq> None \<and> core (nd m' a) = core (nd m a)" using w by (simp add: without_node_def)
    then show ?thesis by (simp add: core_def)
  qed
  have old: "node_ok m l a" if "a \<in> set (pre @ post)" for a using rep that by (auto simp: sk_rep_def)
  then have top: "top_level m (pre @ post) < MAX_L" by (auto simp: top_level_less node_ok_def MAX_L_def)
  have lvl: "lv m a \<le> sk_level l'" if "a \<in> set (pre @ post)" for a
    using top_level_less [of m "pre @ post" "lv m a"] that lev by (auto simp: not_less [symmetric])
  have 1: "node_ok m' l' a" if "a \<in> set (pre @ post)" for a using c [of a] old [OF that] lvl [OF that] that by (auto simp: node_ok_def)
  have 2: "\<forall>a. sn_mem m' a \<noteq> None \<longrightarrow> a < sn_fresh m'" using w rep by (simp add: without_node_def sk_rep_def)
  have "map (ky m') (pre @ post) = map (ky m) (pre @ post)" using c by auto
  moreover have "sorted_wrt (<) (map (ky m) (pre @ post))" using r(6) by (simp add: sorted_wrt_append)
  ultimately have 3: "sorted_wrt (<) (map (ky m') (pre @ post))" by (simp only:)
  have 4: "if pre @ post = [] then sk_level l' \<le> 1 else \<exists>a \<in> set (pre @ post). lv m' a = sk_level l'"
  proof (cases "pre @ post = []")
    case True
    then show ?thesis using lev by (auto simp: top_level_def)
  next
    case False
    then obtain a where a: "a \<in> set (pre @ post)" "lv m a = top_level m (pre @ post)" using top_level_mem by blast
    then have "lv m a = sk_level l'" using lev old [OF a(1)] by (auto simp: node_ok_def)
    then show ?thesis using a(1) c [of a] False by auto
  qed
  have d: "distinct (?h # pre @ post)" using r(1) by auto
  have "sk_level l' < MAX_L" using lev top by (auto simp: MAX_L_def)
  then show ?thesis unfolding sk_rep_def l'(1) using 1 2 3 4 d r(2-5) c [of ?h] linked_remove [OF rep w] l'(2) by simp
qed

lemma unlink_levels_ok:
  assumes "sn_mem m x \<noteq> None"
    and "\<And>i. 1 \<le> i \<Longrightarrow> i \<le> n \<Longrightarrow> upd i = Some (u i) \<and> u i \<noteq> x \<and> sn_mem m (u i) \<noteq> None \<and> i < length (sn_list (nd m (u i))) \<and>
           nx m i x \<noteq> None \<and> (nx m i x = Some (u i) \<longleftrightarrow> M < i)"
  shows "\<exists>m'. foldE (unlink_level upd x) (rev [1..<Suc n]) (l, m) = Inr (l\<lparr>sk_level := sk_level l - (n - M)\<rparr>, m') \<and> frame m m' \<and>
    (\<forall>j a. nx m' j a = (if 1 \<le> j \<and> j \<le> n \<and> a = u j then nx m j x else nx m j a))"
  using assms
proof (induction n arbitrary: l m)
  case 0
  then show ?case by auto
next
  case (Suc n)
  have u: "upd (Suc n) = Some (u (Suc n))" "u (Suc n) \<noteq> x" "sn_mem m (u (Suc n)) \<noteq> None" "Suc n < length (sn_list (nd m (u (Suc n))))"
    and M: "nx m (Suc n) x = Some (u (Suc n)) \<longleftrightarrow> M < Suc n" using Suc.prems(2) [of "Suc n"] by auto
  obtain y where y: "nx m (Suc n) x = Some y" using Suc.prems(2) [of "Suc n"] by auto
  obtain m1 where 1: "set_next (Suc n) (u (Suc n)) y m = Inr m1" "frame m m1"
    "\<forall>j c. nx m1 j c = (if j = Suc n \<and> c = u (Suc n) then Some y else nx m j c)" using set_next_ok [OF u(3,4)] by blast
  let ?l = "if u (Suc n) = y then l\<lparr>sk_level := sk_level l - 1\<rparr> else l"
  have step: "unlink_level upd x (Suc n) (l, m) = Inr (?l, m1)" using 1(1) u(1) get_next_nx [OF Suc.prems(1) y] by (simp add: unlink_level_def)
  have x1: "sn_mem m1 x \<noteq> None" using frame_dom [OF 1(2)] Suc.prems(1) by simp
  have u1: "upd i = Some (u i) \<and> u i \<noteq> x \<and> sn_mem m1 (u i) \<noteq> None \<and> i < length (sn_list (nd m1 (u i))) \<and>
      nx m1 i x \<noteq> None \<and> (nx m1 i x = Some (u i) \<longleftrightarrow> M < i)" if "1 \<le> i" "i \<le> n" for i
  proof -
    have p: "sn_mem m (u i) \<noteq> None" using Suc.prems(2) [of i] that by simp
    have "length (sn_list (nd m1 (u i))) = length (sn_list (nd m (u i)))" using core_eqD [OF frame_core [OF 1(2) p]] by simp
    then show ?thesis using Suc.prems(2) [of i] that 1(3) [rule_format, of i x] frame_dom [OF 1(2), of "u i"] by simp
  qed
  obtain m2 where 2: "foldE (unlink_level upd x) (rev [1..<Suc n]) (?l, m1) = Inr (?l\<lparr>sk_level := sk_level ?l - (n - M)\<rparr>, m2)" "frame m1 m2"
    "\<forall>j a. nx m2 j a = (if 1 \<le> j \<and> j \<le> n \<and> a = u j then nx m1 j x else nx m1 j a)"
    using Suc.IH [of m1 ?l, OF x1 u1] by blast
  have "?l\<lparr>sk_level := sk_level ?l - (n - M)\<rparr> = l\<lparr>sk_level := sk_level l - (Suc n - M)\<rparr>" using M y by auto
  moreover have "rev [1..<Suc (Suc n)] = Suc n # rev [1..<Suc n]" by simp
  ultimately have "foldE (unlink_level upd x) (rev [1..<Suc (Suc n)]) (l, m) = Inr (l\<lparr>sk_level := sk_level l - (Suc n - M)\<rparr>, m2)"
    using step 2(1) by (simp del: upt_Suc)
  moreover have "nx m2 j a = (if 1 \<le> j \<and> j \<le> Suc n \<and> a = u j then nx m j x else nx m j a)" for j a
    using 2(3) [rule_format, of j a] 1(3) [rule_format, of j a] 1(3) [rule_format, of j x] y u(2) by (auto simp: le_Suc_eq split: if_splits)
  ultimately show ?case using frame_trans [OF 1(2) 2(2)] by blast
qed

lemma before_first:
  assumes d: "distinct (h # pre @ post)" and i: "1 \<le> i"
  shows "first_at m i h post = before m h pre i \<longleftrightarrow> top_level m (pre @ post) < i"
proof (cases "filter (\<lambda>b. i \<le> lv m b) pre = []")
  case True
  then have b: "before m h pre i = h" by (simp add: before_def)
  have "first_at m i h post = h \<longleftrightarrow> filter (\<lambda>b. i \<le> lv m b) post = []"
  proof (cases "filter (\<lambda>b. i \<le> lv m b) post")
    case (Cons b bs)
    have "b \<in> set (filter (\<lambda>b. i \<le> lv m b) post)" unfolding Cons by simp
    then have "b \<noteq> h" using d by auto
    then show ?thesis using Cons by (simp add: first_at_def)
  qed (simp add: first_at_def)
  then show ?thesis using b True i by (auto simp: top_level_less filter_empty_conv not_le)
next
  case False
  then have "before m h pre i \<in> set (filter (\<lambda>b. i \<le> lv m b) pre)" unfolding before_def by (metis last_ConsR last_in_set)
  then have b: "before m h pre i \<in> set pre" "i \<le> lv m (before m h pre i)" by auto
  then have "first_at m i h post \<noteq> before m h pre i" using first_at_mem [of m i h post] d by auto
  moreover have "\<not> top_level m (pre @ post) < i" using b top_level_ge [of "before m h pre i" "pre @ post" m] by simp
  ultimately show ?thesis by simp
qed

lemma unlink_ok:
  assumes rep: "sk_rep m l (pre @ x # post)"
    and upd: "upd = (\<lambda>j. if 1 \<le> j \<and> j \<le> sk_level l then Some (before m (header l) pre j) else None)"
  shows "\<exists>m'. foldE (unlink_level upd x) (rev [1..<Suc (lv m x)]) (l, m) =
      Inr (l\<lparr>sk_level := sk_level l - (lv m x - top_level m (pre @ post))\<rparr>, m') \<and>
    frame m m' \<and> (\<forall>j a. nx m' j a = (if 1 \<le> j \<and> j \<le> lv m x \<and> a = before m (header l) pre j then nx m j x else nx m j a))"
proof (rule unlink_levels_ok)
  have x: "node_ok m l x" and d: "distinct (header l # pre @ x # post)" using rep by (simp_all add: sk_rep_def)
  then show "sn_mem m x \<noteq> None" by (simp add: node_ok_def)
  fix i assume i: "1 \<le> i" "i \<le> lv m x"
  then have iM: "i < MAX_L" "i \<le> sk_level l" using x by (auto simp: node_ok_def)
  have b: "sn_mem m (before m (header l) pre i) \<noteq> None" "nx m i (before m (header l) pre i) \<noteq> None" using before_ok [OF rep i(1) iM(1)] by blast+
  have "before m (header l) pre i \<in> set (header l # pre)" using before_split [of "header l" pre m i] by (metis in_set_conv_decomp)
  then have ne: "before m (header l) pre i \<noteq> x" using d by auto
  have "linked m (header l) (pre @ x # post) i" using rep i(1) iM(1) by (simp add: sk_rep_def)
  then have nx: "nx m i x = Some (first_at m i (header l) post)" using linkedD [of m "header l" "pre @ x # post" i "header l # pre" x post] d i by simp
  have d': "distinct (header l # pre @ post)" using d by auto
  show "upd i = Some (before m (header l) pre i) \<and> before m (header l) pre i \<noteq> x \<and> sn_mem m (before m (header l) pre i) \<noteq> None \<and>
    i < length (sn_list (nd m (before m (header l) pre i))) \<and> nx m i x \<noteq> None \<and>
    (nx m i x = Some (before m (header l) pre i) \<longleftrightarrow> top_level m (pre @ post) < i)"
    using upd i iM b ne nx before_first [OF d' i(1)] nx_length by fastforce
qed

lemma top_after:
  assumes rep: "sk_rep m l (pre @ x # post)"
  shows "sk_level l - (lv m x - top_level m (pre @ post)) = top_level m (pre @ post)"
proof -
  have le: "lv m a \<le> sk_level l" "1 \<le> lv m a" if "a \<in> set (pre @ x # post)" for a using rep that by (auto simp: sk_rep_def node_ok_def)
  then have "\<not> sk_level l < top_level m (pre @ post)" using le [of x] by (auto simp: top_level_def not_less)
  moreover obtain a where a: "a \<in> set (pre @ x # post)" "lv m a = sk_level l" using rep by (auto simp: sk_rep_def)
  ultimately show ?thesis using top_level_ge [of a "pre @ post" m] le [of x] by (cases "a = x") auto
qed

lemma skiplist_delete_entry:
  assumes rep: "sk_rep m l as" and k: "k < key_max" and e: "entry_of m as k = Some x"
  shows "\<exists>pre post l' m'. as = pre @ x # post \<and> skiplist_delete k l m = Inr (0, l', m') \<and> sk_rep m' l' (pre @ post) \<and> header l' = header l \<and>
    (\<forall>a \<in> set (pre @ post). core (nd m' a) = core (nd m a))"
proof -
  obtain post where r: "rest m k as = x # post" "ky m x = k" using e entry_of_rest [OF rep, of k] by (auto split: list.splits if_splits)
  define pre where "pre = below m k as"
  have as: "as = pre @ x # post" unfolding pre_def r(1) [symmetric] by simp
  have rep': "sk_rep m l (pre @ x # post)" using rep as by simp
  define upd where upd: "upd = (\<lambda>j. if 1 \<le> j \<and> j \<le> sk_level l then Some (before m (header l) pre j) else None)"
  have fp: "find_place k l m = Inr (x, nd m x, upd)" unfolding upd pre_def using find_place_ok [OF rep less_imp_le [OF k]] r(1) by (simp add: spot_def)
  obtain m1 where 1: "foldE (unlink_level upd x) (rev [1..<Suc (lv m x)]) (l, m) = Inr (l\<lparr>sk_level := top_level m (pre @ post)\<rparr>, m1)" "frame m m1"
    "\<forall>j a. nx m1 j a = (if 1 \<le> j \<and> j \<le> lv m x \<and> a = before m (header l) pre j then nx m j x else nx m j a)"
    using unlink_ok [OF rep' upd] unfolding top_after [OF rep'] by blast
  let ?l' = "l\<lparr>sk_level := top_level m (pre @ post), sk_size := sk_size l - 1\<rparr>" let ?m' = "m1\<lparr>sn_mem := (sn_mem m1)(x := None)\<rparr>"
  have run: "skiplist_delete k l m = Inr (0, ?l', ?m')" using fp 1(1) r(2) rep' by (simp add: skiplist_delete_def sk_rep_def del: upt_Suc)
  have d: "x \<notin> set (pre @ post)" using rep' by (auto simp: sk_rep_def)
  have al: "\<forall>a \<in> set (pre @ post). sn_mem m a \<noteq> None" using rep' by (simp add: sk_rep_def node_ok_def ball_Un)
  have w: "without_node m (header l) pre x ?m'"
    by (rule without_node_unlink [OF 1(2,3)]) simp_all
  have "sk_rep ?m' ?l' (pre @ post)" by (rule sk_rep_remove [OF rep' w]) simp_all
  moreover have "\<forall>a \<in> set (pre @ post). core (nd ?m' a) = core (nd m a)" using without_node_core [OF w] al d by metis
  ultimately have "as = pre @ x # post \<and> skiplist_delete k l m = Inr (0, ?l', ?m') \<and> sk_rep ?m' ?l' (pre @ post) \<and> header ?l' = header l \<and>
    (\<forall>a \<in> set (pre @ post). core (nd ?m' a) = core (nd m a))" using as run by simp
  then show ?thesis by (intro exI)
qed

lemma pop_levels_ok:
  assumes "sorted_wrt (<) js" and "h \<noteq> x" and "sn_mem m h \<noteq> None" and "sn_mem m x \<noteq> None"
    and "\<And>j. j \<in> set js \<Longrightarrow> \<exists>y. nx m j h = Some y \<and> (y = x \<longleftrightarrow> j \<le> v) \<and> (j \<le> v \<longrightarrow> nx m j x \<noteq> None)"
  shows "\<exists>m'. pop_levels h x js m = Inr m' \<and> frame m m' \<and>
    (\<forall>j a. nx m' j a = (if j \<in> set js \<and> j \<le> v \<and> a = h then nx m j x else nx m j a))"
  using assms
proof (induction js arbitrary: m)
  case Nil
  then show ?case by (intro exI [of _ m]) simp
next
  case (Cons i js)
  obtain y where y: "nx m i h = Some y" "y = x \<longleftrightarrow> i \<le> v" "i \<le> v \<longrightarrow> nx m i x \<noteq> None" using Cons.prems(5) [of i] by auto
  note g = get_next_nx [OF Cons.prems(3) y(1)]
  show ?case
  proof (cases "i \<le> v")
    case False
    then have "\<forall>j \<in> set (i # js). \<not> j \<le> v" using Cons.prems(1) by auto
    then show ?thesis using g y(2) False by (intro exI [of _ m]) auto
  next
    case True
    then obtain z where z: "nx m i x = Some z" using y(3) by auto
    obtain m1 where 1: "set_next i h z m = Inr m1" "frame m m1" "\<forall>j c. nx m1 j c = (if j = i \<and> c = h then Some z else nx m j c)"
      using set_next_ok [OF Cons.prems(3) nx_length [OF y(1)]] by blast
    have ni: "i \<notin> set js" using Cons.prems(1) by auto
    have "\<exists>m'. pop_levels h x js m1 = Inr m' \<and> frame m1 m' \<and> (\<forall>j a. nx m' j a = (if j \<in> set js \<and> j \<le> v \<and> a = h then nx m1 j x else nx m1 j a))"
    proof (rule Cons.IH)
      show "\<exists>y. nx m1 j h = Some y \<and> (y = x \<longleftrightarrow> j \<le> v) \<and> (j \<le> v \<longrightarrow> nx m1 j x \<noteq> None)" if "j \<in> set js" for j
        using Cons.prems(5) [of j] that ni 1(3) by auto
    qed (use Cons.prems frame_dom [OF 1(2)] in simp_all)
    then obtain m2 where 2: "pop_levels h x js m1 = Inr m2" "frame m1 m2"
      "\<forall>j a. nx m2 j a = (if j \<in> set js \<and> j \<le> v \<and> a = h then nx m1 j x else nx m1 j a)" by blast
    have "pop_levels h x (i # js) m = Inr m2" using g y(2) True get_next_nx [OF Cons.prems(4) z] 1(1) 2(1) by simp
    moreover have "nx m2 j a = (if j \<in> set (i # js) \<and> j \<le> v \<and> a = h then nx m j x else nx m j a)" for j a
      using 2(3) [rule_format, of j a] 1(3) [rule_format, of j a] 1(3) [rule_format, of j x] z ni True Cons.prems(2) by auto
    ultimately show ?thesis using frame_trans [OF 1(2) 2(2)] by blast
  qed
qed

lemma lower_level_ok:
  assumes "\<And>j. 1 \<le> j \<Longrightarrow> j \<le> n \<Longrightarrow> get_next m j h = Inr (f j) \<and> (f j = h \<longleftrightarrow> M < j)" and "M \<le> n" and "1 \<le> n"
  shows "lower_level h m n = Inr (max 1 M)"
  using assms
proof (induction n)
  case (Suc n)
  then show ?case using Suc.prems(1) [of "Suc n"] by (cases "n = 0"; cases "M = Suc n") auto
qed simp

lemma pop_levels_rep:
  assumes rep: "sk_rep m l (x # post)"
  shows "\<exists>m'. pop_levels (header l) x [1..<Suc (sk_level l)] m = Inr m' \<and> frame m m' \<and>
    (\<forall>j a. nx m' j a = (if 1 \<le> j \<and> j \<le> lv m x \<and> a = before m (header l) [] j then nx m j x else nx m j a))"
proof -
  let ?h = "header l"
  have x: "node_ok m l x" and d: "distinct (?h # x # post)" and h: "sn_mem m ?h \<noteq> None" and lM: "sk_level l < MAX_L" using rep by (simp_all add: sk_rep_def)
  have li: "linked m ?h (x # post) i" if "1 \<le> i" "i < MAX_L" for i using rep that by (simp add: sk_rep_def)
  have lv: "lv m x \<le> sk_level l" "sn_mem m x \<noteq> None" using x by (simp_all add: node_ok_def)
  have "\<exists>y. nx m j ?h = Some y \<and> (y = x \<longleftrightarrow> j \<le> lv m x) \<and> (j \<le> lv m x \<longrightarrow> nx m j x \<noteq> None)" if j: "j \<in> set [1..<Suc (sk_level l)]" for j
  proof -
    have j': "1 \<le> j" "j < MAX_L" using j lM by auto
    have 1: "nx m j ?h = Some (first_at m j ?h (x # post))" using linkedD [OF li [OF j'], of "[]" ?h "x # post"] d by simp
    have 2: "j \<le> lv m x \<Longrightarrow> nx m j x = Some (first_at m j ?h post)" using linkedD [OF li [OF j'], of "[?h]" x post] d by simp
    have "first_at m j ?h (x # post) = x \<longleftrightarrow> j \<le> lv m x" using first_at_mem [of m j ?h post] d by (auto simp: first_at_def)
    then show ?thesis using 1 2 by auto
  qed
  then obtain m1 where 1: "pop_levels ?h x [1..<Suc (sk_level l)] m = Inr m1" "frame m m1"
    "\<forall>j a. nx m1 j a = (if j \<in> set [1..<Suc (sk_level l)] \<and> j \<le> lv m x \<and> a = ?h then nx m j x else nx m j a)"
    using pop_levels_ok [of "[1..<Suc (sk_level l)]" ?h x m "lv m x"] d h lv(2) by (auto simp del: upt_Suc)
  have "\<forall>j a. nx m1 j a = (if 1 \<le> j \<and> j \<le> lv m x \<and> a = before m ?h [] j then nx m j x else nx m j a)" using 1(3) lv(1) by (auto simp: before_def)
  then show ?thesis using 1(1,2) by blast
qed

lemma skiplist_pop_first:
  assumes rep: "sk_rep m l (x # post)"
  shows "\<exists>l' m'. skiplist_pop l m = Inr (Some x, l', m') \<and> sk_rep m' l' post \<and> header l' = header l \<and>
    (\<forall>a \<in> set post. core (nd m' a) = core (nd m a))"
proof -
  let ?h = "header l" let ?M = "top_level m post"
  have x: "node_ok m l x" and d: "distinct (?h # x # post)" and h: "sn_mem m ?h \<noteq> None" and lM: "sk_level l < MAX_L" "sk_size l \<noteq> 0" using rep by (simp_all add: sk_rep_def)
  have al: "\<forall>a \<in> set post. sn_mem m a \<noteq> None" using rep by (simp add: sk_rep_def node_ok_def)
  obtain m1 where 1: "pop_levels ?h x [1..<Suc (sk_level l)] m = Inr m1" "frame m m1"
    "\<forall>j a. nx m1 j a = (if 1 \<le> j \<and> j \<le> lv m x \<and> a = before m ?h [] j then nx m j x else nx m j a)" using pop_levels_rep [OF rep] by blast
  have w: "without_node m ?h [] x m1" by (rule without_node_unlink [OF 1(2,3)]) simp_all
  have rep': "sk_rep m l ([] @ x # post)" using rep by simp
  have c: "\<forall>a \<in> set post. core (nd m1 a) = core (nd m a)" using frame_core [OF 1(2)] al by blast
  then have top: "top_level m1 post = ?M" by (simp add: top_level_def core_def)
  have low: "lower_level ?h m1 (sk_level l) = Inr (max 1 ?M)"
  proof (rule lower_level_ok)
    fix j assume j: "1 \<le> j" "j \<le> sk_level l"
    have "linked m1 ?h post j" using linked_remove [OF rep' w, of j] j lM by simp
    then have "nx m1 j ?h = Some (first_at m1 j ?h post)" using linkedD [of m1 ?h post j "[]" ?h post] d by simp
    then have "get_next m1 j ?h = Inr (first_at m1 j ?h post)" using frame_dom [OF 1(2), of ?h] h by (intro get_next_nx) simp_all
    then show "get_next m1 j ?h = Inr (first_at m1 j ?h post) \<and> (first_at m1 j ?h post = ?h \<longleftrightarrow> ?M < j)"
      using before_first [of ?h "[]" post j m1] d j top by (simp add: before_def)
  qed (use top_after [OF rep'] x in \<open>auto simp: node_ok_def\<close>)
  let ?l' = "l\<lparr>sk_level := max 1 ?M, all_length := nat ((int (all_length l) - int (KEYLEN (ky m x))) mod 2 ^ 32), sk_size := sk_size l - 1\<rparr>"
  have "get_next m 1 ?h = Inr x" using next_of_last [of m l "[]" "x # post"] rep by simp
  moreover have "sn m x = Inr (nd m x)" using x by (auto simp: sn_def node_ok_def)
  ultimately have run: "skiplist_pop l m = Inr (Some x, ?l', m1)" using lM(2) 1(1) low by (simp add: skiplist_pop_def del: upt_Suc)
  have "sk_rep m1 ?l' ([] @ post)" by (rule sk_rep_remove [OF rep' w]) simp_all
  then have "skiplist_pop l m = Inr (Some x, ?l', m1) \<and> sk_rep m1 ?l' post \<and> header ?l' = header l \<and> (\<forall>a \<in> set post. core (nd m1 a) = core (nd m a))"
    using run c by simp
  then show ?thesis by (intro exI)
qed

subsection \<open>Creation, traversal and clearing\<close>

text \<open>The store without the nodes \<open>as\<close>.\<close>

definition freed :: "addr list \<Rightarrow> sk_heap \<Rightarrow> sk_heap" where
  "freed as m = m\<lparr>sn_mem := (\<lambda>a. if a \<in> set as then None else sn_mem m a)\<rparr>"

lemma freed_Nil [simp]: "freed [] m = m"
  by (simp add: freed_def)

lemma sk_rep_empty:
  assumes "\<forall>a. sn_mem m a \<noteq> None \<longrightarrow> a < sn_fresh m" and "sn_mem m (header l) \<noteq> None" and "ky m (header l) = key_max"
    and "length (sn_list (nd m (header l))) = Suc MAX_L" and "\<And>i. 1 \<le> i \<Longrightarrow> i < MAX_L \<Longrightarrow> sn_list (nd m (header l)) ! i = Some (header l)"
    and "sk_level l \<le> 1" and "sk_size l = 0"
  shows "sk_rep m l []"
  using assms by (auto simp: sk_rep_def linked_def nx_def MAX_L_def)

lemma skiplist_init_rep:
  assumes "\<forall>a. sn_mem m a \<noteq> None \<longrightarrow> a < sn_fresh m" and "skiplist_init ds m = (l, m')"
  shows "sk_rep m' l []"
  by (rule sk_rep_empty) (use assms in \<open>auto simp: skiplist_init_def Let_def nth_append less_Suc_eq split: if_splits\<close>)

lemma next_of_node:
  assumes "sk_rep m l (xs @ a # ys)"
  shows "get_next m 1 a = Inr (spot (header l) ys)"
  using next_of_last [of m l "xs @ [a]" ys] assms by (simp add: spot_def)

lemma next_of_header: "sk_rep m l as \<Longrightarrow> get_next m 1 (header l) = Inr (spot (header l) as)"
  using next_of_last [of m l "[]" as] by (simp add: spot_def)

lemma for_each_sk_ok:
  assumes "sk_rep m l (xs @ ys)" and "length ys < n"
  shows "for_each_sk n m (header l) (spot (header l) ys) = Inr ys"
  using assms
proof (induction ys arbitrary: xs n)
  case Nil
  then show ?case by (cases n) (simp_all add: spot_def)
next
  case (Cons a ys)
  obtain n' where n: "n = Suc n'" using Cons.prems(2) by (cases n) auto
  have "a \<noteq> header l" using Cons.prems(1) by (auto simp: sk_rep_def)
  moreover have "for_each_sk n' m (header l) (spot (header l) ys) = Inr ys" using Cons.IH [of "xs @ [a]" n'] Cons.prems n by simp
  ultimately show ?case using n next_of_node [OF Cons.prems(1)] by (simp add: spot_def [of _ "a # ys"])
qed

lemma for_each_rep:
  assumes rep: "sk_rep m l as"
  shows "bindE (get_next m 1 (header l)) (for_each_sk (sk_size l + 1) m (header l)) = Inr as"
proof -
  have "sk_size l = length as" using rep by (simp add: sk_rep_def)
  then have "for_each_sk (sk_size l + 1) m (header l) (spot (header l) as) = Inr as" using for_each_sk_ok [of m l "[]" as] rep by (simp del: for_each_sk.simps)
  then show ?thesis using next_of_header [OF rep] by simp
qed

lemma clear_loop_ok:
  assumes "sk_rep m l (xs @ ys)" and "length ys < n" and "ys \<noteq> [] \<Longrightarrow> nxt = spot (header l) (tl ys)"
  shows "clear_loop n (header l) (spot (header l) ys) nxt (freed xs m) = Inr (freed (xs @ ys) m)"
  using assms
proof (induction ys arbitrary: xs n nxt)
  case Nil
  then show ?case by (cases n) (simp_all add: spot_def)
next
  case (Cons a ys)
  let ?h = "header l" let ?m1 = "freed (xs @ [a]) m"
  obtain n' where n: "n = Suc n'" using Cons.prems(2) by (cases n) auto
  have d: "distinct (?h # xs @ a # ys)" and al: "sn_mem m a \<noteq> None" using Cons.prems(1) by (auto simp: sk_rep_def node_ok_def)
  have f: "(freed xs m)\<lparr>sn_mem := (sn_mem (freed xs m))(a := None)\<rparr> = ?m1"
    by (auto simp: freed_def fun_eq_iff intro!: arg_cong [where f = "\<lambda>f. m\<lparr>sn_mem := f\<rparr>"])
  have same: "get_next ?m1 1 b = get_next m 1 b" if "b \<notin> set (xs @ [a])" for b using that by (simp add: get_next_def sn_def freed_def)
  obtain nxt' where nx: "get_next ?m1 1 (spot ?h ys) = Inr nxt'" "ys \<noteq> [] \<Longrightarrow> nxt' = spot ?h (tl ys)"
  proof (cases ys)
    case Nil
    then show ?thesis using that same [of ?h] d next_of_header [OF Cons.prems(1)] by (simp add: spot_def)
  next
    case (Cons b zs)
    then show ?thesis using that same [of b] d next_of_node [of m l "xs @ [a]" b zs] Cons.prems(1) by (simp add: spot_def [of _ "b # zs"])
  qed
  have "clear_loop n' ?h (spot ?h ys) nxt' ?m1 = Inr (freed ((xs @ [a]) @ ys) m)" by (rule Cons.IH) (use Cons.prems n nx in auto)
  moreover have "clear_loop n ?h (spot ?h (a # ys)) nxt (freed xs m) = clear_loop n' ?h (spot ?h ys) nxt' ?m1"
    using n d al Cons.prems(3) nx(1) f by (auto simp: spot_def [of _ "a # ys"] sn_def Let_def freed_def [of xs])
  ultimately show ?case by simp
qed

lemma skiplist_clear_ok:
  assumes rep: "sk_rep m l as"
  shows "\<exists>l' m'. skiplist_clear l m = Inr (l', m') \<and> sk_rep m' l' [] \<and> header l' = header l \<and> (\<forall>a \<in> set as. sn_mem m' a = None)"
proof -
  let ?h = "header l" let ?m1 = "freed as m"
  obtain nxt where nx: "get_next m 1 (spot ?h as) = Inr nxt" "as \<noteq> [] \<Longrightarrow> nxt = spot ?h (tl as)"
    using next_of_header [OF rep] next_of_node [of m l "[]"] rep by (cases as) (auto simp: spot_def)
  have sz: "sk_size l = length as" using rep by (simp add: sk_rep_def)
  have loop: "clear_loop (sk_size l + 1) ?h (spot ?h as) nxt m = Inr ?m1"
    using clear_loop_ok [of m l "[]" as "length as + 1" nxt, OF _ _ nx(2)] rep unfolding sz by (simp del: clear_loop.simps)
  have h: "?h \<notin> set as" "sn_mem m ?h \<noteq> None" "length (sn_list (nd m ?h)) = Suc MAX_L" "\<forall>a. sn_mem m a \<noteq> None \<longrightarrow> a < sn_fresh m"
    using rep by (simp_all add: sk_rep_def)
  let ?n = "(nd m ?h)\<lparr>sn_list := replicate MAX_L (Some ?h) @ drop MAX_L (sn_list (nd m ?h)), sn_key := key_max\<rparr>"
  let ?m2 = "?m1\<lparr>sn_mem := (sn_mem ?m1)(?h \<mapsto> ?n)\<rparr>" let ?l' = "l\<lparr>sk_size := 0, sk_level := 0\<rparr>"
  have run: "skiplist_clear l m = Inr (?l', ?m2)"
    using next_of_header [OF rep] nx(1) loop h(1,2) by (auto simp: skiplist_clear_def upd_sn_def sn_def freed_def)
  have "sk_rep ?m2 ?l' []" by (rule sk_rep_empty) (use h in \<open>auto simp: freed_def nth_append split: if_splits\<close>)
  then have "skiplist_clear l m = Inr (?l', ?m2) \<and> sk_rep ?m2 ?l' [] \<and> header ?l' = ?h \<and> (\<forall>a \<in> set as. sn_mem ?m2 a = None)"
    using run h(1) by (auto simp: freed_def)
  then show ?thesis by (intro exI)
qed

section \<open>The table as a map\<close>

definition info :: "snode \<Rightarrow> nat \<times> sval option \<times> bool" where
  "info n = (sn_ppa n, sn_value n, sn_isvalid n)"

text \<open>The entries in the order of the list, and the map they form.\<close>

definition table :: "sk_heap \<Rightarrow> addr list \<Rightarrow> (str_key \<times> nat \<times> sval option \<times> bool) list" where
  "table m as = map (\<lambda>a. (ky m a, info (nd m a))) as"

lemma table_append [simp]: "table m (xs @ ys) = table m xs @ table m ys"
  by (simp add: table_def)

lemma table_Cons [simp]: "table m (a # as) = (ky m a, info (nd m a)) # table m as"
  by (simp add: table_def)

lemma table_cong: "(\<And>a. a \<in> set as \<Longrightarrow> core (nd m' a) = core (nd m a)) \<Longrightarrow> table m' as = table m as"
  by (simp add: table_def info_def core_def)

lemma fst_table: "map fst (table m as) = map (ky m) as"
  by (simp add: table_def)

lemma map_of_entry: "map_of (table m as) k = map_option (\<lambda>a. info (nd m a)) (entry_of m as k)"
  by (induction as) (auto simp: table_def entry_of_def)

lemma dom_table: "dom (map_of (table m as)) = set (map (ky m) as)"
  by (simp add: dom_map_of_conv_image_fst table_def image_image)

lemma map_of_insert: "k \<notin> fst ` set xs \<Longrightarrow> map_of (xs @ (k, v) # ys) = (map_of (xs @ ys))(k \<mapsto> v)"
  by (induction xs) (auto simp: fun_eq_iff)

lemma map_of_remove: "k \<notin> fst ` set (xs @ ys) \<Longrightarrow> map_of (xs @ ys) = (map_of (xs @ (k, v) # ys))(k := None)"
  using map_of_insert [of k xs v ys] by (auto simp: fun_eq_iff map_of_eq_None_iff image_Un simp del: map_of_append)

lemma key_notin_table: "\<forall>a \<in> set as. ky m a \<noteq> k \<Longrightarrow> k \<notin> fst ` set (table m as)"
  by (auto simp: table_def)

text \<open>A change of \<open>ppa\<close>, \<open>value\<close> or \<open>isvalid\<close> of an entry keeps the list.\<close>

lemma sk_rep_cong:
  assumes rep: "sk_rep m l as" and n: "nx m' = nx m" and f: "sn_fresh m' = sn_fresh m"
    and d: "\<And>a. sn_mem m' a = None \<longleftrightarrow> sn_mem m a = None"
    and c: "\<And>a. ky m' a = ky m a \<and> lv m' a = lv m a \<and> length (sn_list (nd m' a)) = length (sn_list (nd m a))"
  shows "sk_rep m' l as"
proof -
  have "path m' i xs = path m i xs" for i xs using n by (induction m i xs rule: path.induct) auto
  then have "linked m' (header l) as i = linked m (header l) as i" for i using c by (simp add: linked_def)
  moreover have "node_ok m' l a = node_ok m l a" for a using c d by (simp add: node_ok_def)
  moreover have "map (ky m') as = map (ky m) as" using c by simp
  ultimately show ?thesis using rep c d f unfolding sk_rep_def by (cases "as = []") simp_all
qed

lemma update_entry:
  assumes rep: "sk_rep m l (pre @ x # post)" and g: "\<And>n. sn_key (g n) = sn_key n \<and> sn_level (g n) = sn_level n \<and> sn_list (g n) = sn_list n"
  shows "\<exists>m'. upd_sn x g m = Inr m' \<and> sk_rep m' l (pre @ x # post) \<and> nd m' x = g (nd m x) \<and> (\<forall>a. a \<noteq> x \<longrightarrow> nd m' a = nd m a)"
proof -
  let ?m = "m\<lparr>sn_mem := (sn_mem m)(x \<mapsto> g (nd m x))\<rparr>"
  have x: "sn_mem m x \<noteq> None" using rep by (simp add: sk_rep_def node_ok_def)
  then have run: "upd_sn x g m = Inr ?m" by (auto simp: upd_sn_def sn_def)
  have "sk_rep ?m l (pre @ x # post)" by (rule sk_rep_cong [OF rep]) (use g x in \<open>auto simp: nx_def fun_eq_iff\<close>)
  then show ?thesis using run by simp
qed

text \<open>What an insertion gives: a change of the entry of the key, or a new entry.\<close>

definition put_map :: "str_key \<Rightarrow> sval \<Rightarrow> bool \<Rightarrow> (str_key \<rightharpoonup> nat \<times> sval option \<times> bool) \<Rightarrow> (str_key \<rightharpoonup> nat \<times> sval option \<times> bool)" where
  "put_map k v d M = M(k \<mapsto> (case M k of None \<Rightarrow> UINT_MAX | Some (p, _) \<Rightarrow> p, Some (pieces v), d))"

definition valued :: "(str_key \<times> nat \<times> sval option \<times> bool) list \<Rightarrow> bool" where
  "valued t \<longleftrightarrow> (\<forall>(k, p, v, d) \<in> set t. v \<noteq> None)"

lemma key_place:
  assumes rep: "sk_rep m l as" and e: "entry_of m as k = None"
  shows "\<forall>a \<in> set (below m k as). ky m a < k" "\<forall>a \<in> set (rest m k as). k < ky m a"
proof -
  show "\<forall>a \<in> set (below m k as). ky m a < k" by (auto dest: set_takeWhileD)
  have s: "sorted_wrt (<) (map (ky m) as)" using rep by (simp add: sk_rep_def)
  have "ky m a \<noteq> k" if "a \<in> set as" for a using e that by (simp add: entry_of_def find_None_iff)
  then show "\<forall>a \<in> set (rest m k as). k < ky m a" using rest_ge [OF s, of _ k] set_dropWhileD by (metis order.not_eq_order_implies_strict)
qed

lemma new_entry:
  assumes rep: "sk_rep m l as" and k: "k < key_max" and None: "entry_of m as k = None"
  shows "\<exists>x n upd l' m' as'. find_place k l m = Inr (x, n, upd) \<and> sn_key n \<noteq> k \<and>
    insert_new rnd k ppa v d upd (add_length c l) m = Inr (sn_fresh m, l', m') \<and> sk_rep m' l' as' \<and> header l' = header l \<and>
    map_of (table m' as') = (map_of (table m as))(k \<mapsto> (ppa, v, d)) \<and> set (table m' as') = insert (k, ppa, v, d) (set (table m as))"
proof -
  define pre where "pre = below m k as" define post where "post = rest m k as"
  let ?x = "sn_fresh m" let ?l = "add_length c l"
  have as: "as = pre @ post" by (simp add: pre_def post_def)
  have kp: "\<forall>a \<in> set pre. ky m a < k" "\<forall>a \<in> set post. k < ky m a" unfolding pre_def post_def using key_place [OF rep None] by blast+
  have rep1: "sk_rep m ?l (pre @ post)" using rep as by (simp add: add_length_def)
  define upd where "upd = (\<lambda>j. if 1 \<le> j \<and> j \<le> sk_level ?l then Some (before m (header ?l) pre j) else None)"
  obtain l1 m1 lev where 1: "insert_new rnd k ppa v d upd ?l m = Inr (?x, l1, m1)" "sk_rep m1 l1 (pre @ ?x # post)"
    "header l1 = header ?l" "\<forall>a \<in> set (pre @ post). core (nd m1 a) = core (nd m a)" "core (nd m1 ?x) = (ppa, k, lev, v, d, Suc lev)"
    using insert_new_ok [OF rep1 kp k upd_def] by blast
  have fp: "find_place k l m = Inr (spot (header l) post, nd m (spot (header l) post), upd)"
    unfolding upd_def pre_def post_def using find_place_ok [OF rep less_imp_le [OF k]] by (simp add: add_length_def cong: if_cong)
  have ks: "ky m (spot (header l) post) \<noteq> k" using kp(2) rep k by (auto simp: spot_def sk_rep_def split: list.splits)
  have t: "table m1 pre = table m pre" "table m1 post = table m post" using 1(4) by (auto intro!: table_cong)
  have t': "table m1 (pre @ ?x # post) = table m pre @ (k, ppa, v, d) # table m post" using t 1(5) by (simp add: info_def core_def)
  have "k \<notin> fst ` set (table m pre)" using kp(1) by (intro key_notin_table) auto
  then have mp: "map_of (table m1 (pre @ ?x # post)) = (map_of (table m as))(k \<mapsto> (ppa, v, d))"
    unfolding t' unfolding as table_append by (rule map_of_insert)
  have "set (table m1 (pre @ ?x # post)) = insert (k, ppa, v, d) (set (table m as))" unfolding t' unfolding as by simp
  then have "find_place k l m = Inr (spot (header l) post, nd m (spot (header l) post), upd) \<and> ky m (spot (header l) post) \<noteq> k \<and>
    insert_new rnd k ppa v d upd ?l m = Inr (?x, l1, m1) \<and> sk_rep m1 l1 (pre @ ?x # post) \<and> header l1 = header l \<and>
    map_of (table m1 (pre @ ?x # post)) = (map_of (table m as))(k \<mapsto> (ppa, v, d)) \<and>
    set (table m1 (pre @ ?x # post)) = insert (k, ppa, v, d) (set (table m as))"
    using fp ks 1(1-3) mp by (simp add: add_length_def)
  then show ?thesis by (intro exI)
qed

lemma old_entry:
  assumes rep: "sk_rep m l as" and k: "k < key_max" and e: "entry_of m as k = Some x"
    and g: "\<And>n. sn_key (g n) = sn_key n \<and> sn_level (g n) = sn_level n \<and> sn_list (g n) = sn_list n"
  shows "\<exists>upd m'. find_place k l m = Inr (x, nd m x, upd) \<and> ky m x = k \<and> (k, info (nd m x)) \<in> set (table m as) \<and>
    upd_sn x g m = Inr m' \<and> sk_rep m' l as \<and>
    map_of (table m' as) = (map_of (table m as))(k \<mapsto> info (g (nd m x))) \<and> set (table m' as) \<subseteq> insert (k, info (g (nd m x))) (set (table m as))"
proof -
  obtain post where r: "rest m k as = x # post" "ky m x = k" using e entry_of_rest [OF rep, of k] by (auto split: list.splits if_splits)
  define pre where "pre = below m k as"
  have as: "as = pre @ x # post" unfolding pre_def r(1) [symmetric] by simp
  have rep': "sk_rep m l (pre @ x # post)" using rep as by simp
  obtain upd where fp: "find_place k l m = Inr (x, nd m x, upd)" using find_place_ok [OF rep less_imp_le [OF k]] r(1) by (simp add: spot_def)
  obtain m1 where 1: "upd_sn x g m = Inr m1" "sk_rep m1 l (pre @ x # post)" "nd m1 x = g (nd m x)" "\<forall>a. a \<noteq> x \<longrightarrow> nd m1 a = nd m a"
    using update_entry [OF rep', of g] g by auto
  have dx: "x \<notin> set pre" "x \<notin> set post" using rep' by (auto simp: sk_rep_def)
  have c: "core (nd m1 a) = core (nd m a)" if "a \<noteq> x" for a using 1(4) that by simp
  have t: "table m1 pre = table m pre" "table m1 post = table m post" by (rule table_cong, rule c, use dx in blast)+
  have t': "table m1 (pre @ x # post) = table m pre @ (k, info (g (nd m x))) # table m post" using t 1(3) r(2) g by simp
  have kn: "k \<notin> fst ` set (table m pre)" unfolding pre_def by (intro key_notin_table) (auto dest: set_takeWhileD)
  have "map_of (table m1 as) = (map_of (table m as))(k \<mapsto> info (g (nd m x)))"
    unfolding as unfolding t' by (simp add: map_of_insert [OF kn] r(2) del: map_of_append)
  moreover have "set (table m1 as) \<subseteq> insert (k, info (g (nd m x))) (set (table m as))" unfolding as unfolding t' by auto
  moreover have "(k, info (nd m x)) \<in> set (table m as)" unfolding as using r(2) by simp
  ultimately show ?thesis using fp r(2) 1(1,2) as by blast
qed

lemma skiplist_insert_map:
  assumes rep: "sk_rep m l as" and val: "valued (table m as)" and k: "k < key_max"
  shows "\<exists>x l' m' as'. skiplist_insert rnd k (Some v) d l m = Inr (x, l', m') \<and> sk_rep m' l' as' \<and> header l' = header l \<and>
    valued (table m' as') \<and> map_of (table m' as') = put_map k v d (map_of (table m as))"
proof (cases "entry_of m as k")
  case None
  obtain x n upd l' m' as' where 1: "find_place k l m = Inr (x, n, upd)" "sn_key n \<noteq> k"
    "insert_new rnd k UINT_MAX (Some (pieces v)) d upd (add_length (KEYLEN k) l) m = Inr (sn_fresh m, l', m')" "sk_rep m' l' as'" "header l' = header l"
    "map_of (table m' as') = (map_of (table m as))(k \<mapsto> (UINT_MAX, Some (pieces v), d))"
    "set (table m' as') = insert (k, UINT_MAX, Some (pieces v), d) (set (table m as))" using new_entry [OF rep k None] by blast
  have "skiplist_insert rnd k (Some v) d l m = Inr (sn_fresh m, l'\<lparr>data_size := (data_size l' + sv_len (pieces v) * PIECE) mod 2 ^ 32\<rparr>, m')"
    using 1(1-3) by (simp add: skiplist_insert_def KEYTEST_eq)
  moreover have "map_of (table m as) k = None" using None by (simp add: map_of_entry)
  moreover have "valued (table m' as')" using val by (simp add: valued_def 1(7))
  ultimately show ?thesis using 1(4-6) by (auto simp: put_map_def)
next
  case (Some x)
  let ?g = "\<lambda>n. n\<lparr>sn_value := Some (pieces v), sn_isvalid := d\<rparr>"
  obtain upd m' where 1: "find_place k l m = Inr (x, nd m x, upd)" "ky m x = k" "(k, info (nd m x)) \<in> set (table m as)" "upd_sn x ?g m = Inr m'" "sk_rep m' l as"
    "map_of (table m' as) = (map_of (table m as))(k \<mapsto> info (?g (nd m x)))" "set (table m' as) \<subseteq> insert (k, info (?g (nd m x))) (set (table m as))"
    using old_entry [OF rep k Some, of ?g] by auto
  obtain old where old: "sn_value (nd m x) = Some old" using val 1(3) by (auto simp: valued_def info_def)
  have "map_of (table m as) k = Some (info (nd m x))" using Some by (simp add: map_of_entry)
  moreover have "valued (table m' as)" using val 1(7) by (auto simp: valued_def info_def)
  moreover have "\<exists>l'. skiplist_insert rnd k (Some v) d l m = Inr (x, l', m') \<and> sk_rep m' l' as \<and> header l' = header l"
    using 1(1,2,4,5) old by (simp add: skiplist_insert_def KEYTEST_eq)
  ultimately show ?thesis using 1(6) by (auto simp: put_map_def info_def)
qed

lemma skiplist_delete_map:
  assumes rep: "sk_rep m l as" and val: "valued (table m as)" and k: "k < key_max"
  shows "\<exists>r l' m' as'. skiplist_delete k l m = Inr (r, l', m') \<and> sk_rep m' l' as' \<and> header l' = header l \<and>
    valued (table m' as') \<and> map_of (table m' as') = (map_of (table m as))(k := None)"
proof (cases "entry_of m as k")
  case None
  have "skiplist_delete k l m = Inr (if as = [] then - 1 else - 2, l, m)"
  proof (cases "as = []")
    case False
    have "ky m (spot (header l) (rest m k as)) \<noteq> k" using key_place(2) [OF rep None] rep k by (auto simp: spot_def sk_rep_def split: list.splits)
    then show ?thesis using find_place_ok [OF rep less_imp_le [OF k]] rep False by (simp add: skiplist_delete_def sk_rep_def)
  qed (use rep in \<open>simp add: skiplist_delete_def sk_rep_def\<close>)
  moreover have "map_of (table m as) = (map_of (table m as))(k := None)" using None by (auto simp: map_of_entry)
  ultimately show ?thesis using rep val by blast
next
  case (Some x)
  obtain pre post l' m' where 1: "as = pre @ x # post" "skiplist_delete k l m = Inr (0, l', m')" "sk_rep m' l' (pre @ post)" "header l' = header l"
    "\<forall>a \<in> set (pre @ post). core (nd m' a) = core (nd m a)" using skiplist_delete_entry [OF rep k Some] by blast
  have kx: "ky m x = k" using Some by (auto simp: entry_of_def find_Some_iff)
  have t: "table m' (pre @ post) = table m pre @ table m post" using 1(5) table_cong [of "pre @ post" m' m] by simp
  have "sorted_wrt (<) (map (ky m) (pre @ x # post))" using rep 1(1) by (simp add: sk_rep_def)
  then have "\<forall>a \<in> set (pre @ post). ky m a \<noteq> k" using kx by (auto simp: sorted_wrt_append)
  then have "k \<notin> fst ` set (table m pre @ table m post)" using key_notin_table [of "pre @ post" m k] by simp
  then have "map_of (table m' (pre @ post)) = (map_of (table m as))(k := None)" unfolding t unfolding 1(1)
    using map_of_remove [of k "table m pre" "table m post" "info (nd m x)"] kx by (simp del: map_of_append)
  moreover have "valued (table m' (pre @ post))" using val unfolding t unfolding 1(1) by (auto simp: valued_def)
  ultimately show ?thesis using 1 by blast
qed

definition pop_map :: "(str_key \<rightharpoonup> 'a) \<Rightarrow> (str_key \<rightharpoonup> 'a)" where
  "pop_map M = (if dom M = {} then M else M(Min (dom M) := None))"

lemma skiplist_pop_map:
  assumes rep: "sk_rep m l as" and val: "valued (table m as)"
  shows "\<exists>x l' m' as'. skiplist_pop l m = Inr (x, l', m') \<and> sk_rep m' l' as' \<and> header l' = header l \<and>
    valued (table m' as') \<and> map_of (table m' as') = pop_map (map_of (table m as))"
proof (cases as)
  case Nil
  then have "skiplist_pop l m = Inr (None, l, m)" using rep by (simp add: skiplist_pop_def sk_rep_def)
  moreover have "pop_map (map_of (table m as)) = map_of (table m as)" using Nil by (simp add: pop_map_def table_def)
  ultimately show ?thesis using rep val by metis
next
  case (Cons x post)
  obtain l' m' where 1: "skiplist_pop l m = Inr (Some x, l', m')" "sk_rep m' l' post" "header l' = header l"
    "\<forall>a \<in> set post. core (nd m' a) = core (nd m a)" using skiplist_pop_first [of m l x post] rep Cons by auto
  have t: "table m' post = table m post" using 1(4) by (intro table_cong) simp
  have s: "\<forall>a \<in> set post. ky m x < ky m a" using rep Cons by (simp add: sk_rep_def)
  have dm: "dom (map_of (table m as)) = insert (ky m x) (ky m ` set post)" unfolding dom_map_of_conv_image_fst Cons by (simp add: table_def image_image)
  have "Min (dom (map_of (table m as))) = ky m x" unfolding dm using s by (intro Min_eqI) auto
  moreover have "ky m x \<notin> fst ` set ([] @ table m post)" unfolding append_Nil by (intro key_notin_table) (use s in auto)
  ultimately have "map_of (table m' post) = pop_map (map_of (table m as))" unfolding t
    using map_of_remove [of "ky m x" "[]" "table m post" "info (nd m x)"] dm Cons by (simp add: pop_map_def)
  moreover have "valued (table m' post)" using val unfolding t Cons by (simp add: valued_def)
  ultimately show ?thesis using 1 by blast
qed

text \<open>Any sequence of operations on the table, and what it does to the map.\<close>

datatype sk_op = Sk_put str_key sval bool | Sk_del str_key | Sk_pop | Sk_clear

fun op_ok :: "sk_op \<Rightarrow> bool" where
  "op_ok (Sk_put k v d) \<longleftrightarrow> k < key_max"
| "op_ok (Sk_del k) \<longleftrightarrow> k < key_max"
| "op_ok _ \<longleftrightarrow> True"

definition sk_step :: "(nat \<Rightarrow> nat) \<Rightarrow> sk_op \<Rightarrow> skiplist \<times> sk_heap \<Rightarrow> (skiplist \<times> sk_heap) res" where
  "sk_step rnd op = (\<lambda>(l, m).
     case op of
       Sk_put k v d \<Rightarrow> bindE (skiplist_insert rnd k (Some v) d l m) (\<lambda>(_, l1, m1). Inr (l1, m1))
     | Sk_del k \<Rightarrow> bindE (skiplist_delete k l m) (\<lambda>(_, l1, m1). Inr (l1, m1))
     | Sk_pop \<Rightarrow> bindE (skiplist_pop l m) (\<lambda>(_, l1, m1). Inr (l1, m1))
     | Sk_clear \<Rightarrow> skiplist_clear l m)"

fun spec_step :: "sk_op \<Rightarrow> (str_key \<rightharpoonup> nat \<times> sval option \<times> bool) \<Rightarrow> (str_key \<rightharpoonup> nat \<times> sval option \<times> bool)" where
  "spec_step (Sk_put k v d) M = put_map k v d M"
| "spec_step (Sk_del k) M = M(k := None)"
| "spec_step Sk_pop M = pop_map M"
| "spec_step Sk_clear M = Map.empty"

definition sk_inv :: "(str_key \<rightharpoonup> nat \<times> sval option \<times> bool) \<Rightarrow> skiplist \<times> sk_heap \<Rightarrow> bool" where
  "sk_inv M = (\<lambda>(l, m). \<exists>as. sk_rep m l as \<and> valued (table m as) \<and> map_of (table m as) = M)"

lemma sk_step_inv:
  assumes inv: "sk_inv M s" and ok: "op_ok op"
  shows "\<exists>s'. sk_step rnd op s = Inr s' \<and> sk_inv (spec_step op M) s'"
proof -
  obtain l m where s: "s = (l, m)" by fastforce
  obtain as where as: "sk_rep m l as" "valued (table m as)" "map_of (table m as) = M" using inv s by (auto simp: sk_inv_def)
  show ?thesis
  proof (cases op)
    case (Sk_put k v d)
    then obtain x l' m' as' where "skiplist_insert rnd k (Some v) d l m = Inr (x, l', m')" "sk_rep m' l' as'" "valued (table m' as')"
      "map_of (table m' as') = put_map k v d M" using skiplist_insert_map [OF as(1,2), of k rnd v d] ok as(3) by auto
    then show ?thesis using Sk_put s by (auto simp: sk_step_def sk_inv_def)
  next
    case (Sk_del k)
    then obtain x l' m' as' where "skiplist_delete k l m = Inr (x, l', m')" "sk_rep m' l' as'" "valued (table m' as')"
      "map_of (table m' as') = M(k := None)" using skiplist_delete_map [OF as(1,2), of k] ok as(3) by auto
    then show ?thesis using Sk_del s by (auto simp: sk_step_def sk_inv_def)
  next
    case Sk_pop
    obtain x l' m' as' where "skiplist_pop l m = Inr (x, l', m')" "sk_rep m' l' as'" "valued (table m' as')"
      "map_of (table m' as') = pop_map M" using skiplist_pop_map [OF as(1,2)] as(3) by auto
    then show ?thesis using Sk_pop s by (auto simp: sk_step_def sk_inv_def)
  next
    case Sk_clear
    obtain l' m' where "skiplist_clear l m = Inr (l', m')" "sk_rep m' l' []" using skiplist_clear_ok [OF as(1)] by blast
    then show ?thesis using Sk_clear s by (auto simp: sk_step_def sk_inv_def valued_def table_def intro!: exI [of _ "[]"])
  qed
qed

lemma sk_run_inv:
  assumes "\<forall>op \<in> set ops. op_ok op" and "sk_inv M s"
  shows "\<exists>s'. foldE (sk_step rnd) ops s = Inr s' \<and> sk_inv (fold spec_step ops M) s'"
  using assms
proof (induction ops arbitrary: M s)
  case (Cons op ops)
  obtain s1 where "sk_step rnd op s = Inr s1" "sk_inv (spec_step op M) s1" using sk_step_inv [OF Cons.prems(2), of op rnd] Cons.prems(1) by auto
  then show ?case using Cons.IH [of "spec_step op M" s1] Cons.prems(1) by simp
qed simp

lemma sk_init_inv:
  assumes "\<forall>a. sn_mem m a \<noteq> None \<longrightarrow> a < sn_fresh m"
  shows "sk_inv Map.empty (skiplist_init ds m)"
  using skiplist_init_rep [OF assms, of ds] by (auto simp: sk_inv_def valued_def table_def split: prod.splits intro!: exI [of _ "[]"])

text \<open>
  C16: The in-memory table of the LSM tree is a sorted map. After any sequence of insertions, deletions, removals of
  the first entry and clearings, starting with a new table, and whatever random numbers decide the levels, no
  operation fails and every loop ends; \<open>skiplist_find\<close> returns, for every key, the node that holds exactly the value
  and flag last inserted for it, or nothing if the key is not there; and the traversal \<open>for_each_sk\<close> visits the
  keys that are there, each once, in ascending order.
\<close>

theorem skiplist_is_sorted_map:
  assumes "\<forall>a. sn_mem m a \<noteq> None \<longrightarrow> a < sn_fresh m" and "\<forall>op \<in> set ops. op_ok op"
  shows "\<exists>l' m' as. foldE (sk_step rnd) ops (skiplist_init ds m) = Inr (l', m') \<and>
    (\<forall>k < key_max. \<exists>r. skiplist_find (Some l') k m' = Inr r \<and> map_option (\<lambda>a. info (nd m' a)) r = fold spec_step ops Map.empty k) \<and>
    bindE (get_next m' 1 (header l')) (for_each_sk (sk_size l' + 1) m' (header l')) = Inr as \<and>
    sorted_wrt (<) (map (ky m') as) \<and> set (map (ky m') as) = dom (fold spec_step ops Map.empty)"
proof -
  obtain l' m' as where run: "foldE (sk_step rnd) ops (skiplist_init ds m) = Inr (l', m')" and rep: "sk_rep m' l' as"
    and M: "map_of (table m' as) = fold spec_step ops Map.empty"
    using sk_run_inv [OF assms(2) sk_init_inv [OF assms(1)], of rnd ds] by (auto simp: sk_inv_def)
  have each: "bindE (get_next m' 1 (header l')) (for_each_sk (sk_size l' + 1) m' (header l')) = Inr as"
    by (rule for_each_rep [OF rep])
  have find: "\<exists>r. skiplist_find (Some l') k m' = Inr r \<and> map_option (\<lambda>a. info (nd m' a)) r = fold spec_step ops Map.empty k" if "k < key_max" for k
    using skiplist_find_entry [OF rep that] map_of_entry [of m' as k] M by simp
  have "set (map (ky m') as) = dom (fold spec_step ops Map.empty)" using M dom_table [of m' as] by simp
  moreover have "sorted_wrt (<) (map (ky m') as)" using rep by (simp add: sk_rep_def)
  ultimately show ?thesis using run each find by blast
qed

lemma key_max_Cons: "key_max = Str_Key (255 # replicate 254 255)"
proof -
  have "replicate (Suc 254) (255 :: u8) = 255 # replicate 254 255" by (rule replicate_Suc)
  then show ?thesis by (simp add: key_max_def MAXKEYSIZE_def del: replicate_Suc)
qed

lemma small_key: "Str_Key [1] < key_max" "Str_Key [2] < key_max"
  unfolding KEYCMP_less [symmetric] key_max_Cons by (simp_all add: KEYCMP_def)

theorem skiplist_is_sorted_map_witness:
  "\<exists>l' m' r. foldE (sk_step (\<lambda>i. i)) [Sk_put (Str_Key [1]) \<lparr>sv_len = 600, sv_buf = 7\<rparr> True, Sk_put (Str_Key [2]) \<lparr>sv_len = 512, sv_buf = 8\<rparr> True,
      Sk_put (Str_Key [1]) \<lparr>sv_len = 513, sv_buf = 9\<rparr> False, Sk_del (Str_Key [2])] (skiplist_init 0 \<lparr>sn_mem = Map.empty, sn_fresh = 1, rand_pos = 0\<rparr>) = Inr (l', m') \<and>
    skiplist_find (Some l') (Str_Key [1]) m' = Inr r \<and> map_option (\<lambda>a. info (nd m' a)) r = Some (UINT_MAX, Some \<lparr>sv_len = 2, sv_buf = 9\<rparr>, False) \<and>
    skiplist_find (Some l') (Str_Key [2]) m' = Inr None"
proof -
  let ?m = "\<lparr>sn_mem = Map.empty, sn_fresh = 1, rand_pos = 0\<rparr>"
  let ?ops = "[Sk_put (Str_Key [1]) \<lparr>sv_len = 600, sv_buf = 7\<rparr> True, Sk_put (Str_Key [2]) \<lparr>sv_len = 512, sv_buf = 8\<rparr> True,
      Sk_put (Str_Key [1]) \<lparr>sv_len = 513, sv_buf = 9\<rparr> False, Sk_del (Str_Key [2])]"
  have "\<forall>op \<in> set ?ops. op_ok op" by (simp add: small_key)
  then obtain l' m' where 1: "foldE (sk_step (\<lambda>i. i)) ?ops (skiplist_init 0 ?m) = Inr (l', m')"
    and 2: "\<forall>k < key_max. \<exists>r. skiplist_find (Some l') k m' = Inr r \<and> map_option (\<lambda>a. info (nd m' a)) r = fold spec_step ?ops Map.empty k"
    using skiplist_is_sorted_map [of ?m ?ops "\<lambda>i. i" 0] by auto
  have "fold spec_step ?ops Map.empty (Str_Key [1]) = Some (UINT_MAX, Some \<lparr>sv_len = 2, sv_buf = 9\<rparr>, False)" "fold spec_step ?ops Map.empty (Str_Key [2]) = None"
    by (simp_all add: put_map_def pieces_def PIECE_def)
  then show ?thesis using 1 2 [rule_format, OF small_key(1)] 2 [rule_format, OF small_key(2)] by auto
qed

text \<open>
  C17: The searches of the table by order. After any sequence of operations as above, on a table that is not empty and
  for any key below the largest one, \<open>skiplist_find_lowerbound\<close> returns the first entry of the traversal whose key is
  not below the key, and the header if there is none; \<open>skiplist_range_search\<close> and \<open>skiplist_strict_range_search\<close>
  return the last entry whose key is not above it, and the first entry of the table if there is none.
\<close>

theorem skiplist_ordered_searches:
  assumes "\<forall>a. sn_mem m a \<noteq> None \<longrightarrow> a < sn_fresh m" and "\<forall>op \<in> set ops. op_ok op"
  shows "\<exists>l' m' as. foldE (sk_step rnd) ops (skiplist_init ds m) = Inr (l', m') \<and>
    bindE (get_next m' 1 (header l')) (for_each_sk (sk_size l' + 1) m' (header l')) = Inr as \<and>
    set (map (ky m') as) = dom (fold spec_step ops Map.empty) \<and> sorted_wrt (<) (map (ky m') as) \<and>
    (\<forall>k < key_max. as \<noteq> [] \<longrightarrow>
       skiplist_find_lowerbound (Some l') k m' = Inr (Some (case filter (\<lambda>a. k \<le> ky m' a) as of [] \<Rightarrow> header l' | a # _ \<Rightarrow> a)) \<and>
       (let le = filter (\<lambda>a. ky m' a \<le> k) as; r = Inr (Some (if le = [] then hd as else last le))
        in skiplist_range_search l' k m' = r \<and> skiplist_strict_range_search l' k m' = r))"
proof -
  obtain l' m' as where run: "foldE (sk_step rnd) ops (skiplist_init ds m) = Inr (l', m')" and rep: "sk_rep m' l' as"
    and M: "map_of (table m' as) = fold spec_step ops Map.empty"
    using sk_run_inv [OF assms(2) sk_init_inv [OF assms(1)], of rnd ds] by (auto simp: sk_inv_def)
  note lower = skiplist_find_lowerbound_ok [OF rep, unfolded spot_def]
  have "skiplist_find_lowerbound (Some l') k m' = Inr (Some (case filter (\<lambda>a. k \<le> ky m' a) as of [] \<Rightarrow> header l' | a # _ \<Rightarrow> a)) \<and>
      (let le = filter (\<lambda>a. ky m' a \<le> k) as; r = Inr (Some (if le = [] then hd as else last le))
       in skiplist_range_search l' k m' = r \<and> skiplist_strict_range_search l' k m' = r)" if "k < key_max" "as \<noteq> []" for k
    using lower [of k] skiplist_range_search_ok [OF rep that] that unfolding Let_def by auto
  moreover have "set (map (ky m') as) = dom (fold spec_step ops Map.empty)" using M dom_table [of m' as] by simp
  moreover have "sorted_wrt (<) (map (ky m') as)" using rep by (simp add: sk_rep_def)
  ultimately show ?thesis using run for_each_rep [OF rep] by blast
qed

theorem skiplist_ordered_searches_witness:
  "\<exists>l' m' a. foldE (sk_step (\<lambda>i. i)) [Sk_put (Str_Key [2]) \<lparr>sv_len = 600, sv_buf = 7\<rparr> True] (skiplist_init 0 \<lparr>sn_mem = Map.empty, sn_fresh = 1, rand_pos = 0\<rparr>) = Inr (l', m') \<and>
    bindE (get_next m' 1 (header l')) (for_each_sk (sk_size l' + 1) m' (header l')) = Inr [a] \<and> ky m' a = Str_Key [2] \<and>
    skiplist_find_lowerbound (Some l') (Str_Key [1]) m' = Inr (Some a) \<and> skiplist_range_search l' (Str_Key [2]) m' = Inr (Some a)"
proof -
  let ?m = "\<lparr>sn_mem = Map.empty, sn_fresh = 1, rand_pos = 0\<rparr>" let ?ops = "[Sk_put (Str_Key [2]) \<lparr>sv_len = 600, sv_buf = 7\<rparr> True]"
  have ok: "\<forall>op \<in> set ?ops. op_ok op" by (simp add: small_key)
  obtain l' m' as where 1: "foldE (sk_step (\<lambda>i. i)) ?ops (skiplist_init 0 ?m) = Inr (l', m')"
    "bindE (get_next m' 1 (header l')) (for_each_sk (sk_size l' + 1) m' (header l')) = Inr as"
    "set (map (ky m') as) = dom (fold spec_step ?ops Map.empty)" "sorted_wrt (<) (map (ky m') as)" and 2: "\<forall>k < key_max. as \<noteq> [] \<longrightarrow>
       skiplist_find_lowerbound (Some l') k m' = Inr (Some (case filter (\<lambda>a. k \<le> ky m' a) as of [] \<Rightarrow> header l' | a # _ \<Rightarrow> a)) \<and>
       (let le = filter (\<lambda>a. ky m' a \<le> k) as; r = Inr (Some (if le = [] then hd as else last le))
        in skiplist_range_search l' k m' = r \<and> skiplist_strict_range_search l' k m' = r)"
    using skiplist_ordered_searches [OF _ ok, of ?m "\<lambda>i. i" 0] by auto
  have "ky m' ` set as = {Str_Key [2]}" using 1(3) by (simp add: put_map_def)
  then obtain a where a: "as = [a]" "ky m' a = Str_Key [2]" using 1(4) by (cases as; cases "tl as") auto
  have "Str_Key [1] \<le> Str_Key [2]" by (simp add: less_eq_str_key_def KEYCMP_def)
  then show ?thesis using 1(1,2) a 2 [rule_format, OF small_key(1)] 2 [rule_format, OF small_key(2)] by (auto simp: Let_def simp del: for_each_sk.simps)
qed

subsection \<open>Entries that are on flash\<close>

text \<open>The table \<open>s\<close> holds exactly the map \<open>M\<close>.\<close>

definition sk_holds :: "(str_key \<rightharpoonup> nat \<times> sval option \<times> bool) \<Rightarrow> skiplist \<Rightarrow> sk_heap \<Rightarrow> bool" where
  "sk_holds M l m \<longleftrightarrow> (\<exists>as. sk_rep m l as \<and> map_of (table m as) = M)"

lemma sk_holds_cases:
  assumes "sk_holds M l m" and k: "k < key_max"
  obtains (new) as where "sk_rep m l as" "map_of (table m as) = M" "entry_of m as k = None" "M k = None"
  | (old) as x where "sk_rep m l as" "map_of (table m as) = M" "entry_of m as k = Some x" "M k = Some (info (nd m x))"
proof -
  obtain as where as: "sk_rep m l as" "map_of (table m as) = M" using assms(1) by (auto simp: sk_holds_def)
  then show thesis using that map_of_entry [of m as k] by (cases "entry_of m as k") auto
qed

text \<open>
  C18: Insertions of entries that are on flash, into a table that holds the map \<open>M\<close>, for a key below the largest one. A
  new key gets its entry, without a value in memory, by any of the three operations. For a key that is there
  \<open>skiplist_insert_wP\<close> aborts; \<open>skiplist_insert_existIgnore\<close> replaces address and flag, keeps the value and hands
  exactly the replaced address to \<open>invalidate_PPA\<close>, and aborts if the address is the same; \<open>skiplist_insert_iter\<close>
  replaces the address only. The comment of \<open>skiplist_insert_existIgnore\<close> in \<open>skiplist.h\<close> says that the input is ignored
  for a key that is there: the code replaces the entry.
\<close>

theorem skiplist_flash_inserts:
  assumes "sk_holds M l m" and "k < key_max"
  shows "case M k of
      None \<Rightarrow>
        (\<exists>x l' m'. skiplist_insert_wP rnd k ppa d l m = Inr (x, l', m') \<and> sk_holds (M(k \<mapsto> (ppa, None, d))) l' m') \<and>
        (\<exists>x l' m'. skiplist_insert_existIgnore rnd k ppa d l m = Inr (x, l', m', None) \<and> sk_holds (M(k \<mapsto> (ppa, None, d))) l' m') \<and>
        (\<exists>x l' m'. skiplist_insert_iter rnd d k ppa l m = Inr (x, l', m') \<and> sk_holds (M(k \<mapsto> (ppa, None, d))) l' m')
    | Some (p, v, e) \<Rightarrow>
        skiplist_insert_wP rnd k ppa d l m = Inl Abort \<and>
        (if p = ppa then skiplist_insert_existIgnore rnd k ppa d l m = Inl Abort
         else \<exists>x l' m'. skiplist_insert_existIgnore rnd k ppa d l m = Inr (x, l', m', Some p) \<and> sk_holds (M(k \<mapsto> (ppa, v, d))) l' m') \<and>
        (\<exists>x l' m'. skiplist_insert_iter rnd d k ppa l m = Inr (x, l', m') \<and> sk_holds (M(k \<mapsto> (ppa, v, e))) l' m')"
  using assms
proof (cases rule: sk_holds_cases)
  case (new as)
  have 1: "\<exists>x l' m'. skiplist_insert_wP rnd k ppa d l m = Inr (x, l', m') \<and> sk_holds (M(k \<mapsto> (ppa, None, d))) l' m'"
    "\<exists>x l' m'. skiplist_insert_existIgnore rnd k ppa d l m = Inr (x, l', m', None) \<and> sk_holds (M(k \<mapsto> (ppa, None, d))) l' m'"
    using new_entry [OF new(1) assms(2) new(3), of rnd ppa None d "KEYLEN k"] new(2)
    by (auto simp: skiplist_insert_wP_def skiplist_insert_existIgnore_def KEYTEST_eq sk_holds_def)
  have "\<exists>x l' m'. skiplist_insert_iter rnd d k ppa l m = Inr (x, l', m') \<and> sk_holds (M(k \<mapsto> (ppa, None, d))) l' m'"
    using new_entry [OF new(1) assms(2) new(3), of rnd ppa None d "key_len k"] new(2) by (auto simp: skiplist_insert_iter_def KEYTEST_eq sk_holds_def)
  then show ?thesis using new(4) 1 by simp
next
  case (old as x)
  have 1: "skiplist_insert_wP rnd k ppa d l m = Inl Abort" "sn_ppa (nd m x) = ppa \<Longrightarrow> skiplist_insert_existIgnore rnd k ppa d l m = Inl Abort"
    using old_entry [OF old(1) assms(2) old(3), of "\<lambda>n. n"] by (auto simp: skiplist_insert_wP_def skiplist_insert_existIgnore_def KEYTEST_eq)
  have 2: "\<exists>x' l' m'. skiplist_insert_existIgnore rnd k ppa d l m = Inr (x', l', m', Some (sn_ppa (nd m x))) \<and>
      sk_holds (M(k \<mapsto> (ppa, sn_value (nd m x), d))) l' m'" if "sn_ppa (nd m x) \<noteq> ppa"
    using old_entry [OF old(1) assms(2) old(3), of "\<lambda>n. n\<lparr>sn_ppa := ppa, sn_isvalid := d\<rparr>"] old(2) that
    by (auto simp: skiplist_insert_existIgnore_def KEYTEST_eq sk_holds_def info_def)
  have "\<exists>x' l' m'. skiplist_insert_iter rnd d k ppa l m = Inr (x', l', m') \<and> sk_holds (M(k \<mapsto> (ppa, sn_value (nd m x), sn_isvalid (nd m x)))) l' m'"
    using old_entry [OF old(1) assms(2) old(3), of "\<lambda>n. n\<lparr>sn_ppa := ppa\<rparr>"] old(2) by (auto simp: skiplist_insert_iter_def KEYTEST_eq sk_holds_def info_def)
  then show ?thesis using old(4) 1 2 by (simp add: info_def)
qed

text \<open>An entry is made in a new table, and then its address is replaced.\<close>

theorem skiplist_flash_inserts_witness:
  "\<exists>l m. skiplist_init 0 \<lparr>sn_mem = Map.empty, sn_fresh = 1, rand_pos = 0\<rparr> = (l, m) \<and>
    (\<exists>x1 l1 m1. skiplist_insert_existIgnore (\<lambda>i. i) (Str_Key [1]) 5 True l m = Inr (x1, l1, m1, None) \<and>
       skiplist_insert_wP (\<lambda>i. i) (Str_Key [1]) 6 True l1 m1 = Inl Abort \<and>
       (\<exists>x2 l2 m2. skiplist_insert_existIgnore (\<lambda>i. i) (Str_Key [1]) 6 False l1 m1 = Inr (x2, l2, m2, Some 5) \<and>
          sk_holds [Str_Key [1] \<mapsto> (6, None, False)] l2 m2))"
proof -
  let ?m = "\<lparr>sn_mem = Map.empty, sn_fresh = 1, rand_pos = 0\<rparr>"
  obtain l m where 0: "skiplist_init 0 ?m = (l, m)" by fastforce
  have "sk_rep m l []" by (rule skiplist_init_rep [OF _ 0]) simp
  then have h: "sk_holds Map.empty l m" by (auto simp: sk_holds_def table_def intro!: exI [of _ "[]"])
  obtain x1 l1 m1 where 1: "skiplist_insert_existIgnore (\<lambda>i. i) (Str_Key [1]) 5 True l m = Inr (x1, l1, m1, None)" "sk_holds [Str_Key [1] \<mapsto> (5, None, True)] l1 m1"
    using skiplist_flash_inserts [OF h small_key(1), of "\<lambda>i. i" 5 True] by auto
  then show ?thesis using 0 skiplist_flash_inserts [OF 1(2) small_key(1), of "\<lambda>i. i" 6 True] skiplist_flash_inserts [OF 1(2) small_key(1), of "\<lambda>i. i" 6 False]
    by auto
qed

end
