(* ===== verification/Spec2Isabelle.thy ===== *)
theory Spec2Isabelle
  imports Linked_List Lru_List Bm_Pages Sha256 Bloom_Filter Hash_Kv Pipe_Merge Prior_Queue Abm Page_Gc Pt_Bm Skiplist
begin

text \<open>
  FlashDriver is a user-level flash translation layer (FTL): requests enter through an interface,
  an FTL algorithm maps logical to physical pages, a block manager hands out and collects flash
  blocks, and a lower driver talks to the device or simulates it. The library models its
  components bottom up, one theory per component:

  \<^item> \<open>FD_Prelude\<close>: results of fallible code (\<open>err\<close>: an \<open>abort\<close> or failed assertion, an access outside
    an object, a busy wait no one ends), bounded loops, integers and the geometry of the device
    (\<^verbatim>\<open>include/settings.h\<close>). \<open>Heap_Lists\<close>: linked lists in an explicit store.
  \<^item> \<open>FD_Queue\<close> (\<^verbatim>\<open>interface/queue.c\<close>), \<open>Lru_List\<close> (\<^verbatim>\<open>include/data_struct/lru_list.c\<close>), \<open>Linked_List\<close>
    (\<^verbatim>\<open>include/data_struct/list.c\<close>), \<open>Max_Heap\<close> (\<^verbatim>\<open>include/data_struct/heap.c\<close>): the containers. Nodes live in
    a map from addresses to records; an invariant describes the well-formed stores, an abstraction
    maps them to lists or multisets, and every operation refines its abstract counterpart. The
    contracts \<open>bounded_fifo\<close>, \<open>recency_list\<close>, \<open>append_list\<close> and \<open>max_pool\<close> are what their clients use.
  \<^item> \<open>Bb_Checker\<close> (\<^verbatim>\<open>blockmanager/bb_checker.c\<close>, \<^verbatim>\<open>lower/bdbm_drv/bdbm_inf.c\<close>): the bad-block table and the
    address translation of the BlueDBM driver. The device is a parameter that answers the requests of start-up;
    when its bad segments leave the middle of the device free no two logical pages share a physical one,
    and without that the pairing can go wrong.
  \<^item> \<open>Base_Bm\<close>, \<open>Bm_Pages\<close> (\<^verbatim>\<open>blockmanager/base_block_manager.c\<close>): the block manager over the queue, the
    heap and the table; its state \<open>bbm_pri\<close>, its invariant \<open>bm_ok\<close>, the whole cycle of taking a
    segment, filling it page by page, choosing a victim and erasing it.
  \<^item> \<open>Pt_Bm\<close> (\<^verbatim>\<open>blockmanager/partition/pt_block_manager.c\<close>): the block manager with one partition for the mapping
    and one for the data. Its states are an inductive reachability relation that also records which blocks a
    client has been given; the partitions never mix, and the target of a collection is the best segment.
  \<^item> \<open>Posix_Mem\<close> (\<^verbatim>\<open>lower/posix_memory/posix.c\<close>): the in-memory device as a store of pages. \<open>Pipe_Lower\<close>
    (\<^verbatim>\<open>lower/posix_memory/pipe_lower.c\<close>): the pages of sorted keys of its accelerator, down to the bytes; what
    the writer stores the reader returns, and the search of a page finds exactly its keys. \<open>Pipe_Merge\<close> (\<open>posix_hw_do_merge\<close>):
    the merge of two runs as a client of both, with the number of keys as fuel, which is proved to be enough.
  \<^item> \<open>Page_Ftl\<close>, \<open>Page_Gc\<close> (\<^verbatim>\<open>algorithm/Page_ftl\<close>): the page-mapped translation layer, composed with the block
    manager and the in-memory device from start-up to requests: reads return the last write as long as the
    collector is not needed, and the collector loses the pages it moves.
  \<^item> \<open>Str_Key\<close> (\<open>KEYT\<close> of \<^verbatim>\<open>include/settings.h\<close>), \<open>Hash_Kv\<close> (\<^verbatim>\<open>include/data_struct/hash_kv.c\<close>), \<open>Bloom_Filter\<close>
    (\<^verbatim>\<open>algorithm/Lsmtree/bloomfilter.c\<close>) and \<open>Sha256\<close> (\<^verbatim>\<open>include/utils/sha256.c\<close>): the keys of the
    key-value FTLs, their order, the tables and filters indexed by them and the digest.
  \<^item> \<open>Skiplist\<close> (\<^verbatim>\<open>algorithm/Lsmtree/skiplist.c\<close>): the table an LSM tree keeps in memory. One list of nodes
    in a store represents it, and the pointers of every level are the list of the nodes that reach the level;
    for any random levels it is a map, sorted in its traversal. The walk on a level and the traversal take the
    number of nodes plus one as fuel, which is proved to be enough.
  \<^item> \<open>List_Head\<close> (\<^verbatim>\<open>common/3rd/ulist.h\<close> below \<^verbatim>\<open>lower/bdbm_drv\<close>), \<open>Bdbm_Queue\<close>, \<open>Prior_Queue\<close>
    (\<^verbatim>\<open>ftl/queue/queue.c\<close>, \<^verbatim>\<open>prior_queue.c\<close>) and \<open>Abm\<close> (\<^verbatim>\<open>ftl/algo/abm.c\<close>): the library of the BlueDBM
    driver. The circular lists are two pointer maps and the other three are clients of the contract
    \<open>element_lists\<close>: queues of requests, queues that keep the requests of a logical page in order, and
    the block manager, which keeps every block in the list of its status and counts them.

  Loops whose number of rounds the code fixes are folds over the index range. The loops of the
  containers are total functions with a measure. \<open>list_free\<close> takes the size of the list as fuel,
  and is proved to end within it; a walk over a circular list takes a bound above the number of its
  elements, and is proved to stay below it.

  Not modelled: printing and measurement, the device behind the lower driver's library calls
  (a parameter), sockets and the NBD front ends, and the components the manifest lists as such.
\<close>

end
